(* ===== verification/Prelude.thy ===== *)
theory Prelude
  imports Main "HOL-Library.Word" "HOL-Library.Monad_Syntax"
begin

unbundle bit_operations_syntax

text \<open>
  Shared vocabulary of the development: the machine integer types of the 32-bit little-endian
  ARM target, the object memory every C pointer of the program refers to, its typed loads and
  stores, the byte-order macros of include/linux/byteorder, and the generic lemmas and fact
  collections the component theories use.

  A C pointer is a pair of the object it points into and a byte offset; a memory maps such
  pointers to bytes.  Two pointers into different objects never alias, two pointers into the
  same object alias exactly when the offsets meet, so in-place edits of a receive buffer and the
  pointer variables of the ARP code keep their meaning.  Code that only reads a C string sees
  it through a view, the function that gives the byte at each index.
\<close>

type_synonym u8 = "8 word"
type_synonym u16 = "16 word"
type_synonym u32 = "32 word"
type_synonym u64 = "64 word"

type_synonym 'b ptr = "'b \<times> nat"
type_synonym 'b mem = "'b \<times> nat \<Rightarrow> u8"
type_synonym cview = "nat \<Rightarrow> u8"

named_theorems mem_simps
  \<open>rewriting of loads after stores\<close>

named_theorems frame_simps
  \<open>which fields of a component's state an operation leaves alone\<close>

section \<open>Pointers, loads and stores\<close>

definition padd :: "'b ptr \<Rightarrow> nat \<Rightarrow> 'b ptr" where
  "padd p n = (fst p, snd p + n)"

definition ld16 :: "'b mem \<Rightarrow> 'b ptr \<Rightarrow> u16" where
  "ld16 m p = ucast (m p) OR push_bit 8 (ucast (m (padd p 1)))"

definition ld32 :: "'b mem \<Rightarrow> 'b ptr \<Rightarrow> u32" where
  "ld32 m p = ucast (ld16 m p) OR push_bit 16 (ucast (ld16 m (padd p 2)))"

definition st8 :: "'b mem \<Rightarrow> 'b ptr \<Rightarrow> u8 \<Rightarrow> 'b mem" where
  "st8 m p v = m(p := v)"

definition st16 :: "'b mem \<Rightarrow> 'b ptr \<Rightarrow> u16 \<Rightarrow> 'b mem" where
  "st16 m p v = st8 (st8 m p (ucast v)) (padd p 1) (ucast (drop_bit 8 v))"

definition st32 :: "'b mem \<Rightarrow> 'b ptr \<Rightarrow> u32 \<Rightarrow> 'b mem" where
  "st32 m p v = st16 (st16 m p (ucast v)) (padd p 2) (ucast (drop_bit 16 v))"

text \<open>The bytes of an object from a pointer on, and the view a string function has of it.\<close>

definition bytes :: "'b mem \<Rightarrow> 'b ptr \<Rightarrow> nat \<Rightarrow> u8 list" where
  "bytes m p n = map (\<lambda>i. m (padd p i)) [0..<n]"

definition view :: "'b mem \<Rightarrow> 'b ptr \<Rightarrow> cview" where
  "view m p i = m (padd p i)"

text \<open>Storing a list of bytes, and a string literal as the view of its character array.\<close>

fun st_list :: "'b mem \<Rightarrow> 'b ptr \<Rightarrow> u8 list \<Rightarrow> 'b mem" where
  "st_list m p [] = m"
| "st_list m p (x # xs) = st_list (st8 m p x) (padd p 1) xs"

definition str_bytes :: "string \<Rightarrow> u8 list" where
  "str_bytes s = map of_char s"

definition lit :: "string \<Rightarrow> cview" where
  "lit s i = (if i < length s then of_char (s ! i) else 0)"

lemma padd_simps [simp]:
  "padd p 0 = p" "padd (padd p a) b = padd p (a + b)" "padd (obj, i) j = (obj, i + j)"
  "fst (padd p n) = fst p" "snd (padd p n) = snd p + n"
  by (simp_all add: padd_def add.assoc)

lemma padd_eq_iff [simp]: "padd p i = padd p j \<longleftrightarrow> i = j"
  by (simp add: padd_def)

lemma padd_self_iff [simp]: "padd p i = p \<longleftrightarrow> i = 0" "p = padd p i \<longleftrightarrow> i = 0"
  by (auto simp: padd_def prod_eq_iff)

lemma view_apply [simp]: "view m p i = m (padd p i)"
  by (simp add: view_def)

lemma length_bytes [simp]: "length (bytes m p n) = n"
  by (simp add: bytes_def)

lemma nth_bytes [simp]: "i < n \<Longrightarrow> bytes m p n ! i = m (padd p i)"
  by (simp add: bytes_def)

lemma bytes_cong: "(\<And>i. i < n \<Longrightarrow> m (padd p i) = m' (padd p' i)) \<Longrightarrow> bytes m p n = bytes m' p' n"
  by (simp add: bytes_def)

lemma bytes_elsewhere:
  assumes "\<And>q. fst q \<noteq> B \<Longrightarrow> m q = m' q" "fst p \<noteq> B"
  shows "bytes m p n = bytes m' p n"
  by (rule bytes_cong, rule assms(1)) (simp add: padd_def assms(2))

lemma bytes_add: "bytes m p (a + b) = bytes m p a @ bytes m (padd p a) b"
  by (rule nth_equalityI) (auto simp: nth_append)

lemma st8_apply: "st8 m p v q = (if q = p then v else m q)"
  by (simp add: st8_def)

lemma st8_same [simp, mem_simps]: "st8 m p v p = v"
  by (simp add: st8_def)

lemma st8_other [mem_simps]: "q \<noteq> p \<Longrightarrow> st8 m p v q = m q"
  by (simp add: st8_def)

lemma ld32_cong: "(\<And>j. j < 4 \<Longrightarrow> m (padd p j) = m' (padd p j)) \<Longrightarrow> ld32 m p = ld32 m' p"
proof -
  assume e: "\<And>j. j < 4 \<Longrightarrow> m (padd p j) = m' (padd p j)"
  then have "m p = m' p" using e [of 0] by simp
  then show ?thesis using e [of 1] e [of 2] e [of 3] by (simp add: ld32_def ld16_def)
qed

lemma st16_apply:
  "st16 m p v q = (if q = padd p 1 then ucast (drop_bit 8 v) else if q = p then ucast v else m q)"
  by (simp add: st16_def st8_apply)

lemma st16_outside: "q \<noteq> p \<Longrightarrow> q \<noteq> padd p 1 \<Longrightarrow> st16 m p v q = m q"
  by (simp add: st16_apply)

lemma ld16_st16 [simp, mem_simps]: "ld16 (st16 m p v) p = v"
  unfolding ld16_def st16_apply
  by (rule bit_word_eqI) (auto simp: bit_simps)

lemma ld16_st16_off [mem_simps]:
  "i \<noteq> j \<Longrightarrow> Suc i \<noteq> j \<Longrightarrow> i \<noteq> Suc j \<Longrightarrow> ld16 (st16 m (padd p j) v) (padd p i) = ld16 m (padd p i)"
  by (simp add: ld16_def st16_apply)

lemma ld32_st32 [simp, mem_simps]: "ld32 (st32 m p v) p = v"
proof -
  have lo: "ld16 (st32 m p v) p = ucast v"
    by (simp add: st32_def ld16_def st16_apply) (rule bit_word_eqI, auto simp: bit_simps)
  have hi: "ld16 (st32 m p v) (padd p 2) = ucast (drop_bit 16 v)"
    by (simp add: st32_def)
  show ?thesis
    unfolding ld32_def lo hi
    by (rule bit_word_eqI) (auto simp: bit_simps)
qed

lemma st32_apply:
  "st32 m p v q =
    (if q = padd p 3 then ucast (drop_bit 24 v) else if q = padd p 2 then ucast (drop_bit 16 v)
     else if q = padd p 1 then ucast (drop_bit 8 v) else if q = p then ucast v else m q)"
proof -
  have a: "(ucast (drop_bit 8 (ucast x :: u16)) :: u8) = ucast (drop_bit 8 x)" for x :: u32
    by (rule bit_word_eqI) (auto simp: bit_simps)
  have b: "(ucast (ucast x :: u16) :: u8) = ucast x" for x :: u32
    by (rule bit_word_eqI) (auto simp: bit_simps)
  show ?thesis
    by (simp add: st32_def st16_apply a b)
qed

lemma bytes_outside:
  "fst p \<noteq> fst q \<Longrightarrow> bytes (st8 m q v) p n = bytes m p n"
  "fst p \<noteq> fst q \<Longrightarrow> bytes (st16 m q w) p n = bytes m p n"
  "fst p \<noteq> fst q \<Longrightarrow> bytes (st32 m q x) p n = bytes m p n"
  by (auto intro!: bytes_cong simp: st8_apply st16_apply st32_apply padd_def)

lemma ld16_bytes: "ucast (ld16 m p) = m p" "ucast (drop_bit 8 (ld16 m p)) = m (padd p 1)"
proof -
  have b8: "bit x n \<Longrightarrow> n < 8" for x :: u8 and n
    using bit_imp_le_length [of x n] by simp
  show "ucast (ld16 m p) = m p" "ucast (drop_bit 8 (ld16 m p)) = m (padd p 1)"
    by (auto intro!: bit_word_eqI simp: ld16_def bit_simps dest: b8)
qed

lemma unat_ld16: "unat (ld16 m p) = unat (m p) + 256 * unat (m (padd p 1))"
proof -
  have "bit x n \<Longrightarrow> n < 8" for x :: u8 and n
    using bit_imp_le_length [of x n] by simp
  then have d: "ucast (m p) AND push_bit 8 (ucast (m (padd p 1)) :: u16) = 0"
    by (intro bit_word_eqI) (fastforce simp: bit_simps)
  have e: "ld16 m p = ucast (m p) + push_bit 8 (ucast (m (padd p 1)) :: u16)"
    using d by (simp add: ld16_def disjunctive_add_eq_or)
  have l: "unat (m q) < 256" for q
    using unsigned_less [of "m q"] by simp
  have "unat (m p) + unat (m (padd p 1)) * 256 < 65536"
    using l [of p] l [of "padd p 1"] by linarith
  then show ?thesis
    using l [of p] l [of "padd p 1"]
    by (simp add: e push_bit_eq_mult unat_word_ariths unsigned_ucast_eq take_bit_nat_eq_self mult.commute)
qed

lemma st_list_apply:
  "st_list m p xs (fst p, i) =
    (if snd p \<le> i \<and> i < snd p + length xs then xs ! (i - snd p) else m (fst p, i))"
proof (induction xs arbitrary: m p)
  case Nil
  then show ?case by auto
next
  case (Cons x xs)
  have "st_list m p (x # xs) (fst p, i) = st_list (st8 m p x) (padd p 1) xs (fst (padd p 1), i)"
    by simp
  also have "\<dots> = (if Suc (snd p) \<le> i \<and> i < Suc (snd p) + length xs then xs ! (i - Suc (snd p))
       else st8 m p x (fst p, i))"
    by (simp only: Cons.IH) simp
  also have "\<dots> = (if snd p \<le> i \<and> i < snd p + length (x # xs) then (x # xs) ! (i - snd p)
       else m (fst p, i))"
    by (auto simp: st8_apply nth_Cons' prod_eq_iff)
  finally show ?case .
qed

lemma st_list_other: "fst q \<noteq> fst p \<Longrightarrow> st_list m p xs q = m q"
  by (induction xs arbitrary: m p) (auto simp: st8_apply)

lemma st_list_padd:
  "st_list m p xs (padd p i) = (if i < length xs then xs ! i else m (padd p i))"
  using st_list_apply [of m p xs "snd p + i"] by (simp add: padd_def)

lemma bytes_st_list [simp]: "bytes (st_list m p xs) p (length xs) = xs"
  by (rule nth_equalityI) (auto simp: st_list_padd)

section \<open>Byte order\<close>

text \<open>
  include/linux/byteorder/swab.h and little_endian.h: on the little-endian target htons, ntohs,
  htonl and ntohl all swap.
\<close>

definition swab16 :: "u16 \<Rightarrow> u16" where
  "swab16 x = push_bit 8 (x AND 0x00ff) OR drop_bit 8 (x AND 0xff00)"

definition swab32 :: "u32 \<Rightarrow> u32" where
  "swab32 x = push_bit 24 (x AND 0x000000ff) OR push_bit 8 (x AND 0x0000ff00)
     OR drop_bit 8 (x AND 0x00ff0000) OR drop_bit 24 (x AND 0xff000000)"

definition htons :: "u16 \<Rightarrow> u16" where "htons x = swab16 x"
definition ntohs :: "u16 \<Rightarrow> u16" where "ntohs x = swab16 x"
definition htonl :: "u32 \<Rightarrow> u32" where "htonl x = swab32 x"
definition ntohl :: "u32 \<Rightarrow> u32" where "ntohl x = swab32 x"

lemma bit_swab16: "bit (swab16 x) n = (n < 16 \<and> bit x (if n < 8 then n + 8 else n - 8))"
proof -
  have a: "(0x00ff::u16) = mask 8" "(0xff00::u16) = push_bit 8 (mask 8)"
    by (simp_all add: mask_eq_exp_minus_1 push_bit_eq_mult)
  have "bit x m \<Longrightarrow> m < 16" for m
    using bit_imp_le_length [of x m] by simp
  then show ?thesis
    unfolding swab16_def a by (auto simp: bit_simps add.commute)
qed

lemma swab16_swab16 [simp]: "swab16 (swab16 x) = x"
  by (rule bit_word_eqI) (auto simp: bit_swab16)

lemma byte_swap_inverse [simp]:
  "ntohs (htons x) = x" "htons (ntohs x) = x"
  by (simp_all add: htons_def ntohs_def)

lemma bit_swab32:
  "bit (swab32 x) n = (n < 32 \<and> bit x (if n < 8 then n + 24 else if n < 16 then n + 8
     else if n < 24 then n - 8 else n - 24))"
proof -
  have a: "(0x000000ff::u32) = mask 8" "(0x0000ff00::u32) = push_bit 8 (mask 8)"
    "(0x00ff0000::u32) = push_bit 16 (mask 8)" "(0xff000000::u32) = push_bit 24 (mask 8)"
    by (simp_all add: mask_eq_exp_minus_1 push_bit_eq_mult)
  have "bit x m \<Longrightarrow> m < 32" for m
    using bit_imp_le_length [of x m] by simp
  then show ?thesis
    unfolding swab32_def a by (auto simp: bit_simps add.commute)
qed

lemma swab32_swab32 [simp]: "swab32 (swab32 x) = x"
  by (rule bit_word_eqI) (auto simp: bit_swab32)

lemma byte_swap_inverse32 [simp]:
  "ntohl (htonl x) = x" "htonl (ntohl x) = x"
  by (simp_all add: htonl_def ntohl_def)

text \<open>A network-order field: storing htons v puts the high byte first.\<close>

lemma st16_htons_bytes:
  "st16 m p (htons v) p = ucast (drop_bit 8 v)" "st16 m p (htons v) (padd p 1) = ucast v"
  by (auto simp: st16_apply htons_def intro!: bit_word_eqI simp: bit_simps bit_swab16 add.commute)

section \<open>Integers\<close>

text \<open>An int compared with a size_t is converted to unsigned first.\<close>

definition as_unsigned :: "int \<Rightarrow> u32" where
  "as_unsigned i = word_of_int i"

lemma unat_lt_pow [simp]:
  "unat (x :: u8) < 256" "unat (y :: u16) < 65536" "unat (z :: u32) < 4294967296"
  using unsigned_less [of x] unsigned_less [of y] unsigned_less [of z] by simp_all

lemma word_eq_iff_unat: "(x :: 'a::len word) = y \<longleftrightarrow> unat x = unat y"
  by (metis unsigned_word_eqI)

text \<open>Widening keeps the value; narrowing keeps it when it fits.\<close>

lemma unat_ucast_widen [simp]:
  "LENGTH('a) \<le> LENGTH('b) \<Longrightarrow> unat (ucast (x :: 'a::len word) :: 'b::len word) = unat x"
  unfolding unsigned_ucast_eq
  by (metis take_bit_nat_eq_self unsigned_less order_less_le_trans one_le_numeral power_increasing)

lemma unat_ucast_fits:
  "unat (x :: 'a::len word) < 2 ^ LENGTH('b) \<Longrightarrow> unat (ucast x :: 'b::len word) = unat x"
  unfolding unsigned_ucast_eq by (metis take_bit_nat_eq_self)

lemma unat_drop_bit_div: "unat (drop_bit k (x :: 'a::len word)) = unat x div 2 ^ k"
  unfolding unat_drop_bit_eq by (simp add: drop_bit_eq_div)

text \<open>Narrowing is a ring homomorphism.\<close>

lemma ucast_word_of_int:
  "LENGTH('b) \<le> LENGTH('a) \<Longrightarrow> ucast (word_of_int k :: 'a::len word) = (word_of_int k :: 'b::len word)"
  by (intro bit_word_eqI) (auto simp: bit_simps)

lemma ucast_narrow:
  fixes x y :: "'a::len word"
  assumes "LENGTH('b) \<le> LENGTH('a)"
  shows "(ucast (x + y) :: 'b::len word) = ucast x + ucast y"
    "(ucast (x - y) :: 'b::len word) = ucast x - ucast y"
    "(ucast (x * y) :: 'b::len word) = ucast x * ucast y"
proof -
  have u: "ucast z = (word_of_int (uint z) :: 'b word)" for z :: "'a word"
    using ucast_word_of_int [OF assms, of "uint z"] by simp
  have e: "x + y = word_of_int (uint x + uint y)" "x - y = word_of_int (uint x - uint y)"
    "x * y = word_of_int (uint x * uint y)"
    by simp_all
  show "(ucast (x + y) :: 'b word) = ucast x + ucast y" "(ucast (x - y) :: 'b word) = ucast x - ucast y"
    "(ucast (x * y) :: 'b word) = ucast x * ucast y"
    unfolding e ucast_word_of_int [OF assms] u [of x] u [of y] by simp_all
qed

lemma ucast_narrow_of_nat:
  "LENGTH('b) \<le> LENGTH('a) \<Longrightarrow> ucast (of_nat n :: 'a::len word) = (of_nat n :: 'b::len word)"
  using ucast_word_of_int [where ?'a = 'a and ?'b = 'b, of "int n"] by simp

lemma ucast_narrow_widen:
  "LENGTH('b) \<le> LENGTH('a) \<Longrightarrow> ucast (ucast (x :: 'b::len word) :: 'a::len word) = x"
  by (intro bit_word_eqI) (auto simp: bit_simps dest: bit_imp_le_length)

text \<open>Two's complement reading of a word.\<close>

lemma sint_cases:
  "sint (x :: 'a::len word) = (if unat x < 2 ^ (LENGTH('a) - 1) then int (unat x) else int (unat x) - 2 ^ LENGTH('a))"
proof -
  have l: "(2::nat) ^ LENGTH('a) = 2 * 2 ^ (LENGTH('a) - 1)"
    by (metis One_nat_def len_gt_0 power_eq_if less_not_refl)
  have u: "unat x < 2 ^ LENGTH('a)" by (rule unsigned_less)
  have s: "sint x = (uint x + 2 ^ (LENGTH('a) - 1)) mod 2 ^ LENGTH('a) - 2 ^ (LENGTH('a) - 1)"
    by (metis signed_take_bit_eq_take_bit_shift sint_uint One_nat_def Suc_pred len_gt_0 take_bit_eq_mod)
  have m: "(uint x + 2 ^ (LENGTH('a) - 1)) = int (unat x + 2 ^ (LENGTH('a) - 1))"
    by simp
  have "(uint x + 2 ^ (LENGTH('a) - 1)) mod 2 ^ LENGTH('a) = int ((unat x + 2 ^ (LENGTH('a) - 1)) mod 2 ^ LENGTH('a))"
    unfolding m by (simp add: zmod_int)
  moreover have "(unat x + 2 ^ (LENGTH('a) - 1)) mod 2 ^ LENGTH('a) = 
     (if unat x < 2 ^ (LENGTH('a) - 1) then unat x + 2 ^ (LENGTH('a) - 1) else unat x + 2 ^ (LENGTH('a) - 1) - 2 ^ LENGTH('a))"
    using u l by (auto simp: mod_if)
  moreover have "(2::int) ^ LENGTH('a) = 2 * 2 ^ (LENGTH('a) - 1)"
    by (metis One_nat_def len_gt_0 power_eq_if less_not_refl)
  ultimately show ?thesis using s u l by (auto simp: of_nat_diff)
qed

end
