(* ===== verification/CMem.thy ===== *)
theory CMem
  imports Prelude
begin

unbundle bit_operations_syntax

text \<open>
  lib/mylibc/string: the memory routines (memcpy, memmove, memset, memcmp), in the build's
  configuration (no size optimisation), so with their alignment prologues and their word-at-a-time
  and unrolled loops.  A loop that runs until it meets a terminator is a partial function in the
  option monad: None means the loop never ends.  The reference results are stated with bytes and
  st_list of the prelude.
\<close>

text \<open>UNALIGNED: objects are word aligned, so the offset decides.\<close>

definition UNALIGNED :: "'b ptr \<Rightarrow> bool" where
  "UNALIGNED p \<longleftrightarrow> snd p mod 4 \<noteq> 0"

section \<open>memcpy and memmove\<close>

text \<open>The byte copier, a word copy, and the two word loops of memcpy.c.\<close>

fun copy_bytes :: "'b mem \<Rightarrow> 'b ptr \<Rightarrow> 'b ptr \<Rightarrow> nat \<Rightarrow> 'b mem" where
  "copy_bytes m d s 0 = m"
| "copy_bytes m d s (Suc n) = copy_bytes (st8 m d (m s)) (padd d 1) (padd s 1) n"

definition copy_word :: "'b mem \<Rightarrow> 'b ptr \<Rightarrow> 'b ptr \<Rightarrow> 'b mem" where
  "copy_word m d s = st32 m d (ld32 m s)"

fun copy_words :: "'b mem \<Rightarrow> 'b ptr \<Rightarrow> 'b ptr \<Rightarrow> nat \<Rightarrow> 'b mem" where
  "copy_words m d s 0 = m"
| "copy_words m d s (Suc n) = copy_words (copy_word m d s) (padd d 4) (padd s 4) n"

text \<open>while (len0 >= BIGBLOCKSIZE): four word copies per round; then while (len0 >= LITTLEBLOCKSIZE).\<close>

function copy_big :: "'b mem \<Rightarrow> 'b ptr \<Rightarrow> 'b ptr \<Rightarrow> nat \<Rightarrow> 'b mem \<times> 'b ptr \<times> 'b ptr \<times> nat" where
  "copy_big m d s len =
    (if 16 \<le> len then copy_big (copy_words m d s 4) (padd d 16) (padd s 16) (len - 16)
     else (m, d, s, len))"
  by pat_completeness auto
termination
  by (relation "measure (\<lambda>(m, d, s, len). len)") auto

function copy_little :: "'b mem \<Rightarrow> 'b ptr \<Rightarrow> 'b ptr \<Rightarrow> nat \<Rightarrow> 'b mem \<times> 'b ptr \<times> 'b ptr \<times> nat" where
  "copy_little m d s len =
    (if 4 \<le> len then copy_little (copy_word m d s) (padd d 4) (padd s 4) (len - 4)
     else (m, d, s, len))"
  by pat_completeness auto
termination
  by (relation "measure (\<lambda>(m, d, s, len). len)") auto

declare copy_big.simps [simp del] copy_little.simps [simp del]

definition copy_forward :: "'b mem \<Rightarrow> 'b ptr \<Rightarrow> 'b ptr \<Rightarrow> nat \<Rightarrow> 'b mem" where
  "copy_forward m d s len =
    (if 16 \<le> len \<and> \<not> UNALIGNED s \<and> \<not> UNALIGNED d
     then (case copy_big m d s len of (m, d, s, len) \<Rightarrow>
           (case copy_little m d s len of (m, d, s, len) \<Rightarrow> copy_bytes m d s len))
     else copy_bytes m d s len)"

definition memcpy :: "'b mem \<Rightarrow> 'b ptr \<Rightarrow> 'b ptr \<Rightarrow> nat \<Rightarrow> 'b mem" where
  "memcpy m dst0 src0 len0 = copy_forward m dst0 src0 len0"

text \<open>memmove.c copies backwards when the destination starts inside the source range.\<close>

fun copy_back :: "'b mem \<Rightarrow> 'b ptr \<Rightarrow> 'b ptr \<Rightarrow> nat \<Rightarrow> 'b mem" where
  "copy_back m d s 0 = m"
| "copy_back m d s (Suc n) = copy_back (st8 m (padd d n) (m (padd s n))) d s n"

definition memmove :: "'b mem \<Rightarrow> 'b ptr \<Rightarrow> 'b ptr \<Rightarrow> nat \<Rightarrow> 'b mem" where
  "memmove m dst src len =
    (if fst src = fst dst \<and> snd src < snd dst \<and> snd dst < snd src + len
     then copy_back m dst src len else copy_forward m dst src len)"

text \<open>
  The reference: the source bytes as they were, stored at the destination.  Byte-wise forward
  copying agrees with it unless the destination starts inside the source.
\<close>

definition copy_ref :: "'b mem \<Rightarrow> 'b ptr \<Rightarrow> 'b ptr \<Rightarrow> nat \<Rightarrow> 'b mem" where
  "copy_ref m d s n = st_list m d (bytes m s n)"

definition forward_safe :: "'b ptr \<Rightarrow> 'b ptr \<Rightarrow> nat \<Rightarrow> bool" where
  "forward_safe d s n \<longleftrightarrow> \<not> (fst s = fst d \<and> snd s < snd d \<and> snd d < snd s + n)"

lemma copy_ref_apply:
  "copy_ref m d s n (b, i) =
    (if b = fst d \<and> snd d \<le> i \<and> i < snd d + n then m (padd s (i - snd d)) else m (b, i))"
proof (cases "b = fst d")
  case True
  then show ?thesis
    using st_list_apply [of m d "bytes m s n" i] by (auto simp: copy_ref_def)
next
  case False
  then show ?thesis by (simp add: copy_ref_def st_list_other)
qed

lemma copy_ref_0 [simp]: "copy_ref m d s 0 = m"
  by (simp add: copy_ref_def bytes_def)

lemma copy_ref_add:
  assumes "forward_safe d s (a + b)"
  shows "copy_ref (copy_ref m d s a) (padd d a) (padd s a) b = copy_ref m d s (a + b)"
proof (rule ext, clarify)
  fix c i
  show "copy_ref (copy_ref m d s a) (padd d a) (padd s a) b (c, i) = copy_ref m d s (a + b) (c, i)"
    using assms
    by (auto simp: copy_ref_apply forward_safe_def padd_def)
qed

lemma forward_safe_mono: "forward_safe d s n \<Longrightarrow> k \<le> n \<Longrightarrow> forward_safe d s k"
  by (auto simp: forward_safe_def)

lemma forward_safe_shift: "forward_safe d s (a + n) \<Longrightarrow> forward_safe (padd d a) (padd s a) n"
  by (auto simp: forward_safe_def)

lemma copy_bytes_ref: "forward_safe d s n \<Longrightarrow> copy_bytes m d s n = copy_ref m d s n"
proof (induction n arbitrary: m d s)
  case 0
  then show ?case by simp
next
  case (Suc n)
  have one: "st8 m d (m s) = copy_ref m d s 1"
    by (simp add: copy_ref_def bytes_def)
  have "copy_bytes m d s (Suc n) = copy_ref (copy_ref m d s 1) (padd d 1) (padd s 1) n"
    using Suc.IH [of "padd d 1" "padd s 1"] Suc.prems forward_safe_shift [of d s 1 n]
    by (simp add: one)
  then show ?case
    using copy_ref_add [of d s 1 n m] Suc.prems by simp
qed

lemma ld32_byte:
  "ucast (ld32 m s) = m s" "ucast (drop_bit 8 (ld32 m s)) = m (padd s 1)"
  "ucast (drop_bit 16 (ld32 m s)) = m (padd s 2)" "ucast (drop_bit 24 (ld32 m s)) = m (padd s 3)"
proof -
  have z: "bit (x :: u8) n \<Longrightarrow> n < 8" for x n
    using bit_imp_le_length [of x n] by simp
  show "ucast (ld32 m s) = m s" "ucast (drop_bit 8 (ld32 m s)) = m (padd s 1)"
    "ucast (drop_bit 16 (ld32 m s)) = m (padd s 2)" "ucast (drop_bit 24 (ld32 m s)) = m (padd s 3)"
    by (rule bit_word_eqI; auto simp: ld32_def ld16_def bit_simps add.commute numeral_3_eq_3 dest: z)+
qed

lemma copy_word_ref: "copy_word m d s = copy_ref m d s 4"
proof -
  have "bytes m s 4 = [m s, m (padd s 1), m (padd s 2), m (padd s 3)]"
    by (simp add: bytes_def numeral_eq_Suc)
  then show ?thesis
    by (auto simp: copy_ref_def copy_word_def fun_eq_iff st32_apply ld32_byte st8_apply)
qed

lemma copy_words_ref: "forward_safe d s (4 * n) \<Longrightarrow> copy_words m d s n = copy_ref m d s (4 * n)"
proof (induction n arbitrary: m d s)
  case 0
  then show ?case by simp
next
  case (Suc n)
  have "copy_words m d s (Suc n) = copy_ref (copy_ref m d s 4) (padd d 4) (padd s 4) (4 * n)"
    using Suc.IH [of "padd d 4" "padd s 4"] Suc.prems forward_safe_shift [of d s 4 "4 * n"]
    by (simp add: copy_word_ref)
  then show ?case
    using copy_ref_add [of d s 4 "4 * n" m] Suc.prems by simp
qed

lemma copy_big_ref:
  "forward_safe d s len \<Longrightarrow> \<exists>k. copy_big m d s len = (copy_ref m d s k, padd d k, padd s k, len - k) \<and> k \<le> len"
proof (induction m d s len rule: copy_big.induct)
  case (1 m d s len)
  show ?case
  proof (cases "16 \<le> len")
    case True
    have fs: "forward_safe d s 16" "forward_safe (padd d 16) (padd s 16) (len - 16)"
      using "1.prems" True forward_safe_mono [OF "1.prems", of 16]
        forward_safe_shift [of d s 16 "len - 16"] by auto
    have w: "copy_words m d s 4 = copy_ref m d s 16"
      using copy_words_ref [of d s 4 m] fs by simp
    from "1.IH" [OF True fs(2)] obtain k where
      k: "copy_big (copy_ref m d s 16) (padd d 16) (padd s 16) (len - 16) =
        (copy_ref (copy_ref m d s 16) (padd d 16) (padd s 16) k, padd (padd d 16) k,
         padd (padd s 16) k, len - 16 - k)" "k \<le> len - 16"
      unfolding w by blast
    have "forward_safe d s (16 + k)"
      using forward_safe_mono [OF "1.prems"] k(2) True by simp
    then have "copy_big m d s len =
        (copy_ref m d s (16 + k), padd d (16 + k), padd s (16 + k), len - (16 + k))"
      using True k(1) by (simp add: copy_big.simps [of m d s len] w copy_ref_add)
    moreover have "16 + k \<le> len" using k(2) True by simp
    ultimately show ?thesis by blast
  next
    case False
    then show ?thesis by (intro exI [of _ 0]) (simp add: copy_big.simps)
  qed
qed

lemma copy_little_ref:
  "forward_safe d s len \<Longrightarrow> \<exists>k. copy_little m d s len = (copy_ref m d s k, padd d k, padd s k, len - k) \<and> k \<le> len"
proof (induction m d s len rule: copy_little.induct)
  case (1 m d s len)
  show ?case
  proof (cases "4 \<le> len")
    case True
    have fs: "forward_safe (padd d 4) (padd s 4) (len - 4)"
      using "1.prems" True forward_safe_shift [of d s 4 "len - 4"] by auto
    from "1.IH" [OF True fs] obtain k where
      k: "copy_little (copy_ref m d s 4) (padd d 4) (padd s 4) (len - 4) =
        (copy_ref (copy_ref m d s 4) (padd d 4) (padd s 4) k, padd (padd d 4) k,
         padd (padd s 4) k, len - 4 - k)" "k \<le> len - 4"
      unfolding copy_word_ref by blast
    have "forward_safe d s (4 + k)"
      using forward_safe_mono [OF "1.prems"] k(2) True by simp
    then have "copy_little m d s len =
        (copy_ref m d s (4 + k), padd d (4 + k), padd s (4 + k), len - (4 + k))"
      using True k(1) by (simp add: copy_little.simps [of m d s len] copy_word_ref copy_ref_add)
    moreover have "4 + k \<le> len" using k(2) True by simp
    ultimately show ?thesis by blast
  next
    case False
    then show ?thesis by (intro exI [of _ 0]) (simp add: copy_little.simps)
  qed
qed

lemma copy_forward_ref:
  assumes "forward_safe d s n"
  shows "copy_forward m d s n = copy_ref m d s n"
proof (cases "16 \<le> n \<and> \<not> UNALIGNED s \<and> \<not> UNALIGNED d")
  case True
  obtain k where k: "copy_big m d s n = (copy_ref m d s k, padd d k, padd s k, n - k)" "k \<le> n"
    using copy_big_ref [OF assms] by blast
  have fs: "forward_safe (padd d k) (padd s k) (n - k)"
    using assms k(2) forward_safe_shift [of d s k "n - k"] by simp
  obtain j where j: "copy_little (copy_ref m d s k) (padd d k) (padd s k) (n - k) =
      (copy_ref (copy_ref m d s k) (padd d k) (padd s k) j, padd (padd d k) j, padd (padd s k) j, n - k - j)"
    "j \<le> n - k"
    using copy_little_ref [OF fs] by blast
  have "forward_safe (padd d (k + j)) (padd s (k + j)) (n - k - j)"
    using assms j(2) k(2) forward_safe_shift [of d s "k + j" "n - k - j"] by simp
  then show ?thesis
    using True k j assms forward_safe_mono [OF assms, of "k + j"]
      copy_ref_add [of d s "k + j" "n - k - j" m]
    by (simp add: copy_forward_def copy_bytes_ref copy_ref_add)
next
  case False
  then have "copy_forward m d s n = copy_bytes m d s n"
    by (simp only: copy_forward_def if_False)
  with assms show ?thesis by (simp add: copy_bytes_ref)
qed

lemma copy_back_ref:
  "fst s = fst d \<Longrightarrow> snd s < snd d \<Longrightarrow> k \<le> n \<Longrightarrow>
   copy_back (\<lambda>q. if fst q = fst d \<and> snd d + k \<le> snd q \<and> snd q < snd d + n
      then m (padd s (snd q - snd d)) else m q) d s k = copy_ref m d s n"
proof (induction k)
  case 0
  then show ?case
    by (auto simp: fun_eq_iff copy_ref_apply)
next
  case (Suc k)
  have "st8 (\<lambda>q. if fst q = fst d \<and> snd d + Suc k \<le> snd q \<and> snd q < snd d + n
        then m (padd s (snd q - snd d)) else m q) (padd d k)
      ((\<lambda>q. if fst q = fst d \<and> snd d + Suc k \<le> snd q \<and> snd q < snd d + n
        then m (padd s (snd q - snd d)) else m q) (padd s k)) =
     (\<lambda>q. if fst q = fst d \<and> snd d + k \<le> snd q \<and> snd q < snd d + n
        then m (padd s (snd q - snd d)) else m q)"
    using Suc.prems by (fastforce simp: fun_eq_iff st8_apply padd_def prod_eq_iff)
  then show ?case
    using Suc.IH Suc.prems by simp
qed

lemma memmove_correct_ref: "memmove m d s n = copy_ref m d s n"
proof (cases "fst s = fst d \<and> snd s < snd d \<and> snd d < snd s + n")
  case True
  have "(\<lambda>q. if fst q = fst d \<and> snd d + n \<le> snd q \<and> snd q < snd d + n
      then m (padd s (snd q - snd d)) else m q) = m" by (auto simp: fun_eq_iff)
  with True show ?thesis
    using copy_back_ref [of s d n n m] by (simp add: memmove_def)
next
  case False
  then have "forward_safe d s n" by (simp add: forward_safe_def)
  moreover have "memmove m d s n = copy_forward m d s n"
    using False by (simp only: memmove_def if_False)
  ultimately show ?thesis by (simp add: copy_forward_ref)
qed

section \<open>The contract of a copy routine\<close>

text \<open>
  What the network code relies on when it copies between header fields and buffers.  Both memcpy
  and memmove provide it.
\<close>

locale copier =
  fixes copy :: "'b mem \<Rightarrow> 'b ptr \<Rightarrow> 'b ptr \<Rightarrow> nat \<Rightarrow> 'b mem"
  assumes copy_law: "forward_safe d s n \<Longrightarrow> copy m d s n = copy_ref m d s n"
begin

lemma copy_apply:
  "forward_safe d s n \<Longrightarrow> copy m d s n (b, i) =
    (if b = fst d \<and> snd d \<le> i \<and> i < snd d + n then m (padd s (i - snd d)) else m (b, i))"
  by (simp add: copy_law copy_ref_apply)

lemma copy_padd:
  "forward_safe d s n \<Longrightarrow> copy m d s n (padd d i) = (if i < n then m (padd s i) else m (padd d i))"
  by (simp add: copy_law copy_ref_apply padd_def)

lemma copy_elsewhere: "forward_safe d s n \<Longrightarrow> fst q \<noteq> fst d \<Longrightarrow> copy m d s n q = m q"
  by (cases q) (simp add: copy_law copy_ref_apply)

lemma copy_read: "forward_safe d s n \<Longrightarrow> bytes (copy m d s n) d n = bytes m s n"
  by (auto intro: bytes_cong simp: copy_padd)

end

interpretation memcpy: copier memcpy
  by unfold_locales (simp add: memcpy_def copy_forward_ref)

interpretation memmove: copier memmove
  by unfold_locales (simp add: memmove_correct_ref)

lemma forward_safe_objects [simp]: "fst d \<noteq> fst s \<Longrightarrow> forward_safe d s n"
  by (auto simp: forward_safe_def)

section \<open>memset\<close>

function memset_align :: "'b mem \<Rightarrow> 'b ptr \<Rightarrow> u8 \<Rightarrow> nat \<Rightarrow> 'b mem + ('b mem \<times> 'b ptr \<times> nat)" where
  "memset_align m s c n =
    (if UNALIGNED s
     then (if n = 0 then Inl m else memset_align (st8 m s c) (padd s 1) c (n - 1))
     else Inr (m, s, n))"
  by pat_completeness auto
termination
  by (relation "measure (\<lambda>(m, s, c, n). n)") auto

definition memset_buffer :: "u32 \<Rightarrow> u32" where
  "memset_buffer c =
    (let d = c AND 0xff;
         buffer = push_bit 8 d OR d
     in buffer OR push_bit 16 buffer)"

fun fill_words :: "'b mem \<Rightarrow> 'b ptr \<Rightarrow> u32 \<Rightarrow> nat \<Rightarrow> 'b mem" where
  "fill_words m p w 0 = m"
| "fill_words m p w (Suc n) = fill_words (st32 m p w) (padd p 4) w n"

function memset_big :: "'b mem \<Rightarrow> 'b ptr \<Rightarrow> u32 \<Rightarrow> nat \<Rightarrow> 'b mem \<times> 'b ptr \<times> nat" where
  "memset_big m p w n =
    (if 16 \<le> n then memset_big (fill_words m p w 4) (padd p 16) w (n - 16) else (m, p, n))"
  by pat_completeness auto
termination
  by (relation "measure (\<lambda>(m, p, w, n). n)") auto

function memset_little :: "'b mem \<Rightarrow> 'b ptr \<Rightarrow> u32 \<Rightarrow> nat \<Rightarrow> 'b mem \<times> 'b ptr \<times> nat" where
  "memset_little m p w n =
    (if 4 \<le> n then memset_little (st32 m p w) (padd p 4) w (n - 4) else (m, p, n))"
  by pat_completeness auto
termination
  by (relation "measure (\<lambda>(m, p, w, n). n)") auto

fun fill_bytes :: "'b mem \<Rightarrow> 'b ptr \<Rightarrow> u8 \<Rightarrow> nat \<Rightarrow> 'b mem" where
  "fill_bytes m p c 0 = m"
| "fill_bytes m p c (Suc n) = fill_bytes (st8 m p c) (padd p 1) c n"

declare memset_align.simps [simp del] memset_big.simps [simp del] memset_little.simps [simp del]

definition memset :: "'b mem \<Rightarrow> 'b ptr \<Rightarrow> u32 \<Rightarrow> nat \<Rightarrow> 'b mem" where
  "memset m p c n =
    (case memset_align m p (ucast c) n of
       Inl m \<Rightarrow> m
     | Inr (m, s, n) \<Rightarrow>
        (if 4 \<le> n
         then (case memset_big m s (memset_buffer c) n of (m, s, n) \<Rightarrow>
               (case memset_little m s (memset_buffer c) n of (m, s, n) \<Rightarrow>
                fill_bytes m s (ucast c) n))
         else fill_bytes m s (ucast c) n))"

definition fill_ref :: "'b mem \<Rightarrow> 'b ptr \<Rightarrow> u8 \<Rightarrow> nat \<Rightarrow> 'b mem" where
  "fill_ref m p c n = st_list m p (replicate n c)"

lemma fill_ref_apply:
  "fill_ref m p c n (b, i) = (if b = fst p \<and> snd p \<le> i \<and> i < snd p + n then c else m (b, i))"
proof (cases "b = fst p")
  case True
  then show ?thesis
    using st_list_apply [of m p "replicate n c" i] by (auto simp: fill_ref_def)
next
  case False
  then show ?thesis by (simp add: fill_ref_def st_list_other)
qed

lemma fill_ref_add: "fill_ref (fill_ref m p c a) (padd p a) c b = fill_ref m p c (a + b)"
  by (auto simp: fun_eq_iff fill_ref_apply)

lemma fill_ref_0 [simp]: "fill_ref m p c 0 = m"
  by (simp add: fill_ref_def)

lemma fill_ref_1: "st8 m p c = fill_ref m p c 1"
  by (simp add: fill_ref_def)

lemma fill_bytes_ref: "fill_bytes m p c n = fill_ref m p c n"
proof (induction n arbitrary: m p)
  case (Suc n)
  then show ?case using fill_ref_add [of m p c 1 n] by (simp add: fill_ref_1)
qed simp

lemma memset_buffer_bytes:
  "ucast (memset_buffer c) = (ucast c :: u8)" "ucast (drop_bit 8 (memset_buffer c)) = (ucast c :: u8)"
  "ucast (drop_bit 16 (memset_buffer c)) = (ucast c :: u8)"
  "ucast (drop_bit 24 (memset_buffer c)) = (ucast c :: u8)"
proof -
  have a: "(0xff :: u32) = mask 8" by (simp add: mask_eq_exp_minus_1)
  show "ucast (memset_buffer c) = (ucast c :: u8)" "ucast (drop_bit 8 (memset_buffer c)) = (ucast c :: u8)"
    "ucast (drop_bit 16 (memset_buffer c)) = (ucast c :: u8)"
    "ucast (drop_bit 24 (memset_buffer c)) = (ucast c :: u8)"
    unfolding memset_buffer_def a Let_def by (rule bit_word_eqI; auto simp: bit_simps)+
qed

lemma st32_buffer: "st32 m p (memset_buffer c) = fill_ref m p (ucast c) 4"
  by (cases p) (auto simp: fun_eq_iff fill_ref_apply st32_apply memset_buffer_bytes)

lemma fill_words_ref: "fill_words m p (memset_buffer c) n = fill_ref m p (ucast c) (4 * n)"
proof (induction n arbitrary: m p)
  case (Suc n)
  then show ?case using fill_ref_add [of m p "ucast c" 4 "4 * n"] by (simp add: st32_buffer)
qed simp

lemma memset_align_ref:
  "memset_align m p c n = Inl (fill_ref m p c n) \<or>
   (\<exists>k. memset_align m p c n = Inr (fill_ref m p c k, padd p k, n - k) \<and> k \<le> n)"
proof (induction n arbitrary: m p)
  case 0
  show ?case
    by (cases "UNALIGNED p") (simp_all add: memset_align.simps)
next
  case (Suc j)
  show ?case
  proof (cases "UNALIGNED p")
    case True
    have u: "memset_align m p c (Suc j) = memset_align (fill_ref m p c 1) (padd p 1) c j"
      using True by (subst memset_align.simps) (simp add: fill_ref_1)
    have a: "fill_ref (fill_ref m p c 1) (padd p 1) c i = fill_ref m p c (Suc i)" for i
      using fill_ref_add [of m p c 1 i] by simp
    show ?thesis
      using Suc.IH [of "fill_ref m p c 1" "padd p 1"]
    proof (elim disjE exE conjE)
      fix k assume "memset_align (fill_ref m p c 1) (padd p 1) c j =
          Inr (fill_ref (fill_ref m p c 1) (padd p 1) c k, padd (padd p 1) k, j - k)" "k \<le> j"
      then show ?thesis
        unfolding u a by (intro disjI2 exI [of _ "Suc k"]) simp
    qed (simp only: u a simp_thms)
  next
    case False
    then show ?thesis
      by (intro disjI2 exI [of _ 0]) (simp add: memset_align.simps)
  qed
qed

lemma memset_big_ref:
  "\<exists>k. memset_big m p (memset_buffer c) n = (fill_ref m p (ucast c) k, padd p k, n - k) \<and> k \<le> n"
proof (induction n arbitrary: m p rule: less_induct)
  case (less n)
  show ?case
  proof (cases "16 \<le> n")
    case True
    have "memset_big m p (memset_buffer c) n =
        memset_big (fill_ref m p (ucast c) 16) (padd p 16) (memset_buffer c) (n - 16)"
      using True by (subst memset_big.simps) (simp add: fill_words_ref)
    moreover obtain k where "memset_big (fill_ref m p (ucast c) 16) (padd p 16) (memset_buffer c) (n - 16)
        = (fill_ref (fill_ref m p (ucast c) 16) (padd p 16) (ucast c) k, padd (padd p 16) k, n - 16 - k)"
      "k \<le> n - 16"
      using less [of "n - 16"] True by fastforce
    ultimately show ?thesis
      using True by (intro exI [of _ "16 + k"]) (simp add: fill_ref_add)
  next
    case False
    then show ?thesis by (intro exI [of _ 0]) (simp add: memset_big.simps)
  qed
qed

lemma memset_little_ref:
  "\<exists>k. memset_little m p (memset_buffer c) n = (fill_ref m p (ucast c) k, padd p k, n - k) \<and> k \<le> n"
proof (induction n arbitrary: m p rule: less_induct)
  case (less n)
  show ?case
  proof (cases "4 \<le> n")
    case True
    have "memset_little m p (memset_buffer c) n =
        memset_little (fill_ref m p (ucast c) 4) (padd p 4) (memset_buffer c) (n - 4)"
      using True by (subst memset_little.simps) (simp add: st32_buffer)
    moreover obtain k where "memset_little (fill_ref m p (ucast c) 4) (padd p 4) (memset_buffer c) (n - 4)
        = (fill_ref (fill_ref m p (ucast c) 4) (padd p 4) (ucast c) k, padd (padd p 4) k, n - 4 - k)"
      "k \<le> n - 4"
      using less [of "n - 4"] True by fastforce
    ultimately show ?thesis
      using True by (intro exI [of _ "4 + k"]) (simp add: fill_ref_add)
  next
    case False
    then show ?thesis by (intro exI [of _ 0]) (simp add: memset_little.simps)
  qed
qed

lemma memset_fill: "memset m p c n = fill_ref m p (ucast c) n"
proof -
  have tail: "(case memset_big m s (memset_buffer c) n of (m, s, n) \<Rightarrow>
               (case memset_little m s (memset_buffer c) n of (m, s, n) \<Rightarrow>
                fill_bytes m s (ucast c) n)) = fill_ref m s (ucast c) n" for m :: "'b mem" and s n
  proof -
    obtain k where k: "memset_big m s (memset_buffer c) n = (fill_ref m s (ucast c) k, padd s k, n - k)" "k \<le> n"
      using memset_big_ref by blast
    obtain j where j: "memset_little (fill_ref m s (ucast c) k) (padd s k) (memset_buffer c) (n - k) =
        (fill_ref (fill_ref m s (ucast c) k) (padd s k) (ucast c) j, padd (padd s k) j, n - k - j)" "j \<le> n - k"
      using memset_little_ref by blast
    have "fill_ref (fill_ref m s (ucast c) (k + j)) (padd s (k + j)) (ucast c) (n - k - j) = fill_ref m s (ucast c) n"
      using fill_ref_add [of m s "ucast c" "k + j" "n - k - j"] k(2) j(2) by simp
    with k j show ?thesis by (simp add: fill_bytes_ref fill_ref_add)
  qed
  have "k \<le> n \<Longrightarrow> fill_ref (fill_ref m p (ucast c) k) (padd p k) (ucast c) (n - k) = fill_ref m p (ucast c) n" for k
    using fill_ref_add [of m p "ucast c" k "n - k"] by simp
  with memset_align_ref [of m p "ucast c" n] show ?thesis
    by (auto simp: memset_def tail fill_bytes_ref)
qed

section \<open>The zero-byte test of the word loops\<close>

text \<open>
  DETECTNULL is nonzero on every word that holds a zero byte (it may be nonzero on others), which
  is what the word loops of strlen, strchr and strncpy rely on not to run past a terminator.
\<close>

definition DETECTNULL :: "u32 \<Rightarrow> u32" where
  "DETECTNULL x = (x - 0x01010101) AND NOT x AND 0x80808080"

lemma bit_word_mod: "i < LENGTH('a::len) \<Longrightarrow> bit (w :: 'a word) i \<longleftrightarrow> 2 ^ i \<le> uint w mod 2 ^ Suc i"
proof -
  assume i: "i < LENGTH('a)"
  have p: "uint w mod 2 ^ Suc i = uint w mod 2 ^ i + 2 ^ i * (uint w div 2 ^ i mod 2)"
    by (simp add: mult.commute [of 2] zmod_zmult2_eq)
  have lt: "0 \<le> uint w mod 2 ^ i" "uint w mod 2 ^ i < 2 ^ i"
    by simp_all
  have b: "bit w i \<longleftrightarrow> odd (uint w div 2 ^ i)"
    using i bit_uint_iff [of w i] by (simp add: bit_iff_odd [of "uint w"])
  show ?thesis
    unfolding b p using lt by (cases "odd (uint w div 2 ^ i)") (simp_all add: odd_iff_mod_2_eq_one not_le)
qed

lemma mod_by_shift: "a = r + n * q \<Longrightarrow> 0 \<le> r \<Longrightarrow> r < n \<Longrightarrow> a mod n = (r::int)"
  by simp

lemma word32_bytes:
  "\<exists>b0 b1 b2 b3. uint (x :: u32) = b0 + 256 * b1 + 65536 * b2 + 16777216 * b3 \<and>
     (b0 = uint (ucast x :: u8)) \<and> b1 = uint (ucast (drop_bit 8 x) :: u8) \<and>
     b2 = uint (ucast (drop_bit 16 x) :: u8) \<and> b3 = uint (ucast (drop_bit 24 x) :: u8)"
proof -
  have x: "0 \<le> uint x" "uint x < 4294967296" using uint_lt2p [of x] by simp_all
  have e: "uint (ucast (drop_bit k x) :: u8) = uint x div 2 ^ k mod 256" for k
    unfolding unsigned_ucast_eq unsigned_drop_bit_eq using x by (simp add: take_bit_eq_mod drop_bit_eq_div)
  have e0: "uint (ucast x :: u8) = uint x mod 256"
    using e [of 0] by simp
  have e8: "uint (ucast (drop_bit 8 x) :: u8) = uint x div 256 mod 256"
    and e16: "uint (ucast (drop_bit 16 x) :: u8) = uint x div 65536 mod 256"
    and e24: "uint (ucast (drop_bit 24 x) :: u8) = uint x div 16777216 mod 256"
    using e [of 8] e [of 16] e [of 24] by simp_all
  have main: "uint x = uint x mod 256 + 256 * (uint x div 256 mod 256) + 65536 * (uint x div 65536 mod 256)
     + 16777216 * (uint x div 16777216 mod 256)"
  proof -
    let ?X = "uint x"
    have d: "?X div 65536 = ?X div 256 div 256" "?X div 16777216 = ?X div 256 div 256 div 256"
      by (simp_all add: zdiv_zmult2_eq [symmetric])
    have "?X div 16777216 \<le> 4294967295 div 16777216"
      using x by (intro zdiv_mono1) simp_all
    moreover have "0 \<le> ?X div 16777216"
      using x(1) by (simp add: pos_imp_zdiv_nonneg_iff)
    ultimately have "?X div 16777216 mod 256 = ?X div 16777216"
      by (intro mod_pos_pos_trivial) simp_all
    then show ?thesis
      using mult_div_mod_eq [of 256 ?X] mult_div_mod_eq [of 256 "?X div 256"]
        mult_div_mod_eq [of 256 "?X div 256 div 256"] unfolding d by linarith
  qed
  show ?thesis
    by (intro exI conjI, unfold e0 e8 e16 e24, rule main) (rule refl)+
qed

lemma DETECTNULL_zero_byte:
  assumes "ucast x = (0::u8) \<or> ucast (drop_bit 8 x) = (0::u8) \<or> ucast (drop_bit 16 x) = (0::u8)
     \<or> ucast (drop_bit 24 x) = (0::u8)"
  shows "DETECTNULL x \<noteq> 0"
proof -
  obtain b0 b1 b2 b3 where x: "uint x = b0 + 256 * b1 + 65536 * b2 + 16777216 * b3"
    and b: "b0 = uint (ucast x :: u8)" "b1 = uint (ucast (drop_bit 8 x) :: u8)"
     "b2 = uint (ucast (drop_bit 16 x) :: u8)" "b3 = uint (ucast (drop_bit 24 x) :: u8)"
    using word32_bytes [of x] by blast
  have r: "0 \<le> b0" "b0 < 256" "0 \<le> b1" "b1 < 256" "0 \<le> b2" "b2 < 256" "0 \<le> b3" "b3 < 256"
    using uint_lt2p [of "ucast x :: u8"] uint_lt2p [of "ucast (drop_bit 8 x) :: u8"]
      uint_lt2p [of "ucast (drop_bit 16 x) :: u8"] uint_lt2p [of "ucast (drop_bit 24 x) :: u8"] b by auto
  let ?y = "x - 0x01010101"
  have y: "uint ?y = (uint x - 16843009) mod 4294967296"
    by (simp add: uint_word_ariths)
  have m: "uint ?y mod 2 ^ Suc i = (uint x - 16843009) mod 2 ^ Suc i" if "i < 32" for i
  proof -
    have "(2::int) ^ Suc i dvd 2 ^ 32" using that by (intro le_imp_power_dvd) simp
    from mod_mod_cancel [OF this, of "uint x - 16843009"] show ?thesis
      unfolding y by (simp only: power_numeral power_Suc) simp
  qed
  have z: "b0 = 0 \<or> b1 = 0 \<or> b2 = 0 \<or> b3 = 0"
    using assms b by auto
  have "\<exists>i \<in> {7, 15, 23, 31}. bit ?y i \<and> \<not> bit x i"
  proof -
    consider "b0 = 0" | "b0 \<noteq> 0" "b1 = 0" | "b0 \<noteq> 0" "b1 \<noteq> 0" "b2 = 0"
      | "b0 \<noteq> 0" "b1 \<noteq> 0" "b2 \<noteq> 0" "b3 = 0" using z by blast
    then show ?thesis
    proof cases
      case 1
      have "(uint x - 16843009) mod 256 = 255" "uint x mod 256 = 0"
        by (rule mod_by_shift [where q = "b1 + 256 * b2 + 65536 * b3 - 65794"]; use r 1 x in simp)
          (rule mod_by_shift [where q = "b1 + 256 * b2 + 65536 * b3"]; use r 1 x in simp)
      then have "bit ?y 7 \<and> \<not> bit x 7"
        using m [of 7] by (simp add: bit_word_mod)
      then show ?thesis by blast
    next
      case 2
      have "(uint x - 16843009) mod 65536 = 65280 + (b0 - 1)" "uint x mod 65536 = b0"
        by (rule mod_by_shift [where q = "b2 + 256 * b3 - 258"]; use r 2 x in simp)
          (rule mod_by_shift [where q = "b2 + 256 * b3"]; use r 2 x in simp)
      then have "bit ?y 15 \<and> \<not> bit x 15"
        using m [of 15] r 2 by (simp add: bit_word_mod)
      then show ?thesis by blast
    next
      case 3
      have "(uint x - 16843009) mod 16777216 = 16711680 + (b0 - 1) + 256 * (b1 - 1)"
        "uint x mod 16777216 = b0 + 256 * b1"
        by (rule mod_by_shift [where q = "b3 - 2"]; use r 3 x in simp)
          (rule mod_by_shift [where q = "b3"]; use r 3 x in simp)
      then have "bit ?y 23 \<and> \<not> bit x 23"
        using m [of 23] r 3 by (simp add: bit_word_mod)
      then show ?thesis by blast
    next
      case 4
      have "(uint x - 16843009) mod 4294967296 = 4278190080 + (b0 - 1) + 256 * (b1 - 1) + 65536 * (b2 - 1)"
        "uint x mod 4294967296 = b0 + 256 * b1 + 65536 * b2"
        by (rule mod_by_shift [where q = "-1"]; use r 4 x in simp)
          (rule mod_by_shift [where q = "0"]; use r 4 x in simp)
      then have "bit ?y 31 \<and> \<not> bit x 31"
        using m [of 31] r 4 by (simp add: bit_word_mod)
      then show ?thesis by blast
    qed
  qed
  then obtain i where i: "i \<in> {7, 15, 23, 31}" "bit ?y i" "\<not> bit x i" by blast
  moreover have "bit (0x80808080 :: u32) i"
    using i(1) by (elim insertE) simp_all
  ultimately have "bit (DETECTNULL x) i"
    using i(1) by (auto simp: DETECTNULL_def bit_and_iff bit_not_iff)
  then show ?thesis by auto
qed

section \<open>memcmp\<close>

text \<open>
  memcmp.c compares word by word while both pointers are aligned and at least a word is left,
  then byte by byte; the two ranges may lie in different memories (a string literal is one).
\<close>

function memcmp_words :: "'b mem \<Rightarrow> 'b ptr \<Rightarrow> 'c mem \<Rightarrow> 'c ptr \<Rightarrow> nat \<Rightarrow> 'b ptr \<times> 'c ptr \<times> nat" where
  "memcmp_words m1 a1 m2 a2 n =
    (if 4 \<le> n
     then (if ld32 m1 a1 \<noteq> ld32 m2 a2 then (a1, a2, n)
           else memcmp_words m1 (padd a1 4) m2 (padd a2 4) (n - 4))
     else (a1, a2, n))"
  by pat_completeness auto
termination
  by (relation "measure (\<lambda>(m1, a1, m2, a2, n). n)") auto

declare memcmp_words.simps [simp del]

fun memcmp_bytes :: "'b mem \<Rightarrow> 'b ptr \<Rightarrow> 'c mem \<Rightarrow> 'c ptr \<Rightarrow> nat \<Rightarrow> int" where
  "memcmp_bytes m1 s1 m2 s2 0 = 0"
| "memcmp_bytes m1 s1 m2 s2 (Suc n) =
    (if m1 s1 \<noteq> m2 s2 then uint (m1 s1) - uint (m2 s2)
     else memcmp_bytes m1 (padd s1 1) m2 (padd s2 1) n)"

definition memcmp :: "'b mem \<Rightarrow> 'b ptr \<Rightarrow> 'c mem \<Rightarrow> 'c ptr \<Rightarrow> nat \<Rightarrow> int" where
  "memcmp m1 s1 m2 s2 n =
    (if 4 \<le> n \<and> \<not> (UNALIGNED s1 \<or> UNALIGNED s2)
     then (case memcmp_words m1 s1 m2 s2 n of (s1, s2, n) \<Rightarrow> memcmp_bytes m1 s1 m2 s2 n)
     else memcmp_bytes m1 s1 m2 s2 n)"

text \<open>A string literal as a memory of its own.\<close>

definition lit_mem :: "string \<Rightarrow> unit mem" where
  "lit_mem s p = lit s (snd p)"

text \<open>The reference: the difference at the first position where the ranges differ.\<close>

fun diff_ref :: "u8 list \<Rightarrow> u8 list \<Rightarrow> int" where
  "diff_ref (x # xs) (y # ys) = (if x \<noteq> y then uint x - uint y else diff_ref xs ys)"
| "diff_ref _ _ = 0"

lemma bytes_Suc: "bytes m p (Suc n) = m p # bytes m (padd p 1) n"
  by (simp add: bytes_def upt_conv_Cons map_Suc_upt [symmetric] del: upt_Suc map_Suc_upt)

lemma memcmp_bytes_ref: "memcmp_bytes m1 s1 m2 s2 n = diff_ref (bytes m1 s1 n) (bytes m2 s2 n)"
  by (induction n arbitrary: s1 s2) (simp_all add: bytes_Suc bytes_def [of _ _ 0])

lemma bytes_4: "bytes m p 4 = [ucast (ld32 m p), ucast (drop_bit 8 (ld32 m p)),
    ucast (drop_bit 16 (ld32 m p)), ucast (drop_bit 24 (ld32 m p))]"
proof -
  have "bytes m p 4 = [m p, m (padd p 1), m (padd p 2), m (padd p 3)]"
    by (simp add: bytes_def numeral_eq_Suc)
  then show ?thesis by (simp only: ld32_byte)
qed

lemma diff_ref_same: "diff_ref (zs @ xs) (zs @ ys) = diff_ref xs ys"
  by (induction zs) auto

lemma diff_ref_add:
  assumes "bytes m1 s1 k = bytes m2 s2 k"
  shows "diff_ref (bytes m1 s1 (k + n)) (bytes m2 s2 (k + n)) =
    diff_ref (bytes m1 (padd s1 k) n) (bytes m2 (padd s2 k) n)"
  unfolding bytes_add [of _ _ k n] assms by (rule diff_ref_same)

lemma memcmp_words_ref:
  "case memcmp_words m1 s1 m2 s2 n of (t1, t2, k) \<Rightarrow>
     memcmp_bytes m1 t1 m2 t2 k = diff_ref (bytes m1 s1 n) (bytes m2 s2 n)"
proof (induction n arbitrary: s1 s2 rule: less_induct)
  case (less n)
  show ?case
  proof (cases "4 \<le> n \<and> ld32 m1 s1 = ld32 m2 s2")
    case True
    then have "bytes m1 s1 4 = bytes m2 s2 4"
      by (simp only: bytes_4)
    then have "diff_ref (bytes m1 s1 n) (bytes m2 s2 n) =
        diff_ref (bytes m1 (padd s1 4) (n - 4)) (bytes m2 (padd s2 4) (n - 4))"
      using diff_ref_add [of m1 s1 4 m2 s2 "n - 4"] True by simp
    then show ?thesis
      using less.IH [of "n - 4" "padd s1 4" "padd s2 4"] True
      by (subst memcmp_words.simps) simp
  next
    case False
    then show ?thesis
      by (subst memcmp_words.simps) (auto simp: memcmp_bytes_ref)
  qed
qed

lemma memcmp_diff: "memcmp m1 s1 m2 s2 n = diff_ref (bytes m1 s1 n) (bytes m2 s2 n)"
  using memcmp_words_ref [where ?m1.0 = m1 and ?s1.0 = s1 and ?m2.0 = m2 and ?s2.0 = s2 and n = n]
  by (auto simp: memcmp_def memcmp_bytes_ref split: prod.splits)

lemma diff_ref_0_iff: "length xs = length ys \<Longrightarrow> diff_ref xs ys = 0 \<longleftrightarrow> xs = ys"
  by (induction xs ys rule: list_induct2) (auto simp: word_uint_eq_iff)

lemma memcmp_0_iff: "memcmp m1 s1 m2 s2 n = 0 \<longleftrightarrow> bytes m1 s1 n = bytes m2 s2 n"
  by (simp add: memcmp_diff diff_ref_0_iff)

section \<open>Properties\<close>

text \<open>memmove copies the bytes the source had before the call, also when the ranges overlap, and
  changes nothing else.\<close>

theorem memmove_copies:
  "memmove m dst src len (b, i) =
    (if b = fst dst \<and> snd dst \<le> i \<and> i < snd dst + len then m (padd src (i - snd dst)) else m (b, i))"
  by (simp add: memmove_correct_ref copy_ref_apply)

text \<open>C40: memcpy, with its word loops, does the same whenever the destination does not start inside the
  source range, whatever the alignment.\<close>

theorem memcpy_copies:
  assumes "forward_safe dst src len"
  shows "memcpy m dst src len (b, i) =
    (if b = fst dst \<and> snd dst \<le> i \<and> i < snd dst + len then m (padd src (i - snd dst)) else m (b, i))"
  by (rule memcpy.copy_apply [OF assms])

theorem memcpy_copies_witness:
  "memcpy (\<lambda>q. of_nat (snd q)) (True, 4) (True, 8) 17 (True, 20) = 24"
  using memcpy_copies [of "(True, 4)" "(True, 8)" 17 "\<lambda>q. of_nat (snd q)" True 20]
  by (simp add: forward_safe_def)

text \<open>memset fills exactly the range, with the low byte of its argument.\<close>

theorem memset_fills:
  "memset m s c n (b, i) = (if b = fst s \<and> snd s \<le> i \<and> i < snd s + n then ucast c else m (b, i))"
  by (simp add: memset_fill fill_ref_apply)

text \<open>memcmp is zero exactly for equal ranges, and otherwise the difference of the first two bytes
  that differ.\<close>

theorem memcmp_compares:
  "memcmp m1 s1 m2 s2 n = diff_ref (bytes m1 s1 n) (bytes m2 s2 n) \<and>
   (memcmp m1 s1 m2 s2 n = 0 \<longleftrightarrow> bytes m1 s1 n = bytes m2 s2 n)"
  by (simp add: memcmp_diff diff_ref_0_iff)

end
