(* ===== verification/CStr.thy ===== *)
theory CStr
  imports CMem
begin

unbundle bit_operations_syntax

text \<open>
  lib/mylibc/string: the routines on NUL-terminated strings.  Their loops run to a terminator, so
  they are partial functions in the option monad (None: the loop never ends); each comes with a
  lemma that they return on every C string and with what.  The word-at-a-time loops of strlen and
  strchr share one shape: align the pointer byte by byte, skip words the bit test rules out, finish
  byte by byte.
\<close>

section \<open>C strings\<close>

text \<open>The view v holds the string s: its bytes, none of them zero, then a zero byte.\<close>

definition cstr :: "cview \<Rightarrow> u8 list \<Rightarrow> bool" where
  "cstr v s \<longleftrightarrow> (\<forall>i < length s. v i = s ! i \<and> s ! i \<noteq> 0) \<and> v (length s) = 0"

definition first_at :: "(nat \<Rightarrow> bool) \<Rightarrow> nat \<Rightarrow> bool" where
  "first_at P n \<longleftrightarrow> P n \<and> (\<forall>i < n. \<not> P i)"

lemma cstr_first: "cstr v s \<Longrightarrow> first_at (\<lambda>i. v i = 0) (length s)"
  by (auto simp: cstr_def first_at_def)

lemma cstr_tl: "cstr v (x # s) \<Longrightarrow> cstr (\<lambda>i. v (Suc i)) s"
  by (fastforce simp: cstr_def)

lemma cstr_hd: "cstr v (x # s) \<Longrightarrow> v 0 = x \<and> x \<noteq> 0"
  by (force simp: cstr_def)

lemma cstr_Nil [simp]: "cstr v [] \<longleftrightarrow> v 0 = 0"
  by (simp add: cstr_def)

lemma first_at_Suc: "first_at P (Suc n) \<longleftrightarrow> \<not> P 0 \<and> first_at (\<lambda>i. P (Suc i)) n"
  by (auto simp: first_at_def less_Suc_eq_0_disj)

lemma first_at_shift: "first_at P n \<Longrightarrow> k \<le> n \<Longrightarrow> first_at (\<lambda>i. P (k + i)) (n - k)"
  by (auto simp: first_at_def)

section \<open>Scanning to the first byte of a kind\<close>

partial_function (option) scan_bytes :: "(u8 \<Rightarrow> bool) \<Rightarrow> 'b mem \<Rightarrow> 'b ptr \<Rightarrow> 'b ptr option" where
  "scan_bytes P m p = (if P (m p) then Some p else scan_bytes P m (padd p 1))"

partial_function (option) scan_words :: "(u32 \<Rightarrow> bool) \<Rightarrow> 'b mem \<Rightarrow> 'b ptr \<Rightarrow> 'b ptr option" where
  "scan_words stop m p = (if stop (ld32 m p) then Some p else scan_words stop m (padd p 4))"

function scan_align :: "(u8 \<Rightarrow> bool) \<Rightarrow> 'b mem \<Rightarrow> 'b ptr \<Rightarrow> 'b ptr + 'b ptr" where
  "scan_align P m p =
    (if UNALIGNED p then (if P (m p) then Inl p else scan_align P m (padd p 1)) else Inr p)"
  by pat_completeness auto
termination
proof (relation "measure (\<lambda>(P, m, p). (4 - snd p mod 4) mod 4)")
  fix P :: "u8 \<Rightarrow> bool" and m :: "'b mem" and p :: "'b ptr"
  assume "UNALIGNED p"
  then have "snd p mod 4 = 1 \<or> snd p mod 4 = 2 \<or> snd p mod 4 = 3"
    unfolding UNALIGNED_def using mod_less_divisor [of 4 "snd p"] by linarith
  then show "((P, m, padd p 1), P, m, p) \<in> measure (\<lambda>(P, m, p). (4 - snd p mod 4) mod 4)"
    by (auto simp: mod_Suc)
qed simp

declare scan_align.simps [simp del]

definition scan :: "(u8 \<Rightarrow> bool) \<Rightarrow> (u32 \<Rightarrow> bool) \<Rightarrow> 'b mem \<Rightarrow> 'b ptr \<Rightarrow> 'b ptr option" where
  "scan P stop m p =
    (case scan_align P m p of
       Inl q \<Rightarrow> Some q
     | Inr q \<Rightarrow> do { q \<leftarrow> scan_words stop m q; scan_bytes P m q })"

text \<open>The word test must stop at every word that holds a byte of the kind.\<close>

definition stops_at :: "(u32 \<Rightarrow> bool) \<Rightarrow> (u8 \<Rightarrow> bool) \<Rightarrow> bool" where
  "stops_at stop P \<longleftrightarrow> (\<forall>w. P (ucast w) \<or> P (ucast (drop_bit 8 w)) \<or> P (ucast (drop_bit 16 w)) \<or>
     P (ucast (drop_bit 24 w)) \<longrightarrow> stop w)"

lemma scan_bytes_first:
  "first_at (\<lambda>i. P (m (padd p i))) n \<Longrightarrow> scan_bytes P m p = Some (padd p n)"
proof (induction n arbitrary: p)
  case 0
  then show ?case by (subst scan_bytes.simps) (simp add: first_at_def)
next
  case (Suc n)
  then show ?case
    using Suc.IH [of "padd p 1"] by (subst scan_bytes.simps) (simp add: first_at_Suc)
qed

lemma scan_words_first:
  assumes "stops_at stop P"
  shows "first_at (\<lambda>i. P (m (padd p i))) n \<Longrightarrow> \<exists>k \<le> n. scan_words stop m p = Some (padd p k)"
proof (induction n arbitrary: p rule: less_induct)
  case (less n)
  show ?case
  proof (cases "stop (ld32 m p)")
    case True
    then show ?thesis by (subst scan_words.simps) (auto intro: exI [of _ 0])
  next
    case False
    with assms have np: "\<not> P (m p)" "\<not> P (m (padd p 1))" "\<not> P (m (padd p 2))" "\<not> P (m (padd p 3))"
      unfolding stops_at_def by (metis ld32_byte)+
    have "\<not> n < 4"
    proof
      assume "n < 4"
      then have "n = 0 \<or> n = 1 \<or> n = 2 \<or> n = 3" by auto
      with np less.prems show False by (auto simp: first_at_def)
    qed
    then have "\<exists>k \<le> n - 4. scan_words stop m (padd p 4) = Some (padd (padd p 4) k)"
      using less.IH [of "n - 4" "padd p 4"] first_at_shift [OF less.prems, of 4] by simp
    then obtain k where "k \<le> n - 4" "scan_words stop m (padd p 4) = Some (padd p (4 + k))"
      by auto
    with False \<open>\<not> n < 4\<close> show ?thesis
      by (subst scan_words.simps) (auto intro!: exI [of _ "4 + k"])
  qed
qed

lemma scan_align_first:
  "first_at (\<lambda>i. P (m (padd p i))) n \<Longrightarrow>
   scan_align P m p = Inl (padd p n) \<or> (\<exists>k \<le> n. scan_align P m p = Inr (padd p k))"
proof (induction n arbitrary: p)
  case 0
  then show ?case
    by (cases "UNALIGNED p") (auto simp: first_at_def scan_align.simps [of P m p] intro: exI [of _ 0])
next
  case (Suc n)
  show ?case
  proof (cases "UNALIGNED p")
    case True
    have "scan_align P m p = scan_align P m (padd p 1)"
      using Suc.prems True by (subst scan_align.simps) (simp add: first_at_Suc)
    moreover have "scan_align P m (padd p 1) = Inl (padd (padd p 1) n) \<or>
        (\<exists>k \<le> n. scan_align P m (padd p 1) = Inr (padd (padd p 1) k))"
      using Suc.prems by (intro Suc.IH) (simp add: first_at_Suc)
    ultimately show ?thesis
      by (metis Suc_le_mono padd_simps(2) plus_1_eq_Suc)
  next
    case False
    then show ?thesis
      by (subst scan_align.simps) (auto intro: exI [of _ 0])
  qed
qed

lemma scan_first:
  assumes "stops_at stop P" "first_at (\<lambda>i. P (m (padd p i))) n"
  shows "scan P stop m p = Some (padd p n)"
proof -
  from scan_align_first [of P m p n, OF assms(2)]
  consider "scan_align P m p = Inl (padd p n)" | k where "k \<le> n" "scan_align P m p = Inr (padd p k)"
    by blast
  then show ?thesis
  proof cases
    case 1
    then show ?thesis by (simp add: scan_def)
  next
    case 2
    have f: "first_at (\<lambda>i. P (m (padd (padd p k) i))) (n - k)"
      using first_at_shift [OF assms(2) 2(1)] by simp
    from scan_words_first [OF assms(1) f] obtain j
      where j: "j \<le> n - k" "scan_words stop m (padd p k) = Some (padd (padd p k) j)" by blast
    have "scan_bytes P m (padd p (k + j)) = Some (padd (padd p (k + j)) (n - k - j))"
      using first_at_shift [OF f j(1)] by (intro scan_bytes_first) (simp add: add.assoc)
    with 2 j show ?thesis by (simp add: scan_def)
  qed
qed

section \<open>strlen, strnlen and strchr\<close>

definition strlen :: "'b mem \<Rightarrow> 'b ptr \<Rightarrow> nat option" where
  "strlen m str =
    map_option (\<lambda>q. snd q - snd str) (scan (\<lambda>c. c = 0) (\<lambda>w. DETECTNULL w \<noteq> 0) m str)"

fun strnlen :: "cview \<Rightarrow> nat \<Rightarrow> nat" where
  "strnlen v 0 = 0"
| "strnlen v (Suc n) = (if v 0 \<noteq> 0 then Suc (strnlen (\<lambda>i. v (Suc i)) n) else 0)"

definition strchr_mask :: "u8 \<Rightarrow> u32" where
  "strchr_mask c =
    (let mask = ucast c; mask = push_bit 8 mask OR mask in push_bit 16 mask OR mask)"

text \<open>strchr: None is no return, Some None the null pointer.\<close>

definition strchr :: "'b mem \<Rightarrow> 'b ptr \<Rightarrow> u32 \<Rightarrow> 'b ptr option option" where
  "strchr m s1 i =
    (let c = ucast i :: u8 in
     if c = 0 then map_option Some (scan (\<lambda>x. x = 0) (\<lambda>w. DETECTNULL w \<noteq> 0) m s1)
     else do {
       q \<leftarrow> scan (\<lambda>x. x = 0 \<or> x = c)
         (\<lambda>w. DETECTNULL w \<noteq> 0 \<or> DETECTNULL (w XOR strchr_mask c) \<noteq> 0) m s1;
       Some (if m q = c then Some q else None)
     })"

lemma stops_at_DETECTNULL: "stops_at (\<lambda>w. DETECTNULL w \<noteq> 0) (\<lambda>c. c = 0)"
  unfolding stops_at_def using DETECTNULL_zero_byte by blast

lemma xor_mask_byte:
  "ucast (drop_bit k w) = (c :: u8) \<Longrightarrow> k = 0 \<or> k = 8 \<or> k = 16 \<or> k = 24 \<Longrightarrow>
   ucast (drop_bit k (w XOR strchr_mask c)) = (0 :: u8)"
proof -
  assume k: "k = 0 \<or> k = 8 \<or> k = 16 \<or> k = 24"
  have z: "bit (x :: u8) n \<Longrightarrow> n < 8" for x n
    using bit_imp_le_length [of x n] by simp
  have m: "ucast (drop_bit k (strchr_mask c)) = c"
    using k by (elim disjE; intro bit_word_eqI)
      (auto simp: strchr_mask_def Let_def bit_simps add.commute dest: z)
  assume w: "ucast (drop_bit k w) = c"
  have "ucast (drop_bit k (w XOR strchr_mask c)) =
      (ucast (drop_bit k w) XOR ucast (drop_bit k (strchr_mask c)) :: u8)"
    by (rule bit_word_eqI) (simp add: bit_simps)
  then show ?thesis by (simp add: m w)
qed

lemma stops_at_DETECTCHAR:
  "stops_at (\<lambda>w. DETECTNULL w \<noteq> 0 \<or> DETECTNULL (w XOR strchr_mask c) \<noteq> 0) (\<lambda>x. x = 0 \<or> x = c)"
  unfolding stops_at_def
  using DETECTNULL_zero_byte xor_mask_byte [of 0 _ c] xor_mask_byte [of 8 _ c]
    xor_mask_byte [of 16 _ c] xor_mask_byte [of 24 _ c]
  by (metis drop_bit_0 id_apply)

lemma strlen_cstr: "cstr (view m p) s \<Longrightarrow> strlen m p = Some (length s)"
  using scan_first [OF stops_at_DETECTNULL, of m p "length s"] cstr_first [of "view m p" s]
  by (simp add: strlen_def)

lemma strnlen_min: "cstr v s \<Longrightarrow> strnlen v n = min n (length s)"
proof (induction n arbitrary: v s)
  case (Suc n)
  then show ?case
  proof (cases s)
    case (Cons x t)
    then show ?thesis
      using cstr_hd [of v x t] cstr_tl [of v x t] Suc by simp
  qed simp
qed simp

lemma strchr_nul: "cstr (view m p) s \<Longrightarrow> strchr m p 0 = Some (Some (padd p (length s)))"
  using scan_first [OF stops_at_DETECTNULL, of m p "length s"] cstr_first [of "view m p" s]
  by (simp add: strchr_def)

lemma strchr_found:
  assumes "cstr (view m p) s" "first_at (\<lambda>i. i < length s \<and> s ! i = ucast c) n"
  shows "strchr m p c = Some (Some (padd p n))"
proof -
  have s: "m (padd p i) = s ! i" "s ! i \<noteq> 0" if "i < length s" for i
    using assms(1) that by (auto simp: cstr_def)
  have "ucast c \<noteq> (0::u8)"
    using assms(2) s(2) [of n] by (auto simp: first_at_def)
  moreover have "first_at (\<lambda>i. m (padd p i) = 0 \<or> m (padd p i) = ucast c) n"
    using assms(2) s by (fastforce simp: first_at_def)
  moreover have "m (padd p n) = ucast c"
    using assms(2) s(1) [of n] by (auto simp: first_at_def)
  ultimately show ?thesis
    using scan_first [OF stops_at_DETECTCHAR, of m p "ucast c" n] by (simp add: strchr_def)
qed

lemma strchr_absent:
  assumes "cstr (view m p) s" "ucast c \<notin> set s" "ucast c \<noteq> (0::u8)"
  shows "strchr m p c = Some None"
proof -
  have s: "m (padd p i) = s ! i" "s ! i \<noteq> 0" if "i < length s" for i
    using assms(1) that by (auto simp: cstr_def)
  have z: "m (padd p (length s)) = 0"
    using assms(1) by (simp add: cstr_def)
  have "first_at (\<lambda>i. m (padd p i) = 0 \<or> m (padd p i) = ucast c) (length s)"
    using assms(2) s z by (auto simp: first_at_def) (metis nth_mem)
  then show ?thesis
    using scan_first [OF stops_at_DETECTCHAR, of m p "ucast c" "length s"] assms(3) z
    by (simp add: strchr_def)
qed

section \<open>strcmp\<close>

text \<open>
  The byte loop of strcmp.S: stop at a zero byte of the first string or at the first difference,
  and return the difference of the two bytes there.
\<close>

partial_function (option) strcmp_from :: "cview \<Rightarrow> cview \<Rightarrow> nat \<Rightarrow> int option" where
  "strcmp_from a b i =
    (if a i \<noteq> 0 \<and> a i = b i then strcmp_from a b (Suc i) else Some (uint (a i) - uint (b i)))"

definition strcmp :: "cview \<Rightarrow> cview \<Rightarrow> int option" where
  "strcmp a b = strcmp_from a b 0"

lemma strcmp_from_first:
  "first_at (\<lambda>i. a (k + i) = 0 \<or> a (k + i) \<noteq> b (k + i)) n \<Longrightarrow>
   strcmp_from a b k = Some (uint (a (k + n)) - uint (b (k + n)))"
proof (induction n arbitrary: k)
  case 0
  then show ?case by (subst strcmp_from.simps) (auto simp: first_at_def)
next
  case (Suc n)
  then show ?case
    using Suc.IH [of "Suc k"] by (subst strcmp_from.simps) (auto simp: first_at_Suc)
qed

lemma first_at_exists: "P n \<Longrightarrow> \<exists>k \<le> n. first_at P k"
  unfolding first_at_def by (metis (full_types) exists_least_iff linorder_not_less nle_le)

lemma strcmp_returns:
  assumes "\<exists>n. a n = 0 \<or> a n \<noteq> b n"
  shows "\<exists>k. first_at (\<lambda>i. a i = 0 \<or> a i \<noteq> b i) k \<and> strcmp a b = Some (uint (a k) - uint (b k))"
proof -
  from assms obtain n where "a n = 0 \<or> a n \<noteq> b n" by blast
  with first_at_exists [of "\<lambda>i. a i = 0 \<or> a i \<noteq> b i" n]
  obtain k where "first_at (\<lambda>i. a i = 0 \<or> a i \<noteq> b i) k" by blast
  then show ?thesis
    using strcmp_from_first [of a 0 b k] by (auto simp: strcmp_def)
qed

lemma strcmp_eq_iff:
  assumes "cstr a s" "cstr b t"
  shows "\<exists>r. strcmp a b = Some r \<and> (r = 0 \<longleftrightarrow> s = t)"
proof -
  have a: "a (length s) = 0" "\<And>i. i < length s \<Longrightarrow> a i = s ! i \<and> a i \<noteq> 0"
    and b: "b (length t) = 0" "\<And>i. i < length t \<Longrightarrow> b i = t ! i \<and> b i \<noteq> 0"
    using assms by (auto simp: cstr_def)
  obtain k where k: "first_at (\<lambda>i. a i = 0 \<or> a i \<noteq> b i) k" "strcmp a b = Some (uint (a k) - uint (b k))"
    using strcmp_returns [of a b] a(1) by blast
  have "a k = b k \<longleftrightarrow> s = t"
  proof
    assume e: "a k = b k"
    with k(1) have "a k = 0" "b k = 0" by (auto simp: first_at_def)
    moreover have "\<And>i. i < k \<Longrightarrow> a i \<noteq> 0 \<and> a i = b i" using k(1) by (auto simp: first_at_def)
    ultimately have "k = length s" "k = length t"
      using a b by (metis nat_neq_iff)+
    then show "s = t"
      using a(2) b(2) k(1) by (intro nth_equalityI) (auto simp: first_at_def)
  next
    assume e: "s = t"
    show "a k = b k"
    proof (cases "k < length s")
      case True
      then show ?thesis using a(2) b(2) e by simp
    next
      case False
      moreover have "k \<le> length s"
        using k(1) a(1) not_le by (auto simp: first_at_def)
      ultimately show ?thesis using a(1) b(1) e by simp
    qed
  qed
  then show ?thesis using k(2) by (auto simp: word_uint_eq_iff)
qed

section \<open>strcpy and strncpy\<close>

text \<open>
  The byte loop of strcpy.c: copy up to and including the terminator.  Source and destination do
  not overlap (C makes that undefined), so the source is a view of the memory before the call.
\<close>

partial_function (option) strcpy_from :: "'b mem \<Rightarrow> 'b ptr \<Rightarrow> cview \<Rightarrow> nat \<Rightarrow> 'b mem option" where
  "strcpy_from m d v i =
    (let m' = st8 m d (v i) in if v i = 0 then Some m' else strcpy_from m' (padd d 1) v (Suc i))"

definition strcpy :: "'b mem \<Rightarrow> 'b ptr \<Rightarrow> cview \<Rightarrow> 'b mem option" where
  "strcpy m dst v = strcpy_from m dst v 0"

lemma strcpy_from_cstr:
  "cstr (\<lambda>i. v (k + i)) s \<Longrightarrow> strcpy_from m d v k = Some (st_list m d (s @ [0]))"
proof (induction s arbitrary: m d k)
  case Nil
  then show ?case by (subst strcpy_from.simps) simp
next
  case (Cons x s)
  then show ?case
    using cstr_hd [OF Cons.prems] cstr_tl [OF Cons.prems] Cons.IH [of "Suc k" "st8 m d x" "padd d 1"]
    by (subst strcpy_from.simps) simp
qed

lemma strcpy_cstr: "cstr v s \<Longrightarrow> strcpy m d v = Some (st_list m d (s @ [0]))"
  using strcpy_from_cstr [of v 0 s m d] by (simp add: strcpy_def)

text \<open>strncpy: whole words while they hold no zero byte, then bytes, then zero padding.\<close>

function strncpy_words :: "'b mem \<Rightarrow> 'b ptr \<Rightarrow> 'b ptr \<Rightarrow> nat \<Rightarrow> 'b mem \<times> 'b ptr \<times> 'b ptr \<times> nat" where
  "strncpy_words m d s count =
    (if 4 \<le> count \<and> DETECTNULL (ld32 m s) = 0
     then strncpy_words (copy_word m d s) (padd d 4) (padd s 4) (count - 4)
     else (m, d, s, count))"
  by pat_completeness auto
termination
  by (relation "measure (\<lambda>(m, d, s, count). count)") auto

declare strncpy_words.simps [simp del]

fun strncpy_bytes :: "'b mem \<Rightarrow> 'b ptr \<Rightarrow> 'b ptr \<Rightarrow> nat \<Rightarrow> 'b mem \<times> 'b ptr \<times> nat" where
  "strncpy_bytes m d s 0 = (m, d, 0)"
| "strncpy_bytes m d s (Suc count) =
    (let m' = st8 m d (m s) in
     if m s = 0 then (m', padd d 1, count) else strncpy_bytes m' (padd d 1) (padd s 1) count)"

definition strncpy :: "'b mem \<Rightarrow> 'b ptr \<Rightarrow> 'b ptr \<Rightarrow> nat \<Rightarrow> 'b mem" where
  "strncpy m dst0 src0 count =
    (case (if \<not> (UNALIGNED src0 \<or> UNALIGNED dst0) \<and> 4 \<le> count
           then strncpy_words m dst0 src0 count else (m, dst0, src0, count)) of
       (m, dst, src, count) \<Rightarrow>
         (case strncpy_bytes m dst src count of (m, dst, count) \<Rightarrow> fill_bytes m dst 0 count))"

text \<open>The reference: the string's bytes, zero padded, cut at the count.\<close>

definition padded :: "u8 list \<Rightarrow> nat \<Rightarrow> u8 list" where
  "padded s n = take n (s @ replicate n 0)"

lemma length_padded [simp]: "length (padded s n) = n"
  by (simp add: padded_def)

lemma padded_simps: "padded s 0 = []" "padded [] n = replicate n 0"
  by (simp_all add: padded_def)

lemma nth_padded: "i < n \<Longrightarrow> padded s n ! i = (if i < length s then s ! i else 0)"
  by (simp add: padded_def nth_append)

lemma padded_Cons: "padded (x # s) (Suc n) = x # padded s n"
  by (rule nth_equalityI) (auto simp: nth_padded nth_Cons')

lemma padded_add: "k \<le> length s \<Longrightarrow> k \<le> n \<Longrightarrow> padded s n = take k s @ padded (drop k s) (n - k)"
  by (rule nth_equalityI) (auto simp: nth_padded nth_append)

lemma st_list_append: "st_list m p (xs @ ys) = st_list (st_list m p xs) (padd p (length xs)) ys"
  by (induction xs arbitrary: m p) (simp_all add: add.commute)

lemma st_list_zeros: "st_list m p (replicate n 0) = fill_bytes m p 0 n"
  by (simp add: fill_bytes_ref fill_ref_def)

lemma cstr_view_elsewhere:
  "fst d \<noteq> fst s \<Longrightarrow> view (st_list m d xs) s = view m s"
  by (rule ext) (simp add: st_list_other)

lemma cstr_drop: "cstr v s \<Longrightarrow> k \<le> length s \<Longrightarrow> cstr (\<lambda>i. v (k + i)) (drop k s)"
  by (auto simp: cstr_def)

lemma strncpy_bytes_ref:
  "fst d \<noteq> fst s \<Longrightarrow> cstr (view m s) t \<Longrightarrow>
   (case strncpy_bytes m d s n of (m, d, n) \<Rightarrow> fill_bytes m d 0 n) = st_list m d (padded t n)"
proof (induction n arbitrary: m d s t)
  case 0
  then show ?case by (simp add: padded_simps)
next
  case (Suc n)
  show ?case
  proof (cases t)
    case Nil
    with Suc.prems(2) have "m s = 0" by simp
    with Nil show ?thesis
      by (simp add: padded_simps st_list_zeros)
  next
    case (Cons x u)
    have c: "cstr (view m s) (x # u)"
      using Suc.prems(2) unfolding Cons .
    have x: "m s = x" "x \<noteq> 0"
      using cstr_hd [OF c] by simp_all
    have ne: "padd s i \<noteq> d" for i
      using Suc.prems(1) by (auto simp: padd_def)
    have tl: "cstr (view (st8 m d x) (padd s 1)) u"
      using cstr_tl [OF c] ne by (simp add: cstr_def st8_apply)
    show ?thesis
      using Suc.IH [OF _ tl, of "padd d 1"] Suc.prems(1) x Cons
      by (simp add: padded_Cons)
  qed
qed

lemma strncpy_words_ref:
  "fst d \<noteq> fst s \<Longrightarrow> cstr (view m s) t \<Longrightarrow>
   \<exists>k. strncpy_words m d s n = (st_list m d (take k t), padd d k, padd s k, n - k) \<and> k \<le> n \<and> k \<le> length t"
proof (induction n arbitrary: m d s t rule: less_induct)
  case (less n)
  show ?case
  proof (cases "4 \<le> n \<and> DETECTNULL (ld32 m s) = 0")
    case True
    have nz: "m s \<noteq> 0" "m (padd s 1) \<noteq> 0" "m (padd s 2) \<noteq> 0" "m (padd s 3) \<noteq> 0"
      using True DETECTNULL_zero_byte [of "ld32 m s"] by (auto simp: ld32_byte)
    have t: "\<And>i. i < length t \<Longrightarrow> m (padd s i) = t ! i" "m (padd s (length t)) = 0"
      using less.prems(2) by (auto simp: cstr_def)
    have l: "4 \<le> length t"
    proof (rule ccontr)
      assume "\<not> 4 \<le> length t"
      then have "length t = 0 \<or> length t = 1 \<or> length t = 2 \<or> length t = 3" by arith
      with nz t(2) show False by auto
    qed
    have b: "bytes m s 4 = take 4 t"
      using l t(1) by (intro nth_equalityI) auto
    have w: "copy_word m d s = st_list m d (take 4 t)"
      by (simp add: copy_word_ref copy_ref_def b)
    have "cstr (view (st_list m d (take 4 t)) (padd s 4)) (drop 4 t)"
      using cstr_drop [OF less.prems(2) l] less.prems(1) by (simp add: cstr_def st_list_other)
    then obtain k where k: "strncpy_words (st_list m d (take 4 t)) (padd d 4) (padd s 4) (n - 4) =
        (st_list (st_list m d (take 4 t)) (padd d 4) (take k (drop 4 t)), padd (padd d 4) k,
         padd (padd s 4) k, n - 4 - k)" "k \<le> n - 4" "k \<le> length (drop 4 t)"
      using less.IH [of "n - 4" "padd d 4" "padd s 4"] less.prems(1) True by fastforce
    have "st_list (st_list m d (take 4 t)) (padd d 4) (take k (drop 4 t)) = st_list m d (take (4 + k) t)"
      using st_list_append [of m d "take 4 t" "take k (drop 4 t)"] l by (simp add: take_add min_absorb2)
    moreover have "4 + k \<le> n \<and> 4 + k \<le> length t"
      using k(2,3) True l by simp arith
    ultimately show ?thesis
      using k(1) True by (intro exI [of _ "4 + k"]) (simp add: strncpy_words.simps [of m d s n] w)
  next
    case False
    then show ?thesis
      by (intro exI [of _ 0]) (auto simp: strncpy_words.simps [of m d s n])
  qed
qed

lemma strncpy_padded:
  assumes "fst d \<noteq> fst s" "cstr (view m s) t"
  shows "strncpy m d s n = st_list m d (padded t n)"
proof (cases "\<not> (UNALIGNED s \<or> UNALIGNED d) \<and> 4 \<le> n")
  case True
  obtain k where k: "strncpy_words m d s n = (st_list m d (take k t), padd d k, padd s k, n - k)"
    "k \<le> n" "k \<le> length t"
    using strncpy_words_ref [OF assms] by blast
  have "cstr (view (st_list m d (take k t)) (padd s k)) (drop k t)"
    using cstr_drop [OF assms(2) k(3)] assms(1) by (simp add: cstr_def st_list_other)
  then have "strncpy m d s n = st_list (st_list m d (take k t)) (padd d k) (padded (drop k t) (n - k))"
    using strncpy_bytes_ref [of "padd d k" "padd s k" "st_list m d (take k t)" "drop k t" "n - k"] True k(1) assms(1)
    by (simp add: strncpy_def)
  also have "\<dots> = st_list m d (padded t n)"
    using st_list_append [of m d "take k t" "padded (drop k t) (n - k)"] padded_add [OF k(3,2)] k(3)
    by (simp add: min_absorb2)
  finally show ?thesis .
next
  case False
  then have "strncpy m d s n = (case strncpy_bytes m d s n of (m, d, n) \<Rightarrow> fill_bytes m d 0 n)"
    unfolding strncpy_def by (simp only: if_False prod.case)
  then show ?thesis using strncpy_bytes_ref [OF assms] by simp
qed

text \<open>The first position of an element.\<close>

lemma first_at_takeWhile:
  "x \<in> set s \<Longrightarrow> first_at (\<lambda>k. k < length s \<and> s ! k = x) (length (takeWhile (\<lambda>y. y \<noteq> x) s))"
proof (induction s)
  case (Cons y s)
  then show ?case
    by (cases "y = x") (auto simp: first_at_def less_Suc_eq_0_disj)
qed simp

lemma cstr_lit: "0 \<notin> set (str_bytes s) \<Longrightarrow> cstr (lit s) (str_bytes s)"
  using nth_mem [of _ s] by (force simp: cstr_def lit_def str_bytes_def)

section \<open>Properties\<close>

text \<open>strlen returns the length of every C string.\<close>

theorem strlen_length:
  assumes "cstr (view m str) s"
  shows "strlen m str = Some (length s)"
  by (rule strlen_cstr [OF assms])

theorem strlen_length_witness:
  "strlen (st_list (\<lambda>_. 0) ((), 1) [72, 105, 33, 33, 33, 33]) ((), 1) = Some 6"
proof -
  have "cstr (view (st_list (\<lambda>_. 0) ((), 1) [72, 105, 33, 33, 33, 33]) ((), 1)) [72, 105, 33, 33, 33, 33]"
    by (auto simp: cstr_def st_list_padd nth_Cons' simp del: st_list.simps padd_simps)
  from strlen_length [OF this] show ?thesis by simp
qed

text \<open>strchr returns the first occurrence of the character, the terminator counting as part of the
  string, and the null pointer when there is none.\<close>

theorem strchr_first:
  assumes "cstr (view m s1) s"
  shows "strchr m s1 i =
    Some (if ucast i = (0 :: u8) \<or> ucast i \<in> set s
          then Some (padd s1 (length (takeWhile (\<lambda>x. x \<noteq> ucast i) s))) else None)"
proof (cases "ucast i \<in> set s")
  case True
  let ?n = "length (takeWhile (\<lambda>x. x \<noteq> ucast i) s)"
  have "first_at (\<lambda>k. k < length s \<and> s ! k = ucast i) ?n"
    using first_at_takeWhile [OF True] .
  then show ?thesis using strchr_found [OF assms] True by simp
next
  case False
  show ?thesis
  proof (cases "ucast i = (0 :: u8)")
    case True
    have tw: "takeWhile (\<lambda>x. x \<noteq> ucast i) s = s"
      using False by auto
    have "strchr m s1 i = Some (Some (padd s1 (length s)))"
      using strchr_nul [OF assms] by (simp add: strchr_def True)
    then show ?thesis unfolding tw using True by simp
qed (use strchr_absent [OF assms False] False in simp)
qed

theorem strchr_first_witness:
  "strchr (st_list (\<lambda>_. 0) ((), 2) [97, 98, 58, 99, 58]) ((), 2) 58 = Some (Some ((), 4))"
proof -
  have "cstr (view (st_list (\<lambda>_. 0) ((), 2) [97, 98, 58, 99, 58]) ((), 2)) [97, 98, 58, 99, 58]"
    by (auto simp: cstr_def st_list_padd nth_Cons' simp del: st_list.simps padd_simps)
  from strchr_first [OF this, of 58] show ?thesis by simp
qed

text \<open>strcmp returns on C strings, and its result is zero exactly for equal strings.\<close>

theorem strcmp_zero_iff:
  assumes "cstr a s" "cstr b t"
  shows "\<exists>r. strcmp a b = Some r \<and> (r = 0 \<longleftrightarrow> s = t)"
  by (rule strcmp_eq_iff [OF assms])

theorem strcmp_zero_iff_witness:
  "\<exists>r. strcmp (lit ''blksize'') (lit ''blksizE'') = Some r \<and> r \<noteq> 0"
proof -
  have "cstr (lit s) (str_bytes s)" if "list_all (\<lambda>c. of_char c \<noteq> (0 :: u8)) s" for s
    using that by (auto simp: cstr_def lit_def str_bytes_def list_all_length)
  from this [of "''blksize''"] this [of "''blksizE''"]
  show ?thesis using strcmp_zero_iff [of "lit ''blksize''" _ "lit ''blksizE''"]
    by (fastforce simp: str_bytes_def)
qed

text \<open>strncpy writes the string cut to the count, or padded with zero bytes up to it, and nothing else.\<close>

theorem strncpy_copies:
  assumes "fst dst \<noteq> fst src" "cstr (view m src) s"
  shows "strncpy m dst src count (b, i) =
    (if b = fst dst \<and> snd dst \<le> i \<and> i < snd dst + count
     then (if i - snd dst < length s then s ! (i - snd dst) else 0) else m (b, i))"
proof (cases "b = fst dst")
  case True
  then show ?thesis
    by (auto simp: strncpy_padded [OF assms] st_list_apply nth_padded)
next
  case False
  then show ?thesis
    by (simp add: strncpy_padded [OF assms] st_list_other)
qed

theorem strncpy_copies_witness:
  "map (\<lambda>i. strncpy (st_list (\<lambda>_. 9) (True, 0) [104, 105, 0, 9]) (False, 0) (True, 0) 4 (False, i)) [0..<5] =
   [104, 105, 0, 0, 9]"
proof -
  let ?m = "st_list (\<lambda>_. 9) (True, 0) [104, 105, 0, 9] :: bool mem"
  have "cstr (view ?m (True, 0)) [104, 105]"
    by (auto simp: cstr_def st_list_padd [of _ "(True, 0)", simplified] nth_Cons' simp del: st_list.simps)
  from strncpy_copies [of "(False, 0)" "(True, 0)", OF _ this, of 4 False] show ?thesis
    by (simp add: upt_rec st8_apply)
qed

end
