(* ===== verification/Uart.thy ===== *)
theory Uart
  imports CStr
begin

unbundle bit_operations_syntax

text \<open>
  drivers/console/ftuart.c: the console UART.  The status register is volatile: the k-th read of LSR
  gives lsr k, whatever that is, and the k-th read of the receive buffer gives rbr k.  Offset 0 is the
  divisor latch while LCR.DLAB is set and the transmit buffer otherwise, offset 4 the other half of
  the latch or IER.  A wait for a status bit that never comes has no result.  char is unsigned, as on
  ARM, so the test for -1 in ftuart_gets never holds.
\<close>

definition FTUART_FCR_FIFO_ENABLE :: u8 where "FTUART_FCR_FIFO_ENABLE = push_bit 0 1"
definition FTUART_FCR_RXFIFO_RESET :: u8 where "FTUART_FCR_RXFIFO_RESET = push_bit 1 1"
definition FTUART_FCR_TXFIFO_RESET :: u8 where "FTUART_FCR_TXFIFO_RESET = push_bit 2 1"
definition FTUART_LCR_WL0 :: u8 where "FTUART_LCR_WL0 = push_bit 0 1"
definition FTUART_LCR_WL1 :: u8 where "FTUART_LCR_WL1 = push_bit 1 1"
definition FTUART_LCR_DLAB :: u8 where "FTUART_LCR_DLAB = push_bit 7 1"
definition FTUART_LSR_DATA_READY :: u8 where "FTUART_LSR_DATA_READY = push_bit 0 1"
definition FTUART_LSR_THR_EMPTY :: u8 where "FTUART_LSR_THR_EMPTY = push_bit 5 1"

record ftuart =
  DLL :: u8
  DLM :: u8
  IER :: u8
  FCR :: u8
  LCR :: u8
  tx :: "u8 list"
  lsr :: "nat \<Rightarrow> u8"
  lsr_n :: nat
  rbr :: "nat \<Rightarrow> u8"
  rbr_n :: nat

definition write_0 :: "u8 \<Rightarrow> 'z ftuart_scheme \<Rightarrow> 'z ftuart_scheme" where
  "write_0 v u = (if LCR u AND FTUART_LCR_DLAB \<noteq> 0 then u\<lparr>DLL := v\<rparr> else u\<lparr>tx := tx u @ [v]\<rparr>)"

definition write_4 :: "u8 \<Rightarrow> 'z ftuart_scheme \<Rightarrow> 'z ftuart_scheme" where
  "write_4 v u = (if LCR u AND FTUART_LCR_DLAB \<noteq> 0 then u\<lparr>DLM := v\<rparr> else u\<lparr>IER := v\<rparr>)"

definition read_LSR :: "'z ftuart_scheme \<Rightarrow> u8 \<times> 'z ftuart_scheme" where
  "read_LSR u = (lsr u (lsr_n u), u\<lparr>lsr_n := Suc (lsr_n u)\<rparr>)"

definition read_RBR :: "'z ftuart_scheme \<Rightarrow> u8 \<times> 'z ftuart_scheme" where
  "read_RBR u = (rbr u (rbr_n u), u\<lparr>rbr_n := Suc (rbr_n u)\<rparr>)"

definition ftuart_set_baud :: "u32 \<Rightarrow> 'z ftuart_scheme \<Rightarrow> 'z ftuart_scheme" where
  "ftuart_set_baud baud u =
    (let u = u\<lparr>LCR := LCR u OR FTUART_LCR_DLAB\<rparr>;
         u = write_4 (ucast (drop_bit 8 baud AND 0xff)) u;
         u = write_0 (ucast (baud AND 0xff)) u
     in u\<lparr>LCR := LCR u AND NOT FTUART_LCR_DLAB\<rparr>)"

definition uart_init :: "u32 \<Rightarrow> 'z ftuart_scheme \<Rightarrow> 'z ftuart_scheme" where
  "uart_init baud u =
    (let u = ftuart_set_baud baud u;
         u = u\<lparr>LCR := FTUART_LCR_WL0 OR FTUART_LCR_WL1\<rparr>
     in u\<lparr>FCR := FTUART_FCR_FIFO_ENABLE OR FTUART_FCR_RXFIFO_RESET OR FTUART_FCR_TXFIFO_RESET\<rparr>)"

partial_function (option) wait_LSR :: "u8 \<Rightarrow> 'z ftuart_scheme \<Rightarrow> 'z ftuart_scheme option" where
  "wait_LSR b u = (let r = read_LSR u in if fst r AND b = 0 then wait_LSR b (snd r) else Some (snd r))"

definition ftuart_fini :: "'z ftuart_scheme \<Rightarrow> 'z ftuart_scheme option" where
  "ftuart_fini u =
    do {
      u \<leftarrow> wait_LSR FTUART_LSR_THR_EMPTY u;
      Some (u\<lparr>FCR := FTUART_FCR_RXFIFO_RESET OR FTUART_FCR_TXFIFO_RESET\<rparr>)
    }"

partial_function (option) ftuart_putc :: "u8 \<Rightarrow> 'z ftuart_scheme \<Rightarrow> 'z ftuart_scheme option" where
  "ftuart_putc c u =
    do {
      u \<leftarrow> (if c = 10 then ftuart_putc 13 u else Some u);
      u \<leftarrow> wait_LSR FTUART_LSR_THR_EMPTY u;
      Some (write_0 c u)
    }"

definition ftuart_getc :: "'z ftuart_scheme \<Rightarrow> (u8 \<times> 'z ftuart_scheme) option" where
  "ftuart_getc u =
    do {
      u \<leftarrow> wait_LSR FTUART_LSR_DATA_READY u;
      let (ret, u) = read_RBR u;
      Some (if ret = 13 then 10 else ret, u)
    }"

text \<open>puts(s), s a string in memory seen as a view (never NULL here).\<close>

partial_function (option) puts_from :: "cview \<Rightarrow> nat \<Rightarrow> 'z ftuart_scheme \<Rightarrow> 'z ftuart_scheme option" where
  "puts_from s i u =
    (if s i = 0 then Some u
     else do {
       u \<leftarrow> (if s i = 10 then ftuart_putc 13 u else Some u);
       u \<leftarrow> ftuart_putc (s i) u;
       puts_from s (Suc i) u
     })"

definition ftuart_puts :: "cview \<Rightarrow> 'z ftuart_scheme \<Rightarrow> 'z ftuart_scheme option" where
  "ftuart_puts s u = puts_from s 0 u"

partial_function (option) gets_loop ::
  "'b mem \<Rightarrow> 'b ptr \<Rightarrow> nat \<Rightarrow> 'z ftuart_scheme \<Rightarrow> (u8 \<times> nat \<times> 'b mem \<times> 'z ftuart_scheme) option" where
  "gets_loop m s i u =
    do {
      (c, u) \<leftarrow> ftuart_getc u;
      let m = st8 m (padd s i) c;
      u \<leftarrow> ftuart_putc c u;
      if c \<noteq> 0 \<and> c \<noteq> 13 \<and> c \<noteq> 10 then gets_loop m s (i + 1) u else Some (c, i + 1, m, u)
    }"

definition ftuart_gets :: "'b mem \<Rightarrow> 'b ptr \<Rightarrow> 'z ftuart_scheme \<Rightarrow> ('b mem \<times> 'z ftuart_scheme) option" where
  "ftuart_gets m s u =
    do {
      (c, i, m, u) \<leftarrow> gets_loop m s 0 u;
      Some (if c \<noteq> 0 then st8 m (padd s (i - 1)) 0 else m, u)
    }"

definition ftuart_kbhit :: "'z ftuart_scheme \<Rightarrow> u8 \<times> 'z ftuart_scheme" where
  "ftuart_kbhit u =
    (let (l, u) = read_LSR u in if l AND FTUART_LSR_DATA_READY \<noteq> 0 then read_RBR u else (0, u))"

section \<open>What goes out and what comes in\<close>

text \<open>A wait ends when the bit keeps coming back; the transmit buffer empties, the user types.\<close>

definition recurs :: "u8 \<Rightarrow> 'z ftuart_scheme \<Rightarrow> bool" where
  "recurs b u \<longleftrightarrow> (\<forall>k. \<exists>j \<ge> k. lsr u j AND b \<noteq> 0)"

definition line_ready :: "'z ftuart_scheme \<Rightarrow> bool" where
  "line_ready u \<longleftrightarrow> recurs FTUART_LSR_THR_EMPTY u \<and> recurs FTUART_LSR_DATA_READY u \<and> LCR u AND FTUART_LCR_DLAB = 0"

text \<open>u' is u after sending out and receiving k bytes, and some status reads.\<close>

definition talked :: "'z ftuart_scheme \<Rightarrow> u8 list \<Rightarrow> nat \<Rightarrow> 'z ftuart_scheme \<Rightarrow> bool" where
  "talked u out k u' \<longleftrightarrow> (\<exists>n. u' = u\<lparr>tx := tx u @ out, lsr_n := n, rbr_n := rbr_n u + k\<rparr>)"

lemma talked_ready: "talked u out k u' \<Longrightarrow> line_ready u' = line_ready u"
  by (auto simp: talked_def line_ready_def recurs_def)

lemma talked_trans: "talked u a j u' \<Longrightarrow> talked u' b k u'' \<Longrightarrow> talked u (a @ b) (j + k) u''"
  unfolding talked_def by (elim exE, rule_tac x = na in exI) (simp add: add.assoc)

lemma talked_refl: "talked u [] 0 u"
  by (auto simp: talked_def intro!: exI [of _ "lsr_n u"])

lemma talked_rbr: "talked u out k u' \<Longrightarrow> rbr u' = rbr u \<and> rbr_n u' = rbr_n u + k \<and> tx u' = tx u @ out"
  by (auto simp: talked_def)

lemma wait_LSR_returns:
  assumes "recurs b u"
  shows "\<exists>n. wait_LSR b u = Some (u\<lparr>lsr_n := n\<rparr>)"
proof -
  obtain j where "lsr u (lsr_n u + j) AND b \<noteq> 0" using assms unfolding recurs_def by (metis le_Suc_ex)
  then show ?thesis
    using assms
  proof (induction j arbitrary: u)
    case 0
    then show ?case by (subst wait_LSR.simps) (auto simp: read_LSR_def Let_def)
  next
    case (Suc j)
    show ?case
    proof (cases "lsr u (lsr_n u) AND b = 0")
      case True
      let ?u = "u\<lparr>lsr_n := Suc (lsr_n u)\<rparr>"
      obtain n where "wait_LSR b ?u = Some (?u\<lparr>lsr_n := n\<rparr>)"
        using Suc.IH [of ?u] Suc.prems by (auto simp: recurs_def)
      then show ?thesis using True by (subst wait_LSR.simps) (auto simp: read_LSR_def Let_def)
    next
      case False
      then show ?thesis by (subst wait_LSR.simps) (auto simp: read_LSR_def Let_def)
    qed
  qed
qed

definition crlf :: "u8 \<Rightarrow> u8 list" where
  "crlf c = (if c = 10 then [13, 10] else [c])"

lemma putc_plain:
  assumes "line_ready u" "c \<noteq> 10"
  shows "\<exists>u'. ftuart_putc c u = Some u' \<and> talked u [c] 0 u'"
proof -
  obtain n where "wait_LSR FTUART_LSR_THR_EMPTY u = Some (u\<lparr>lsr_n := n\<rparr>)"
    using wait_LSR_returns assms(1) by (auto simp: line_ready_def)
  then show ?thesis
    using assms by (subst ftuart_putc.simps) (auto simp: write_0_def talked_def line_ready_def intro!: exI [of _ n] ftuart.equality)
qed

lemma putc_talks:
  assumes "line_ready u"
  shows "\<exists>u'. ftuart_putc c u = Some u' \<and> talked u (crlf c) 0 u'"
proof (cases "c = 10")
  case False
  then show ?thesis using putc_plain [OF assms] by (simp add: crlf_def)
next
  case True
  obtain u1 where u1: "ftuart_putc 13 u = Some u1" "talked u [13] 0 u1" using putc_plain [OF assms, of 13] by auto
  have "line_ready u1" using talked_ready [OF u1(2)] assms by simp
  then obtain n where "wait_LSR FTUART_LSR_THR_EMPTY u1 = Some (u1\<lparr>lsr_n := n\<rparr>)" "LCR u1 AND FTUART_LCR_DLAB = 0"
    using wait_LSR_returns by (auto simp: line_ready_def)
  then have "ftuart_putc c u = Some (u1\<lparr>lsr_n := n, tx := tx u1 @ [10]\<rparr>)"
    using True u1(1) by (subst ftuart_putc.simps) (simp add: write_0_def)
  moreover have "talked u1 [10] 0 (u1\<lparr>lsr_n := n, tx := tx u1 @ [10]\<rparr>)"
    unfolding talked_def by (rule exI [of _ n], rule ftuart.equality) simp_all
  ultimately show ?thesis using True talked_trans [OF u1(2)] by (auto simp: crlf_def)
qed

lemma getc_talks:
  assumes "line_ready u"
  shows "\<exists>u'. ftuart_getc u = Some (if rbr u (rbr_n u) = 13 then 10 else rbr u (rbr_n u), u') \<and> talked u [] 1 u'"
proof -
  obtain n where "wait_LSR FTUART_LSR_DATA_READY u = Some (u\<lparr>lsr_n := n\<rparr>)"
    using wait_LSR_returns assms(1) by (auto simp: line_ready_def)
  then show ?thesis by (auto simp: ftuart_getc_def read_RBR_def Let_def talked_def)
qed

lemma puts_from_talks:
  "line_ready u \<Longrightarrow> cstr (\<lambda>i. v (k + i)) s \<Longrightarrow>
   \<exists>u'. puts_from v k u = Some u' \<and> talked u (concat (map (\<lambda>c. (if c = 10 then [13] else []) @ crlf c) s)) 0 u'"
proof (induction s arbitrary: k u)
  case Nil
  then show ?case by (subst puts_from.simps) (auto simp: talked_def intro!: exI [of _ "lsr_n u"])
next
  case (Cons x s)
  have x: "v k = x" "x \<noteq> 0" "cstr (\<lambda>i. v (Suc k + i)) s" using cstr_hd [OF Cons.prems(2)] cstr_tl [OF Cons.prems(2)] by simp_all
  obtain u1 where u1: "(if x = 10 then ftuart_putc 13 u else Some u) = Some u1" "talked u (if x = 10 then [13] else []) 0 u1"
  proof (cases "x = 10")
    case True
    then show ?thesis using that putc_plain [OF Cons.prems(1), of 13] by auto
  next
    case False
    then show ?thesis using that [of u] by (simp add: talked_refl)
  qed
  have r1: "line_ready u1" using talked_ready [OF u1(2)] Cons.prems(1) by simp
  obtain u2 where u2: "ftuart_putc x u1 = Some u2" "talked u1 (crlf x) 0 u2" using putc_talks [OF r1] by blast
  have r2: "line_ready u2" using talked_ready [OF u2(2)] r1 by simp
  obtain u3 where u3: "puts_from v (Suc k) u2 = Some u3"
    "talked u2 (concat (map (\<lambda>c. (if c = 10 then [13] else []) @ crlf c) s)) 0 u3"
    using Cons.IH [OF r2 x(3)] by blast
  have "puts_from v k u = Some u3" using x(1,2) u1(1) u2(1) u3(1) by (subst puts_from.simps) simp
  then show ?case using talked_trans [OF talked_trans [OF u1(2) u2(2)] u3(2)] by auto
qed

lemma puts_talks:
  "line_ready u \<Longrightarrow> cstr v s \<Longrightarrow>
   \<exists>u'. ftuart_puts v u = Some u' \<and> talked u (concat (map (\<lambda>c. (if c = 10 then [13] else []) @ crlf c) s)) 0 u'"
  using puts_from_talks [of u v 0 s] by (simp add: ftuart_puts_def)

text \<open>The bytes still to come, and one of them read.\<close>

definition coming :: "'z ftuart_scheme \<Rightarrow> u8 list \<Rightarrow> bool" where
  "coming u ks \<longleftrightarrow> line_ready u \<and> (\<forall>i < length ks. rbr u (rbr_n u + i) = ks ! i)"

definition cr_to_lf :: "u8 \<Rightarrow> u8" where
  "cr_to_lf c = (if c = 13 then 10 else c)"

lemma coming_talked: "talked u out 0 u' \<Longrightarrow> coming u ks \<Longrightarrow> coming u' ks"
  using talked_ready [of u out 0 u'] talked_rbr [of u out 0 u'] by (simp add: coming_def)

lemma getc_coming:
  assumes "coming u (c # ks)"
  shows "\<exists>u'. ftuart_getc u = Some (cr_to_lf c, u') \<and> talked u [] 1 u' \<and> coming u' ks"
proof -
  have u: "line_ready u" "rbr u (rbr_n u) = c" "\<And>i. i < length ks \<Longrightarrow> rbr u (rbr_n u + Suc i) = ks ! i"
    using assms by (force simp: coming_def)+
  obtain u' where u': "ftuart_getc u = Some (cr_to_lf c, u')" "talked u [] 1 u'"
    using getc_talks [OF u(1)] u(2) by (auto simp: cr_to_lf_def)
  moreover have "coming u' ks" using talked_ready [OF u'(2)] talked_rbr [OF u'(2)] u by (simp add: coming_def)
  ultimately show ?thesis by blast
qed

lemma gets_loop_reads:
  assumes "e \<in> {0, 10, 13}" "set s \<inter> {0, 10, 13} = {}" "coming u (s @ [e])"
  shows "\<exists>u'. gets_loop m p i u = Some (cr_to_lf e, i + length s + 1, st_list m (padd p i) (s @ [cr_to_lf e]), u') \<and>
    talked u (concat (map (\<lambda>c. crlf (cr_to_lf c)) (s @ [e]))) (length s + 1) u'"
  using assms(2,3)
proof (induction s arbitrary: m i u)
  case Nil
  obtain u1 where u1: "ftuart_getc u = Some (cr_to_lf e, u1)" "talked u [] 1 u1" "coming u1 []"
    using getc_coming [of u e "[]"] Nil.prems(2) by auto
  have "line_ready u1" using u1(3) by (simp add: coming_def)
  then obtain u2 where u2: "ftuart_putc (cr_to_lf e) u1 = Some u2" "talked u1 (crlf (cr_to_lf e)) 0 u2"
    using putc_talks by blast
  have "cr_to_lf e \<in> {0, 10}" using assms(1) by (auto simp: cr_to_lf_def)
  then have "gets_loop m p i u = Some (cr_to_lf e, i + 1, st8 m (padd p i) (cr_to_lf e), u2)"
    using u1(1) u2(1) by (subst gets_loop.simps) (auto simp: Let_def)
  then show ?case using talked_trans [OF u1(2) u2(2)] by simp
next
  case (Cons c s)
  have c: "c \<notin> {0, 10, 13}" "set s \<inter> {0, 10, 13} = {}" "cr_to_lf c = c" "crlf c = [c]" using Cons.prems(1)
    by (auto simp: cr_to_lf_def crlf_def)
  obtain u1 where u1: "ftuart_getc u = Some (c, u1)" "talked u [] 1 u1" "coming u1 (s @ [e])"
    using getc_coming [of u c "s @ [e]"] Cons.prems(2) c(3) by auto
  have "line_ready u1" using u1(3) by (simp add: coming_def)
  then obtain u2 where u2: "ftuart_putc c u1 = Some u2" "talked u1 [c] 0 u2" using putc_talks c(4) by metis
  obtain u3 where u3: "gets_loop (st8 m (padd p i) c) p (i + 1) u2 = Some (cr_to_lf e, i + 1 + length s + 1,
      st_list (st8 m (padd p i) c) (padd p (i + 1)) (s @ [cr_to_lf e]), u3)"
    "talked u2 (concat (map (\<lambda>c. crlf (cr_to_lf c)) (s @ [e]))) (length s + 1) u3"
    using Cons.IH [OF c(2) coming_talked [OF u2(2) u1(3)]] by blast
  have "gets_loop m p i u = gets_loop (st8 m (padd p i) c) p (i + 1) u2"
    using u1(1) u2(1) c(1) by (subst gets_loop.simps) (auto simp: Let_def)
  then show ?case using u3 talked_trans [OF talked_trans [OF u1(2) u2(2)] u3(2)] c by simp
qed

lemma gets_reads:
  assumes "e \<in> {0, 10, 13}" "set s \<inter> {0, 10, 13} = {}" "coming u (s @ [e])"
  shows "\<exists>m' u'. ftuart_gets m p u = Some (m', u') \<and> cstr (view m' p) s \<and>
    (\<forall>q. fst q \<noteq> fst p \<or> snd q < snd p \<or> snd p + length s < snd q \<longrightarrow> m' q = m q) \<and>
    talked u (concat (map (\<lambda>c. crlf (cr_to_lf c)) (s @ [e]))) (length s + 1) u'"
proof -
  let ?c = "cr_to_lf e"
  obtain u' where u': "gets_loop m p 0 u = Some (?c, length s + 1, st_list m p (s @ [?c]), u')"
    "talked u (concat (map (\<lambda>c. crlf (cr_to_lf c)) (s @ [e]))) (length s + 1) u'"
    using gets_loop_reads [OF assms, of m p 0] by auto
  let ?m = "if ?c \<noteq> 0 then st8 (st_list m p (s @ [?c])) (padd p (length s)) 0 else st_list m p (s @ [?c])"
  have "ftuart_gets m p u = Some (?m, u')" using u'(1) by (simp add: ftuart_gets_def)
  moreover have "s ! i \<noteq> 0" if "i < length s" for i using assms(2) nth_mem [OF that] by auto
  then have "cstr (view ?m p) s"
    by (auto simp: cstr_def st8_apply st_list_padd nth_append)
  moreover have "?m q = m q" if "fst q \<noteq> fst p \<or> snd q < snd p \<or> snd p + length s < snd q" for q
  proof -
    obtain b i where q: "q = (b, i)" by (cases q)
    show ?thesis
      using that st_list_apply [of m p "s @ [?c]" i] by (cases "b = fst p") (auto simp: q st8_apply st_list_other padd_def)
  qed
  ultimately show ?thesis using u'(2) by blast
qed

section \<open>Property\<close>

text \<open>C26: ftuart_gets returns on every line that is ended by a carriage return, a line feed or a zero: the string
  typed is at s, terminated, no byte before it or after its terminator has changed, and every key has been
  echoed, the line end as one.\<close>

theorem ftuart_gets_reads:
  assumes "e \<in> {0, 10, 13}" "set s \<inter> {0, 10, 13} = {}" "coming u (s @ [e])"
  shows "\<exists>m' u'. ftuart_gets m p u = Some (m', u') \<and> cstr (view m' p) s \<and>
    (\<forall>q. fst q \<noteq> fst p \<or> snd q < snd p \<or> snd p + length s < snd q \<longrightarrow> m' q = m q) \<and>
    tx u' = tx u @ s @ (if e = 0 then [0] else [13, 10]) \<and> rbr_n u' = rbr_n u + length s + 1 \<and> line_ready u'"
proof -
  obtain m' u' where g: "ftuart_gets m p u = Some (m', u')" "cstr (view m' p) s"
    "\<forall>q. fst q \<noteq> fst p \<or> snd q < snd p \<or> snd p + length s < snd q \<longrightarrow> m' q = m q"
    "talked u (concat (map (\<lambda>c. crlf (cr_to_lf c)) (s @ [e]))) (length s + 1) u'"
    using gets_reads [OF assms] by blast
  have "set s \<inter> {10, 13} = {} \<Longrightarrow> concat (map (\<lambda>c. crlf (cr_to_lf c)) s) = s"
    by (induction s) (auto simp: crlf_def cr_to_lf_def)
  then have "concat (map (\<lambda>c. crlf (cr_to_lf c)) s) = s" using assms(2) by blast
  moreover have "crlf (cr_to_lf e) = (if e = 0 then [0] else [13, 10])" using assms(1) by (auto simp: crlf_def cr_to_lf_def)
  ultimately have "tx u' = tx u @ s @ (if e = 0 then [0] else [13, 10])" "rbr_n u' = rbr_n u + length s + 1" "line_ready u'"
    using talked_rbr [OF g(4)] talked_ready [OF g(4)] assms(3) by (simp_all add: coming_def)
  then show ?thesis using g(1-3) by blast
qed

definition uart_with :: "u8 list \<Rightarrow> ftuart" where
  "uart_with ks = \<lparr>DLL = 0, DLM = 0, IER = 0, FCR = 0, LCR = 3, tx = [], lsr = (\<lambda>_. 0x21), lsr_n = 0,
     rbr = (\<lambda>i. if i < length ks then ks ! i else 0), rbr_n = 0\<rparr>"

lemma uart_with_coming: "coming (uart_with ks) ks"
  by (simp add: coming_def uart_with_def line_ready_def recurs_def FTUART_LSR_THR_EMPTY_def FTUART_LSR_DATA_READY_def
    FTUART_LCR_DLAB_def) blast

theorem ftuart_gets_reads_witness:
  "\<exists>m' u'. ftuart_gets (\<lambda>_. 7) ((), 5) (uart_with [104, 105, 13]) = Some (m', u') \<and> cstr (view m' ((), 5)) [104, 105] \<and>
     m' ((), 8) = 7 \<and> tx u' = [104, 105, 13, 10]"
proof -
  have a: "(13::u8) \<in> {0, 10, 13}" "set [104, 105] \<inter> {0, 10, 13 :: u8} = {}" by simp_all
  have c: "coming (uart_with [104, 105, 13]) ([104, 105] @ [13])" using uart_with_coming by simp
  obtain m' u' where g: "ftuart_gets (\<lambda>_. 7) ((), 5) (uart_with [104, 105, 13]) = Some (m', u')" "cstr (view m' ((), 5)) [104, 105]"
    "\<forall>q. fst q \<noteq> fst ((), 5 :: nat) \<or> snd q < snd ((), 5 :: nat) \<or> snd ((), 5 :: nat) + length [104, 105 :: u8] < snd q \<longrightarrow> m' q = 7"
    "tx u' = tx (uart_with [104, 105, 13]) @ [104, 105] @ (if (13 :: u8) = 0 then [0] else [13, 10])"
    using ftuart_gets_reads [OF a c, of "\<lambda>_. 7" "((), 5)"] by blast
  have "m' ((), 8) = 7" using g(3) [rule_format, of "((), 8)"] by simp
  then show ?thesis using g(1,2,4) by (intro exI conjI) (assumption | simp add: uart_with_def)+
qed

end
