(* ===== verification/StrTok.thy ===== *)
theory StrTok
  imports CStr
begin

text \<open>
  lib/mylibc/string: the searches for a set of characters (strspn, strcspn, strpbrk), strsep, and the
  tokenizer strtok.c that the command line splits its lines with.  The set is read through a view; the
  string searched is in memory, because strtok writes its terminators into it.
\<close>

section \<open>Searches for a set of characters\<close>

text \<open>The inner loop: for (c = s2; *c; c++) if (x == *c) break;\<close>

partial_function (option) scan_set :: "cview \<Rightarrow> u8 \<Rightarrow> nat \<Rightarrow> nat option" where
  "scan_set v x c = (if v c = 0 \<or> x = v c then Some c else scan_set v x (Suc c))"

partial_function (option) strspn_loop :: "'b mem \<Rightarrow> cview \<Rightarrow> 'b ptr \<Rightarrow> 'b ptr option" where
  "strspn_loop m s2 s1 =
    (if m s1 = 0 then Some s1
     else do {
       c \<leftarrow> scan_set s2 (m s1) 0;
       if s2 c = 0 then Some s1 else strspn_loop m s2 (padd s1 1)
     })"

definition strspn :: "'b mem \<Rightarrow> 'b ptr \<Rightarrow> cview \<Rightarrow> nat option" where
  "strspn m s1 s2 = map_option (\<lambda>p. snd p - snd s1) (strspn_loop m s2 s1)"

partial_function (option) strcspn_loop :: "'b mem \<Rightarrow> cview \<Rightarrow> 'b ptr \<Rightarrow> 'b ptr option" where
  "strcspn_loop m s2 s1 =
    (if m s1 = 0 then Some s1
     else do {
       c \<leftarrow> scan_set s2 (m s1) 0;
       if s2 c \<noteq> 0 then Some s1 else strcspn_loop m s2 (padd s1 1)
     })"

definition strcspn :: "'b mem \<Rightarrow> 'b ptr \<Rightarrow> cview \<Rightarrow> nat option" where
  "strcspn m s1 s2 = map_option (\<lambda>p. snd p - snd s1) (strcspn_loop m s2 s1)"

text \<open>strpbrk: None is no return, Some None the null pointer.\<close>

partial_function (option) strpbrk :: "'b mem \<Rightarrow> 'b ptr \<Rightarrow> cview \<Rightarrow> 'b ptr option option" where
  "strpbrk m s s2 =
    (if m s = 0 then Some None
     else do {
       c \<leftarrow> scan_set s2 (m s) 0;
       if s2 c \<noteq> 0 then Some (Some s) else strpbrk m (padd s 1) s2
     })"

text \<open>strsep(s1, s2): what it returns, the memory, and the new *s1.\<close>

definition strsep :: "'b mem \<Rightarrow> 'b ptr option \<Rightarrow> cview \<Rightarrow> ('b ptr option \<times> 'b mem \<times> 'b ptr option) option" where
  "strsep m s1 s2 =
    (case s1 of
       None \<Rightarrow> Some (s1, m, None)
     | Some s \<Rightarrow>
         if m s = 0 then Some (s1, m, None)
         else do {
           p \<leftarrow> strpbrk m s s2;
           case p of
             None \<Rightarrow> Some (s1, m, None)
           | Some p \<Rightarrow> Some (s1, st8 m p 0, Some (padd p 1))
         })"

section \<open>strtok\<close>

partial_function (option) rawmemchr :: "'b mem \<Rightarrow> 'b ptr \<Rightarrow> u8 \<Rightarrow> 'b ptr option" where
  "rawmemchr m r c = (if m r = c then Some r else rawmemchr m (padd r 1) c)"

text \<open>The token or NULL, the memory, and save_ptr.  No result: the loops run on, or s and save_ptr are
  both NULL.\<close>

definition strtok_r ::
  "'b mem \<Rightarrow> 'b ptr option \<Rightarrow> cview \<Rightarrow> 'b ptr option \<Rightarrow> ('b ptr option \<times> 'b mem \<times> 'b ptr option) option" where
  "strtok_r m s delim save_ptr =
    do {
      s \<leftarrow> (case s of None \<Rightarrow> save_ptr | Some s \<Rightarrow> Some s);
      n \<leftarrow> strspn m s delim;
      let s = padd s n;
      if m s = 0 then Some (None, m, Some s)
      else do {
        let token = s;
        s \<leftarrow> strpbrk m token delim;
        case s of
          None \<Rightarrow> do { q \<leftarrow> rawmemchr m token 0; Some (Some token, m, Some q) }
        | Some s \<Rightarrow> Some (Some token, st8 m s 0, Some (padd s 1))
      }
    }"

definition strtok ::
  "'b mem \<Rightarrow> 'b ptr option \<Rightarrow> cview \<Rightarrow> 'b ptr option \<Rightarrow> ('b ptr option \<times> 'b mem \<times> 'b ptr option) option" where
  "strtok m s1 s2 next_start = strtok_r m s1 s2 next_start"

section \<open>What they return\<close>

lemma scan_set_from:
  "cstr (\<lambda>i. v (k + i)) D \<Longrightarrow> x \<noteq> 0 \<Longrightarrow> \<exists>c. scan_set v x k = Some c \<and> (v c \<noteq> 0 \<longleftrightarrow> x \<in> set D)"
proof (induction D arbitrary: k)
  case Nil
  then show ?case by (subst scan_set.simps) simp
next
  case (Cons d D)
  have d: "v k = d" "d \<noteq> 0" using cstr_hd [OF Cons.prems(1)] by simp_all
  show ?case
  proof (cases "x = d")
    case True
    then show ?thesis using d by (subst scan_set.simps) auto
  next
    case False
    have "cstr (\<lambda>i. v (Suc k + i)) D" using cstr_tl [OF Cons.prems(1)] by simp
    then obtain c where "scan_set v x (Suc k) = Some c" "v c \<noteq> 0 \<longleftrightarrow> x \<in> set D" using Cons.IH Cons.prems(2) by blast
    then show ?thesis using d False by (subst scan_set.simps) auto
  qed
qed

lemma scan_set_cstr: "cstr v D \<Longrightarrow> x \<noteq> 0 \<Longrightarrow> \<exists>c. scan_set v x 0 = Some c \<and> (v c \<noteq> 0 \<longleftrightarrow> x \<in> set D)"
  using scan_set_from [of v 0 D x] by simp

lemma cstr_next: "cstr (view m p) (x # s) \<Longrightarrow> cstr (view m (padd p 1)) s \<and> m p = x \<and> x \<noteq> 0"
proof -
  assume c: "cstr (view m p) (x # s)"
  have "view m (padd p 1) = (\<lambda>i. view m p (Suc i))" by (simp add: view_def fun_eq_iff)
  then show ?thesis using cstr_tl [OF c] cstr_hd [OF c] by simp
qed

lemma strspn_loop_cstr:
  assumes "cstr v D"
  shows "cstr (view m p) s \<Longrightarrow> strspn_loop m v p = Some (padd p (length (takeWhile (\<lambda>x. x \<in> set D) s)))"
proof (induction s arbitrary: p)
  case Nil
  then show ?case by (subst strspn_loop.simps) simp
next
  case (Cons x s)
  note n = cstr_next [OF Cons.prems]
  note IH = Cons.IH [OF conjunct1 [OF n]]
  obtain c where "scan_set v x 0 = Some c" "v c \<noteq> 0 \<longleftrightarrow> x \<in> set D" using scan_set_cstr [OF assms] n by blast
  then show ?case using conjunct2 [OF n] IH by (subst strspn_loop.simps) auto
qed

lemma strcspn_loop_cstr:
  assumes "cstr v D"
  shows "cstr (view m p) s \<Longrightarrow> strcspn_loop m v p = Some (padd p (length (takeWhile (\<lambda>x. x \<notin> set D) s)))"
proof (induction s arbitrary: p)
  case Nil
  then show ?case by (subst strcspn_loop.simps) simp
next
  case (Cons x s)
  note n = cstr_next [OF Cons.prems]
  note IH = Cons.IH [OF conjunct1 [OF n]]
  obtain c where "scan_set v x 0 = Some c" "v c \<noteq> 0 \<longleftrightarrow> x \<in> set D" using scan_set_cstr [OF assms] n by blast
  then show ?case using conjunct2 [OF n] IH by (subst strcspn_loop.simps) auto
qed

lemma strspn_cstr: "cstr v D \<Longrightarrow> cstr (view m p) s \<Longrightarrow> strspn m p v = Some (length (takeWhile (\<lambda>x. x \<in> set D) s))"
  by (simp add: strspn_def strspn_loop_cstr)

lemma strcspn_cstr: "cstr v D \<Longrightarrow> cstr (view m p) s \<Longrightarrow> strcspn m p v = Some (length (takeWhile (\<lambda>x. x \<notin> set D) s))"
  by (simp add: strcspn_def strcspn_loop_cstr)

lemma strpbrk_cstr:
  assumes "cstr v D"
  shows "cstr (view m p) s \<Longrightarrow> strpbrk m p v =
    Some (if set s \<inter> set D = {} then None else Some (padd p (length (takeWhile (\<lambda>x. x \<notin> set D) s))))"
proof (induction s arbitrary: p)
  case Nil
  then show ?case by (subst strpbrk.simps) simp
next
  case (Cons x s)
  note n = cstr_next [OF Cons.prems]
  note IH = Cons.IH [OF conjunct1 [OF n]]
  obtain c where "scan_set v x 0 = Some c" "v c \<noteq> 0 \<longleftrightarrow> x \<in> set D" using scan_set_cstr [OF assms] n by blast
  then show ?case using conjunct2 [OF n] IH by (subst strpbrk.simps) auto
qed

lemma rawmemchr_cstr: "cstr (view m p) s \<Longrightarrow> rawmemchr m p 0 = Some (padd p (length s))"
proof (induction s arbitrary: p)
  case Nil
  then show ?case by (subst rawmemchr.simps) simp
next
  case (Cons x s)
  note n = cstr_next [OF Cons.prems]
  show ?case using conjunct2 [OF n] Cons.IH [OF conjunct1 [OF n]] by (subst rawmemchr.simps) auto
qed

text \<open>The tokens of a string: the maximal runs of other characters.\<close>

function tokens :: "u8 set \<Rightarrow> u8 list \<Rightarrow> u8 list list" where
  "tokens D s =
    (case dropWhile (\<lambda>x. x \<in> D) s of
       [] \<Rightarrow> []
     | x # xs \<Rightarrow> (x # takeWhile (\<lambda>x. x \<notin> D) xs) # tokens D (dropWhile (\<lambda>x. x \<notin> D) xs))"
  by pat_completeness auto
termination
proof (relation "measure (length \<circ> snd)", simp, goal_cases)
  case (1 D s x xs)
  then have "length (x # xs) \<le> length s" by (metis length_dropWhile_le)
  then show ?case using length_dropWhile_le [of "\<lambda>x. x \<notin> D" xs] by (simp del: length_dropWhile_le)
qed

declare tokens.simps [simp del]

lemma tokens_skip: "d \<in> D \<Longrightarrow> tokens D (d # s) = tokens D s"
  by (subst (1 2) tokens.simps) simp

lemma strtok_none:
  assumes "cstr delim D" "cstr (view m p) s" "tokens (set D) s = []"
  shows "\<exists>r. strtok m (Some p) delim save = Some (None, m, r)" "\<exists>r. strtok m None delim (Some p) = Some (None, m, r)"
proof -
  have "dropWhile (\<lambda>x. x \<in> set D) s = []" using assms(3) by (subst (asm) tokens.simps) (auto split: list.splits)
  then have tw: "takeWhile (\<lambda>x. x \<in> set D) s = s" by (simp only: takeWhile_eq_all_conv dropWhile_eq_Nil_conv)
  have "strspn m p delim = Some (length s)" using strspn_cstr [OF assms(1,2)] unfolding tw .
  moreover have "m (padd p (length s)) = 0" using assms(2) by (simp add: cstr_def)
  ultimately show "\<exists>r. strtok m (Some p) delim save = Some (None, m, r)" "\<exists>r. strtok m None delim (Some p) = Some (None, m, r)"
    by (simp_all add: strtok_def strtok_r_def Let_def)
qed

text \<open>A call that finds a token: where it points, what it writes, where the next call goes on.\<close>

definition token_at :: "'b mem \<Rightarrow> 'b ptr \<Rightarrow> u8 list \<Rightarrow> bool" where
  "token_at m p t \<longleftrightarrow> cstr (view m p) t"

lemma cstr_sub:
  assumes "cstr (view m p) (a @ b)"
  shows "cstr (view m (padd p (length a))) b"
proof -
  have "view m (padd p (length a)) = (\<lambda>i. view m p (length a + i))" by (simp add: view_def fun_eq_iff)
  then show ?thesis using cstr_drop [OF assms, of "length a"] by simp
qed

lemma cstr_cut:
  assumes "cstr (view m p) (a @ b)" "m' (padd p (length a)) = 0" "\<And>i. i < length a \<Longrightarrow> m' (padd p i) = m (padd p i)"
  shows "cstr (view m' p) a"
proof -
  have "m' (padd p i) = a ! i \<and> a ! i \<noteq> 0" if "i < length a" for i
    using assms(1,3) that unfolding cstr_def view_apply length_append by (metis nth_append trans_less_add1)
  then show ?thesis using assms(2) by (simp add: cstr_def)
qed

lemma strtok_some:
  assumes "cstr delim D" "cstr (view m p) s" "tokens (set D) s = t # ts"
  shows "\<exists>k r m' s'. strtok m (Some p) delim save = Some (Some (padd p k), m', Some (padd p r)) \<and>
    strtok m None delim (Some p) = Some (Some (padd p k), m', Some (padd p r)) \<and>
    cstr (view m' (padd p k)) t \<and> cstr (view m' (padd p r)) s' \<and> tokens (set D) s' = ts \<and> r + length s' \<le> length s \<and>
    k + length t \<le> r \<and> (\<forall>q. m' q \<noteq> m q \<longrightarrow> fst q = fst p \<and> snd p + k + length t \<le> snd q \<and> snd q < snd p + r)"
proof -
  define w where "w = takeWhile (\<lambda>x. x \<in> set D) s"
  obtain x xs where x: "dropWhile (\<lambda>x. x \<in> set D) s = x # xs" "t = x # takeWhile (\<lambda>x. x \<notin> set D) xs"
    "ts = tokens (set D) (dropWhile (\<lambda>x. x \<notin> set D) xs)"
    using assms(3) by (subst (asm) tokens.simps) (auto split: list.splits)
  define u where "u = dropWhile (\<lambda>x. x \<notin> set D) xs"
  have xD: "x \<notin> set D" using x(1) by (metis hd_dropWhile list.distinct(1) list.sel(1))
  have s: "s = w @ t @ u" unfolding w_def u_def x(2) using x(1) by (metis append_Cons takeWhile_dropWhile_id)
  have t: "takeWhile (\<lambda>x. x \<notin> set D) (t @ u) = t" "set t \<inter> set D = {}"
    using xD by (auto simp: x(2) u_def dest: set_takeWhileD)
  define k where "k = length w"
  have n: "strspn m p delim = Some k" using strspn_cstr [OF assms(1,2)] by (simp add: w_def k_def)
  have c: "cstr (view m (padd p k)) (t @ u)" using cstr_sub [of m p w "t @ u"] assms(2) by (simp add: s k_def)
  have nz: "m (padd p k) \<noteq> 0" using cstr_next [of m "padd p k" x] c by (simp add: x(2))
  note pb = strpbrk_cstr [OF assms(1) c, unfolded t(1)]
  have e: "strtok m (Some p) delim save = strtok m None delim (Some p)"
    by (simp add: strtok_def strtok_r_def)
  show ?thesis
  proof (cases u)
    case Nil
    have r: "rawmemchr m (padd p k) 0 = Some (padd p (k + length t))" using rawmemchr_cstr [OF c] Nil by simp
    have "strtok m None delim (Some p) = Some (Some (padd p k), m, Some (padd p (k + length t)))"
      using n nz pb t(2) Nil r by (simp add: strtok_def strtok_r_def Let_def)
    moreover have "m (padd p (k + length t)) = 0" using c Nil by (simp add: cstr_def)
    moreover have "tokens (set D) [] = ts" using x(3) unfolding u_def [symmetric] Nil by simp
    ultimately show ?thesis
      using c Nil by (intro exI [of _ k] exI [of _ "k + length t"] exI [of _ m] exI [of _ "[]"]) (simp add: e s k_def)
  next
    case (Cons d u')
    have d: "d \<in> set D" using Cons hd_dropWhile [of "\<lambda>x. x \<notin> set D" xs] by (simp add: u_def)
    let ?m = "st8 m (padd p (k + length t)) 0"
    have "strtok m None delim (Some p) = Some (Some (padd p k), ?m, Some (padd p (k + length t + 1)))"
      using n nz pb d Cons by (auto simp: strtok_def strtok_r_def Let_def)
    moreover have "cstr (view ?m (padd p k)) t"
      by (rule cstr_cut [OF c]) (auto simp: st8_apply)
    moreover have "cstr (view m (padd p (k + length t + 1))) u'"
      using cstr_sub [of m "padd p k" "t @ [d]" u'] c Cons by (simp add: add.assoc)
    then have "cstr (view ?m (padd p (k + length t + 1))) u'"
      by (simp add: cstr_def st8_apply)
    moreover have "tokens (set D) u' = ts" using x(3) Cons tokens_skip [OF d, of u'] by (simp add: u_def)
    ultimately show ?thesis
      by (intro exI [of _ k] exI [of _ "k + length t + 1"] exI [of _ ?m] exI [of _ u']) (auto simp: e s k_def Cons st8_apply padd_def)
  qed
qed

end
