(* ===== verification/CNum.thy ===== *)
theory CNum
  imports CStr "HOL-Library.Signed_Division"
begin

unbundle bit_operations_syntax

text \<open>
  lib/mylibc/stdlib and include/linux/ctype.h: 64-by-32 bit division (div64.c, include/div64.h),
  the character class macros, string to number and number to string conversion, div, ldiv and the
  random number generator.
\<close>

section \<open>div64.c\<close>

lemma sint_pos64: "0 < sint (b :: u64) \<longleftrightarrow> 0 < unat b \<and> unat b < 2 ^ 63"
proof -
  have "int (unat b) < 18446744073709551616"
    using uint_lt2p [of b] by simp
  then show ?thesis unfolding sint_cases by (auto simp del: of_nat_unat)
qed

lemma unat_drop_bit1: "unat (drop_bit 1 (x :: 'a::len word)) = unat x div 2"
  unfolding unat_drop_bit_eq by (simp add: drop_bit_eq_div)

lemma unat_drop_bit_Suc0 [simp]: "unat (drop_bit (Suc 0) (x :: 'a::len word)) = unat x div 2"
  using unat_drop_bit1 [of x] by simp

text \<open>Scale the divisor b and the quotient bit d up while b stays positive and below the rest.\<close>

function div64_up :: "u64 \<Rightarrow> u64 \<Rightarrow> u64 \<Rightarrow> u64 \<times> u64" where
  "div64_up rem b d = (if 0 < sint b \<and> b < rem then div64_up rem (b + b) (d + d) else (b, d))"
  by pat_completeness auto
termination
proof (relation "measure (\<lambda>(rem, b, d). unat rem - unat b)")
  fix rem b d :: u64
  assume a: "0 < sint b \<and> b < rem"
  then have "0 < unat b" "unat b < unat rem" "unat b < 2 ^ 63"
    by (auto simp: word_less_nat_alt sint_pos64)
  then show "((rem, b + b, d + d), rem, b, d) \<in> measure (\<lambda>(rem, b, d). unat rem - unat b)"
    by (simp add: unat_word_ariths)
qed simp

function div64_down :: "u64 \<Rightarrow> u64 \<Rightarrow> u64 \<Rightarrow> u64 \<Rightarrow> u64 \<times> u64" where
  "div64_down rem b res d =
    (let (rem, res) = (if b \<le> rem then (rem - b, res + d) else (rem, res)); d' = drop_bit 1 d in
     if d' \<noteq> 0 then div64_down rem (drop_bit 1 b) res d' else (res, rem))"
  by pat_completeness auto
termination
proof (relation "measure (\<lambda>(rem, b, res, d). unat d)")
  fix rem b res d p q r e :: u64
  assume e: "e = drop_bit 1 d" "e \<noteq> 0"
  then have "unat d \<noteq> 0" by (auto simp: unat_eq_0)
  then show "((q, drop_bit 1 b, r, e), rem, b, res, d) \<in> measure (\<lambda>(rem, b, res, d). unat d)"
    using e by simp
qed simp

declare div64_up.simps [simp del] div64_down.simps [simp del]

text \<open>The quotient left in *n and the remainder returned.\<close>

definition div64_32 :: "u64 \<Rightarrow> u32 \<Rightarrow> u64 \<times> u32" where
  "div64_32 n base =
    (let high = ucast (drop_bit 32 n) :: u32;
         (res, rem) = (if base \<le> high
            then (push_bit 32 (ucast (high div base)), n - push_bit 32 (ucast ((high div base) * base)))
            else (0, n));
         (b, d) = div64_up rem (ucast base) 1;
         (res, rem) = div64_down rem b res d
     in (res, ucast rem))"

definition do_div :: "u64 \<Rightarrow> u32 \<Rightarrow> u64 \<times> u32" where
  "do_div n base =
    (if drop_bit 32 n = 0 then (ucast (ucast n div base :: u32), ucast n mod base) else div64_32 n base)"

definition lldiv :: "u64 \<Rightarrow> u32 \<Rightarrow> u64" where
  "lldiv dividend divisor = fst (do_div dividend divisor)"

text \<open>
  The loop invariants, over nat: on the way up b = base * d and d is a power of two, both exact
  in 64 bits; on the way down also rem < 2 * b, and quotient so far times base plus rem is n.
\<close>

lemma div64_up_result:
  assumes "unat b = B * 2 ^ k" "unat d = 2 ^ k" "0 < B"
  shows "\<exists>j. (case div64_up rem b d of (b', d') \<Rightarrow> unat b' = B * 2 ^ j \<and> unat d' = 2 ^ j \<and>
     (unat rem \<le> unat b' \<or> 2 ^ 63 \<le> unat b'))"
  using assms
proof (induction rem b d arbitrary: k rule: div64_up.induct)
  case (1 rem b d)
  show ?case
  proof (cases "0 < sint b \<and> b < rem")
    case True
    then have b: "unat b < 2 ^ 63"
      by (auto simp: sint_pos64)
    have "unat d \<le> unat b" using 1 by simp
    with b have "unat (b + b) = unat b + unat b" "unat (d + d) = unat d + unat d"
      by (simp_all add: unat_word_ariths)
    then have "unat (b + b) = B * 2 ^ Suc k" "unat (d + d) = 2 ^ Suc k"
      using 1 by simp_all
    from "1.IH" [OF True this \<open>0 < B\<close>] show ?thesis
      using True by (simp add: div64_up.simps [of rem b d])
  next
    case False
    then have "unat rem \<le> unat b \<or> 2 ^ 63 \<le> unat b"
      using 1 by (auto simp: sint_pos64 word_less_nat_alt)
    with 1 False show ?thesis by (subst div64_up.simps) auto
  qed
qed

lemma div64_down_step:
  fixes b d rem res :: u64
  assumes "unat b = B * 2 ^ k" "unat d = 2 ^ k" "0 < B" "unat rem < 2 * unat b"
    "unat res * B + unat rem = N" "N < 2 ^ 64"
  defines "p \<equiv> (if b \<le> rem then (rem - b, res + d) else (rem, res))"
  shows "unat (fst p) < unat b" "unat (snd p) * B + unat (fst p) = N"
proof -
  show "unat (fst p) < unat b"
    using assms(4) by (auto simp: p_def word_le_nat_alt unat_sub_if')
  show "unat (snd p) * B + unat (fst p) = N"
  proof (cases "b \<le> rem")
    case True
    have "unat b \<le> unat rem" using True by (simp add: word_le_nat_alt)
    then have n: "(unat res + unat d) * B + (unat rem - unat b) = N"
      using assms(1,2,5) by (simp add: algebra_simps)
    then have "unat res + unat d \<le> N"
      using assms(3) by (metis le_add1 mult_le_mono2 nat_mult_1_right order_trans Suc_leI One_nat_def)
    then have "unat (res + d) = unat res + unat d"
      using assms(6) by (simp add: unat_word_ariths)
    with n True \<open>unat b \<le> unat rem\<close> show ?thesis
      by (simp add: p_def unat_sub_if')
  next
    case False
    then show ?thesis using assms(5) by (simp add: p_def)
  qed
qed

lemma div64_down_result:
  assumes "unat b = B * 2 ^ k" "unat d = 2 ^ k" "0 < B" "unat rem < 2 * unat b"
    "unat res * B + unat rem = N" "N < 2 ^ 64"
  shows "case div64_down rem b res d of (q, r) \<Rightarrow> unat q = N div B \<and> unat r = N mod B"
  using assms
proof (induction k arbitrary: rem b res d)
  case 0
  define p where "p = (if b \<le> rem then (rem - b, res + d) else (rem, res))"
  have d: "drop_bit 1 d = 0"
    using 0(2) by (simp add: word_eq_iff_unat unat_drop_bit1)
  have b: "unat (fst p) < B" "unat (snd p) * B + unat (fst p) = N"
    using div64_down_step [OF 0] 0(1) by (simp_all add: p_def)
  have r: "(q * B + r) div B = q" "(q * B + r) mod B = r" if "r < B" for q r
    using that by simp_all
  have "div64_down rem b res d = (snd p, fst p)"
    using d by (subst div64_down.simps) (simp add: p_def)
  then show ?case
    using r [OF b(1), of "unat (snd p)"] b(2) by simp
next
  case (Suc k)
  define p where "p = (if b \<le> rem then (rem - b, res + d) else (rem, res))"
  have d: "unat (drop_bit 1 d) = 2 ^ k" "unat (drop_bit 1 b) = B * 2 ^ k" "unat b = 2 * (B * 2 ^ k)"
    using Suc.prems(1,2) by (simp_all add: unat_drop_bit1)
  then have nz: "drop_bit 1 d \<noteq> 0"
    by (metis power_not_zero unsigned_0 zero_neq_numeral)
  have b: "unat (fst p) < 2 * unat (drop_bit 1 b)" "unat (snd p) * B + unat (fst p) = N"
    using div64_down_step [OF Suc.prems] d by (simp_all add: p_def)
  have "div64_down rem b res d = div64_down (fst p) (drop_bit 1 b) (snd p) (drop_bit 1 d)"
    using nz by (subst div64_down.simps) (simp add: p_def)
  then show ?case
    using Suc.IH [OF d(2,1) Suc.prems(3) b Suc.prems(6)] by simp
qed

text \<open>The first step takes the high word's share of the quotient off.\<close>

lemma div64_reduce:
  fixes n :: u64 and base :: u32
  defines "high \<equiv> ucast (drop_bit 32 n) :: u32"
  assumes "base \<noteq> 0" "base \<le> high"
  shows "unat (push_bit 32 (ucast (high div base)) :: u64) = unat n div 2 ^ 32 div unat base * 2 ^ 32"
    "unat (n - push_bit 32 (ucast ((high div base) * base))) =
       unat n - unat n div 2 ^ 32 div unat base * unat base * 2 ^ 32"
proof -
  have n: "unat n < 2 ^ 64" by (rule order_less_le_trans [OF unsigned_less]) simp
  have h: "unat high = unat n div 2 ^ 32"
    unfolding high_def using n by (subst unat_ucast_fits) (simp_all add: unat_drop_bit_div)
  have q: "unat (high div base) = unat n div 2 ^ 32 div unat base"
    by (simp add: h unat_div_distrib)
  have le: "unat n div 2 ^ 32 div unat base * unat base \<le> unat n div 2 ^ 32" by simp
  have qb: "unat ((high div base) * base) = unat n div 2 ^ 32 div unat base * unat base"
    unfolding q [symmetric]
    by (rule unat_mult_lem [THEN iffD1]) (use order_le_less_trans [OF le, of "2 ^ 32"] n in \<open>simp add: q\<close>)
  have sh: "unat (push_bit 32 (ucast x) :: u64) = unat x * 2 ^ 32" for x :: u32
    using unsigned_less [of x, where ?'a = nat]
    by (simp add: push_bit_eq_mult unat_word_ariths)
  show "unat (push_bit 32 (ucast (high div base)) :: u64) = unat n div 2 ^ 32 div unat base * 2 ^ 32"
    by (simp add: sh q)
  have "unat n div 2 ^ 32 div unat base * unat base * 2 ^ 32 \<le> unat n"
    using mult_le_mono1 [OF le, of "2 ^ 32"] by (meson div_times_less_eq_dividend order_trans)
  then show "unat (n - push_bit 32 (ucast ((high div base) * base))) =
       unat n - unat n div 2 ^ 32 div unat base * unat base * 2 ^ 32"
    by (simp add: unat_sub_if' sh qb)
qed

lemma div64_32_correct:
  assumes "base \<noteq> 0"
  shows "unat (fst (div64_32 n base)) = unat n div unat base"
    "unat (snd (div64_32 n base)) = unat n mod unat base"
proof -
  define high where "high = (ucast (drop_bit 32 n) :: u32)"
  define p where "p = (if base \<le> high
      then (push_bit 32 (ucast (high div base)), n - push_bit 32 (ucast ((high div base) * base)))
      else (0 :: u64, n))"
  define up where "up = div64_up (snd p) (ucast base) 1"
  define dn where "dn = div64_down (snd p) (fst up) (fst p) (snd up)"
  let ?B = "unat base"
  have n: "unat n < 2 ^ 64" by (rule order_less_le_trans [OF unsigned_less]) simp
  have B: "0 < ?B" using assms by (simp add: unat_gt_0)
  have uB: "unat (ucast base :: u64) = ?B * 2 ^ 0" "unat (1::u64) = 2 ^ 0"
    by simp_all
  have inv: "unat (fst p) * ?B + unat (snd p) = unat n"
  proof (cases "base \<le> high")
    case True
    have "unat n div 2 ^ 32 div ?B * ?B * 2 ^ 32 \<le> unat n"
      using mult_le_mono1 [OF div_times_less_eq_dividend [of "unat n div 2 ^ 32" ?B], of "2 ^ 32"]
      by (meson div_times_less_eq_dividend order_trans)
    then show ?thesis
      using True div64_reduce [OF assms, of n] by (simp add: p_def high_def mult.assoc mult.commute mult.left_commute)
  qed (simp add: p_def)
  obtain j where j: "unat (fst up) = ?B * 2 ^ j" "unat (snd up) = 2 ^ j"
    "unat (snd p) \<le> unat (fst up) \<or> 2 ^ 63 \<le> unat (fst up)"
    using div64_up_result [OF uB B, of "snd p"] by (auto simp: up_def case_prod_beta)
  have "unat (snd p) < 2 * unat (fst up)"
    using j(3)
  proof
    assume "unat (snd p) \<le> unat (fst up)"
    moreover have "0 < unat (fst up)" using B j(1) by simp
    ultimately show ?thesis by linarith
  next
    assume "2 ^ 63 \<le> unat (fst up)"
    moreover have "unat (snd p) < 2 ^ 64" by (rule order_less_le_trans [OF unsigned_less]) simp
    ultimately show ?thesis by simp
  qed
  from div64_down_result [OF j(1,2) B this inv n]
  have r: "unat (fst dn) = unat n div ?B" "unat (snd dn) = unat n mod ?B"
    by (simp_all add: dn_def case_prod_beta)
  have "div64_32 n base = (fst dn, ucast (snd dn))"
    by (simp add: div64_32_def dn_def up_def p_def high_def case_prod_beta Let_def)
  moreover have "unat (ucast (snd dn) :: u32) = unat (snd dn)"
  proof -
    have "unat (snd dn) < ?B" using r(2) B by simp
    also have "?B < 2 ^ 32" by (rule order_less_le_trans [OF unsigned_less]) simp
    finally show ?thesis by (simp add: unat_ucast_fits)
  qed
  ultimately show "unat (fst (div64_32 n base)) = unat n div ?B"
    "unat (snd (div64_32 n base)) = unat n mod ?B"
    using r by simp_all
qed

lemma do_div_correct:
  assumes "base \<noteq> 0"
  shows "unat (fst (do_div n base)) = unat n div unat base"
    "unat (snd (do_div n base)) = unat n mod unat base"
proof -
  have u: "unat (ucast n :: u32) = unat n" if "drop_bit 32 n = 0"
  proof -
    have "unat (drop_bit 32 n) = 0" unfolding that by simp
    then have "unat n < 2 ^ 32" unfolding unat_drop_bit_div by (simp add: div_eq_0_iff)
    then show ?thesis by (simp add: unat_ucast_fits)
  qed
  have w: "unat (ucast (x div base) :: u64) = unat x div unat base" for x :: u32
    by (simp add: unat_div_distrib)
  show "unat (fst (do_div n base)) = unat n div unat base"
    "unat (snd (do_div n base)) = unat n mod unat base"
    using u w div64_32_correct [OF assms] by (auto simp: do_div_def unat_mod_distrib)
qed

section \<open>ctype.h\<close>

text \<open>
  The macros on an argument of type char, which is unsigned on the ARM target.  The result of
  tolower and toupper is the int of the macro's subtraction: (char)('A' - 'a') is 224, so tolower
  of an upper-case letter is negative.
\<close>

definition isspace :: "u8 \<Rightarrow> bool" where "isspace c \<longleftrightarrow> c = of_char CHR '' ''"

definition islower :: "u8 \<Rightarrow> bool" where "islower c \<longleftrightarrow> of_char CHR ''a'' \<le> c \<and> c \<le> of_char CHR ''z''"

definition isupper :: "u8 \<Rightarrow> bool" where "isupper c \<longleftrightarrow> of_char CHR ''A'' \<le> c \<and> c \<le> of_char CHR ''Z''"

definition isdigit :: "u8 \<Rightarrow> bool" where "isdigit c \<longleftrightarrow> of_char CHR ''0'' \<le> c \<and> c \<le> of_char CHR ''9''"

definition tolower :: "u8 \<Rightarrow> int" where
  "tolower c = (if isupper c then uint c - uint (word_of_int (65 - 97) :: u8) else uint c)"

definition toupper :: "u8 \<Rightarrow> int" where
  "toupper c = (if islower c then uint c - uint (word_of_int (97 - 65) :: u8) else uint c)"

definition isxdigit :: "u8 \<Rightarrow> bool" where
  "isxdigit c \<longleftrightarrow> isdigit c \<or> (97 \<le> tolower c \<and> tolower c \<le> 102)"

definition isalpha :: "u8 \<Rightarrow> bool" where "isalpha c \<longleftrightarrow> islower c \<or> isupper c"

definition isalnum :: "u8 \<Rightarrow> bool" where "isalnum c \<longleftrightarrow> isalpha c \<or> isdigit c"

definition isprint :: "u8 \<Rightarrow> bool" where "isprint c \<longleftrightarrow> 0x20 \<le> c \<and> c < 0x7f"

definition ispunct :: "u8 \<Rightarrow> bool" where "ispunct c \<longleftrightarrow> isprint c \<and> \<not> isalnum c"

lemma isdigit_iff: "isdigit c \<longleftrightarrow> 48 \<le> unat c \<and> unat c \<le> 57"
  by (simp add: isdigit_def word_le_nat_alt)

lemma isupper_iff: "isupper c \<longleftrightarrow> 65 \<le> unat c \<and> unat c \<le> 90"
  by (simp add: isupper_def word_le_nat_alt)

lemma islower_iff: "islower c \<longleftrightarrow> 97 \<le> unat c \<and> unat c \<le> 122"
  by (simp add: islower_def word_le_nat_alt)

text \<open>The hexadecimal digits the macro accepts: the upper-case ones are not among them.\<close>

lemma isxdigit_iff: "isxdigit c \<longleftrightarrow> isdigit c \<or> (97 \<le> unat c \<and> unat c \<le> 102)"
proof -
  obtain n where n: "unat c = n" "uint c = int n" by simp
  have "n < 256" using unat_lt_pow(1) [of c] n by simp
  then show ?thesis
    unfolding isxdigit_def tolower_def isupper_iff isdigit_iff n by simp
qed

lemma not_isdigit_0 [simp]: "\<not> isdigit 0" "\<not> isxdigit 0"
  by (simp_all add: isdigit_iff isxdigit_iff)

section \<open>strtoul, strtol and atoi\<close>

text \<open>
  The digit loops over the view of the string, from index i with the value n so far; they return
  the value and the index of the first byte that is not a digit (a - 1 in the code).
\<close>

partial_function (option) strtoul_hex :: "cview \<Rightarrow> nat \<Rightarrow> u32 \<Rightarrow> (u32 \<times> nat) option" where
  "strtoul_hex v i n =
    (if isxdigit (v i)
     then strtoul_hex v (Suc i)
        (n * 16 + (if isdigit (v i) then ucast (v i) - 48 else word_of_int (tolower (v i) - 97 + 10)))
     else Some (n, i))"

partial_function (option) strtoul_dec :: "cview \<Rightarrow> nat \<Rightarrow> u32 \<Rightarrow> u32 \<Rightarrow> (u32 \<times> nat) option" where
  "strtoul_dec v i base n =
    (if isdigit (v i) then strtoul_dec v (Suc i) base (n * base + (ucast (v i) - 48)) else Some (n, i))"

text \<open>Base 0 is settled by the prefix.\<close>

definition strto_base :: "cview \<Rightarrow> nat \<Rightarrow> int \<Rightarrow> nat \<times> int" where
  "strto_base v a base =
    (if base = 0 then
       if v a = of_char CHR ''0'' then
         if tolower (v (a + 1)) = of_char CHR ''x'' then (a + 2, 16) else (a + 1, 10)
       else (a, 10)
     else (a, base))"

text \<open>The result is the number and what is stored through endptr (None: nothing).\<close>

definition strtoul :: "cview option \<Rightarrow> int \<Rightarrow> (u32 \<times> nat option) option" where
  "strtoul nptr base =
    (case nptr of
       None \<Rightarrow> Some (0, None)
     | Some v \<Rightarrow>
         if base \<noteq> 0 \<and> base \<noteq> 10 \<and> base \<noteq> 16 then Some (0, None)
         else case strto_base v 0 base of (a, base) \<Rightarrow>
           do {
             (n, e) \<leftarrow> (if 10 < base then strtoul_hex v a 0 else strtoul_dec v a (word_of_int base) 0);
             Some (n, Some e)
           })"

text \<open>strtol: the same loops on a long, the sign taken off first and multiplied in last.\<close>

definition strtol :: "cview option \<Rightarrow> int \<Rightarrow> (u32 \<times> nat option) option" where
  "strtol nptr base =
    (case nptr of
       None \<Rightarrow> Some (0, None)
     | Some v \<Rightarrow>
         if base \<noteq> 0 \<and> base \<noteq> 10 \<and> base \<noteq> 16 then Some (0, None)
         else
           let (s, a) = (if v 0 = of_char CHR ''-'' then (-1, 1)
                         else if v 0 = of_char CHR ''+'' then (1, 1) else (1, 0));
               (a, base) = strto_base v a base
           in do {
             (n, e) \<leftarrow> (if 10 < base then strtoul_hex v a 0 else strtoul_dec v a (word_of_int base) 0);
             Some (n * s, Some e)
           })"

definition atoi :: "cview \<Rightarrow> int option" where
  "atoi nptr = do { (n, e) \<leftarrow> strtol (Some nptr) 10; Some (sint n) }"

definition atol :: "cview \<Rightarrow> int option" where
  "atol nptr = do { (n, e) \<leftarrow> strtol (Some nptr) 10; Some (sint n) }"

text \<open>The number a list of digit characters stands for.\<close>

definition dec_val :: "u8 list \<Rightarrow> nat" where
  "dec_val ds = foldl (\<lambda>n d. n * 10 + (unat d - 48)) 0 ds"

definition hex_digit :: "u8 \<Rightarrow> nat" where
  "hex_digit d = (if isdigit d then unat d - 48 else unat d - 87)"

definition hex_val :: "u8 list \<Rightarrow> nat" where
  "hex_val ds = foldl (\<lambda>n d. n * 16 + hex_digit d) 0 ds"

text \<open>The view v shows the bytes ds from index i, and then a byte outside P.\<close>

definition run_of :: "(u8 \<Rightarrow> bool) \<Rightarrow> cview \<Rightarrow> nat \<Rightarrow> u8 list \<Rightarrow> bool" where
  "run_of P v i ds \<longleftrightarrow> (\<forall>k < length ds. v (i + k) = ds ! k \<and> P (ds ! k)) \<and> \<not> P (v (i + length ds))"

lemma run_of_Nil [simp]: "run_of P v i [] \<longleftrightarrow> \<not> P (v i)"
  by (simp add: run_of_def)

lemma run_of_Cons: "run_of P v i (d # ds) \<longleftrightarrow> v i = d \<and> P d \<and> run_of P v (Suc i) ds"
  by (auto simp: run_of_def less_Suc_eq_0_disj nth_Cons')

lemma digit_word: "isdigit d \<Longrightarrow> (ucast d - 48 :: u32) = of_nat (unat d - 48)"
  by (simp add: isdigit_iff word_eq_iff_unat unat_sub_if' unsigned_of_nat take_bit_nat_eq_self)

lemma hex_digit_word:
  "isxdigit d \<Longrightarrow>
   (if isdigit d then ucast d - 48 else word_of_int (tolower d - 97 + 10) :: u32) = of_nat (hex_digit d)"
proof (cases "isdigit d")
  case False
  assume "isxdigit d"
  with False have d: "97 \<le> unat d" "unat d \<le> 102" by (auto simp: isxdigit_iff)
  then have "tolower d - 97 + 10 = int (unat d - 87)"
    by (simp add: tolower_def isupper_iff of_nat_diff)
  with False show ?thesis by (simp add: hex_digit_def)
qed (simp add: digit_word hex_digit_def)

lemma strtoul_dec_run:
  "run_of isdigit v i ds \<Longrightarrow>
   strtoul_dec v i 10 n = Some (foldl (\<lambda>n d. n * 10 + of_nat (unat d - 48)) n ds, i + length ds)"
proof (induction ds arbitrary: i n)
  case Nil
  then show ?case by (subst strtoul_dec.simps) simp
next
  case (Cons d ds)
  then show ?case
    by (subst strtoul_dec.simps) (simp add: run_of_Cons digit_word)
qed

lemma strtoul_hex_run:
  "run_of isxdigit v i ds \<Longrightarrow>
   strtoul_hex v i n = Some (foldl (\<lambda>n d. n * 16 + of_nat (hex_digit d)) n ds, i + length ds)"
proof (induction ds arbitrary: i n)
  case Nil
  then show ?case by (subst strtoul_hex.simps) simp
next
  case (Cons d ds)
  then have d: "v i = d" "isxdigit d" "run_of isxdigit v (Suc i) ds"
    by (simp_all add: run_of_Cons)
  show ?case
    by (subst strtoul_hex.simps) (simp only: d(1,2) if_True hex_digit_word [OF d(2)] Cons.IH [OF d(3)], simp)
qed

lemma foldl_of_nat:
  "foldl (\<lambda>n d. n * b + of_nat (f d)) (of_nat m) ds = (of_nat (foldl (\<lambda>n d. n * B + f d) m ds) :: u32)"
  if "b = of_nat B"
  using that by (induction ds arbitrary: m) (simp_all flip: of_nat_mult of_nat_add)

lemma strtoul_dec_val:
  "run_of isdigit v i ds \<Longrightarrow> strtoul_dec v i 10 0 = Some (of_nat (dec_val ds), i + length ds)"
  using foldl_of_nat [of 10 10 "\<lambda>d. unat d - 48" 0 ds] by (simp add: strtoul_dec_run dec_val_def)

lemma strtoul_hex_val:
  "run_of isxdigit v i ds \<Longrightarrow> strtoul_hex v i 0 = Some (of_nat (hex_val ds), i + length ds)"
  using foldl_of_nat [of 16 16 hex_digit 0 ds] by (simp add: strtoul_hex_run hex_val_def)

lemma strtoul_10:
  "run_of isdigit v 0 ds \<Longrightarrow> strtoul (Some v) 10 = Some (of_nat (dec_val ds), Some (length ds))"
  using strtoul_dec_val [of v 0 ds] by (simp add: strtoul_def strto_base_def)

lemma strtoul_0x:
  assumes "v 0 = of_char CHR ''0''" "v 1 = of_char CHR ''x''" "run_of isxdigit v 2 ds"
  shows "strtoul (Some v) 0 = Some (of_nat (hex_val ds), Some (2 + length ds))"
proof -
  have "strto_base v 0 0 = (2, 16)"
    using assms(1,2) by (simp add: strto_base_def tolower_def isupper_iff)
  then show ?thesis
    using strtoul_hex_val [OF assms(3)] by (simp add: strtoul_def)
qed

section \<open>ltoa and itoa\<close>

text \<open>
  The digits are produced lowest first into tmp and then copied out in reverse.  The signed
  division truncates; the loop of a base that does not shrink the value never ends, hence the
  option.  The digit table hex is a string literal.
\<close>

partial_function (option) ltoa_digits :: "int \<Rightarrow> int \<Rightarrow> u8 list \<Rightarrow> u8 list option" where
  "ltoa_digits value base tmp =
    (if 0 < value
     then ltoa_digits (value sdiv base) base (tmp @ [lit ''0123456789ABCDEF'' (nat (value smod base))])
     else Some tmp)"

definition ltoa :: "'b mem \<Rightarrow> int \<Rightarrow> 'b ptr \<Rightarrow> int \<Rightarrow> 'b mem option" where
  "ltoa m value nptr base =
    (if value = 0 then Some (st_list (st_list m nptr [of_char CHR ''0'']) (padd nptr 1) [0])
     else
       let (m, value, off) =
             (if value < 0 then (st8 m nptr (of_char CHR ''-''), sint (word_of_int (- 1 * value) :: u32), 1)
              else (m, value, 0))
       in do {
         tmp \<leftarrow> ltoa_digits value base [];
         Some (st8 (st_list m (padd nptr off) (rev tmp)) (padd nptr (length tmp + off)) 0)
       })"

definition itoa :: "'b mem \<Rightarrow> int \<Rightarrow> 'b ptr \<Rightarrow> int \<Rightarrow> 'b mem option" where
  "itoa m value nptr base = ltoa m value nptr base"

text \<open>The reference: the digits of a positive number, highest first.\<close>

fun digits :: "nat \<Rightarrow> nat \<Rightarrow> u8 list" where
  "digits base n =
    (if n = 0 \<or> base < 2 then [] else digits base (n div base) @ [lit ''0123456789ABCDEF'' (n mod base)])"

declare digits.simps [simp del]

lemma ltoa_digits_ref:
  "2 \<le> base \<Longrightarrow> ltoa_digits (int n) (int base) tmp = Some (tmp @ rev (digits base n))"
proof (induction n arbitrary: tmp rule: less_induct)
  case (less n)
  show ?case
  proof (cases "n = 0")
    case True
    then show ?thesis by (subst ltoa_digits.simps) (simp add: digits.simps)
  next
    case False
    have d: "int n sdiv int base = int (n div base)" "int n smod int base = int (n mod base)"
      using less.prems by (simp_all add: signed_divide_int_def signed_modulo_int_def sgn_if zdiv_int zmod_int)
    have "n div base < n" using False less.prems by simp
    then have "ltoa_digits (int (n div base)) (int base) (tmp @ [lit ''0123456789ABCDEF'' (n mod base)])
        = Some ((tmp @ [lit ''0123456789ABCDEF'' (n mod base)]) @ rev (digits base (n div base)))"
      using less by blast
    moreover have "digits base n = digits base (n div base) @ [lit ''0123456789ABCDEF'' (n mod base)]"
      using False less.prems by (subst digits.simps) simp
    ultimately show ?thesis
      using False by (subst ltoa_digits.simps) (simp add: d del: rev.simps)
  qed
qed

lemma lit_digit: "k < 10 \<Longrightarrow> lit ''0123456789ABCDEF'' k = of_nat (48 + k)"
proof -
  assume "k < 10"
  then have "k = 0 \<or> k = 1 \<or> k = 2 \<or> k = 3 \<or> k = 4 \<or> k = 5 \<or> k = 6 \<or> k = 7 \<or> k = 8 \<or> k = 9"
    by arith
  then show ?thesis by (elim disjE) (simp_all add: lit_def)
qed

lemma digits_dec: "\<forall>d \<in> set (digits 10 n). isdigit d" "dec_val (digits 10 n) = n"
proof (induction n rule: less_induct)
  case (less n)
  show "\<forall>d \<in> set (digits 10 n). isdigit d" "dec_val (digits 10 n) = n"
  proof -
    have d: "unat (lit ''0123456789ABCDEF'' (n mod 10)) = 48 + n mod 10"
      by (subst lit_digit) (simp_all add: unsigned_of_nat take_bit_nat_eq_self del: of_nat_add)
    show "\<forall>d \<in> set (digits 10 n). isdigit d"
    proof (cases "n = 0")
      case True
      then show ?thesis by (simp add: digits.simps)
    next
      case False
      then show ?thesis
        using less(1) [of "n div 10"] d by (subst digits.simps) (auto simp: isdigit_iff)
    qed
    show "dec_val (digits 10 n) = n"
    proof (cases "n = 0")
      case True
      then show ?thesis by (simp add: digits.simps dec_val_def)
    next
      case False
      then show ?thesis
        using less(2) [of "n div 10"] d by (subst digits.simps) (simp add: dec_val_def)
    qed
  qed
qed

lemma sint32_of_int: "- (2 ^ 31) \<le> v \<Longrightarrow> v < 2 ^ 31 \<Longrightarrow> sint (word_of_int v :: u32) = v"
  by (subst int_word_sint) simp

text \<open>What ltoa writes in base 10, for every long but the least.\<close>

definition dec_string :: "int \<Rightarrow> u8 list" where
  "dec_string v = (if v = 0 then [of_char CHR ''0''] else
     (if v < 0 then [of_char CHR ''-''] else []) @ digits 10 (nat \<bar>v\<bar>))"

lemma ltoa_dec_string:
  assumes "- (2 ^ 31) < v" "v < 2 ^ 31"
  shows "ltoa m v p 10 = Some (st_list m p (dec_string v @ [0]))"
proof -
  have w: "sint (word_of_int (- v) :: u32) = int (nat \<bar>v\<bar>)" if "v < 0"
    using that assms sint32_of_int [of "- v"] by simp
  have d: "ltoa_digits (int n) 10 [] = Some (rev (digits 10 n))" for n
    using ltoa_digits_ref [of 10 n "[]"] by simp
  consider "v = 0" | "0 < v" | "v < 0" by linarith
  then show ?thesis
  proof cases
    case 1
    then show ?thesis by (simp add: ltoa_def dec_string_def)
  next
    case 2
    then show ?thesis
      using d [of "nat v"] by (simp add: ltoa_def dec_string_def st_list_append)
  next
    case 3
    then show ?thesis
      using d [of "nat \<bar>v\<bar>"] w by (simp add: ltoa_def dec_string_def st_list_append)
  qed
qed

text \<open>Ten digits at most, so that tmp[12] holds the digits and the terminator.\<close>

lemma digits_length: "n < 10 ^ k \<Longrightarrow> length (digits 10 n) \<le> k"
proof (induction k arbitrary: n)
  case 0
  then show ?case by (simp add: digits.simps)
next
  case (Suc k)
  then have "n div 10 < 10 ^ k" by (simp add: div_less_iff_less_mult mult.commute)
  then show ?case
    using Suc.IH [of "n div 10"] by (subst digits.simps) simp
qed

lemma run_of_cstr:
  assumes "cstr w (xs @ ds)" "\<forall>d \<in> set ds. P d" "\<not> P 0"
  shows "run_of P w (length xs) ds"
  unfolding run_of_def
proof (intro conjI allI impI)
  fix k assume k: "k < length ds"
  then have "w (length xs + k) = (xs @ ds) ! (length xs + k)"
    using assms(1) by (simp only: cstr_def length_append add_less_cancel_left)
  then show "w (length xs + k) = ds ! k" "P (ds ! k)"
    using k assms(2) by (simp_all add: nth_append)
next
  show "\<not> P (w (length xs + length ds))"
    using assms(1,3) by (simp add: cstr_def)
qed

lemma cstr_st_list:
  assumes "0 \<notin> set s"
  shows "cstr (view (st_list m p (s @ 0 # r)) p) s"
proof -
  have "s ! i \<noteq> 0" if "i < length s" for i
    using assms that nth_mem by metis
  then show ?thesis by (auto simp: cstr_def st_list_padd nth_append)
qed

lemma digit_not_0: "\<forall>d \<in> set ds. isdigit d \<Longrightarrow> 0 \<notin> set ds"
  using not_isdigit_0(1) by blast

lemma dec_string_not_0: "0 \<notin> set (dec_string v)"
  using digit_not_0 [OF digits_dec(1)] by (auto simp: dec_string_def)

lemma strtol_dec_string:
  assumes "- (2 ^ 31) < v" "v < 2 ^ 31" "cstr w (dec_string v)"
  shows "strtol (Some w) 10 = Some (word_of_int v, Some (length (dec_string v)))"
proof -
  let ?ds = "if v = 0 then [of_char CHR ''0''] else digits 10 (nat \<bar>v\<bar>)"
  let ?k = "if v < 0 then 1 else 0 :: nat"
  let ?v = w
  have dd: "\<forall>d \<in> set ?ds. isdigit d"
    using digits_dec(1) by (simp add: isdigit_iff)
  have val: "dec_val ?ds = nat \<bar>v\<bar>"
    using digits_dec(2) by (simp add: dec_val_def)
  have split: "dec_string v = (if v < 0 then [of_char CHR ''-''] else []) @ ?ds"
    by (simp add: dec_string_def)
  have run: "run_of isdigit w ?k ?ds"
    using run_of_cstr [OF assms(3) [unfolded split] dd not_isdigit_0(1)]
    by (simp split: if_splits)
  have ne: "?ds \<noteq> []"
    using val by (cases "v = 0") (auto simp: dec_val_def)
  have first: "isdigit (?v 0)" if "\<not> v < 0"
    using run ne that by (cases ?ds) (auto simp: run_of_Cons)
  have minus: "?v 0 = of_char CHR ''-''" if "v < 0"
    using that assms(3) by (auto simp: split cstr_def)
  show ?thesis
  proof (cases "v < 0")
    case True
    then show ?thesis
      using strtoul_dec_val [OF run] minus val
      by (simp add: strtol_def strto_base_def split)
  next
    case False
    then have "?v 0 \<noteq> of_char CHR ''-''" "?v 0 \<noteq> of_char CHR ''+''"
      using first by (auto simp: isdigit_iff)
    with False show ?thesis
      using strtoul_dec_val [OF run] val
      by (simp add: strtol_def strto_base_def split)
  qed
qed

section \<open>div, ldiv and the random numbers\<close>

text \<open>C division truncates towards zero; a 32-bit int wraps.\<close>

definition div_c :: "int \<Rightarrow> int \<Rightarrow> int \<times> int" where
  "div_c numer denom =
    (let quot = sint (word_of_int (numer sdiv denom) :: u32)
     in (quot, sint (word_of_int (numer - quot * denom) :: u32)))"

definition ldiv :: "int \<Rightarrow> int \<Rightarrow> int \<times> int" where
  "ldiv numer denom =
    (let quot = sint (word_of_int (numer sdiv denom) :: u32);
         rem = sint (word_of_int (numer smod denom) :: u32)
     in if 0 \<le> numer \<and> rem < 0 then (quot + 1, rem - denom) else (quot, rem))"

definition rand_step :: "u32 \<Rightarrow> u32" where
  "rand_step s = s * 1103515245 + 12345"

text \<open>The seed after the call and the result; rand threads the static seed.\<close>

definition rand_r :: "u32 \<Rightarrow> u32 \<times> int" where
  "rand_r seed =
    (let s = rand_step seed; uret = s AND 0xffe00000;
         s = rand_step s; uret = uret + drop_bit 11 (s AND 0xfffc0000);
         s = rand_step s; uret = uret + drop_bit (11 + 14) (s AND 0xfe000000)
     in (s, sint (uret AND 2147483647)))"

definition srand :: "u32 \<Rightarrow> u32" where
  "srand seed = seed"

definition rand :: "u32 \<Rightarrow> u32 \<times> int" where
  "rand seed = rand_r seed"

section \<open>Properties\<close>

text \<open>C27: do_div leaves the quotient in its first argument and returns the remainder, for every 64-bit
  number and every nonzero base: the subtract-and-shift loop of __div64_32 is division.\<close>

theorem do_div_divides:
  assumes "base \<noteq> 0"
  shows "unat (fst (do_div n base)) = unat n div unat base \<and>
    unat (snd (do_div n base)) = unat n mod unat base"
  using do_div_correct [OF assms] by simp

theorem do_div_divides_witness:
  "unat (fst (do_div 18446744073709551615 10)) = 1844674407370955161 \<and>
   unat (snd (do_div 18446744073709551615 10)) = 5"
  using do_div_divides [of 10 18446744073709551615] by simp

text \<open>strtoul in base 10 returns, modulo 2^32, the value of the longest run of decimal digits and where
  it ends; in base 0 after 0x the same for the hexadecimal digits it accepts.\<close>

theorem strtoul_value:
  "(run_of isdigit v 0 ds \<longrightarrow> strtoul (Some v) 10 = Some (of_nat (dec_val ds), Some (length ds))) \<and>
   (v 0 = of_char CHR ''0'' \<and> v 1 = of_char CHR ''x'' \<and> run_of isxdigit v 2 ds \<longrightarrow>
      strtoul (Some v) 0 = Some (of_nat (hex_val ds), Some (2 + length ds)))"
  using strtoul_10 strtoul_0x by blast

theorem strtoul_value_witness:
  "strtoul (Some (lit ''4294967297.'')) 10 = Some (1, Some 10) \<and>
   strtoul (Some (lit ''0xff '')) 0 = Some (255, Some 4)"
proof -
  have "run_of isdigit (lit ''4294967297.'') 0 [52, 50, 57, 52, 57, 54, 55, 50, 57, 55]"
    by (simp add: run_of_Cons lit_def isdigit_iff)
  moreover have "run_of isxdigit (lit ''0xff '') 2 [102, 102]"
    by (simp add: run_of_Cons lit_def isxdigit_iff isdigit_iff)
  ultimately show ?thesis
    using strtoul_value [of "lit ''4294967297.''" "[52, 50, 57, 52, 57, 54, 55, 50, 57, 55]"]
      strtoul_value [of "lit ''0xff ''" "[102, 102]"]
    by (simp add: dec_val_def hex_val_def hex_digit_def isdigit_iff lit_def)
qed

text \<open>ltoa in base 10 and strtol are inverse on every long but the least: what ltoa prints, strtol reads
  back, to the end.\<close>

theorem ltoa_strtol_roundtrip:
  assumes "- (2 ^ 31) < v" "v < 2 ^ 31"
  shows "\<exists>m' n. ltoa m v p 10 = Some m' \<and> strtol (Some (view m' p)) 10 = Some (word_of_int v, Some n) \<and>
    m' (padd p n) = 0"
proof -
  let ?m = "st_list m p (dec_string v @ [0])"
  have "?m (padd p (length (dec_string v))) = 0"
    unfolding st_list_padd by (simp add: nth_append)
  then show ?thesis
    using ltoa_dec_string [OF assms] strtol_dec_string [OF assms cstr_st_list [OF dec_string_not_0]] by blast
qed

theorem ltoa_strtol_roundtrip_witness:
  "\<exists>m' n. ltoa (\<lambda>_. 9) (-2147483647) ((), 3) 10 = Some m' \<and>
     strtol (Some (view m' ((), 3))) 10 = Some (word_of_int (-2147483647), Some n) \<and> m' ((), 3 + n) = 0"
  using ltoa_strtol_roundtrip [of "-2147483647" "\<lambda>_. 9" "((), 3)"] by simp

end
