(* ===== verification/Printf.thy ===== *)
theory Printf
  imports CNum
begin

unbundle bit_operations_syntax

text \<open>
  lib/mylibc/stdio/simple_printf.c: the formatter behind sprintf, snprintf and prints.  Every
  character goes through the macro ADDCH, which stores it only below the end of the buffer but
  always advances; the model therefore collects the characters emitted in a list and applies the
  buffer rules of ADDCH, of the terminator and of the return value at the end (emit_buffer), or the
  newline rule for the console (emit_console).

  The format is the list of the characters of its literal.  Arguments are a list of typed values;
  asking for a type the next argument does not have has no meaning in C and is None here.  The
  floating point conversion __dtostr is the parameter dtostr, %n is None, and the pointer
  extensions of CONFIG_CMD_NET, which the build does not define, are left out.
\<close>

section \<open>Decimal conversion\<close>

text \<open>The digits are stored least significant first.\<close>

definition put_dec_trunc :: "u32 \<Rightarrow> u8 list" where
  "put_dec_trunc q =
    (let d1 = drop_bit 4 q AND 0xf; d2 = drop_bit 8 q AND 0xf; d3 = drop_bit 12 q;
         d0 = 6 * (d3 + d2 + d1) + (q AND 0xf);
         q = drop_bit 11 (d0 * 0xcd); d0 = d0 - 10 * q;
         b0 = [ucast (d0 + 48)];
         d1 = q + 9 * d3 + 5 * d2 + d1
     in if d1 \<noteq> 0 then
          let q = drop_bit 11 (d1 * 0xcd); d1 = d1 - 10 * q;
              b1 = [ucast (d1 + 48)];
              d2 = q + 2 * d2
          in if d2 \<noteq> 0 \<or> d3 \<noteq> 0 then
               let q = drop_bit 7 (d2 * 0xd); d2 = d2 - 10 * q;
                   b2 = [ucast (d2 + 48)];
                   d3 = q + 4 * d3
               in if d3 \<noteq> 0 then
                    let q = drop_bit 11 (d3 * 0xcd); d3 = d3 - 10 * q;
                        b3 = [ucast (d3 + 48)]
                    in b0 @ b1 @ b2 @ b3 @ (if q \<noteq> 0 then [ucast (q + 48)] else [])
                  else b0 @ b1 @ b2
             else b0 @ b1
        else b0)"

definition put_dec_full :: "u32 \<Rightarrow> u8 list" where
  "put_dec_full q =
    (let d1 = drop_bit 4 q AND 0xf; d2 = drop_bit 8 q AND 0xf; d3 = drop_bit 12 q;
         d0 = 6 * (d3 + d2 + d1) + (q AND 0xf);
         q = drop_bit 11 (d0 * 0xcd); d0 = d0 - 10 * q;
         b0 = ucast (d0 + 48);
         d1 = q + 9 * d3 + 5 * d2 + d1;
         q = drop_bit 11 (d1 * 0xcd); d1 = d1 - 10 * q;
         b1 = ucast (d1 + 48);
         d2 = q + 2 * d2;
         q = drop_bit 7 (d2 * 0xd); d2 = d2 - 10 * q;
         b2 = ucast (d2 + 48);
         d3 = q + 4 * d3;
         q = drop_bit 11 (d3 * 0xcd); d3 = d3 - 10 * q
     in [b0, b1, b2, ucast (d3 + 48), ucast (q + 48)])"

lemma unat_100000 [simp]: "unat (100000 :: u32) = 100000" "(100000 :: u32) \<noteq> 0"
  by simp_all

function put_dec :: "u64 \<Rightarrow> u8 list" where
  "put_dec num =
    (if num < 100000 then put_dec_trunc (ucast num)
     else case do_div num 100000 of (num', rem) \<Rightarrow> put_dec_full rem @ put_dec num')"
  by pat_completeness auto
termination
proof (relation "measure unat")
  fix num x y
  assume a: "\<not> num < (100000 :: u64)" "(x, y) = do_div num 100000"
  then have x: "unat x = unat num div 100000"
    using do_div_correct(1) [of 100000 num] by (metis fst_conv unat_100000)
  have "100000 \<le> unat num" using a(1) by (simp add: word_less_nat_alt)
  then show "(x, num) \<in> measure unat" by (simp add: x)
qed simp

declare put_dec.simps [simp del]

text \<open>The reciprocal multiplications divide by ten, within the range of the digit sums.\<close>

lemma mul_205: "x < 1020 \<Longrightarrow> x * 205 div 2048 = x div (10::nat)"
proof -
  assume x: "x < 1020"
  have "x div 10 < 102" "x mod 10 < 10" using x by (simp_all add: div_less_iff_less_mult)
  then have "2 * (x div 10) + 205 * (x mod 10) < 2048" by linarith
  moreover have "x * 205 = (x div 10) * 2048 + (2 * (x div 10) + 205 * (x mod 10))"
    using div_mult_mod_eq [of x 10] by linarith
  ultimately show ?thesis by simp
qed

lemma mul_13: "x \<le> 68 \<Longrightarrow> x * 13 div 128 = x div (10::nat)"
proof -
  assume x: "x \<le> 68"
  have e: "x = x div 10 * 10 + x mod 10" "x mod 10 < 10" by simp_all
  have "2 * (x div 10) + 13 * (x mod 10) < 128"
  proof (cases "x div 10 \<le> 5")
    case True
    then show ?thesis using e(2) by linarith
  next
    case False
    then have "x mod 10 \<le> 8" "x div 10 \<le> 6" using x e(1) by linarith+
    then show ?thesis by linarith
  qed
  moreover have "x * 13 = (x div 10) * 128 + (2 * (x div 10) + 13 * (x mod 10))"
    using div_mult_mod_eq [of x 10] by linarith
  ultimately show ?thesis by simp
qed

lemma word_mul_205: "unat (d :: u32) < 1020 \<Longrightarrow> unat (drop_bit 11 (d * 0xcd)) = unat d div 10"
proof -
  assume d: "unat d < 1020"
  then have "unat (d * 0xcd) = unat d * 205" by (simp add: unat_word_ariths)
  then show ?thesis unfolding unat_drop_bit_div using mul_205 [OF d] by simp
qed

lemma word_mul_13: "unat (d :: u32) \<le> 68 \<Longrightarrow> unat (drop_bit 7 (d * 0xd)) = unat d div 10"
proof -
  assume d: "unat d \<le> 68"
  then have "unat (d * 0xd) = unat d * 13" by (simp add: unat_word_ariths)
  then show ?thesis unfolding unat_drop_bit_div using mul_13 [OF d] by simp
qed

lemma word_mod_10:
  "unat q = unat (d :: u32) div 10 \<Longrightarrow> unat (d - 10 * q) = unat d mod 10"
proof -
  assume q: "unat q = unat d div 10"
  have le: "10 * unat q \<le> unat d" by (simp add: q)
  then have "unat (10 * q) = 10 * unat q"
    using order_le_less_trans [OF le unat_lt_pow(3)] by (simp add: unat_word_ariths)
  then show ?thesis
    using le q by (simp add: unat_sub_if' minus_mult_div_eq_mod)
qed

text \<open>The decimal digits of a number, least significant first, k of them.\<close>

definition dec_digit :: "nat \<Rightarrow> u8" where
  "dec_digit d = of_nat (48 + d)"

definition low_digits :: "nat \<Rightarrow> nat \<Rightarrow> u8 list" where
  "low_digits k n = map (\<lambda>i. dec_digit (n div 10 ^ i mod 10)) [0..<k]"

lemma digit_char: "unat (d :: u32) < 10 \<Longrightarrow> (ucast (d + 48) :: u8) = dec_digit (unat d)"
  by (simp add: word_eq_iff_unat unat_ucast_fits unat_word_ariths dec_digit_def unsigned_of_nat
      take_bit_nat_eq_self del: of_nat_add)

text \<open>The sums of the algorithm: the hexadecimal digits of q regrouped by powers of ten.\<close>

lemma hex_digits_sum:
  fixes q :: u32
  assumes "unat q < 100000"
  defines "d1 \<equiv> drop_bit 4 q AND 0xf" and "d2 \<equiv> drop_bit 8 q AND 0xf" and "d3 \<equiv> drop_bit 12 q"
    and "d0 \<equiv> q AND 0xf"
  shows "unat q = unat d0 + 16 * unat d1 + 256 * unat d2 + 4096 * unat d3"
    "unat d0 < 16" "unat d1 < 16" "unat d2 < 16" "unat d3 < 25"
proof -
  have m: "unat (w AND 0xf :: u32) = unat w mod 16" for w :: u32
  proof -
    have "w AND 0xf = take_bit 4 w" by (simp add: take_bit_eq_mask mask_eq_exp_minus_1)
    then have "unat (w AND 0xf) = take_bit 4 (unat w)" by (simp only: unsigned_take_bit_eq)
    then show ?thesis by (simp add: take_bit_eq_mod)
  qed
  have d: "unat d0 = unat q mod 16" "unat d1 = unat q div 16 mod 16" "unat d2 = unat q div 256 mod 16"
    "unat d3 = unat q div 4096"
    unfolding d0_def d1_def d2_def d3_def m unat_drop_bit_div by simp_all
  define a b where "a = unat q div 16" and "b = unat q div 16 div 16"
  have e: "unat q div 256 = b" "unat q div 4096 = b div 16" "b = a div 16"
    by (simp_all add: a_def b_def div_mult2_eq [symmetric])
  have "unat q = 16 * a + unat q mod 16" "a = 16 * b + a mod 16" "b = 16 * (b div 16) + b mod 16"
    by (simp_all add: a_def b_def)
  then show "unat q = unat d0 + 16 * unat d1 + 256 * unat d2 + 4096 * unat d3"
    unfolding d e(1,2) a_def [symmetric] by linarith
  show "unat d0 < 16" "unat d1 < 16" "unat d2 < 16" by (simp_all add: d)
  show "unat d3 < 25" using assms(1) by (simp add: d div_less_iff_less_mult)
qed

lemma regroup: "n = e + 10 * r \<Longrightarrow> n mod 10 = e mod 10 \<and> n div 10 = e div 10 + (r :: nat)"
  by simp

lemma put_dec_chain:
  fixes q :: u32
  assumes "unat q < 100000"
  defines "d1 \<equiv> drop_bit 4 q AND 0xf" and "d2 \<equiv> drop_bit 8 q AND 0xf" and "d3 \<equiv> drop_bit 12 q"
  defines "e0 \<equiv> 6 * (d3 + d2 + d1) + (q AND 0xf)"
  defines "q0 \<equiv> drop_bit 11 (e0 * 0xcd)"
  defines "e1 \<equiv> q0 + 9 * d3 + 5 * d2 + d1"
  defines "q1 \<equiv> drop_bit 11 (e1 * 0xcd)"
  defines "e2 \<equiv> q1 + 2 * d2"
  defines "q2 \<equiv> drop_bit 7 (e2 * 0xd)"
  defines "e3 \<equiv> q2 + 4 * d3"
  defines "q3 \<equiv> drop_bit 11 (e3 * 0xcd)"
  shows "unat (e0 - 10 * q0) = unat q mod 10" "unat (e1 - 10 * q1) = unat q div 10 mod 10"
    "unat (e2 - 10 * q2) = unat q div 100 mod 10" "unat (e3 - 10 * q3) = unat q div 1000 mod 10"
    "unat q3 = unat q div 10000"
    "unat e1 + 10 * (2 * unat d2) + 100 * (4 * unat d3) = unat q div 10"
    "unat e2 + 10 * (4 * unat d3) = unat q div 100" "unat e3 = unat q div 1000"
    "unat e1 = 0 \<longleftrightarrow> unat q div 10 = 0"
proof -
  define x where "x = q AND 0xf"
  have h: "unat q = unat x + 16 * unat d1 + 256 * unat d2 + 4096 * unat d3"
    and b: "unat x < 16" "unat d1 < 16" "unat d2 < 16" "unat d3 < 25"
    unfolding x_def d1_def d2_def d3_def by (rule hex_digits_sum [OF assms(1)])+
  have e0: "unat e0 = 6 * (unat d3 + unat d2 + unat d1) + unat x"
    using b by (simp add: e0_def flip: x_def) (simp add: unat_word_ariths)
  then have q0: "unat q0 = unat e0 div 10" unfolding q0_def using b by (intro word_mul_205) simp
  have b0: "unat q0 < 34" using b e0 q0 by (simp add: div_less_iff_less_mult)
  have e1: "unat e1 = unat q0 + 9 * unat d3 + 5 * unat d2 + unat d1"
    using b b0 by (simp add: e1_def unat_word_ariths)
  then have q1: "unat q1 = unat e1 div 10" unfolding q1_def using b b0 by (intro word_mul_205) simp
  have b1: "unat q1 < 34" using b b0 e1 q1 by (simp add: div_less_iff_less_mult)
  have e2: "unat e2 = unat q1 + 2 * unat d2"
    using b b1 by (simp add: e2_def unat_word_ariths)
  then have q2: "unat q2 = unat e2 div 10" unfolding q2_def using b b1 by (intro word_mul_13) simp
  have b2: "unat q2 < 7" using b b1 e2 q2 by (simp add: div_less_iff_less_mult)
  have e3: "unat e3 = unat q2 + 4 * unat d3"
    using b b2 by (simp add: e3_def unat_word_ariths)
  then have q3: "unat q3 = unat e3 div 10" unfolding q3_def using b b2 by (intro word_mul_205) simp
  let ?n = "unat q"
  have n0: "?n = unat e0 + 10 * ((9 * unat d3 + 5 * unat d2 + unat d1) + 10 * (2 * unat d2) + 100 * (4 * unat d3))"
    unfolding h e0 by (simp add: algebra_simps)
  have r1: "?n mod 10 = unat e0 mod 10" "?n div 10 = unat e1 + 10 * (2 * unat d2 + 10 * (4 * unat d3))"
    using regroup [OF n0] unfolding q0 [symmetric] e1 by (simp_all add: algebra_simps)
  have r2: "?n div 10 mod 10 = unat e1 mod 10" "?n div 10 div 10 = unat e2 + 10 * (4 * unat d3)"
    using regroup [OF r1(2)] unfolding q1 [symmetric] e2 by (simp_all add: algebra_simps)
  have r3: "?n div 10 div 10 mod 10 = unat e2 mod 10" "?n div 10 div 10 div 10 = unat e3"
    using regroup [OF r2(2)] unfolding q2 [symmetric] e3 by (simp_all add: algebra_simps)
  have dv: "?n div 100 = ?n div 10 div 10" "?n div 1000 = ?n div 10 div 10 div 10"
    "?n div 10000 = ?n div 10 div 10 div 10 div 10"
    by (simp_all add: div_mult2_eq [symmetric])
  show "unat (e0 - 10 * q0) = ?n mod 10" "unat (e1 - 10 * q1) = ?n div 10 mod 10"
    "unat (e2 - 10 * q2) = ?n div 100 mod 10" "unat (e3 - 10 * q3) = ?n div 1000 mod 10"
    using word_mod_10 [OF q0] word_mod_10 [OF q1] word_mod_10 [OF q2] word_mod_10 [OF q3] r1(1) r2(1) r3
    unfolding dv by simp_all
  show "unat q3 = ?n div 10000" unfolding dv r3(2) by (rule q3)
  show "unat e1 + 10 * (2 * unat d2) + 100 * (4 * unat d3) = ?n div 10"
    unfolding r1(2) by (simp add: algebra_simps)
  show "unat e2 + 10 * (4 * unat d3) = ?n div 100" unfolding dv r2(2) ..
  show "unat e3 = ?n div 1000" unfolding dv r3(2) ..
  show "unat e1 = 0 \<longleftrightarrow> ?n div 10 = 0" unfolding r1(2) using e1 by auto
qed

lemma low_digits_5:
  "low_digits 5 n = [dec_digit (n mod 10), dec_digit (n div 10 mod 10), dec_digit (n div 100 mod 10),
    dec_digit (n div 1000 mod 10), dec_digit (n div 10000 mod 10)]"
  by (simp add: low_digits_def upt_rec)

lemma put_dec_full_digits:
  assumes "unat q < 100000"
  shows "put_dec_full q = low_digits 5 (unat q)"
proof -
  note c = put_dec_chain [OF assms]
  have "unat q div 10000 < 10" using assms by (simp add: div_less_iff_less_mult)
  then show ?thesis
    unfolding put_dec_full_def Let_def low_digits_5
    by (simp only: digit_char c mod_less_divisor zero_less_numeral mod_less list.inject simp_thms)
qed

lemma lit_digit_dec: "d < 10 \<Longrightarrow> lit ''0123456789ABCDEF'' d = dec_digit d"
  by (simp add: lit_digit dec_digit_def)

lemma rev_digits:
  "rev (digits 10 n) = (if n = 0 then [] else dec_digit (n mod 10) # rev (digits 10 (n div 10)))"
  by (subst digits.simps) (simp add: lit_digit_dec)

text \<open>put_dec_trunc drops the leading zeros.\<close>

definition dec_rev :: "nat \<Rightarrow> u8 list" where
  "dec_rev n = (if n = 0 then [dec_digit 0] else rev (digits 10 n))"

lemma word_eq_0_iff: "(w :: 'a::len word) = 0 \<longleftrightarrow> unat w = 0"
  by (simp add: unat_eq_0)

lemma put_dec_trunc_digits:
  assumes "unat q < 100000"
  shows "put_dec_trunc q = dec_rev (unat q)"
proof -
  let ?n = "unat q"
  define d1 where "d1 = drop_bit 4 q AND 0xf"
  define d2 where "d2 = drop_bit 8 q AND 0xf"
  define d3 where "d3 = drop_bit 12 q"
  define e0 where "e0 = 6 * (d3 + d2 + d1) + (q AND 0xf)"
  define q0 where "q0 = drop_bit 11 (e0 * 0xcd)"
  define e1 where "e1 = q0 + 9 * d3 + 5 * d2 + d1"
  define q1 where "q1 = drop_bit 11 (e1 * 0xcd)"
  define e2 where "e2 = q1 + 2 * d2"
  define q2 where "q2 = drop_bit 7 (e2 * 0xd)"
  define e3 where "e3 = q2 + 4 * d3"
  define q3 where "q3 = drop_bit 11 (e3 * 0xcd)"
  note c = put_dec_chain [OF assms, folded d1_def d2_def d3_def, folded e0_def, folded q0_def, folded e1_def,
      folded q1_def, folded e2_def, folded q2_def, folded e3_def, folded q3_def]
  have dv: "?n div 10 div 10 = ?n div 100" "?n div 100 div 10 = ?n div 1000" "?n div 1000 div 10 = ?n div 10000"
    "?n div 10000 div 10 = 0" "?n div 10000 < 10"
    using assms by (simp_all add: div_mult2_eq [symmetric] div_less_iff_less_mult)
  have ch: "(ucast (e0 - 10 * q0 + 48) :: u8) = dec_digit (?n mod 10)"
    "(ucast (e1 - 10 * q1 + 48) :: u8) = dec_digit (?n div 10 mod 10)"
    "(ucast (e2 - 10 * q2 + 48) :: u8) = dec_digit (?n div 100 mod 10)"
    "(ucast (e3 - 10 * q3 + 48) :: u8) = dec_digit (?n div 1000 mod 10)"
    "(ucast (q3 + 48) :: u8) = dec_digit (?n div 10000 mod 10)"
    using dv(5) by (simp_all only: digit_char c mod_less_divisor zero_less_numeral mod_less)
  have z: "e1 = 0 \<longleftrightarrow> ?n div 10 = 0" "e2 = 0 \<and> d3 = 0 \<longleftrightarrow> ?n div 100 = 0" "e3 = 0 \<longleftrightarrow> ?n div 1000 = 0"
    "q3 = 0 \<longleftrightarrow> ?n div 10000 = 0"
    unfolding word_eq_0_iff c(5,7,8)[symmetric] using c(9) by simp_all
  have t: "put_dec_trunc q =
    (if \<not> e1 = 0 then if \<not> (e2 = 0 \<and> d3 = 0) then if \<not> e3 = 0
       then [ucast (e0 - 10 * q0 + 48)] @ [ucast (e1 - 10 * q1 + 48)] @ [ucast (e2 - 10 * q2 + 48)] @
         [ucast (e3 - 10 * q3 + 48)] @ (if \<not> q3 = 0 then [ucast (q3 + 48)] else [])
       else [ucast (e0 - 10 * q0 + 48)] @ [ucast (e1 - 10 * q1 + 48)] @ [ucast (e2 - 10 * q2 + 48)]
       else [ucast (e0 - 10 * q0 + 48)] @ [ucast (e1 - 10 * q1 + 48)]
     else [ucast (e0 - 10 * q0 + 48)])"
    by (simp only: put_dec_trunc_def Let_def q3_def e3_def q2_def e2_def q1_def e1_def q0_def e0_def d1_def d2_def
        d3_def de_Morgan_conj)
  have ups: "?n div 100 = 0 \<Longrightarrow> ?n div 1000 = 0" "?n div 1000 = 0 \<Longrightarrow> ?n div 10000 = 0"
    unfolding dv(2,3) [symmetric] by (simp_all only: div_0)
  show ?thesis
    unfolding t ch z
    by (cases "?n = 0"; cases "?n div 10 = 0"; cases "?n div 100 = 0"; cases "?n div 1000 = 0"; cases "?n div 10000 = 0")
      (simp_all add: dec_rev_def rev_digits [of ?n] rev_digits [of "?n div 10"] rev_digits [of "?n div 100"]
        rev_digits [of "?n div 1000"] rev_digits [of "?n div 10000"] rev_digits [of 0] dv del: div_eq_0_iff)
qed

lemma mod_mult_div: "0 < b \<Longrightarrow> a mod (b * c) div b = a div b mod (c :: nat)"
  by (simp add: mod_mult2_eq)

lemma low_digits_mod: "low_digits 5 (n mod 100000) = low_digits 5 n"
proof -
  have "n mod 100000 div 10 ^ i mod 10 = n div 10 ^ i mod 10" if "i < 5" for i
  proof -
    have "(100000::nat) = 10 ^ i * 10 ^ (5 - i)" using that by (simp flip: power_add)
    then have "n mod 100000 div 10 ^ i = n div 10 ^ i mod 10 ^ (5 - i)"
      using mod_mult_div [of "10 ^ i" n "10 ^ (5 - i)"] by simp
    moreover have "(10::nat) dvd 10 ^ (5 - i)" using that by simp
    ultimately show ?thesis by (simp add: mod_mod_cancel)
  qed
  then show ?thesis by (simp add: low_digits_def)
qed

lemma rev_digits_5:
  "100000 \<le> n \<Longrightarrow> rev (digits 10 n) = low_digits 5 n @ rev (digits 10 (n div 100000))"
  by (auto simp: rev_digits [of n] rev_digits [of "n div 10"] rev_digits [of "n div 100"] rev_digits [of "n div 1000"]
      rev_digits [of "n div 10000"] low_digits_5 div_mult2_eq [symmetric] div_eq_0_iff)

lemma put_dec_digits: "put_dec num = dec_rev (unat num)"
proof (induction num rule: put_dec.induct)
  case (1 num)
  show ?case
  proof (cases "num < 100000")
    case True
    then have "unat num < 100000" by (simp add: word_less_nat_alt)
    then have "unat (ucast num :: u32) = unat num" by (simp add: unat_ucast_fits)
    then show ?thesis
      using True \<open>unat num < 100000\<close> by (subst put_dec.simps) (simp add: put_dec_trunc_digits)
  next
    case False
    then have n: "100000 \<le> unat num" by (simp add: word_less_nat_alt)
    obtain num' rem where d: "do_div num 100000 = (num', rem)" by (cases "do_div num 100000") simp
    have u: "unat num' = unat num div 100000" "unat rem = unat num mod 100000"
      using do_div_correct [of 100000 num] d by simp_all
    have "put_dec num = put_dec_full rem @ put_dec num'"
      using False d by (subst put_dec.simps) simp
    also have "put_dec num' = rev (digits 10 (unat num div 100000))"
      using "1.IH" [OF False d [symmetric]] n u by (simp add: dec_rev_def div_eq_0_iff)
    also have "put_dec_full rem = low_digits 5 (unat num)"
      using put_dec_full_digits [of rem] u low_digits_mod by simp
    finally show ?thesis using n by (simp add: dec_rev_def rev_digits_5)
  qed
qed

section \<open>number and string\<close>

definition ZEROPAD :: u32 where "ZEROPAD = 1"
definition SIGN :: u32 where "SIGN = 2"
definition PLUS :: u32 where "PLUS = 4"
definition SPACE :: u32 where "SPACE = 8"
definition LEFT :: u32 where "LEFT = 16"
definition SMALL :: u32 where "SMALL = 32"
definition SPECIAL :: u32 where "SPECIAL = 64"

lemmas flag_defs = ZEROPAD_def SIGN_def PLUS_def SPACE_def LEFT_def SMALL_def SPECIAL_def

text \<open>The padding loop: while (--size >= 0) ADDCH(buf, c).\<close>

function pad_loop :: "u8 \<Rightarrow> int \<Rightarrow> u8 list \<Rightarrow> u8 list \<times> int" where
  "pad_loop c sz out = (if 0 \<le> sz - 1 then pad_loop c (sz - 1) (out @ [c]) else (out, sz - 1))"
  by pat_completeness auto
termination by (relation "measure (\<lambda>(c, sz, out). nat sz)") auto

declare pad_loop.simps [simp del]

lemma pad_loop_replicate: "pad_loop c sz out = (out @ replicate (nat sz) c, min sz 0 - 1)"
proof (induction c sz out rule: pad_loop.induct)
  case (1 c sz out)
  show ?case
  proof (cases "0 \<le> sz - 1")
    case True
    then have "nat sz = Suc (nat (sz - 1))" by simp
    then have "replicate (nat sz) c = c # replicate (nat (sz - 1)) c" by simp
    then show ?thesis using True 1 by (subst pad_loop.simps) simp
  next
    case False
    then show ?thesis by (subst pad_loop.simps) simp
  qed
qed

text \<open>The digits of base 8 and 16, lowest first; shift is 3 or 4.\<close>

function hex_loop :: "u64 \<Rightarrow> u8 \<Rightarrow> nat \<Rightarrow> u8 \<Rightarrow> u8 list" where
  "hex_loop num msk shift locase =
    (let c = lit ''0123456789ABCDEF'' (unat (ucast num AND msk)) OR locase; num' = drop_bit shift num
     in c # (if num' \<noteq> 0 \<and> 0 < shift then hex_loop num' msk shift locase else []))"
  by pat_completeness auto
termination
proof (relation "measure (\<lambda>(num, msk, shift, locase). unat num)")
  fix num :: u64 and msk :: u8 and shift :: nat and locase :: u8 and c :: u8 and num' :: u64
  assume a: "num' = drop_bit shift num" "num' \<noteq> 0 \<and> 0 < shift"
  then have "unat num' \<noteq> 0" by (simp add: unat_eq_0)
  then have "unat num \<noteq> 0" unfolding a(1) unat_drop_bit_div by (metis div_0)
  have "(2::nat) \<le> 2 ^ shift" using a(2) by (cases shift) simp_all
  then have "unat num div 2 ^ shift < unat num" using \<open>unat num \<noteq> 0\<close> by simp
  then show "((num', msk, shift, locase), num, msk, shift, locase) \<in> measure (\<lambda>(num, msk, shift, locase). unat num)"
    unfolding a(1) by (simp add: unat_drop_bit_div)
qed simp

declare hex_loop.simps [simp del]

definition number :: "u8 list \<Rightarrow> u64 \<Rightarrow> int \<Rightarrow> int \<Rightarrow> int \<Rightarrow> u32 \<Rightarrow> u8 list" where
  "number out num base sz precision type =
    (let need_pfx = (type AND SPECIAL \<noteq> 0 \<and> base \<noteq> 10);
         locase = ucast (type AND SMALL) :: u8;
         type = (if type AND LEFT \<noteq> 0 then type AND NOT ZEROPAD else type);
         (sign, num, sz) =
           (if type AND SIGN \<noteq> 0 then
              if sint num < 0 then (of_char CHR ''-'', - num, sz - 1)
              else if type AND PLUS \<noteq> 0 then (of_char CHR ''+'', num, sz - 1)
              else if type AND SPACE \<noteq> 0 then (of_char CHR '' '', num, sz - 1)
              else (0, num, sz)
            else (0 :: u8, num, sz));
         sz = (if need_pfx then (if base = 16 then sz - 2 else sz - 1) else sz);
         tmp = (if num = 0 then [of_char CHR ''0'']
                else if base \<noteq> 10 then hex_loop num (word_of_int (base - 1)) (if base = 16 then 4 else 3) locase
                else put_dec num);
         precision = (if precision < int (length tmp) then int (length tmp) else precision);
         sz = sz - precision;
         (out, sz) = (if type AND (ZEROPAD OR LEFT) = 0 then pad_loop (of_char CHR '' '') sz out else (out, sz));
         out = (if sign \<noteq> 0 then out @ [sign] else out);
         out = (if need_pfx then
                  out @ [of_char CHR ''0''] @ (if base = 16 then [of_char CHR ''X'' OR locase] else [])
                else out);
         (out, sz) = (if type AND LEFT = 0
                        then pad_loop (if type AND ZEROPAD \<noteq> 0 then of_char CHR ''0'' else of_char CHR '' '') sz out
                        else (out, sz));
         out = out @ replicate (nat (precision - int (length tmp))) (of_char CHR ''0'');
         out = out @ rev tmp;
         (out, sz) = pad_loop (of_char CHR '' '') sz out
     in out)"

text \<open>
  string: field_width counts down to the length of the string on the left, or after it for
  left-justified output.  The string is read through strnlen, whose limit is the precision as a
  size_t, so that -1 means no limit.
\<close>

function width_loop :: "int \<Rightarrow> int \<Rightarrow> u8 list \<Rightarrow> u8 list \<times> int" where
  "width_loop len field_width out =
    (if len < field_width then width_loop len (field_width - 1) (out @ [of_char CHR '' ''])
     else (out, field_width - 1))"
  by pat_completeness auto
termination by (relation "measure (\<lambda>(len, w, out). nat (w - len))") auto

declare width_loop.simps [simp del]

definition c_string :: "u8 list \<Rightarrow> u8 list option \<Rightarrow> int \<Rightarrow> int \<Rightarrow> u32 \<Rightarrow> u8 list" where
  "c_string out s field_width precision flags =
    (let s = (case s of None \<Rightarrow> str_bytes ''<NULL>'' | Some s \<Rightarrow> s);
         len = min (length s) (unat (as_unsigned precision));
         (out, field_width) = (if flags AND LEFT = 0 then width_loop (int len) field_width out else (out, field_width));
         out = out @ take len s;
         (out, field_width) = width_loop (int len) field_width out
     in out)"

section \<open>vsnprintf\<close>

text \<open>Argument values by the type va_arg asks for: 32-bit (int, long, pointer), 64-bit, string, double.\<close>

datatype 'd arg = Int32 u32 | Int64 u64 | Str "u8 list option" | Dbl 'd

definition cur :: "u8 list \<Rightarrow> u8" where
  "cur fmt = (case fmt of [] \<Rightarrow> 0 | c # _ \<Rightarrow> c)"

abbreviation ch :: "char \<Rightarrow> u8" where "ch c \<equiv> of_char c"

fun skip_atoi :: "u8 list \<Rightarrow> int \<Rightarrow> int \<times> u8 list" where
  "skip_atoi [] i = (i, [])"
| "skip_atoi (c # fmt) i = (if isdigit c then skip_atoi fmt (i * 10 + (uint c - 48)) else (i, c # fmt))"

fun parse_flags :: "u8 list \<Rightarrow> u32 \<Rightarrow> u32 \<times> u8 list" where
  "parse_flags [] flags = (flags, [])"
| "parse_flags (c # fmt) flags =
    (if c = ch CHR ''-'' then parse_flags fmt (flags OR LEFT)
     else if c = ch CHR ''+'' then parse_flags fmt (flags OR PLUS)
     else if c = ch CHR '' '' then parse_flags fmt (flags OR SPACE)
     else if c = ch CHR ''#'' then parse_flags fmt (flags OR SPECIAL)
     else if c = ch CHR ''0'' then parse_flags fmt (flags OR ZEROPAD)
     else (flags, c # fmt))"

definition parse_width :: "u8 list \<Rightarrow> 'd arg list \<Rightarrow> u32 \<Rightarrow> (int \<times> u32 \<times> u8 list \<times> 'd arg list) option" where
  "parse_width fmt args flags =
    (if isdigit (cur fmt) then (case skip_atoi fmt 0 of (w, fmt) \<Rightarrow> Some (w, flags, fmt, args))
     else if cur fmt = ch CHR ''*'' then
       (case args of
          Int32 a # args \<Rightarrow>
            if sint a < 0 then Some (- sint a, flags OR LEFT, tl fmt, args) else Some (sint a, flags, tl fmt, args)
        | _ \<Rightarrow> None)
     else Some (-1, flags, fmt, args))"

definition parse_precision :: "u8 list \<Rightarrow> 'd arg list \<Rightarrow> (int \<times> u8 list \<times> 'd arg list) option" where
  "parse_precision fmt args =
    (if cur fmt = ch CHR ''.'' then
       let fmt = tl fmt in
       (if isdigit (cur fmt) then (case skip_atoi fmt 0 of (p, fmt) \<Rightarrow> Some (p, fmt, args))
        else if cur fmt = ch CHR ''*'' then
          (case args of Int32 a # args \<Rightarrow> Some (max (sint a) 0, tl fmt, args) | _ \<Rightarrow> None)
        else Some (0, fmt, args))
     else Some (-1, fmt, args))"

text \<open>The qualifier, with ll turned into L; 0 stands for none.\<close>

definition parse_qualifier :: "u8 list \<Rightarrow> u8 \<times> u8 list" where
  "parse_qualifier fmt =
    (if cur fmt \<in> {ch CHR ''h'', ch CHR ''l'', ch CHR ''L'', ch CHR ''Z'', ch CHR ''z'', ch CHR ''t''} then
       (if cur fmt = ch CHR ''l'' \<and> cur (tl fmt) = ch CHR ''l'' then (ch CHR ''L'', tl (tl fmt))
        else (cur fmt, tl fmt))
     else (0, fmt))"

text \<open>The integer argument, widened to 64 bits the way its qualifier and the SIGN flag say.\<close>

definition int_arg :: "u8 \<Rightarrow> u32 \<Rightarrow> 'd arg \<Rightarrow> u64 option" where
  "int_arg qualifier flags a =
    (if qualifier = ch CHR ''L'' then (case a of Int64 n \<Rightarrow> Some n | _ \<Rightarrow> None)
     else (case a of
       Int32 n \<Rightarrow>
         Some (if qualifier = ch CHR ''l'' then (if flags AND SIGN \<noteq> 0 then scast n else ucast n)
               else if qualifier = ch CHR ''Z'' \<or> qualifier = ch CHR ''z'' then ucast n
               else if qualifier = ch CHR ''t'' then scast n
               else if qualifier = ch CHR ''h'' then
                 (if flags AND SIGN \<noteq> 0 then scast (ucast n :: u16) else ucast (ucast n :: u16))
               else (if flags AND SIGN \<noteq> 0 then scast n else ucast n))
     | _ \<Rightarrow> None))"

definition pointer :: "u8 list \<Rightarrow> u32 \<Rightarrow> int \<Rightarrow> int \<Rightarrow> u32 \<Rightarrow> u8 list" where
  "pointer out ptr field_width precision flags =
    (if ptr = 0 then c_string out (Some (str_bytes ''(null)'')) field_width precision flags
     else
       let flags = flags OR SMALL;
           (field_width, flags) = (if field_width = -1 then (2 * 4, flags OR ZEROPAD) else (field_width, flags))
       in number out (ucast ptr) 16 field_width precision flags)"

text \<open>The loop of %c: while (--field_width > 0) ADDCH(str, ' ').\<close>

function char_pad_loop :: "int \<Rightarrow> u8 list \<Rightarrow> u8 list \<times> int" where
  "char_pad_loop w out = (if 0 < w - 1 then char_pad_loop (w - 1) (out @ [ch CHR '' '']) else (out, w - 1))"
  by pat_completeness auto
termination by (relation "measure (\<lambda>(w, out). nat w)") auto

declare char_pad_loop.simps [simp del]

text \<open>
  One conversion, from behind the percent sign: the output with it, the rest of the format behind
  the conversion character, and the arguments left.
\<close>

definition conversion ::
  "('d \<Rightarrow> int \<Rightarrow> int \<Rightarrow> bool \<Rightarrow> u8 list) \<Rightarrow> u8 list \<Rightarrow> u8 list \<Rightarrow> 'd arg list \<Rightarrow>
   (u8 list \<times> u8 list \<times> 'd arg list) option" where
  "conversion dtostr out fmt args =
    (let (flags, fmt) = parse_flags fmt 0 in
     do {
       (field_width, flags, fmt, args) \<leftarrow> parse_width fmt args flags;
       (precision, fmt, args) \<leftarrow> parse_precision fmt args;
       (let (qualifier, fmt) = parse_qualifier fmt; c = cur fmt in
        if c = ch CHR ''c'' then
          (case args of
             Int32 a # args \<Rightarrow>
               let (out, w) = (if flags AND LEFT = 0 then char_pad_loop field_width out else (out, field_width));
                   (out, w) = char_pad_loop w (out @ [ucast a])
               in Some (out, tl fmt, args)
           | _ \<Rightarrow> None)
        else if c = ch CHR ''s'' then
          (case args of
             Str st # args \<Rightarrow> Some (c_string out st field_width precision flags, tl fmt, args)
           | _ \<Rightarrow> None)
        else if c = ch CHR ''f'' \<or> c = ch CHR ''g'' then
          (case args of
             Dbl d # args \<Rightarrow>
               Some (out @ dtostr d field_width (if 0 < precision then precision else 1) (c = ch CHR ''g''), tl fmt, args)
           | _ \<Rightarrow> None)
        else if c = ch CHR ''p'' then
          (case args of
             Int32 a # args \<Rightarrow>
               Some (pointer out a field_width precision flags, dropWhile isalnum (tl fmt), args)
           | _ \<Rightarrow> None)
        else if c = ch CHR ''n'' then None
        else if c = ch CHR ''%'' then Some (out @ [ch CHR ''%''], tl fmt, args)
        else if c \<in> {ch CHR ''o'', ch CHR ''x'', ch CHR ''X'', ch CHR ''d'', ch CHR ''i'', ch CHR ''u''} then
          let flags = (if c = ch CHR ''x'' then flags OR SMALL
                       else if c = ch CHR ''d'' \<or> c = ch CHR ''i'' then flags OR SIGN else flags);
              base = (if c = ch CHR ''o'' then 8 else if c = ch CHR ''x'' \<or> c = ch CHR ''X'' then 16 else 10)
          in (case args of
                a # args \<Rightarrow>
                  do { num \<leftarrow> int_arg qualifier flags a;
                       Some (number out num base field_width precision flags, tl fmt, args) }
              | [] \<Rightarrow> None)
        else Some (out @ [ch CHR ''%''] @ (if c \<noteq> 0 then [c] else []), tl fmt, args))
     })"

lemma skip_atoi_length: "length (snd (skip_atoi fmt i)) \<le> length fmt"
  by (induction fmt i rule: skip_atoi.induct) auto

lemma parse_flags_length: "length (snd (parse_flags fmt f)) \<le> length fmt"
  by (induction fmt f rule: parse_flags.induct) auto

lemma parse_width_length: "parse_width fmt args f = Some (w, f', fmt', args') \<Longrightarrow> length fmt' \<le> length fmt"
  using skip_atoi_length [of fmt 0]
  by (auto simp: parse_width_def split: if_splits prod.splits list.splits arg.splits)

lemma parse_precision_length: "parse_precision fmt args = Some (p, fmt', args') \<Longrightarrow> length fmt' \<le> length fmt"
  using skip_atoi_length [of "tl fmt" 0]
  by (auto simp: parse_precision_def Let_def split: if_splits prod.splits list.splits arg.splits)

lemma parse_qualifier_length: "length (snd (parse_qualifier fmt)) \<le> length fmt"
  by (auto simp: parse_qualifier_def)

lemma conversion_length:
  assumes "conversion dtostr out fmt args = Some (out', fmt', args')"
  shows "length fmt' \<le> length fmt"
proof -
  obtain f0 fm0 where f: "parse_flags fmt 0 = (f0, fm0)" by (cases "parse_flags fmt 0")
  from assms f obtain w f1 fm1 a1 where w: "parse_width fm0 args f0 = Some (w, f1, fm1, a1)"
    by (auto simp: conversion_def split: bind_splits)
  from assms f w obtain p fm2 a2 where p: "parse_precision fm1 a1 = Some (p, fm2, a2)"
    by (auto simp: conversion_def split: bind_splits)
  obtain q fm3 where q: "parse_qualifier fm2 = (q, fm3)" by (cases "parse_qualifier fm2")
  have "length fmt' \<le> length fm3"
    using assms unfolding conversion_def f w p q Let_def prod.case bind.bind_lunit
    by (auto split: if_splits list.splits arg.splits bind_splits prod.splits intro: le_trans [OF length_dropWhile_le])
  also have "length fm3 \<le> length fmt"
    using parse_flags_length [of fmt 0] parse_width_length [OF w] parse_precision_length [OF p]
      parse_qualifier_length [of fm2] f q by simp
  finally show ?thesis .
qed

function format_loop ::
  "('d \<Rightarrow> int \<Rightarrow> int \<Rightarrow> bool \<Rightarrow> u8 list) \<Rightarrow> u8 list \<Rightarrow> u8 list \<Rightarrow> 'd arg list \<Rightarrow> u8 list option" where
  "format_loop dtostr out [] args = Some out"
| "format_loop dtostr out (c # fmt) args =
    (if c \<noteq> ch CHR ''%'' then format_loop dtostr (out @ [c]) fmt args
     else case conversion dtostr out fmt args of
            None \<Rightarrow> None
          | Some (out, fmt, args) \<Rightarrow> format_loop dtostr out fmt args)"
  by pat_completeness auto
termination
  by (relation "measure (\<lambda>(d, out, fmt, args). length fmt)") (auto dest!: conversion_length)

text \<open>
  What reaches a buffer of the given size, by the rules of ADDCH: the characters that fit, the
  terminator ADDCH'd like one of them, the last byte overwritten when it did not fit, and then one
  more zero byte stored at str.  The result is the count of all characters and the terminator.
\<close>

definition emit_buffer :: "'b mem \<Rightarrow> 'b ptr \<Rightarrow> nat \<Rightarrow> u8 list \<Rightarrow> 'b mem \<times> nat" where
  "emit_buffer m buf sz out =
    (let m = st_list m buf (take sz out);
         str = length out;
         (m, str) = (if 0 < sz then
            (let m = (if str < sz then st8 m (padd buf str) 0 else m); str = str + 1
             in (if sz < str then st8 m (padd buf (sz - 1)) 0 else m, str))
            else (m, str))
     in (st8 m (padd buf str) 0, str))"

definition INT_MAX :: nat where "INT_MAX = 2147483647"

definition sprintf ::
  "('d \<Rightarrow> int \<Rightarrow> int \<Rightarrow> bool \<Rightarrow> u8 list) \<Rightarrow> 'b mem \<Rightarrow> 'b ptr \<Rightarrow> string \<Rightarrow> 'd arg list \<Rightarrow> ('b mem \<times> nat) option" where
  "sprintf dtostr m str fmt args =
    do { out \<leftarrow> format_loop dtostr [] (str_bytes fmt) args; Some (emit_buffer m str INT_MAX out) }"

definition snprintf ::
  "('d \<Rightarrow> int \<Rightarrow> int \<Rightarrow> bool \<Rightarrow> u8 list) \<Rightarrow> 'b mem \<Rightarrow> 'b ptr \<Rightarrow> nat \<Rightarrow> string \<Rightarrow> 'd arg list \<Rightarrow>
   ('b mem \<times> nat) option" where
  "snprintf dtostr m str sz fmt args =
    do { out \<leftarrow> format_loop dtostr [] (str_bytes fmt) args; Some (emit_buffer m str sz out) }"

text \<open>printf: str is NULL, so every character, the terminator too, goes to the console.\<close>

definition emit_console :: "u8 list \<Rightarrow> u8 list" where
  "emit_console out = concat (map (\<lambda>c. if c = 10 then [13, 10] else [c]) (out @ [0]))"

definition simple_printf ::
  "('d \<Rightarrow> int \<Rightarrow> int \<Rightarrow> bool \<Rightarrow> u8 list) \<Rightarrow> string \<Rightarrow> 'd arg list \<Rightarrow> u8 list option" where
  "simple_printf dtostr fmt args =
    do { out \<leftarrow> format_loop dtostr [] (str_bytes fmt) args; Some (emit_console out) }"

section \<open>What is printed\<close>

text \<open>The decimal string of a natural number.\<close>

definition dec_nat :: "nat \<Rightarrow> u8 list" where
  "dec_nat n = rev (dec_rev n)"

lemma dec_nat_string: "dec_nat n = dec_string (int n)"
  by (simp add: dec_nat_def dec_rev_def dec_string_def dec_digit_def)

lemma dec_nat_digits: "\<forall>d \<in> set (dec_nat n). isdigit d" "dec_val (dec_nat n) = n" "dec_nat n \<noteq> []"
proof -
  have e: "dec_nat n = (if n = 0 then [of_char CHR ''0''] else digits 10 n)"
    by (simp add: dec_nat_def dec_rev_def dec_digit_def)
  show "\<forall>d \<in> set (dec_nat n). isdigit d" using digits_dec(1) by (simp add: e isdigit_iff)
  show "dec_val (dec_nat n) = n" using digits_dec(2) by (simp add: e dec_val_def)
  show "dec_nat n \<noteq> []" using digits_dec(2) [of n] by (auto simp: e dec_val_def)
qed

lemma number_unsigned: "number out num 10 (-1) (-1) 0 = out @ dec_nat (unat num)"
proof -
  have z: "num = 0 \<longleftrightarrow> unat num = 0" by (simp add: unat_eq_0)
  have e: "put_dec num = rev (dec_nat (unat num))" by (simp add: put_dec_digits dec_nat_def)
  have l: "0 < length (dec_nat (unat num))" using dec_nat_digits(3) by simp
  show ?thesis
    using l dec_nat_digits(3) [of "unat num"]
    by (cases "num = 0") (auto simp: number_def Let_def flag_defs pad_loop_replicate e dec_nat_def dec_rev_def
        dec_digit_def min_def)
qed

lemma unat_uminus: "num \<noteq> 0 \<Longrightarrow> unat (- num :: u64) = 2 ^ 64 - unat num"
  using unat_sub_if' [of 0 num] by (simp add: unat_eq_0)

lemma number_signed: "number out num 10 (-1) (-1) SIGN = out @ dec_string (sint num)"
proof -
  have u: "unat num < 2 ^ 64" by (rule order_less_le_trans [OF unsigned_less]) simp
  have si: "sint num = (if unat num < 2 ^ 63 then int (unat num) else int (unat num) - 2 ^ 64)"
    by (simp add: sint_cases)
  have e: "put_dec x = rev (dec_nat (unat x))" for x by (simp add: put_dec_digits dec_nat_def)
  show ?thesis
  proof (cases "unat num < 2 ^ 63")
    case True
    then have s: "sint num = int (unat num)" using si by simp
    have l: "0 < length (dec_nat (unat num))" using dec_nat_digits(3) by simp
    show ?thesis
      using l dec_nat_digits(3) [of "unat num"] unfolding s dec_nat_string [symmetric]
      by (cases "num = 0") (auto simp: number_def Let_def flag_defs pad_loop_replicate e dec_nat_def dec_rev_def
          dec_digit_def min_def s)
  next
    case False
    then have nz: "num \<noteq> 0" "- num \<noteq> 0" by auto
    define k where "k = unat (- num)"
    have k: "k = 2 ^ 64 - unat num" using unat_uminus [OF nz(1)] by (simp add: k_def)
    then have s: "sint num = - int k" "0 < k" using si False u by (simp_all add: of_nat_diff)
    have l: "0 < length (dec_nat k)" using dec_nat_digits(3) by simp
    have d: "dec_string (- int k) = of_char CHR ''-'' # dec_nat k"
      using s(2) by (simp add: dec_string_def dec_nat_def dec_rev_def)
    show ?thesis
      using l s(2) nz unfolding s d
      by (auto simp: number_def Let_def flag_defs pad_loop_replicate e k_def [symmetric] min_def s(1))
  qed
qed

text \<open>The buffer: what fits is followed by two zero bytes; what does not fit is cut, and the last store
  lands beyond the buffer.\<close>

lemma emit_buffer_fits:
  "length out < sz \<Longrightarrow> emit_buffer m buf sz out = (st_list m buf (out @ [0, 0]), length out + 1)"
  by (simp add: emit_buffer_def Let_def st_list_append)

lemma emit_buffer_cut:
  "0 < sz \<Longrightarrow> sz \<le> length out \<Longrightarrow>
   emit_buffer m buf sz out =
    (st8 (st8 (st_list m buf (take sz out)) (padd buf (sz - 1)) 0) (padd buf (length out + 1)) 0, length out + 1)"
  by (simp add: emit_buffer_def Let_def)

lemma dec_nat_length: "n < 10 ^ k \<Longrightarrow> 0 < k \<Longrightarrow> length (dec_nat n) \<le> k"
  using digits_length [of n k] by (simp add: dec_nat_def dec_rev_def)

lemma dec_nat_length_word: "length (dec_nat (unat (n :: u32))) \<le> 10"
proof -
  have "unat n < 10 ^ 10" using unat_lt_pow(3) [of n] by (rule order_less_trans) simp
  then show ?thesis by (rule dec_nat_length) simp
qed

text \<open>Formats the network code prints with.\<close>

lemmas format_simps = str_bytes_def conversion_def parse_width_def parse_precision_def parse_qualifier_def
  cur_def int_arg_def flag_defs isdigit_iff

lemma format_plain: "c \<noteq> ch CHR ''%'' \<Longrightarrow> format_loop d out (c # fmt) args = format_loop d (out @ [c]) fmt args"
  by simp

lemma format_d:
  "format_loop d out (ch CHR ''%'' # ch CHR ''d'' # fmt) (Int32 a # args) =
   format_loop d (out @ dec_string (sint a)) fmt args"
proof -
  have "- (2 ^ 63) \<le> sint a" "sint a < 2 ^ 63"
    using sint_ge [of a] sint_lt [of a] by simp_all
  then have "sint (scast a :: u64) = sint a"
    by (simp add: signed_scast_eq signed_take_bit_int_eq_self)
  then have "number out (scast a) 10 (-1) (-1) SIGN = out @ dec_string (sint a)"
    using number_signed [of out "scast a"] by simp
  then have "conversion d out (ch CHR ''d'' # fmt) (Int32 a # args) = Some (out @ dec_string (sint a), fmt, args)"
    by (simp add: format_simps)
  then show ?thesis by simp
qed

lemma format_lu:
  "format_loop d out (ch CHR ''%'' # ch CHR ''l'' # ch CHR ''u'' # fmt) (Int32 a # args) =
   format_loop d (out @ dec_nat (unat a)) fmt args"
proof -
  have "conversion d out (ch CHR ''l'' # ch CHR ''u'' # fmt) (Int32 a # args) = Some (out @ dec_nat (unat a), fmt, args)"
    using number_unsigned [of out "ucast a"] by (simp add: format_simps)
  then show ?thesis by simp
qed

lemma format_c:
  "format_loop d out (ch CHR ''%'' # ch CHR ''c'' # fmt) (Int32 a # args) = format_loop d (out @ [ucast a]) fmt args"
proof -
  have "char_pad_loop w out = (out, w - 1)" if "w \<le> 1" for w and out :: "u8 list"
    using that by (subst char_pad_loop.simps) simp
  then have "conversion d out (ch CHR ''c'' # fmt) (Int32 a # args) = Some (out @ [ucast a], fmt, args)"
    by (simp add: format_simps)
  then show ?thesis by simp
qed

lemma sprintf_out:
  "format_loop d [] (str_bytes fmt) args = Some out \<Longrightarrow> length out < INT_MAX \<Longrightarrow>
   sprintf d m str fmt args = Some (st_list m str (out @ [0, 0]), length out + 1)"
  by (simp add: sprintf_def emit_buffer_fits)

lemma sprintf_lu:
  "sprintf d m str ''%lu'' [Int32 a] = Some (st_list m str (dec_nat (unat a) @ [0, 0]), length (dec_nat (unat a)) + 1)"
proof (rule sprintf_out)
  show "format_loop d [] (str_bytes ''%lu'') [Int32 a] = Some (dec_nat (unat a))"
    using format_lu [of d "[]" "[]" a "[]"] by (simp add: str_bytes_def)
  show "length (dec_nat (unat a)) < INT_MAX"
    using dec_nat_length_word [of a] by (simp add: INT_MAX_def)
qed

lemma scast_ucast16: "sint (ucast (v :: u16) :: u32) = int (unat v)"
proof -
  have "unat v < 2 ^ 31" by (rule order_less_trans [OF unat_lt_pow(2)]) simp
  then show ?thesis unfolding sint_cases by simp
qed

lemma dec_string_nat: "dec_string (int n) = dec_nat n"
  by (simp add: dec_nat_string)

text \<open>The option strings of a TFTP read request.\<close>

lemma sprintf_blksize:
  "sprintf d m str ''blksize%c%d%c'' [Int32 0, Int32 (ucast v), Int32 0] =
   Some (st_list m str (str_bytes ''blksize'' @ [0] @ dec_nat (unat (v :: u16)) @ [0, 0, 0]),
     length (dec_nat (unat v)) + 10)"
proof -
  have l: "length (dec_nat (unat v)) \<le> 5"
    by (rule dec_nat_length) (simp_all add: order_less_trans [OF unat_lt_pow(2)])
  have sv: "dec_string (sint (ucast v :: u32)) = dec_nat (unat v)"
    by (simp only: scast_ucast16 dec_string_nat)
  have "format_loop d [] (str_bytes ''blksize%c%d%c'') [Int32 0, Int32 (ucast v), Int32 0] =
      Some (str_bytes ''blksize'' @ [0] @ dec_nat (unat v) @ [0])"
    using format_c [of d "str_bytes ''blksize''" "str_bytes ''%d%c''" 0 "[Int32 (ucast v), Int32 0]"]
      format_d [of d "str_bytes ''blksize'' @ [0]" "str_bytes ''%c''" "ucast v" "[Int32 0]", unfolded sv]
      format_c [of d "str_bytes ''blksize'' @ [0] @ dec_nat (unat v)" "[]" 0 "[]"]
    by (simp add: str_bytes_def)
  note o = sprintf_out [OF this]
  show ?thesis
    by (subst o) (use l in \<open>simp_all add: INT_MAX_def str_bytes_def del: st_list.simps\<close>)
qed

section \<open>Hexadecimal output\<close>

text \<open>The digit k in upper case (lc = 0) or lower case (lc = 32), and the k lowest digits of a number, lowest first.\<close>

definition hex_char :: "u8 \<Rightarrow> nat \<Rightarrow> u8" where
  "hex_char lc k = lit ''0123456789ABCDEF'' k OR lc"

definition nibbles :: "u8 \<Rightarrow> nat \<Rightarrow> nat \<Rightarrow> u8 list" where
  "nibbles lc k n = map (\<lambda>i. hex_char lc (n div 16 ^ i mod 16)) [0..<k]"

lemma nibbles_Suc: "nibbles lc (Suc k) n = hex_char lc (n mod 16) # nibbles lc k (n div 16)"
proof -
  have "[0..<Suc k] = 0 # map Suc [0..<k]" by (metis upt_conv_Cons zero_less_Suc map_Suc_upt)
  then show ?thesis by (simp add: nibbles_def div_mult2_eq comp_def)
qed

lemma nibbles_0: "lc \<in> {0, 32} \<Longrightarrow> nibbles lc k 0 = replicate k 48"
  by (auto simp: nibbles_def hex_char_def lit_def map_replicate_const)

lemma low_nibble: "unat (ucast (n :: u64) AND (15 :: u8)) = unat n mod 16"
proof -
  have "ucast n AND (15 :: u8) = take_bit 4 (ucast n)" by (simp add: take_bit_eq_mask mask_numeral)
  then have "unat (ucast n AND (15 :: u8)) = take_bit 4 (take_bit 8 (unat n))"
    by (simp add: unsigned_take_bit_eq unsigned_ucast_eq del: take_bit_take_bit)
  then show ?thesis by (simp add: take_bit_eq_mod mod_mod_cancel)
qed

lemma hex_loop_nibbles:
  assumes lc: "lc \<in> {0, 32}"
  shows "unat n < 16 ^ k \<Longrightarrow> 0 < k \<Longrightarrow>
    length (hex_loop n 15 4 lc) \<le> k \<and> hex_loop n 15 4 lc @ replicate (k - length (hex_loop n 15 4 lc)) 48 = nibbles lc k (unat n)"
proof (induction k arbitrary: n)
  case (Suc k)
  have d: "unat (drop_bit 4 n) = unat n div 16" by (simp add: unat_drop_bit_div)
  have h: "hex_loop n 15 4 lc = hex_char lc (unat n mod 16) # (if drop_bit 4 n \<noteq> 0 then hex_loop (drop_bit 4 n) 15 4 lc else [])"
    by (subst hex_loop.simps) (simp add: low_nibble hex_char_def Let_def)
  show ?case
  proof (cases "drop_bit 4 n = 0")
    case True
    then have "unat n div 16 = 0" using d by simp
    then show ?thesis using h True by (simp add: nibbles_Suc nibbles_0 [OF lc])
  next
    case False
    then have nz: "unat n div 16 \<noteq> 0" using d by (simp add: word_eq_iff_unat)
    have lt: "unat (drop_bit 4 n) < 16 ^ k" using Suc.prems(1) d by (simp add: less_mult_imp_div_less)
    have "0 < k" using nz Suc.prems(1) by (cases k) auto
    from Suc.IH [OF lt this] show ?thesis using h False d by (simp add: nibbles_Suc)
  qed
qed simp

definition hex_word :: "u8 \<Rightarrow> u32 \<Rightarrow> u8 list" where
  "hex_word lc w = rev (nibbles lc 8 (unat w))"

lemma number_hex_word:
  assumes lc: "lc \<in> {0, 32}"
  shows "number out (ucast (w :: u32)) 16 8 (-1) (ZEROPAD OR ucast lc) = out @ hex_word lc w"
proof -
  have lt: "unat (ucast w :: u64) < 16 ^ 8" using unat_lt_pow(3) [of w] by simp
  have fl: "(ZEROPAD OR ucast lc) AND SMALL = ucast lc" "(ZEROPAD OR ucast lc) AND SPECIAL = 0" "(ZEROPAD OR ucast lc) AND LEFT = 0"
    "(ZEROPAD OR ucast lc) AND SIGN = 0" "(ZEROPAD OR ucast lc) AND (ZEROPAD OR LEFT) \<noteq> 0" "(ZEROPAD OR ucast lc) AND ZEROPAD \<noteq> 0"
    "ucast (ucast lc :: u32) = lc"
    using lc by (auto simp: flag_defs)
  show ?thesis
  proof (cases "w = 0")
    case True
    have "nibbles lc 8 0 = 48 # replicate 7 48" by (simp add: nibbles_0 [OF lc] numeral_eq_Suc)
    then have "hex_word lc w = replicate 7 48 @ [48]" using True by (simp add: hex_word_def)
    then show ?thesis using True fl by (simp add: number_def pad_loop_replicate Let_def numeral_eq_Suc)
  next
    case False
    then have nz: "ucast w \<noteq> (0 :: u64)" by (simp add: word_eq_iff_unat)
    define h where "h = hex_loop (ucast w) 15 4 lc"
    have h: "length h \<le> 8 \<and> h @ replicate (8 - length h) 48 = nibbles lc 8 (unat w)"
      using hex_loop_nibbles [OF lc lt] by (simp add: h_def)
    then have "rev (h @ replicate (8 - length h) 48) = hex_word lc w" by (simp add: hex_word_def)
    then have r: "hex_word lc w = replicate (8 - length h) 48 @ rev h" by simp
    have e: "nat (8 - int (length h)) = 8 - length h" by arith
    show ?thesis using h nz fl by (simp add: number_def pad_loop_replicate Let_def e r flip: h_def)
  qed
qed

lemma hex_chars_plain: "lc \<in> {0, 32} \<Longrightarrow> c \<in> set (hex_word lc w) \<Longrightarrow> c \<noteq> 10 \<and> c \<noteq> 0"
proof -
  have "\<forall>k \<in> set [0..<16]. hex_char 0 k \<noteq> 10 \<and> hex_char 0 k \<noteq> 0" "\<forall>k \<in> set [0..<16]. hex_char 32 k \<noteq> 10 \<and> hex_char 32 k \<noteq> 0"
    by code_simp+
  then show "lc \<in> {0, 32} \<Longrightarrow> c \<in> set (hex_word lc w) \<Longrightarrow> c \<noteq> 10 \<and> c \<noteq> 0" by (auto simp: hex_word_def nibbles_def)
qed

section \<open>Properties\<close>

text \<open>C28: the reciprocal-multiplication digit generator is right: number without width, precision and flags
  prints the decimal digits of every 64-bit number, and with SIGN its two's complement value.\<close>

theorem number_decimal:
  "number out num 10 (-1) (-1) 0 = out @ dec_string (uint num) \<and>
   number out num 10 (-1) (-1) SIGN = out @ dec_string (sint num)"
  by (simp add: number_unsigned number_signed dec_nat_string)

text \<open>C33: snprintf into a nonempty buffer leaves there the output cut to what fits with its terminator, and
  returns one more than the length of the whole output; beyond that it changes at most the byte one past
  the terminator of the uncut output, which lies outside the buffer when the output was cut.\<close>

theorem snprintf_cuts:
  assumes "format_loop d [] (str_bytes fmt) args = Some out" "0 < sz"
  shows "\<exists>m'. snprintf d m buf sz fmt args = Some (m', length out + 1) \<and>
    bytes m' buf (min (length out) (sz - 1)) = take (sz - 1) out \<and>
    m' (padd buf (min (length out) (sz - 1))) = 0 \<and>
    (\<forall>i. i < sz \<or> i = length out + 1 \<or> m' (padd buf i) = m (padd buf i)) \<and> m' (padd buf (length out + 1)) = 0"
proof -
  have s: "snprintf d m buf sz fmt args = Some (emit_buffer m buf sz out)"
    using assms(1) by (simp add: snprintf_def)
  show ?thesis
  proof (cases "length out < sz")
    case True
    let ?m = "st_list m buf (out @ [0, 0])"
    have "bytes ?m buf (length out) = out"
      by (rule nth_equalityI) (auto simp: st_list_padd nth_append)
    then show ?thesis
      using True unfolding s emit_buffer_fits [OF True]
      by (auto simp: st_list_padd nth_append)
  next
    case False
    let ?m = "st8 (st8 (st_list m buf (take sz out)) (padd buf (sz - 1)) 0) (padd buf (length out + 1)) 0"
    have "bytes ?m buf (sz - 1) = take (sz - 1) out"
      using False by (intro nth_equalityI) (auto simp: st_list_padd st8_apply)
    then show ?thesis
      using False assms(2) unfolding s emit_buffer_cut [OF assms(2) False [unfolded not_less]]
      by (auto simp: st_list_padd st8_apply)
  qed
qed

theorem snprintf_cuts_witness:
  "\<exists>m'. snprintf (\<lambda>_ _ _ _. []) (\<lambda>_. 7) ((), 0) 3 ''%d'' [Int32 1234 :: unit arg] = Some (m', 5) \<and>
     bytes m' ((), 0) 2 = [49, 50] \<and> m' ((), 2) = 0 \<and> m' ((), 4) = 7 \<and> m' ((), 5) = 0"
proof -
  have "dec_string (sint (1234 :: u32)) = [49, 50, 51, 52]"
    by (simp add: dec_string_def digits.simps lit_def)
  then have "format_loop (\<lambda>_ _ _ _. []) [] (str_bytes ''%d'') [Int32 1234 :: unit arg] = Some [49, 50, 51, 52]"
    using format_d [of "\<lambda>_ _ _ _. []" "[]" "[]" 1234 "[] :: unit arg list"] by (simp add: str_bytes_def)
  from snprintf_cuts [OF this, of 3 "\<lambda>_. 7" "((), 0)"]
  obtain m' where m: "snprintf (\<lambda>_ _ _ _. []) (\<lambda>_. 7) ((), 0) 3 ''%d'' [Int32 1234 :: unit arg] = Some (m', 5)"
    "bytes m' ((), 0) 2 = [49, 50]" "m' ((), 2) = 0" "\<forall>i. i < 3 \<or> i = 5 \<or> m' ((), i) = 7" "m' ((), 5) = 0"
    by (auto simp: eval_nat_numeral)
  from m(4) [rule_format, of 4] m show ?thesis by auto
qed

text \<open>atoi reads back what sprintf prints for %d, for every int but the least.\<close>

theorem sprintf_atoi_roundtrip:
  assumes "a \<noteq> 0x80000000"
  shows "\<exists>m' n. sprintf d m str ''%d'' [Int32 a] = Some (m', n) \<and> atoi (view m' str) = Some (sint a)"
proof -
  have a: "- (2 ^ 31) < sint a" "sint a < 2 ^ 31"
  proof -
    have "sint a \<noteq> - (2 ^ 31)"
    proof
      assume "sint a = - (2 ^ 31)"
      then have "word_of_int (sint a) = (word_of_int (- (2 ^ 31)) :: u32)" by simp
      then show False using assms by simp
    qed
    then show "- (2 ^ 31) < sint a" "sint a < 2 ^ 31"
      using sint_ge [of a] sint_lt [of a] by simp_all
  qed
  let ?s = "dec_string (sint a)"
  have "format_loop d [] (str_bytes ''%d'') [Int32 a] = Some ?s"
    using format_d [of d "[]" "[]" a "[]"] by (simp add: str_bytes_def)
  moreover have "length ?s < INT_MAX"
  proof -
    have "nat \<bar>sint a\<bar> < 10 ^ 10" using a by auto
    from digits_length [OF this] show ?thesis by (auto simp: dec_string_def INT_MAX_def)
  qed
  ultimately have s: "sprintf d m str ''%d'' [Int32 a] = Some (st_list m str (?s @ [0, 0]), length ?s + 1)"
    by (rule sprintf_out)
  have "cstr (view (st_list m str (?s @ [0, 0])) str) ?s"
    by (rule cstr_st_list [OF dec_string_not_0, of _ _ _ "[0]"])
  from strtol_dec_string [OF a this] show ?thesis
    using s by (simp add: atoi_def)
qed

theorem sprintf_atoi_roundtrip_witness:
  "\<exists>m' n. sprintf (\<lambda>_ _ _ _. []) (\<lambda>_. 7) ((), 0) ''%d'' [Int32 (-5) :: unit arg] = Some (m', n) \<and>
     atoi (view m' ((), 0)) = Some (-5)"
  using sprintf_atoi_roundtrip [of "-5" "\<lambda>_ _ _ _. []" "\<lambda>_. 7" "((), 0)"] by simp

end
