(* ===== verification/Cli.thy ===== *)
theory Cli
  imports Uart StrTok Printf
begin

unbundle bit_operations_syntax

text \<open>
  lib/cli.c: the command line.  scan_string edits a line into a buffer, cmd_exec splits it with strtok
  and looks the first word up in a table, the shell does both for ever.  The commands of the table are
  functions on the arguments (the strings argv points at) and the machine state.
\<close>

section \<open>scan_string\<close>

definition BACKSP_KEY :: u8 where "BACKSP_KEY = 0x08"
definition RETURN_KEY :: u8 where "RETURN_KEY = 0x0A"
definition DELETE_KEY :: u8 where "DELETE_KEY = 0x7F"

text \<open>The cursor cp is the offset into buf.\<close>

partial_function (option) scan_loop ::
  "'b ptr \<Rightarrow> nat \<Rightarrow> nat \<Rightarrow> 'b mem \<Rightarrow> 'z ftuart_scheme \<Rightarrow> (nat \<times> 'b mem \<times> 'z ftuart_scheme) option" where
  "scan_loop buf cp count m u =
    do {
      (ch, u) \<leftarrow> ftuart_getc u;
      (cp, count, m, u) \<leftarrow>
        (if ch = RETURN_KEY then
           if count < 256 then do { u \<leftarrow> ftuart_putc 10 u; Some (cp, count, st8 m (padd buf cp) 0, u) }
           else Some (cp, count, m, u)
         else if ch = BACKSP_KEY \<or> ch = DELETE_KEY then
           if count \<noteq> 0 then do {
             let count = count - 1;
             let cp = cp - 1;
             let m = st8 m (padd buf cp) 0;
             u \<leftarrow> ftuart_puts (lit [CHR 0x08, CHR '' '', CHR 0x08]) u;
             Some (cp, count, m, u)
           }
           else Some (cp, count, m, u)
         else if 0x1F < ch \<and> ch < 0x7F \<and> count < 256 then do {
           u \<leftarrow> ftuart_putc ch u;
           Some (cp + 1, count + 1, st8 m (padd buf cp) ch, u)
         }
         else Some (cp, count, m, u));
      if ch \<noteq> RETURN_KEY then scan_loop buf cp count m u else Some (count, m, u)
    }"

definition scan_string :: "'b ptr \<Rightarrow> 'b mem \<Rightarrow> 'z ftuart_scheme \<Rightarrow> (nat \<times> 'b mem \<times> 'z ftuart_scheme) option" where
  "scan_string buf m u = scan_loop buf 0 0 m u"

text \<open>What the keys make of a line, and what is echoed.\<close>

definition edit_key :: "u8 \<Rightarrow> u8 list \<Rightarrow> u8 list" where
  "edit_key c l =
    (if c = BACKSP_KEY \<or> c = DELETE_KEY then butlast l
     else if 0x1F < c \<and> c < 0x7F \<and> length l < 256 then l @ [c] else l)"

fun key_echo :: "u8 list \<Rightarrow> u8 list \<Rightarrow> u8 list" where
  "key_echo l [] = (if length l < 256 then [13, 10] else [])"
| "key_echo l (c # ks) =
    (if c = BACKSP_KEY \<or> c = DELETE_KEY then if l \<noteq> [] then [8, 32, 8] else []
     else if 0x1F < c \<and> c < 0x7F \<and> length l < 256 then [c] else []) @ key_echo (edit_key c l) ks"

lemma length_edit: "length l \<le> 256 \<Longrightarrow> length (edit_key c l) \<le> 256"
  by (auto simp: edit_key_def)

lemma rub_out:
  assumes "line_ready u"
  shows "\<exists>u'. ftuart_puts (lit [CHR 0x08, CHR '' '', CHR 0x08]) u = Some u' \<and> talked u [8, 32, 8] 0 u'"
proof -
  have "cstr (lit [CHR 0x08, CHR '' '', CHR 0x08]) [8, 32, 8]"
    by (auto simp: cstr_def lit_def less_Suc_eq)
  from puts_talks [OF assms this] show ?thesis by (simp add: crlf_def)
qed

definition within :: "'b mem \<Rightarrow> 'b mem \<Rightarrow> 'b ptr \<Rightarrow> nat \<Rightarrow> bool" where
  "within m m' p n \<longleftrightarrow> (\<forall>q. fst q \<noteq> fst p \<or> snd q < snd p \<or> snd p + n \<le> snd q \<longrightarrow> m' q = m q)"

lemma within_refl [simp]: "within m m p n"
  by (simp add: within_def)

lemma within_trans: "within m m' p n \<Longrightarrow> within m' m'' p n \<Longrightarrow> within m m'' p n"
  unfolding within_def by metis

lemma within_st8: "i < n \<Longrightarrow> within m (st8 m (padd p i) v) p n"
  by (auto simp: within_def st8_apply padd_def)

definition holds :: "'b mem \<Rightarrow> 'b ptr \<Rightarrow> u8 list \<Rightarrow> bool" where
  "holds m p l \<longleftrightarrow> bytes m p (length l) = l"

lemma holds_snoc: "holds m p l \<Longrightarrow> holds (st8 m (padd p (length l)) c) p (l @ [c])"
  unfolding holds_def by (rule nth_equalityI) (auto simp: st8_apply nth_append list_eq_iff_nth_eq)

lemma holds_butlast: "holds m p l \<Longrightarrow> holds (st8 m (padd p (length l - 1)) c) p (butlast l)"
  unfolding holds_def by (rule nth_equalityI) (auto simp: st8_apply nth_butlast list_eq_iff_nth_eq)

lemma scan_loop_edits:
  assumes "e \<in> {10, 13}" "set ks \<inter> {10, 13} = {}" "coming u (ks @ [e])" "holds m buf l" "length l \<le> 256"
  shows "\<exists>m' u'. scan_loop buf (length l) (length l) m u = Some (length (fold edit_key ks l), m', u') \<and>
    holds m' buf (fold edit_key ks l) \<and> within m m' buf 256 \<and>
    (length (fold edit_key ks l) < 256 \<longrightarrow> m' (padd buf (length (fold edit_key ks l))) = 0) \<and>
    talked u (key_echo l ks) (length ks + 1) u'"
  using assms(2-5)
proof (induction ks arbitrary: l m u)
  case Nil
  have ce: "cr_to_lf e = RETURN_KEY" using assms(1) by (auto simp: cr_to_lf_def RETURN_KEY_def)
  obtain u1 where u1: "ftuart_getc u = Some (RETURN_KEY, u1)" "talked u [] 1 u1" "line_ready u1"
    using getc_coming [of u e "[]"] Nil.prems(2) ce by (auto simp: coming_def)
  show ?case
  proof (cases "length l < 256")
    case True
    obtain u2 where u2: "ftuart_putc 10 u1 = Some u2" "talked u1 (crlf 10) 0 u2" using putc_talks [OF u1(3)] by blast
    let ?m = "st8 m (padd buf (length l)) 0"
    have "scan_loop buf (length l) (length l) m u = Some (length l, ?m, u2)"
      using u1(1) u2(1) True by (subst scan_loop.simps) simp
    moreover have "holds ?m buf l" using Nil.prems(3) unfolding holds_def by (subst bytes_cong [of _ ?m _ m]) (auto simp: st8_apply)
    ultimately show ?thesis
      using True within_st8 [OF True, of m buf 0] talked_trans [OF u1(2) u2(2)] by (auto simp: crlf_def)
  next
    case False
    then have "scan_loop buf (length l) (length l) m u = Some (length l, m, u1)"
      using u1(1) by (subst scan_loop.simps) simp
    then show ?thesis using False Nil.prems u1(2) by auto
  qed
next
  case (Cons c ks)
  have c: "cr_to_lf c = c" "c \<noteq> RETURN_KEY" "set ks \<inter> {10, 13} = {}" using Cons.prems(1) by (auto simp: cr_to_lf_def RETURN_KEY_def)
  obtain u1 where u1: "ftuart_getc u = Some (c, u1)" "talked u [] 1 u1" "coming u1 (ks @ [e])"
    using getc_coming [of u c "ks @ [e]"] Cons.prems(2) c(1) by auto
  have r1: "line_ready u1" using u1(3) by (simp add: coming_def)
  obtain m2 u2 out where s: "scan_loop buf (length l) (length l) m u =
      scan_loop buf (length (edit_key c l)) (length (edit_key c l)) m2 u2"
    "holds m2 buf (edit_key c l)" "within m m2 buf 256" "talked u1 out 0 u2" "key_echo l (c # ks) = out @ key_echo (edit_key c l) ks"
  proof -
    consider "c = BACKSP_KEY \<or> c = DELETE_KEY" "l \<noteq> []" | "c = BACKSP_KEY \<or> c = DELETE_KEY" "l = []"
      | "\<not> (c = BACKSP_KEY \<or> c = DELETE_KEY)" "0x1F < c \<and> c < 0x7F \<and> length l < 256"
      | "\<not> (c = BACKSP_KEY \<or> c = DELETE_KEY)" "\<not> (0x1F < c \<and> c < 0x7F \<and> length l < 256)" by blast
    then show ?thesis
    proof cases
      case 1
      obtain u2 where u2: "ftuart_puts (lit [CHR 0x08, CHR '' '', CHR 0x08]) u1 = Some u2" "talked u1 [8, 32, 8] 0 u2"
        using rub_out [OF r1] by blast
      let ?m = "st8 m (padd buf (length l - 1)) 0"
      have "scan_loop buf (length l) (length l) m u = scan_loop buf (length (edit_key c l)) (length (edit_key c l)) ?m u2"
        using u1(1) u2(1) c(2) 1 by (subst scan_loop.simps) (simp add: Let_def edit_key_def)
      moreover have "length l - 1 < 256" using 1 Cons.prems(4) by (cases l) auto
      ultimately show ?thesis
        using that [OF _ _ _ u2(2)] 1 holds_butlast [OF Cons.prems(3), of 0] within_st8 [of "length l - 1" 256 m buf 0]
        by (simp add: edit_key_def)
    next
      case 2
      have "scan_loop buf (length l) (length l) m u = scan_loop buf (length (edit_key c l)) (length (edit_key c l)) m u1"
        using u1(1) c(2) 2 by (subst scan_loop.simps) (simp add: edit_key_def)
      then show ?thesis using that [OF _ _ _ talked_refl] 2 Cons.prems(3) by (simp add: edit_key_def)
    next
      case 3
      have "crlf c = [c]" using c(2) by (simp add: crlf_def RETURN_KEY_def)
      then obtain u2 where u2: "ftuart_putc c u1 = Some u2" "talked u1 [c] 0 u2" using putc_talks [OF r1, of c] by auto
      let ?m = "st8 m (padd buf (length l)) c"
      have "scan_loop buf (length l) (length l) m u = scan_loop buf (length (edit_key c l)) (length (edit_key c l)) ?m u2"
        using u1(1) u2(1) c(2) 3 by (subst scan_loop.simps) (simp add: edit_key_def)
      then show ?thesis
        using that [OF _ _ _ u2(2)] 3 holds_snoc [OF Cons.prems(3), of c] within_st8 [of "length l" 256 m buf c]
        by (simp add: edit_key_def)
    next
      case 4
      have ed: "edit_key c l = l" using 4 unfolding edit_key_def by (simp only: if_False)
      have n: "(31 < c \<and> c < 127 \<and> length l < 256) = False" using 4(2) by simp
      have "scan_loop buf (length l) (length l) m u = scan_loop buf (length (edit_key c l)) (length (edit_key c l)) m u1"
        using u1(1) c(2) 4(1) ed n by (subst scan_loop.simps) auto
      then show ?thesis using that [OF _ _ _ talked_refl] 4(1) n Cons.prems(3) ed by simp
    qed
  qed
  obtain m3 u3 where r: "scan_loop buf (length (edit_key c l)) (length (edit_key c l)) m2 u2 =
      Some (length (fold edit_key ks (edit_key c l)), m3, u3)" "holds m3 buf (fold edit_key ks (edit_key c l))" "within m2 m3 buf 256"
    "length (fold edit_key ks (edit_key c l)) < 256 \<longrightarrow> m3 (padd buf (length (fold edit_key ks (edit_key c l)))) = 0"
    "talked u2 (key_echo (edit_key c l) ks) (length ks + 1) u3"
    using Cons.IH [OF c(3) coming_talked [OF s(4) u1(3)] s(2) length_edit [OF Cons.prems(4)]] by blast
  have "talked u (key_echo l (c # ks)) (Suc (length ks + 1)) u3"
    using talked_trans [OF talked_trans [OF u1(2) s(4)] r(5)] unfolding s(5) by simp
  then show ?case
    using r(1,2,4) s(1) within_trans [OF s(3) r(3)] by (auto simp del: key_echo.simps)
qed

lemma scan_string_edits:
  assumes "e \<in> {10, 13}" "set ks \<inter> {10, 13} = {}" "coming u (ks @ [e])"
  shows "\<exists>m' u'. scan_string buf m u = Some (length (fold edit_key ks []), m', u') \<and>
    bytes m' buf (length (fold edit_key ks [])) = fold edit_key ks [] \<and> within m m' buf 256 \<and>
    (length (fold edit_key ks []) < 256 \<longrightarrow> m' (padd buf (length (fold edit_key ks []))) = 0) \<and>
    talked u (key_echo [] ks) (length ks + 1) u'"
  using scan_loop_edits [OF assms, of m buf "[]"] by (simp add: scan_string_def holds_def bytes_def [of m buf 0])

section \<open>cmd_exec\<close>

text \<open>struct cmd; the table ends where its list does (in the code, at the entry without a name).  A
  command gets the strings argv points at and answers with its return value.\<close>

record 'st cmd =
  cname :: string
  usage :: string
  func :: "(u8 list list \<Rightarrow> 'st \<Rightarrow> (int \<times> 'st) option) option"

text \<open>The characters handed to putchar, that is to ftuart_putc, so far.\<close>

record console =
  con :: "u8 list"

definition prints :: "string \<Rightarrow> unit arg list \<Rightarrow> 'z console_scheme \<Rightarrow> 'z console_scheme option" where
  "prints fmt args s = map_option (\<lambda>out. s\<lparr>con := con s @ out\<rparr>) (simple_printf (\<lambda>_ _ _ _. []) fmt args)"

text \<open>A C string given by its characters, and the string at a pointer.\<close>

definition clist :: "u8 list \<Rightarrow> cview" where
  "clist s i = (if i < length s then s ! i else 0)"

definition str_at :: "'b mem \<Rightarrow> 'b ptr \<Rightarrow> u8 list option" where
  "str_at m p = map_option (bytes m p) (strlen m p)"

definition help_line :: "'st cmd \<Rightarrow> 'z console_scheme \<Rightarrow> 'z console_scheme option" where
  "help_line cmdp s =
    prints (''  %-15s %-26s'' @ [CHR 0x0A, CHR 0x0D]) [Str (Some (str_bytes (cname cmdp))), Str (Some (str_bytes (usage cmdp)))] s"

fun help_all :: "'st cmd list \<Rightarrow> 'z console_scheme \<Rightarrow> 'z console_scheme option" where
  "help_all [] s = Some s"
| "help_all (cmdp # tbl) s = do { s \<leftarrow> help_line cmdp s; help_all tbl s }"

fun help_one :: "u8 list \<Rightarrow> 'st cmd list \<Rightarrow> 'z console_scheme \<Rightarrow> 'z console_scheme option" where
  "help_one a [] s = Some s"
| "help_one a (cmdp # tbl) s =
    do {
      r \<leftarrow> strcmp (clist a) (lit (cname cmdp));
      s \<leftarrow> (if r = 0 then help_line cmdp s else Some s);
      help_one a tbl s
    }"

definition do_help :: "int \<Rightarrow> u8 list list \<Rightarrow> 'st cmd list \<Rightarrow> 'z console_scheme \<Rightarrow> (int \<times> 'z console_scheme) option" where
  "do_help argc argv tbl s =
    (if argc = 1 then map_option (Pair 0) (help_all tbl s)
     else if argc = 2 then map_option (Pair 0) (help_one (argv ! 0) tbl s)
     else Some (1, s))"

text \<open>argv has 16 elements; the loop does not check.  Going past the end is the error here.\<close>

datatype cli_error = Argv_overflow

definition delims :: cview where
  "delims = lit [CHR '' '', CHR 0x0D, CHR 0x0A, CHR 0x09]"

partial_function (option) tok_loop ::
  "'b mem \<Rightarrow> 'b ptr option \<Rightarrow> 'b ptr list \<Rightarrow> 'b ptr option \<Rightarrow> (cli_error + 'b mem \<times> 'b ptr list) option" where
  "tok_loop m next_start argv tok =
    (case tok of
       None \<Rightarrow> Some (Inr (m, argv))
     | Some t \<Rightarrow>
         if length argv = 16 then Some (Inl Argv_overflow)
         else do {
           (tok, m, next_start) \<leftarrow> strtok m None delims next_start;
           tok_loop m next_start (argv @ [t]) tok
         })"

text \<open>The loop over the table from entry i on; tbl is the whole table.\<close>

fun exec_find ::
  "'z console_scheme cmd list \<Rightarrow> u8 list list \<Rightarrow> 'z console_scheme cmd list \<Rightarrow> 'z console_scheme \<Rightarrow> 'z console_scheme option" where
  "exec_find tbl argv [] s = map_option snd (do_help 1 [] tbl s)"
| "exec_find tbl argv (cmd # cmds) s =
    do {
      h \<leftarrow> strcmp (lit ''help'') (clist (argv ! 0));
      if h = 0 then map_option snd (do_help 1 [] tbl s)
      else do {
        r \<leftarrow> strcmp (lit (cname cmd)) (clist (argv ! 0));
        case func cmd of
          Some f \<Rightarrow>
            if r = 0 then do {
              (rc, s) \<leftarrow> f argv s;
              if rc \<noteq> 0 then map_option snd (do_help 2 argv tbl s) else Some s
            }
            else exec_find tbl argv cmds s
        | None \<Rightarrow> exec_find tbl argv cmds s
      }
    }"

definition cmd_exec ::
  "'b mem \<Rightarrow> 'b ptr \<Rightarrow> 'z console_scheme cmd list \<Rightarrow> 'z console_scheme \<Rightarrow>
   (cli_error + int \<times> 'b mem \<times> 'z console_scheme) option" where
  "cmd_exec m line tbl s =
    do {
      (tok, m, next_start) \<leftarrow> strtok m (Some line) delims None;
      r \<leftarrow> tok_loop m next_start [] tok;
      case r of
        Inl e \<Rightarrow> Some (Inl e)
      | Inr (m, argv) \<Rightarrow>
          if argv = [] then Some (Inr (0, m, s))
          else do {
            args \<leftarrow> those (map (str_at m) argv);
            q \<leftarrow> strcmp (lit ''quit'') (clist (args ! 0));
            if q = 0 then Some (Inr (1, m, s))
            else do { s \<leftarrow> exec_find tbl args tbl s; Some (Inr (0, m, s)) }
          }
    }"

section \<open>What a line does\<close>

definition blanks :: "u8 set" where
  "blanks = {32, 13, 10, 9}"

lemma delims_cstr: "cstr delims [32, 13, 10, 9]" "set [32, 13, 10, 9] = blanks"
  by (auto simp: cstr_def delims_def lit_def blanks_def less_Suc_eq)

text \<open>The words of a line decide: nothing, quit, help, or the first entry of that name with a function;
  a command that fails has its own help line printed.\<close>

definition cmd_dispatch :: "'z console_scheme cmd list \<Rightarrow> u8 list list \<Rightarrow> 'z console_scheme \<Rightarrow> (int \<times> 'z console_scheme) option" where
  "cmd_dispatch tbl words s =
    (if words = [] then Some (0, s)
     else if hd words = str_bytes ''quit'' then Some (1, s)
     else if hd words = str_bytes ''help'' then map_option (Pair 0) (help_all tbl s)
     else
       case find (\<lambda>c. str_bytes (cname c) = hd words \<and> func c \<noteq> None) tbl of
         None \<Rightarrow> map_option (Pair 0) (help_all tbl s)
       | Some c \<Rightarrow>
           do {
             (rc, s) \<leftarrow> the (func c) words s;
             map_option (Pair 0) (if rc \<noteq> 0 then help_one (hd words) tbl s else Some s)
           })"

lemma cstr_clist: "0 \<notin> set s \<Longrightarrow> cstr (clist s) s"
  using nth_mem by (fastforce simp: cstr_def clist_def)

lemma str_at_cstr: "cstr (view m p) t \<Longrightarrow> str_at m p = Some t"
  by (auto simp: str_at_def strlen_cstr cstr_def intro!: nth_equalityI)

lemma exec_find_dispatch:
  assumes "0 \<notin> set a" "words = a # ws" "\<And>c. c \<in> set cmds \<Longrightarrow> 0 \<notin> set (str_bytes (cname c))" "a \<noteq> str_bytes ''quit''"
  shows "exec_find tbl words cmds s = map_option snd
    (if a = str_bytes ''help'' then map_option (Pair (0::int)) (help_all tbl s)
     else
       case find (\<lambda>c. str_bytes (cname c) = a \<and> func c \<noteq> None) cmds of
         None \<Rightarrow> map_option (Pair 0) (help_all tbl s)
       | Some c \<Rightarrow>
           do {
             (rc, s) \<leftarrow> the (func c) words s;
             map_option (Pair 0) (if rc \<noteq> 0 then help_one a tbl s else Some s)
           })"
  using assms(3)
proof (induction cmds)
  case Nil
  then show ?case by (simp add: do_help_def option.map_comp comp_def)
next
  case (Cons c cmds)
  obtain h where h: "strcmp (lit ''help'') (clist a) = Some h" "h = 0 \<longleftrightarrow> str_bytes ''help'' = a"
    using strcmp_eq_iff [OF cstr_lit cstr_clist [OF assms(1)], of "''help''"] by (auto simp: str_bytes_def)
  obtain r where r: "strcmp (lit (cname c)) (clist a) = Some r" "r = 0 \<longleftrightarrow> str_bytes (cname c) = a"
    using strcmp_eq_iff [OF cstr_lit cstr_clist [OF assms(1)], of "cname c"] Cons.prems by auto
  show ?case
    using h r Cons
    by (cases "func c") (auto simp: assms(2) do_help_def option.map_comp comp_def split: bind_splits prod.splits)
qed

lemma tokens_nonempty: "tokens D s = t # ts \<Longrightarrow> 0 < length t"
  by (subst (asm) tokens.simps) (auto split: list.splits)

text \<open>The tokenizing loop: where it ends, argv points at the words, in the line.\<close>

lemma tok_loop_words:
  assumes "cstr (view m q) s" "length ds = length argv"
    "\<And>i. i < length ds \<Longrightarrow> cstr (view m (argv ! i)) (ds ! i) \<and> fst (argv ! i) = fst q \<and> snd (argv ! i) + length (ds ! i) \<le> snd q"
    "length argv \<le> 16"
  shows "\<exists>m' argv'. do { (tok, m, ns) \<leftarrow> strtok m None delims (Some q); tok_loop m ns argv tok } =
      (if 16 < length argv + length (tokens blanks s) then Some (Inl Argv_overflow) else Some (Inr (m', argv'))) \<and>
    (length argv + length (tokens blanks s) \<le> 16 \<longrightarrow> map (str_at m') argv' = map Some (ds @ tokens blanks s)) \<and>
    within m m' q (length s)"
  using assms
proof (induction "tokens blanks s" arbitrary: m q s ds argv)
  case Nil
  have "tokens (set [32, 13, 10, 9]) s = []" using Nil(1) delims_cstr(2) by metis
  then obtain r where r: "strtok m None delims (Some q) = Some (None, m, r)"
    using strtok_none(2) [OF delims_cstr(1) Nil(2)] by blast
  have "map (str_at m) argv = map Some ds"
  proof (rule nth_equalityI)
    fix i assume i: "i < length (map (str_at m) argv)"
    then have "i < length ds" using Nil(3) by simp
    then have "cstr (view m (argv ! i)) (ds ! i)" using Nil(4) by blast
    then show "map (str_at m) argv ! i = map Some ds ! i" using i Nil(3) str_at_cstr by simp
  qed (use Nil(3) in simp)
  then show ?case
    using r Nil(1,5) by (intro exI [of _ m] exI [of _ argv]) (simp add: tok_loop.simps)
next
  case (Cons t ts)
  have "tokens (set [32, 13, 10, 9]) s = t # ts" using Cons(2) delims_cstr(2) by metis
  from strtok_some [OF delims_cstr(1) Cons(3) this] obtain k r m1 s1 where
    st: "strtok m None delims (Some q) = Some (Some (padd q k), m1, Some (padd q r))"
      "cstr (view m1 (padd q k)) t" "cstr (view m1 (padd q r)) s1" "tokens (set [32, 13, 10, 9]) s1 = ts"
      "r + length s1 \<le> length s" "k + length t \<le> r"
      "\<forall>x. m1 x \<noteq> m x \<longrightarrow> fst x = fst q \<and> snd q + k + length t \<le> snd x \<and> snd x < snd q + r"
    by metis
  have ts: "ts = tokens blanks s1" using st(4) delims_cstr(2) by metis
  have w1: "within m m1 q (length s)"
    unfolding within_def
  proof (intro allI impI)
    fix x assume "fst x \<noteq> fst q \<or> snd x < snd q \<or> snd q + length s \<le> snd x"
    then have "\<not> (fst x = fst q \<and> snd q + k + length t \<le> snd x \<and> snd x < snd q + r)" using st(5) by linarith
    then show "m1 x = m x" using st(7) by blast
  qed
  show ?case
  proof (cases "length argv = 16")
    case True
    then show ?thesis using st(1) Cons(2) w1
      by (intro exI [of _ m1]) (simp add: Cons(2) [symmetric] tok_loop.simps [of m1])
  next
    case False
    have tn: "0 < length t" using \<open>tokens (set [32, 13, 10, 9]) s = t # ts\<close> tokens_nonempty by blast
    let ?ds = "ds @ [t]" and ?argv = "argv @ [padd q k]"
    have pres: "cstr (view m1 (?argv ! i)) (?ds ! i) \<and> fst (?argv ! i) = fst (padd q r) \<and> snd (?argv ! i) + length (?ds ! i) \<le> snd (padd q r)"
      if "i < length ?ds" for i
    proof (cases "i < length ds")
      case True
      note a = Cons(5) [OF True]
      have "m1 (padd (argv ! i) j) = m (padd (argv ! i) j)" if "j \<le> length (ds ! i)" for j
      proof (rule ccontr)
        assume "m1 (padd (argv ! i) j) \<noteq> m (padd (argv ! i) j)"
        then have "snd q + k + length t \<le> snd (padd (argv ! i) j)" using st(7) by blast
        then show False using conjunct2 [OF conjunct2 [OF a]] that tn by simp
      qed
      then have "cstr (view m1 (argv ! i)) (ds ! i)" using conjunct1 [OF a] unfolding cstr_def view_apply by simp
      then show ?thesis using a True Cons(4) by (simp add: nth_append)
    next
      case False
      then show ?thesis using that st(2,6) Cons(4) by (simp add: nth_append)
    qed
    have l: "length ?ds = length ?argv" "length ?argv \<le> 16" using Cons(4,6) False by simp_all
    obtain m2 argv2 where m2: "do { (tok, m, ns) \<leftarrow> strtok m1 None delims (Some (padd q r)); tok_loop m ns ?argv tok } =
        (if 16 < length ?argv + length (tokens blanks s1) then Some (Inl Argv_overflow) else Some (Inr (m2, argv2)))"
      "length ?argv + length (tokens blanks s1) \<le> 16 \<longrightarrow> map (str_at m2) argv2 = map Some (?ds @ tokens blanks s1)"
      "within m1 m2 (padd q r) (length s1)"
      using Cons(1) [OF ts st(3) l(1) pres l(2)] by blast
    have "within m1 m2 q (length s)" using m2(3) st(5) by (auto simp: within_def)
    then have w: "within m m2 q (length s)" by (rule within_trans [OF w1])
    have "do { (tok, m, ns) \<leftarrow> strtok m None delims (Some q); tok_loop m ns argv tok } =
        do { (tok, m, ns) \<leftarrow> strtok m1 None delims (Some (padd q r)); tok_loop m ns ?argv tok }"
      using st(1) False by (simp add: tok_loop.simps [of m1 _ argv])
    moreover have "length ?argv + length (tokens blanks s1) = length argv + length (tokens blanks s)"
      "?ds @ tokens blanks s1 = ds @ tokens blanks s" using Cons(2) ts by (simp_all add: Cons(2) [symmetric])
    ultimately show ?thesis
      using m2(1,2) w by (intro exI [of _ m2] exI [of _ argv2]) simp
  qed
qed

lemma strtok_again: "strtok m (Some p) d save = strtok m None d (Some p)"
  by (simp add: strtok_def strtok_r_def)

lemma those_Some: "those (map Some xs) = Some xs"
  by (induction xs) simp_all

lemma tokens_sub: "t \<in> set (tokens D s) \<Longrightarrow> set t \<subseteq> set s"
proof (induction D s arbitrary: t rule: tokens.induct)
  case (1 D s)
  show ?case
  proof (cases "dropWhile (\<lambda>x. x \<in> D) s")
    case Nil
    then have "tokens D s = []" by (subst tokens.simps) (simp only: list.case)
    then show ?thesis using 1(2) by simp
  next
    case (Cons x xs)
    have "tokens D s = (x # takeWhile (\<lambda>x. x \<notin> D) xs) # tokens D (dropWhile (\<lambda>x. x \<notin> D) xs)"
      using Cons by (subst tokens.simps) (simp only: list.case)
    moreover have "set (x # xs) \<subseteq> set s" using Cons by (metis set_dropWhileD subsetI)
    moreover have "set (takeWhile (\<lambda>x. x \<notin> D) xs) \<subseteq> set xs" "set (dropWhile (\<lambda>x. x \<notin> D) xs) \<subseteq> set xs"
      by (auto dest: set_takeWhileD set_dropWhileD)
    ultimately show ?thesis
      using 1(1) [OF Cons, of t] 1(2) by (cases "t = x # takeWhile (\<lambda>x. x \<notin> D) xs") auto
  qed
qed

lemma bind_triple:
  fixes A :: "('a \<times> 'b \<times> 'c) option" and C :: "'d \<Rightarrow> 'e option"
  shows "do { (a, b, c) \<leftarrow> A; r \<leftarrow> B a b c; C r } = do { r \<leftarrow> do { (a, b, c) \<leftarrow> A; B a b c }; C r }"
  by (cases A) auto

lemma dispatch_first:
  assumes a: "0 \<notin> set a" and names: "\<And>c. c \<in> set tbl \<Longrightarrow> 0 \<notin> set (str_bytes (cname c))"
  obtains q where "strcmp (lit ''quit'') (clist a) = Some q"
    "(if q = 0 then Some (Inr (1, m', st)) else do { s \<leftarrow> exec_find tbl (a # ws) tbl st; Some (Inr (0, m', s)) }) =
      map_option (\<lambda>(rc, st). Inr (rc, m', st)) (cmd_dispatch tbl (a # ws) st)"
proof -
  obtain q where q: "strcmp (lit ''quit'') (clist a) = Some q" "q = 0 \<longleftrightarrow> str_bytes ''quit'' = a"
    using strcmp_eq_iff [OF cstr_lit cstr_clist [OF a], of "''quit''"] by (auto simp: str_bytes_def)
  have "(if q = 0 then Some (Inr (1, m', st)) else do { s \<leftarrow> exec_find tbl (a # ws) tbl st; Some (Inr (0, m', s)) }) =
      map_option (\<lambda>(rc, st). Inr (rc, m', st)) (cmd_dispatch tbl (a # ws) st)"
  proof (cases "a = str_bytes ''quit''")
    case True
    then show ?thesis using q(2) by (simp add: cmd_dispatch_def)
  next
    case nq: False
    note ex = exec_find_dispatch [where cmds = tbl and tbl = tbl and s = st and words = "a # ws", OF a refl names nq]
    have "exec_find tbl (a # ws) tbl st = map_option snd (cmd_dispatch tbl (a # ws) st)"
      using ex unfolding cmd_dispatch_def list.sel by (simp only: nq list.distinct if_False)
    moreover have "map_option (Pair 0) (map_option snd (cmd_dispatch tbl (a # ws) st)) = cmd_dispatch tbl (a # ws) st"
      using nq by (auto simp: cmd_dispatch_def option.map_comp comp_def split: option.splits bind_splits prod.splits)
    ultimately show ?thesis
      using nq q(2) by (cases "cmd_dispatch tbl (a # ws) st") auto
  qed
  with q(1) show thesis by (rule that)
qed

text \<open>C13: cmd_exec does what the words of the line say (nothing, quit, help, the command of that name
  with the words as its arguments, or the list of the commands), writing terminators into the line only;
  a line of more than 16 words runs past the end of argv.\<close>

theorem cmd_exec_dispatches:
  assumes "cstr (view m line) s" "\<And>c. c \<in> set tbl \<Longrightarrow> 0 \<notin> set (str_bytes (cname c))"
  shows "\<exists>m'. cmd_exec m line tbl st =
      (if 16 < length (tokens blanks s) then Some (Inl Argv_overflow)
       else map_option (\<lambda>(rc, st). Inr (rc, m', st)) (cmd_dispatch tbl (tokens blanks s) st)) \<and>
    within m m' line (length s)"
proof -
  let ?w = "tokens blanks s"
  obtain m' argv' where t: "do { (tok, m, ns) \<leftarrow> strtok m None delims (Some line); tok_loop m ns [] tok } =
      (if 16 < length ?w then Some (Inl Argv_overflow) else Some (Inr (m', argv')))"
    "length ?w \<le> 16 \<longrightarrow> map (str_at m') argv' = map Some ?w" "within m m' line (length s)"
    using tok_loop_words [OF assms(1), of "[]" "[]"] by auto
  have "cmd_exec m line tbl st =
      (if 16 < length ?w then Some (Inl Argv_overflow)
       else map_option (\<lambda>(rc, st). Inr (rc, m', st)) (cmd_dispatch tbl ?w st))"
  proof (cases "16 < length ?w")
    case True
    then show ?thesis unfolding cmd_exec_def strtok_again bind_triple t(1) by simp
  next
    case False
    have mp: "map (str_at m') argv' = map Some ?w" using t(2) False by simp
    show ?thesis
    proof (cases ?w)
      case Nil
      then have "argv' = []" using mp by simp
      then show ?thesis using False Nil unfolding cmd_exec_def strtok_again bind_triple t(1) by (simp add: cmd_dispatch_def)
    next
      case (Cons a ws)
      have "0 \<notin> set s" using assms(1) nth_mem by (fastforce simp: cstr_def in_set_conv_nth)
      then have a: "0 \<notin> set a" using tokens_sub [of a blanks s] Cons by auto
      obtain q where q: "strcmp (lit ''quit'') (clist a) = Some q"
        "(if q = 0 then Some (Inr (1, m', st) :: cli_error + _) else do { s \<leftarrow> exec_find tbl (a # ws) tbl st; Some (Inr (0, m', s)) }) =
          map_option (\<lambda>(rc, st). Inr (rc, m', st)) (cmd_dispatch tbl (a # ws) st)"
        by (rule dispatch_first [where tbl = tbl and ws = ws and st = st and m' = m', OF a assms(2)])
      have ne: "argv' \<noteq> []" using mp Cons by auto
      have th: "those (map (str_at m') argv') = Some (a # ws)" unfolding mp those_Some using Cons by simp
      have "cmd_exec m line tbl st =
          (if q = 0 then Some (Inr (1, m', st)) else do { s \<leftarrow> exec_find tbl (a # ws) tbl st; Some (Inr (0, m', s)) })"
        using False ne th q(1) unfolding cmd_exec_def strtok_again bind_triple t(1) by simp
      then have "cmd_exec m line tbl st = map_option (\<lambda>(rc, st). Inr (rc, m', st)) (cmd_dispatch tbl ?w st)"
        unfolding q(2) Cons .
      then show ?thesis using False by simp
    qed
  qed
  then show ?thesis using t(3) by blast
qed

definition demo_tbl :: "console cmd list" where
  "demo_tbl = [\<lparr>cname = ''md'', usage = ''<addr> [num]'', func = Some (\<lambda>argv s. Some (int (length argv), s))\<rparr>,
     \<lparr>cname = ''?'', usage = ''print all cmds'', func = None\<rparr>]"

theorem cmd_exec_dispatches_witness:
  "(\<exists>m'. cmd_exec (st_list (\<lambda>_. 0) ((), 0) (str_bytes '' quit now'')) ((), 0) demo_tbl \<lparr>con = []\<rparr> = Some (Inr (1, m', \<lparr>con = []\<rparr>))) \<and>
   cmd_exec (st_list (\<lambda>_. 0) ((), 0) (str_bytes ''a a a a a a a a a a a a a a a a a'')) ((), 0) demo_tbl \<lparr>con = []\<rparr> =
     Some (Inl Argv_overflow)"
proof -
  have n: "0 \<notin> set (str_bytes (cname c))" if "c \<in> set demo_tbl" for c
    using that by (auto simp: demo_tbl_def str_bytes_def)
  have c: "cstr (view (st_list (\<lambda>_. 0) ((), 0) l) ((), 0)) l" if "0 \<notin> set l" for l
  proof -
    have "l ! i \<noteq> 0" if "i < length l" for i using nth_mem [OF that] \<open>0 \<notin> set l\<close> by metis
    then show ?thesis using st_list_apply [of "\<lambda>_. 0" "((), 0)" l] by (auto simp: cstr_def)
  qed
  have t: "tokens blanks (str_bytes '' quit now'') = [str_bytes ''quit'', str_bytes ''now'']"
    "length (tokens blanks (str_bytes ''a a a a a a a a a a a a a a a a a'')) = 17"
    by (simp_all add: tokens.simps str_bytes_def blanks_def)
  have "cmd_dispatch demo_tbl [str_bytes ''quit'', str_bytes ''now''] \<lparr>con = []\<rparr> = Some (1, \<lparr>con = []\<rparr>)"
    by (simp add: cmd_dispatch_def)
  then show ?thesis
    using cmd_exec_dispatches [OF c n, of "str_bytes '' quit now''" demo_tbl "\<lparr>con = []\<rparr>"]
      cmd_exec_dispatches [OF c n, of "str_bytes ''a a a a a a a a a a a a a a a a a''" demo_tbl "\<lparr>con = []\<rparr>"] t
    by (simp add: str_bytes_def) blast
qed

end
