(* ===== verification/Cpu.thy ===== *)
theory Cpu
  imports CMem
begin

unbundle bit_operations_syntax

text \<open>
  cpu/fa626te.c: the caches and the translation table of the FA626TE.  The state is what the code
  writes to coprocessor 15: the control register, the translation table base (kept as the pointer it
  was made from), the domain access register, and the maintenance operations in the order they were
  issued, each with the CRm and opcode 2 of its mcr instruction.
\<close>

datatype maintenance =
    invalid_dcache_all          \<comment> \<open>c7, c6, 0\<close>
  | invalid_icache_all          \<comment> \<open>c7, c5, 0\<close>
  | clean_dcache_all            \<comment> \<open>c7, c10, 0\<close>
  | clean_invalid_dcache_all    \<comment> \<open>c7, c14, 0\<close>
  | invalid_idcache_all         \<comment> \<open>c7, c7, 0\<close>
  | invalid_tlb_all             \<comment> \<open>c8, c7, 0\<close>
  | drain_wr_buffer             \<comment> \<open>c7, c10, 4\<close>
  | invalid_iscratchpad         \<comment> \<open>c7, c5, 5\<close>
  | invalid_btb                 \<comment> \<open>c7, c5, 6\<close>

record 'b cp15 =
  cntr :: u32
  ttb :: "'b ptr"
  dacr :: u32
  maint :: "maintenance list"

definition fa626_repo_cntr :: "('b, 'z) cp15_scheme \<Rightarrow> u32" where
  "fa626_repo_cntr s = cntr s"

definition fa626_set_cntr :: "u32 \<Rightarrow> ('b, 'z) cp15_scheme \<Rightarrow> ('b, 'z) cp15_scheme" where
  "fa626_set_cntr val s = s\<lparr>cntr := val\<rparr>"

definition fa626_check_dcache_en :: "('b, 'z) cp15_scheme \<Rightarrow> u32" where
  "fa626_check_dcache_en s = (if cntr s AND push_bit 4 1 \<noteq> 0 then 1 else 0)"

definition maintain :: "maintenance \<Rightarrow> ('b, 'z) cp15_scheme \<Rightarrow> ('b, 'z) cp15_scheme" where
  "maintain op s = s\<lparr>maint := maint s @ [op]\<rparr>"

text \<open>The loop over the table entries, from entry i on.\<close>

definition section_entry :: "nat \<Rightarrow> u32" where
  "section_entry i = push_bit 20 (of_nat i) OR push_bit 10 3 OR 0x12"

fun fill_table :: "'b ptr \<Rightarrow> nat \<Rightarrow> nat \<Rightarrow> 'b mem \<Rightarrow> 'b mem" where
  "fill_table ttb_addr i 0 m = m"
| "fill_table ttb_addr i (Suc k) m =
    fill_table ttb_addr (Suc i) k (st32 m (padd ttb_addr (4 * i)) (section_entry i))"

definition cache_bits :: u32 where
  "cache_bits = push_bit 12 1 OR push_bit 2 1 OR push_bit 0 1"

definition enable_d_cache ::
  "'b ptr \<Rightarrow> 'b mem \<Rightarrow> ('b, 'z) cp15_scheme \<Rightarrow> int \<times> 'b mem \<times> ('b, 'z) cp15_scheme" where
  "enable_d_cache pg_tb m s =
    (let m = fill_table pg_tb 0 4096 m;
         s = s\<lparr>ttb := pg_tb\<rparr>;
         s = s\<lparr>dacr := NOT 0\<rparr>;
         val = fa626_repo_cntr s OR cache_bits;
         s = fa626_set_cntr val s;
         s = maintain invalid_tlb_all s;
         s = maintain invalid_idcache_all s
     in (0, m, s))"

definition disable_d_cache :: "('b, 'z) cp15_scheme \<Rightarrow> int \<times> ('b, 'z) cp15_scheme" where
  "disable_d_cache s =
    (let s = maintain clean_invalid_dcache_all s;
         s = maintain invalid_icache_all s;
         s = maintain drain_wr_buffer s;
         s = maintain invalid_iscratchpad s;
         s = maintain invalid_btb s;
         val = fa626_repo_cntr s AND NOT cache_bits
     in (0, fa626_set_cntr val s))"

section \<open>The address map\<close>

text \<open>The walk of the processor for a section table, and whether a page may be cached (its C bit).\<close>

definition first_level :: "'b mem \<Rightarrow> 'b ptr \<Rightarrow> u32 \<Rightarrow> u32" where
  "first_level m t va = ld32 m (padd t (4 * unat (drop_bit 20 va)))"

definition translate :: "'b mem \<Rightarrow> 'b ptr \<Rightarrow> u32 \<Rightarrow> u32 option" where
  "translate m t va =
    (let d = first_level m t va
     in if d AND 3 = 2 then Some ((d AND 0xFFF00000) OR (va AND 0xFFFFF)) else None)"

definition cacheable :: "'b mem \<Rightarrow> 'b ptr \<Rightarrow> u32 \<Rightarrow> bool" where
  "cacheable m t va \<longleftrightarrow> bit (first_level m t va) 3"

lemma fill_table_entry:
  "ld32 (fill_table p i k m) (padd p (4 * j)) = (if i \<le> j \<and> j < i + k then section_entry j else ld32 m (padd p (4 * j)))"
proof (induction k arbitrary: i m)
  case (Suc k)
  have "ld32 (st32 m (padd p (4 * i)) v) (padd p (4 * j)) = (if i = j then v else ld32 m (padd p (4 * j)))" for v
  proof (cases "i = j")
    case False
    then have "4 * i + 3 < 4 * j \<or> 4 * j + 3 < 4 * i" by arith
    then show ?thesis by (auto simp: ld32_def ld16_def st32_apply)
  qed simp
  then show ?case using Suc.IH [of "Suc i"] by auto
qed auto

lemma fill_table_frame:
  "fst q \<noteq> fst p \<or> snd q < snd p + 4 * i \<or> snd p + 4 * (i + k) \<le> snd q \<Longrightarrow> fill_table p i k m q = m q"
proof (induction k arbitrary: i m)
  case (Suc k)
  have "st32 m (padd p (4 * i)) v q = m q" for v using Suc.prems by (cases q) (auto simp: st32_apply padd_def)
  then show ?case using Suc.IH [of "Suc i"] Suc.prems by auto
qed simp

lemma section_entry_maps:
  "section_entry (unat (drop_bit 20 va)) AND 3 = 2"
  "(section_entry (unat (drop_bit 20 va)) AND 0xFFF00000) OR (va AND 0xFFFFF) = va"
  "\<not> bit (section_entry i) 3"
proof -
  have e: "section_entry n = push_bit 20 (of_nat n) OR 0xC12" for n by (simp add: section_entry_def)
  have m: "(3::u32) = mask 2" "(0xFFF00000::u32) = NOT (mask 20)" "(0xFFFFF::u32) = mask 20"
    by (simp_all add: mask_numeral)
  have p: "push_bit 20 w AND mask 2 = 0" "push_bit 20 w AND NOT (mask 20) = push_bit 20 w" for w :: u32
    by (rule bit_word_eqI, auto simp: bit_simps)+
  have q: "(0xC12 :: u32) AND mask 2 = 2" "(0xC12 :: u32) AND NOT (mask 20) = 0"
    by (simp_all add: mask_numeral)
  show "section_entry (unat (drop_bit 20 va)) AND 3 = 2"
    unfolding e m bit.conj_disj_distrib2 p q by simp
  have "push_bit 20 (drop_bit 20 va) OR (va AND mask 20) = va"
    by (rule bit_word_eqI) (auto simp: bit_simps)
  then show "(section_entry (unat (drop_bit 20 va)) AND 0xFFF00000) OR (va AND 0xFFFFF) = va"
    unfolding e m bit.conj_disj_distrib2 p q by simp
  show "\<not> bit (section_entry i) 3" by (simp add: e bit_simps)
qed

lemma fill_table_translates:
  "translate (fill_table p 0 4096 m) p va = Some va" "\<not> cacheable (fill_table p 0 4096 m) p va"
proof -
  have "unat (drop_bit 20 va) < 4096"
    using unat_lt_pow(3) [of va] by (simp add: unat_drop_bit_div less_mult_imp_div_less)
  then have f: "first_level (fill_table p 0 4096 m) p va = section_entry (unat (drop_bit 20 va))"
    by (simp add: first_level_def fill_table_entry)
  show "translate (fill_table p 0 4096 m) p va = Some va"
    unfolding translate_def Let_def f section_entry_maps(1) section_entry_maps(2) by simp
  show "\<not> cacheable (fill_table p 0 4096 m) p va"
    unfolding cacheable_def f by (rule section_entry_maps(3))
qed

lemma cache_bits_bit: "bit cache_bits n \<longleftrightarrow> n \<in> {0, 2, 12}"
  unfolding cache_bits_def bit_or_iff bit_push_bit_iff bit_1_iff by auto

lemma disable_d_cache_bits: "bit (cntr (snd (disable_d_cache s))) k \<longleftrightarrow> k \<notin> {0, 2, 12} \<and> bit (cntr s) k"
proof -
  have c: "cntr (snd (disable_d_cache s)) = cntr s AND NOT cache_bits"
    by (simp add: disable_d_cache_def fa626_repo_cntr_def fa626_set_cntr_def maintain_def Let_def)
  have b: "bit (NOT cache_bits) k \<longleftrightarrow> k < 32 \<and> k \<notin> {0, 2, 12}" by (simp add: bit_simps cache_bits_bit)
  show ?thesis unfolding c bit_and_iff b by (auto dest: bit_imp_le_length)
qed

section \<open>Property\<close>

text \<open>C25: After enable_d_cache the translation table maps every address to itself, only the 16 KB of the table
  have been written, MMU, data and instruction cache are switched on and the other control bits kept, but no
  page of the map is cacheable; disable_d_cache after it cleans and invalidates before it switches the three
  off.\<close>

theorem enable_d_cache_identity:
  "\<exists>m' s'. enable_d_cache t m s = (0, m', s') \<and> ttb s' = t \<and> dacr s' = NOT 0 \<and>
    (\<forall>va. translate m' t va = Some va \<and> \<not> cacheable m' t va) \<and>
    (\<forall>q. fst q \<noteq> fst t \<or> snd q < snd t \<or> snd t + 16384 \<le> snd q \<longrightarrow> m' q = m q) \<and>
    (\<forall>n. bit (cntr s') n \<longleftrightarrow> n \<in> {0, 2, 12} \<or> bit (cntr s) n) \<and>
    maint s' = maint s @ [invalid_tlb_all, invalid_idcache_all] \<and>
    (\<exists>s''. disable_d_cache s' = (0, s'') \<and> (\<forall>n. bit (cntr s'') n \<longleftrightarrow> n \<notin> {0, 2, 12} \<and> bit (cntr s) n) \<and>
      maint s'' = maint s' @ [clean_invalid_dcache_all, invalid_icache_all, drain_wr_buffer, invalid_iscratchpad, invalid_btb])"
proof -
  have f: "fill_table t 0 4096 m q = m q" if "fst q \<noteq> fst t \<or> snd q < snd t \<or> snd t + 16384 \<le> snd q" for q
    by (rule fill_table_frame) (use that in auto)
  have b: "bit (NOT cache_bits) n \<longleftrightarrow> n < 32 \<and> n \<notin> {0, 2, 12}" for n
    by (simp add: bit_simps cache_bits_bit)
  show ?thesis
    using f by (auto simp: enable_d_cache_def disable_d_cache_def fa626_repo_cntr_def fa626_set_cntr_def maintain_def
      fill_table_translates bit_or_iff bit_and_iff cache_bits_bit b Let_def dest: bit_imp_le_length)
qed

text \<open>The witness: with the table of a machine whose memory and registers are zero.\<close>

theorem enable_d_cache_identity_witness:
  "\<exists>m' s'. enable_d_cache ((), 16384) (\<lambda>_. 0) \<lparr>cntr = 0x78, ttb = ((), 0), dacr = 0, maint = []\<rparr> = (0, m', s') \<and>
    translate m' ((), 16384) 0x90000004 = Some 0x90000004 \<and> m' ((), 16383) = 0"
proof -
  from enable_d_cache_identity [of "((), 16384)" "\<lambda>_. 0" "\<lparr>cntr = 0x78, ttb = ((), 0), dacr = 0, maint = []\<rparr>"]
  show ?thesis by (elim exE conjE) (intro exI conjI, assumption, simp_all)
qed

text \<open>fa626_check_dcache_en looks at a bit the two functions do not touch.\<close>

lemma check_dcache_en_unrelated:
  "fa626_check_dcache_en (snd (snd (enable_d_cache t m s))) = fa626_check_dcache_en s"
proof -
  have b: "bit (push_bit 4 1 :: u32) n \<longleftrightarrow> n = 4" for n
    unfolding bit_push_bit_iff bit_1_iff by auto
  have "(cntr s OR cache_bits) AND push_bit 4 1 = cntr s AND push_bit 4 1"
    by (rule bit_word_eqI, unfold bit_or_iff bit_and_iff cache_bits_bit b) auto
  moreover have "cntr (snd (snd (enable_d_cache t m s))) = cntr s OR cache_bits"
    by (simp add: enable_d_cache_def fa626_repo_cntr_def fa626_set_cntr_def maintain_def Let_def)
  ultimately show ?thesis unfolding fa626_check_dcache_en_def by (simp only:)
qed

end
