(* ===== verification/Ticks.thy ===== *)
theory Ticks
  imports CNum
begin

unbundle bit_operations_syntax

text \<open>
  get_ticks of drivers/timer/fttmr010.c and lib/timer.c: the tick counter that extends the 32-bit
  down counter of timer 1 to 64 bits, the conversions to CONFIG_SYS_HZ time and from microseconds,
  get_timer and udelay.

  The clock record is the part the network code depends on.  The counter register is volatile: the
  n-th read of it returns readings n, whatever the hardware makes it; nread counts the reads.
\<close>

section \<open>Platforms\<close>

record platform =
  CONFIG_SYS_HZ :: u64
  TIMER_CLOCK :: u32
  TIMERC_IRQ2 :: nat
  TIMERC_IRQ3 :: nat

definition platform_AXI :: platform where
  "platform_AXI = \<lparr>CONFIG_SYS_HZ = 1000000, TIMER_CLOCK = 50000000, TIMERC_IRQ2 = 2, TIMERC_IRQ3 = 3\<rparr>"

definition platform_AHB :: platform where
  "platform_AHB = \<lparr>CONFIG_SYS_HZ = 1000, TIMER_CLOCK = 37748736, TIMERC_IRQ2 = 2, TIMERC_IRQ3 = 3\<rparr>"

definition platform_A320 :: platform where
  "platform_A320 = \<lparr>CONFIG_SYS_HZ = 1000, TIMER_CLOCK = 32768, TIMERC_IRQ2 = 14, TIMERC_IRQ3 = 15\<rparr>"

section \<open>Ticks and time\<close>

record clock =
  plat :: platform
  tbu :: u64
  tbl :: u64
  timer_load_val :: "u32 list"
  readings :: "nat \<Rightarrow> u32"
  nread :: nat

definition get_ticks :: "clock \<Rightarrow> u64 \<times> clock" where
  "get_ticks c =
    (let now = timer_load_val c ! 0 - readings c (nread c);
         tbu' = (if ucast now < tbl c then tbu c + 1 else tbu c)
     in (push_bit 32 tbu' OR ucast now, c\<lparr>tbu := tbu', tbl := ucast now, nread := Suc (nread c)\<rparr>))"

definition tick_to_time :: "platform \<Rightarrow> u64 \<Rightarrow> u64" where
  "tick_to_time p tick = fst (do_div (tick * CONFIG_SYS_HZ p) (TIMER_CLOCK p))"

definition usec_to_tick :: "platform \<Rightarrow> u64 \<Rightarrow> u64" where
  "usec_to_tick p usec = fst (do_div (usec * ucast (TIMER_CLOCK p)) 1000000)"

definition get_timer :: "u32 \<Rightarrow> clock \<Rightarrow> u32 \<times> clock" where
  "get_timer base c =
    (case get_ticks c of (ticks, c) \<Rightarrow> (ucast (tick_to_time (plat c) ticks - ucast base), c))"

text \<open>The busy loop of udelay; it returns None when the counter never gets there.\<close>

partial_function (option) udelay_loop :: "u64 \<Rightarrow> u32 \<Rightarrow> clock \<Rightarrow> clock option" where
  "udelay_loop start tmo c =
    (case get_ticks c of (t, c) \<Rightarrow> if t - start < ucast tmo then udelay_loop start tmo c else Some c)"

definition udelay :: "u32 \<Rightarrow> clock \<Rightarrow> clock option" where
  "udelay usec c =
    (case get_ticks c of (start, c) \<Rightarrow>
       udelay_loop start (ucast (usec_to_tick (plat c) (ucast usec))) c)"

text \<open>
  The counter follows the time tt (in ticks since the load value was set) when its n-th reading is
  what a free-running 32-bit down counter shows at time tt n, time does not run backwards, and less
  than a full round of the counter passes between reads.
\<close>

definition follows :: "clock \<Rightarrow> (nat \<Rightarrow> nat) \<Rightarrow> bool" where
  "follows c tt \<longleftrightarrow>
    (\<forall>n \<ge> nread c. readings c n = timer_load_val c ! 0 - of_nat (tt n) \<and> tt n \<le> tt (Suc n) \<and>
       tt (Suc n) < tt n + 2 ^ 32 \<and> tt n < 2 ^ 64) \<and>
    (\<exists>t0. unat (tbu c) * 2 ^ 32 + unat (tbl c) = t0 \<and> unat (tbl c) < 2 ^ 32 \<and>
       t0 \<le> tt (nread c) \<and> tt (nread c) < t0 + 2 ^ 32)"

lemma hi_lo_word:
  "a < 2 ^ 32 \<Longrightarrow> b < 2 ^ 32 \<Longrightarrow> unat (push_bit 32 (of_nat a) OR of_nat b :: u64) = a * 2 ^ 32 + b"
proof -
  assume a: "a < 2 ^ 32" and b: "b < 2 ^ 32"
  have "push_bit 32 (of_nat a) AND (of_nat b :: u64) = 0"
  proof (rule bit_word_eqI)
    fix n
    have "bit b n \<Longrightarrow> n < 32"
      using b by (metis bit_take_bit_iff take_bit_nat_eq_self)
    then show "bit (push_bit 32 (of_nat a) AND (of_nat b :: u64)) n = bit 0 n"
      by (auto simp: bit_simps)
  qed
  then have "push_bit 32 (of_nat a) OR of_nat b = push_bit 32 (of_nat a) + (of_nat b :: u64)"
    by (simp add: disjunctive_add_eq_or)
  also have "\<dots> = of_nat (a * 2 ^ 32 + b)"
    by (simp add: push_bit_eq_mult)
  finally have e: "push_bit 32 (of_nat a) OR of_nat b = (of_nat (a * 2 ^ 32 + b) :: u64)" .
  have "a * 2 ^ 32 + b < (a + 1) * 2 ^ 32" using b by simp
  also have "\<dots> \<le> 2 ^ 32 * 2 ^ 32" using a by (intro mult_le_mono1) simp
  finally show ?thesis
    unfolding e by (simp add: unsigned_of_nat take_bit_nat_eq_self del: of_nat_add of_nat_mult)
qed

lemma rollover:
  fixes l u t :: nat
  assumes "l < 2 ^ 32" "u * 2 ^ 32 + l \<le> t" "t < u * 2 ^ 32 + l + 2 ^ 32"
  shows "t div 2 ^ 32 = (if t mod 2 ^ 32 < l then u + 1 else u)"
proof -
  let ?q = "t div 2 ^ 32" and ?r = "t mod 2 ^ 32"
  have t: "t = ?q * 2 ^ 32 + ?r" by simp
  have r: "?r < 2 ^ 32" by simp
  have "u \<le> ?q" "?q \<le> u + 1"
    using assms r t by (simp_all add: less_eq_div_iff_mult_less_eq)
  then consider "?q = u" | "?q = u + 1" by linarith
  then show ?thesis
  proof cases
    case 1
    then show ?thesis using assms(2) t by simp
  next
    case 2
    then show ?thesis using assms(3) t by simp
  qed
qed

lemma get_ticks_follows:
  assumes "follows c tt"
  shows "unat (fst (get_ticks c)) = tt (nread c)" "follows (snd (get_ticks c)) tt"
proof -
  let ?t = "tt (nread c)" and ?n = "nread c"
  define now :: u32 where "now = timer_load_val c ! 0 - readings c ?n"
  from assms have r: "\<And>n. ?n \<le> n \<Longrightarrow> readings c n = timer_load_val c ! 0 - of_nat (tt n)"
    and step: "\<And>n. ?n \<le> n \<Longrightarrow> tt n \<le> tt (Suc n) \<and> tt (Suc n) < tt n + 2 ^ 32 \<and> tt n < 2 ^ 64"
    and l: "unat (tbl c) < 2 ^ 32"
    and t0: "unat (tbu c) * 2 ^ 32 + unat (tbl c) \<le> ?t" "?t < unat (tbu c) * 2 ^ 32 + unat (tbl c) + 2 ^ 32"
    by (auto simp: follows_def)
  have now: "now = of_nat ?t" "unat now = ?t mod 2 ^ 32"
    using r [of ?n] by (simp_all add: now_def unsigned_of_nat take_bit_eq_mod)
  have div: "?t div 2 ^ 32 < 2 ^ 32"
    using step [of ?n] by (simp add: div_less_iff_less_mult)
  define tbu' where "tbu' = (if ucast now < tbl c then tbu c + 1 else tbu c)"
  have lt: "(ucast now < tbl c) = (?t mod 2 ^ 32 < unat (tbl c))"
    using now(2) by (simp add: word_less_nat_alt)
  have u: "unat tbu' = ?t div 2 ^ 32"
  proof (cases "ucast now < tbl c")
    case True
    then have "?t div 2 ^ 32 = unat (tbu c) + 1"
      using rollover [OF l t0] lt by simp
    then show ?thesis
      using True div by (simp add: tbu'_def unat_word_ariths)
  next
    case False
    then show ?thesis
      using rollover [OF l t0] lt by (simp add: tbu'_def)
  qed
  have w: "x = of_nat (unat x)" for x :: u64 by simp
  have e: "tbu' = of_nat (?t div 2 ^ 32)" "(ucast now :: u64) = of_nat (?t mod 2 ^ 32)"
    using w [of tbu'] w [of "ucast now"] u now(2) by simp_all
  have g: "get_ticks c = (push_bit 32 tbu' OR ucast now, c\<lparr>tbu := tbu', tbl := ucast now, nread := Suc ?n\<rparr>)"
    by (simp add: get_ticks_def now_def tbu'_def Let_def)
  show "unat (fst (get_ticks c)) = ?t"
    unfolding g e using hi_lo_word [OF div, of "?t mod 2 ^ 32"] by simp
  have "unat tbu' * 2 ^ 32 + unat (ucast now :: u64) = ?t"
    by (simp add: u now(2))
  then show "follows (snd (get_ticks c)) tt"
    using r step now(2) by (auto simp: g follows_def)
qed

lemma do_div_unat_word:
  "base \<noteq> 0 \<Longrightarrow> fst (do_div n base) = of_nat (unat n div unat base)"
proof -
  assume "base \<noteq> 0"
  have "fst (do_div n base) = of_nat (unat (fst (do_div n base)))" by simp
  with do_div_correct(1) [OF \<open>base \<noteq> 0\<close>] show ?thesis by simp
qed

lemma nread_get_ticks [simp]:
  "nread (snd (get_ticks c)) = Suc (nread c)" "plat (snd (get_ticks c)) = plat c"
  by (simp_all add: get_ticks_def Let_def)

lemma follows_bound: "follows c tt \<Longrightarrow> nread c \<le> n \<Longrightarrow> tt n < 2 ^ 64"
  by (simp add: follows_def)

lemma follows_mono: "follows c tt \<Longrightarrow> nread c \<le> m \<Longrightarrow> m \<le> n \<Longrightarrow> tt m \<le> tt n"
proof (induction n)
  case (Suc n)
  show ?case
  proof (cases "m = Suc n")
    case False
    then have "tt m \<le> tt n" using Suc by simp
    also have "tt n \<le> tt (Suc n)"
      using Suc.prems False by (simp add: follows_def)
    finally show ?thesis .
  qed simp
qed simp

text \<open>Time in CONFIG_SYS_HZ units, while the product of the conversion fits 64 bits.\<close>

lemma get_timer_follows:
  assumes "follows c tt" "tt (nread c) * unat (CONFIG_SYS_HZ (plat c)) < 2 ^ 64" "TIMER_CLOCK (plat c) \<noteq> 0"
  shows "fst (get_timer base c) =
    of_nat (tt (nread c) * unat (CONFIG_SYS_HZ (plat c)) div unat (TIMER_CLOCK (plat c))) - base"
    "follows (snd (get_timer base c)) tt" "nread (snd (get_timer base c)) = Suc (nread c)"
    "plat (snd (get_timer base c)) = plat c"
proof -
  let ?p = "plat c"
  have t: "unat (fst (get_ticks c)) = tt (nread c)"
    by (rule get_ticks_follows [OF assms(1)])
  have "unat (fst (get_ticks c) * CONFIG_SYS_HZ ?p) = tt (nread c) * unat (CONFIG_SYS_HZ ?p)"
    using assms(2) unfolding t [symmetric] by (intro unat_mult_lem [THEN iffD1]) simp
  then have k: "tick_to_time ?p (fst (get_ticks c)) =
      of_nat (tt (nread c) * unat (CONFIG_SYS_HZ ?p) div unat (TIMER_CLOCK ?p))"
    by (simp add: tick_to_time_def do_div_unat_word [OF assms(3)])
  have sub: "ucast (x - ucast b :: u64) = (ucast x - b :: u32)" for x b
    by (simp add: ucast_narrow ucast_narrow_widen)
  show "fst (get_timer base c) =
      of_nat (tt (nread c) * unat (CONFIG_SYS_HZ ?p) div unat (TIMER_CLOCK ?p)) - base"
    by (simp add: get_timer_def case_prod_beta k sub ucast_narrow_of_nat)
  show "follows (snd (get_timer base c)) tt" "nread (snd (get_timer base c)) = Suc (nread c)"
    "plat (snd (get_timer base c)) = ?p"
    using get_ticks_follows(2) [OF assms(1)] by (simp_all add: get_timer_def case_prod_beta)
qed

text \<open>udelay returns at the first read of the counter that is tmo ticks or more after the first.\<close>

lemma udelay_loop_returns:
  assumes "follows c tt" "unat start \<le> tt (nread c)" "unat tmo \<le> tt (nread c + k) - unat start"
  shows "\<exists>c' j. udelay_loop start tmo c = Some c' \<and> follows c' tt \<and> j \<le> k \<and> nread c' = Suc (nread c + j) \<and>
    unat start + unat tmo \<le> tt (nread c + j) \<and> (\<forall>i < j. tt (nread c + i) < unat start + unat tmo)"
  using assms
proof (induction k arbitrary: c)
  case (0 c)
  let ?g = "get_ticks c"
  have t: "unat (fst ?g) = tt (nread c)" by (rule get_ticks_follows [OF 0(1)])
  have "\<not> fst ?g - start < ucast tmo"
    using 0(2,3) t by (simp add: word_less_nat_alt unat_sub_if')
  then have "udelay_loop start tmo c = Some (snd ?g)"
    by (subst udelay_loop.simps) (simp add: case_prod_beta)
  then show ?case
    using get_ticks_follows(2) [OF 0(1)] 0 by (intro exI [of _ "snd ?g"] exI [of _ 0]) auto
next
  case (Suc k c)
  let ?g = "get_ticks c"
  have t: "unat (fst ?g) = tt (nread c)" by (rule get_ticks_follows [OF Suc.prems(1)])
  have d: "unat (fst ?g - start) = tt (nread c) - unat start"
    using Suc.prems(2) t by (simp add: unat_sub_if')
  have loop: "udelay_loop start tmo c =
      (if fst ?g - start < ucast tmo then udelay_loop start tmo (snd ?g) else Some (snd ?g))"
    by (subst udelay_loop.simps) (simp add: case_prod_beta)
  have f: "follows (snd ?g) tt" by (rule get_ticks_follows [OF Suc.prems(1)])
  show ?case
  proof (cases "fst ?g - start < ucast tmo")
    case True
    then have lt: "tt (nread c) < unat start + unat tmo"
      using Suc.prems(2) by (simp add: word_less_nat_alt d)
    have "unat start \<le> tt (nread (snd ?g))"
      using Suc.prems(2) follows_mono [OF Suc.prems(1), of "nread c" "Suc (nread c)"] by simp
    then obtain c' j where "udelay_loop start tmo (snd ?g) = Some c'" "follows c' tt" "j \<le> k"
      "nread c' = Suc (Suc (nread c) + j)" "unat start + unat tmo \<le> tt (Suc (nread c) + j)"
      "\<forall>i < j. tt (Suc (nread c) + i) < unat start + unat tmo"
      using Suc.IH [OF f] Suc.prems(3) by auto
    then show ?thesis
      using True lt loop by (intro exI [of _ c'] exI [of _ "Suc j"]) (auto simp: less_Suc_eq_0_disj)
  next
    case False
    then have "unat start + unat tmo \<le> tt (nread c)"
      using Suc.prems(2) by (simp add: word_less_nat_alt d)
    then show ?thesis
      using False f loop by (intro exI [of _ "snd ?g"] exI [of _ 0]) auto
  qed
qed

lemma usec_to_tick_of_nat:
  assumes "unat usec * unat (TIMER_CLOCK p) < 2 ^ 64"
  shows "usec_to_tick p usec = of_nat (unat usec * unat (TIMER_CLOCK p) div 1000000)"
proof -
  have "unat (usec * ucast (TIMER_CLOCK p)) = unat usec * unat (TIMER_CLOCK p)"
    using assms unat_mult_lem [of usec "ucast (TIMER_CLOCK p) :: u64"] by simp
  then show ?thesis
    by (simp add: usec_to_tick_def do_div_unat_word)
qed

lemma udelay_returns:
  assumes "follows c tt" "unat usec * unat (TIMER_CLOCK (plat c)) div 1000000 = ticks" "ticks < 2 ^ 32"
    "tt (nread c) + ticks \<le> tt (Suc (nread c) + k)"
  shows "\<exists>c' j. udelay usec c = Some c' \<and> follows c' tt \<and> j \<le> k \<and> nread c' = Suc (Suc (nread c) + j) \<and>
    tt (nread c) + ticks \<le> tt (Suc (nread c) + j) \<and>
    (\<forall>i < j. tt (Suc (nread c) + i) < tt (nread c) + ticks)"
proof -
  let ?g = "get_ticks c"
  have t: "unat (fst ?g) = tt (nread c)" by (rule get_ticks_follows [OF assms(1)])
  have f: "follows (snd ?g) tt" by (rule get_ticks_follows [OF assms(1)])
  have "unat usec * unat (TIMER_CLOCK (plat c)) < 2 ^ 32 * 2 ^ 32"
    using unat_lt_pow(3) [of usec] unat_lt_pow(3) [of "TIMER_CLOCK (plat c)"]
    by (intro mult_strict_mono) simp_all
  then have "usec_to_tick (plat c) (ucast usec) = of_nat ticks"
    using usec_to_tick_of_nat [of "ucast usec" "plat c"] assms(2) by simp
  then have u: "unat (ucast (usec_to_tick (plat c) (ucast usec)) :: u32) = ticks"
    using assms(3) by (simp add: ucast_narrow_of_nat unsigned_of_nat take_bit_nat_eq_self)
  have "tt (nread c) \<le> tt (Suc (nread c))"
    by (rule follows_mono [OF assms(1)]) simp_all
  then show ?thesis
    using udelay_loop_returns [OF f, of "fst ?g" "ucast (usec_to_tick (plat c) (ucast usec))" k] assms(4)
    unfolding t u by (simp add: udelay_def case_prod_beta)
qed

section \<open>Properties\<close>

text \<open>C29: while the counter follows the time and less than 2^32 ticks pass between reads, get_ticks is the
  exact 64-bit tick count across any number of counter wrap-arounds, and get_timer the time in
  CONFIG_SYS_HZ units minus its base.\<close>

theorem get_timer_time:
  assumes "follows c tt" "tt (nread c) * unat (CONFIG_SYS_HZ (plat c)) < 2 ^ 64" "TIMER_CLOCK (plat c) \<noteq> 0"
  shows "unat (fst (get_ticks c)) = tt (nread c) \<and> follows (snd (get_ticks c)) tt \<and>
    fst (get_timer base c) =
      of_nat (tt (nread c) * unat (CONFIG_SYS_HZ (plat c)) div unat (TIMER_CLOCK (plat c))) - base"
  using get_ticks_follows [OF assms(1)] get_timer_follows [OF assms] by simp

text \<open>A clock on the AHB platform read every three thousand million ticks, wrapping the counter in between.\<close>

definition sample_clock :: clock where
  "sample_clock = \<lparr>plat = platform_AHB, tbu = 0, tbl = 0, timer_load_val = [0xFFFFFFFF, 0, 0],
     readings = (\<lambda>n. 0xFFFFFFFF - of_nat (3000000000 * min n 1000)), nread = 0\<rparr>"

lemma sample_clock_follows: "follows sample_clock (\<lambda>n. 3000000000 * min n 1000)"
  unfolding follows_def sample_clock_def
  by (auto simp: min_def)

lemma sample_clock_later:
  "follows (sample_clock\<lparr>nread := 5, tbu := 2, tbl := 3410065408\<rparr>) (\<lambda>n. 3000000000 * min n 1000)"
  unfolding follows_def sample_clock_def
  by (auto simp: min_def)

theorem get_timer_time_witness:
  "unat (fst (get_ticks (sample_clock\<lparr>nread := 5, tbu := 2, tbl := 3410065408\<rparr>))) = 15000000000 \<and>
   fst (get_timer 0 (sample_clock\<lparr>nread := 5, tbu := 2, tbl := 3410065408\<rparr>)) = 397364"
  using get_timer_time [OF sample_clock_later, of 0]
  by (simp add: sample_clock_def platform_AHB_def)

text \<open>udelay returns, at the first read of the counter at or beyond the requested number of ticks after
  its start.\<close>

theorem udelay_delays:
  assumes "follows c tt" "unat usec * unat (TIMER_CLOCK (plat c)) div 1000000 = ticks" "ticks < 2 ^ 32"
    "tt (nread c) + ticks \<le> tt (Suc (nread c) + k)"
  shows "\<exists>c' j. udelay usec c = Some c' \<and> j \<le> k \<and> nread c' = Suc (Suc (nread c) + j) \<and>
    tt (nread c) + ticks \<le> tt (Suc (nread c) + j) \<and>
    (\<forall>i < j. tt (Suc (nread c) + i) < tt (nread c) + ticks)"
  using udelay_returns [OF assms] by blast

theorem udelay_delays_witness:
  "\<exists>c'. udelay 2000000 sample_clock = Some c' \<and> nread c' = 2"
proof -
  have "unat (2000000 :: u32) * unat (TIMER_CLOCK (plat sample_clock)) div 1000000 = 75497472"
    by (simp add: sample_clock_def platform_AHB_def)
  from udelay_delays [OF sample_clock_follows this, of 0] show ?thesis
    by (auto simp: sample_clock_def)
qed

end
