(* ===== verification/NetCore.thy ===== *)
theory NetCore
  imports Ticks
begin

unbundle bit_operations_syntax

text \<open>
  The shared part of the network code: the global variables of net/net_core.c and net/eth.c, the
  packet headers of include/net_core.h as offsets from a packet pointer, the header constructors,
  the checksum, the handler and timeout registers and the transmit path.  The state is one record;
  net/arp.c, net/ping.c and net/tftp.c extend it with their own statics.

  Arrays the code points into are objects of the memory nmem.  Frames handed to the device are
  logged in sent; the MAC driver itself is not part of the repository.
\<close>

section \<open>Objects and state\<close>

datatype blk =
    Null                     \<comment> \<open>address 0\<close>
  | PktBuf                   \<comment> \<open>transmit and receive packet buffers\<close>
  | NetArpPacketBuf
  | NetOurEther_b | NetServerEther_b | NetBcastAddr_b | NetEtherNullAddr_b
  | enetaddr_b               \<comment> \<open>eth_current->enetaddr\<close>
  | BootFile_b | tftp_filename_b | default_filename_b
  | Driver nat               \<comment> \<open>buffers the MAC driver owns\<close>
  | Ram                      \<comment> \<open>the address space load_addr is an address of\<close>

type_synonym nptr = "blk ptr"

definition NULL :: nptr where "NULL = (Null, 0)"
definition NetOurEther :: nptr where "NetOurEther = (NetOurEther_b, 0)"
definition NetServerEther :: nptr where "NetServerEther = (NetServerEther_b, 0)"
definition NetBcastAddr :: nptr where "NetBcastAddr = (NetBcastAddr_b, 0)"
definition NetEtherNullAddr :: nptr where "NetEtherNullAddr = (NetEtherNullAddr_b, 0)"
definition enetaddr :: nptr where "enetaddr = (enetaddr_b, 0)"
definition BootFile :: nptr where "BootFile = (BootFile_b, 0)"
definition tftp_filename :: nptr where "tftp_filename = (tftp_filename_b, 0)"
definition default_filename :: nptr where "default_filename = (default_filename_b, 0)"

lemmas object_defs = NULL_def NetOurEther_def NetServerEther_def NetBcastAddr_def NetEtherNullAddr_def
  enetaddr_def BootFile_def tftp_filename_def default_filename_def

datatype net_loop_state = NETLOOP_CONTINUE | NETLOOP_RESTART | NETLOOP_SUCCESS | NETLOOP_FAIL

datatype proto_t = BOOTP | RARP | ARP | TFTPGET | DHCP | PING | DNS | NFS | CDP | NETCONS | SNTP
  | TFTPSRV | TFTPPUT | LINKLOCAL

text \<open>
  The functions installed as packet and timeout handlers.  The program calls net_set_arp_handler
  with NULL only, which installs the empty dummy_handler.
\<close>

datatype rxhand = dummy_handler | TftpHandler_f
datatype arp_rxhand = arp_dummy_handler
datatype thand = TftpTimeout_f | ping_timeout_f

datatype eth_state_t = ETH_STATE_INIT | ETH_STATE_PASSIVE | ETH_STATE_ACTIVE

record eth_device =
  eth_name :: string
  eth_state :: eth_state_t

record net_core =
  nmem :: "blk mem"
  clock :: clock
  eth_current :: "eth_device option"
  sent :: "u8 list list"
  NetOurSubnetMask :: u32
  NetOurGatewayIP :: u32
  NetBootFileSize :: u16
  NetBootFileXferSize :: u32
  NetOurIP :: u32
  NetServerIP :: u32
  NetRxPacket :: nptr
  NetRxPacketLen :: int
  NetIPID :: u32
  net_state :: net_loop_state
  NetRestarted :: int
  NetDevExists :: int
  NetOurVLAN :: u16
  NetOurNativeVLAN :: u16
  NetRxPackets :: "nptr list"
  udp_packet_handler :: rxhand
  arp_packet_handler :: arp_rxhand
  timeHandler :: "thand option"
  timeStart :: u32
  timeDelta :: u32
  NetTxPacket :: nptr
  NetTryCount :: int
  net_first_call :: bool

section \<open>Headers\<close>

definition ETHER_HDR_SIZE :: nat where "ETHER_HDR_SIZE = 14"
definition et_dest :: "'b ptr \<Rightarrow> 'b ptr" where "et_dest p = p"
definition et_src :: "'b ptr \<Rightarrow> 'b ptr" where "et_src p = padd p 6"
definition et_protlen :: "'b ptr \<Rightarrow> 'b ptr" where "et_protlen p = padd p 12"

definition E802_HDR_SIZE :: nat where "E802_HDR_SIZE = 22"
definition et_prot :: "'b ptr \<Rightarrow> 'b ptr" where "et_prot p = padd p 20"

definition VLAN_ETHER_HDR_SIZE :: nat where "VLAN_ETHER_HDR_SIZE = 18"
definition vet_vlan_type :: "'b ptr \<Rightarrow> 'b ptr" where "vet_vlan_type p = padd p 12"
definition vet_tag :: "'b ptr \<Rightarrow> 'b ptr" where "vet_tag p = padd p 14"
definition vet_type :: "'b ptr \<Rightarrow> 'b ptr" where "vet_type p = padd p 16"

definition PROT_IP :: u32 where "PROT_IP = 0x0800"
definition PROT_ARP :: u32 where "PROT_ARP = 0x0806"
definition PROT_VLAN :: u32 where "PROT_VLAN = 0x8100"
definition IPPROTO_ICMP :: u8 where "IPPROTO_ICMP = 1"
definition IPPROTO_UDP :: u8 where "IPPROTO_UDP = 17"

definition IP_HDR_SIZE :: nat where "IP_HDR_SIZE = 20"
definition IP_UDP_HDR_SIZE :: nat where "IP_UDP_HDR_SIZE = 28"
definition UDP_HDR_SIZE :: nat where "UDP_HDR_SIZE = IP_UDP_HDR_SIZE - IP_HDR_SIZE"

definition ip_hl_v :: "'b ptr \<Rightarrow> 'b ptr" where "ip_hl_v p = p"
definition ip_tos :: "'b ptr \<Rightarrow> 'b ptr" where "ip_tos p = padd p 1"
definition ip_len :: "'b ptr \<Rightarrow> 'b ptr" where "ip_len p = padd p 2"
definition ip_id :: "'b ptr \<Rightarrow> 'b ptr" where "ip_id p = padd p 4"
definition ip_off :: "'b ptr \<Rightarrow> 'b ptr" where "ip_off p = padd p 6"
definition ip_ttl :: "'b ptr \<Rightarrow> 'b ptr" where "ip_ttl p = padd p 8"
definition ip_p :: "'b ptr \<Rightarrow> 'b ptr" where "ip_p p = padd p 9"
definition ip_sum :: "'b ptr \<Rightarrow> 'b ptr" where "ip_sum p = padd p 10"
definition ip_src :: "'b ptr \<Rightarrow> 'b ptr" where "ip_src p = padd p 12"
definition ip_dst :: "'b ptr \<Rightarrow> 'b ptr" where "ip_dst p = padd p 16"
definition udp_src :: "'b ptr \<Rightarrow> 'b ptr" where "udp_src p = padd p 20"
definition udp_dst :: "'b ptr \<Rightarrow> 'b ptr" where "udp_dst p = padd p 22"
definition udp_len :: "'b ptr \<Rightarrow> 'b ptr" where "udp_len p = padd p 24"
definition udp_xsum :: "'b ptr \<Rightarrow> 'b ptr" where "udp_xsum p = padd p 26"

definition IP_OFFS :: u16 where "IP_OFFS = 0x1fff"
definition IP_FLAGS_DFRAG :: u16 where "IP_FLAGS_DFRAG = 0x4000"
definition IP_FLAGS_MFRAG :: u16 where "IP_FLAGS_MFRAG = 0x2000"

definition ar_hrd :: "'b ptr \<Rightarrow> 'b ptr" where "ar_hrd p = p"
definition ar_pro :: "'b ptr \<Rightarrow> 'b ptr" where "ar_pro p = padd p 2"
definition ar_hln :: "'b ptr \<Rightarrow> 'b ptr" where "ar_hln p = padd p 4"
definition ar_pln :: "'b ptr \<Rightarrow> 'b ptr" where "ar_pln p = padd p 5"
definition ar_op :: "'b ptr \<Rightarrow> 'b ptr" where "ar_op p = padd p 6"
definition ar_sha :: "'b ptr \<Rightarrow> 'b ptr" where "ar_sha p = padd p 8"
definition ar_spa :: "'b ptr \<Rightarrow> 'b ptr" where "ar_spa p = padd p 14"
definition ar_tha :: "'b ptr \<Rightarrow> 'b ptr" where "ar_tha p = padd p 18"
definition ar_tpa :: "'b ptr \<Rightarrow> 'b ptr" where "ar_tpa p = padd p 24"
definition ARP_HDR_SIZE :: nat where "ARP_HDR_SIZE = 8 + 20"
definition ARP_ETHER :: u16 where "ARP_ETHER = 1"
definition ARP_HLEN :: nat where "ARP_HLEN = 6"
definition ARP_PLEN :: nat where "ARP_PLEN = 4"
definition ARPOP_REQUEST :: u16 where "ARPOP_REQUEST = 1"
definition ARPOP_REPLY :: u16 where "ARPOP_REPLY = 2"

definition icmp_type :: "'b ptr \<Rightarrow> 'b ptr" where "icmp_type p = p"
definition icmp_code :: "'b ptr \<Rightarrow> 'b ptr" where "icmp_code p = padd p 1"
definition icmp_checksum :: "'b ptr \<Rightarrow> 'b ptr" where "icmp_checksum p = padd p 2"
definition icmp_id :: "'b ptr \<Rightarrow> 'b ptr" where "icmp_id p = padd p 4"
definition icmp_sequence :: "'b ptr \<Rightarrow> 'b ptr" where "icmp_sequence p = padd p 6"
definition ICMP_HDR_SIZE :: nat where "ICMP_HDR_SIZE = 8"
definition IP_ICMP_HDR_SIZE :: nat where "IP_ICMP_HDR_SIZE = IP_HDR_SIZE + ICMP_HDR_SIZE"
definition ICMP_ECHO_REPLY :: u8 where "ICMP_ECHO_REPLY = 0"
definition ICMP_REDIRECT :: u8 where "ICMP_REDIRECT = 5"
definition ICMP_ECHO_REQUEST :: u8 where "ICMP_ECHO_REQUEST = 8"
definition ICMP_REDIR_HOST :: u8 where "ICMP_REDIR_HOST = 1"

definition VLAN_NONE :: u16 where "VLAN_NONE = 4095"
definition VLAN_IDMASK :: u16 where "VLAN_IDMASK = 0x0fff"

definition PKTALIGN :: nat where "PKTALIGN = 4"
definition PKTSIZE_ALIGN :: nat where "PKTSIZE_ALIGN = 1536"
definition PKTBUFSRX :: nat where "PKTBUFSRX = 4"

lemmas hdr_defs = ETHER_HDR_SIZE_def et_dest_def et_src_def et_protlen_def E802_HDR_SIZE_def et_prot_def
  VLAN_ETHER_HDR_SIZE_def vet_vlan_type_def vet_tag_def vet_type_def PROT_IP_def PROT_ARP_def
  PROT_VLAN_def IPPROTO_ICMP_def IPPROTO_UDP_def IP_HDR_SIZE_def IP_UDP_HDR_SIZE_def UDP_HDR_SIZE_def
  ip_hl_v_def ip_tos_def ip_len_def ip_id_def ip_off_def ip_ttl_def ip_p_def ip_sum_def ip_src_def
  ip_dst_def udp_src_def udp_dst_def udp_len_def udp_xsum_def IP_OFFS_def IP_FLAGS_DFRAG_def
  IP_FLAGS_MFRAG_def ar_hrd_def ar_pro_def ar_hln_def ar_pln_def ar_op_def ar_sha_def ar_spa_def
  ar_tha_def ar_tpa_def ARP_HDR_SIZE_def ARP_ETHER_def ARP_HLEN_def ARP_PLEN_def ARPOP_REQUEST_def
  ARPOP_REPLY_def icmp_type_def icmp_code_def icmp_checksum_def icmp_id_def icmp_sequence_def
  ICMP_HDR_SIZE_def IP_ICMP_HDR_SIZE_def ICMP_ECHO_REPLY_def ICMP_REDIRECT_def ICMP_ECHO_REQUEST_def
  ICMP_REDIR_HOST_def VLAN_NONE_def VLAN_IDMASK_def

section \<open>Small operations\<close>

text \<open>get_timer(base), the timer state being part of the network state.\<close>

definition net_get_timer :: "u32 \<Rightarrow> 'x net_core_scheme \<Rightarrow> u32 \<times> 'x net_core_scheme" where
  "net_get_timer base s = (case get_timer base (clock s) of (t, c) \<Rightarrow> (t, s\<lparr>clock := c\<rparr>))"

definition net_set_state :: "net_loop_state \<Rightarrow> 'x net_core_scheme \<Rightarrow> 'x net_core_scheme" where
  "net_set_state st s = s\<lparr>net_state := st\<rparr>"

definition net_set_udp_handler :: "rxhand option \<Rightarrow> 'x net_core_scheme \<Rightarrow> 'x net_core_scheme" where
  "net_set_udp_handler f s =
    (case f of None \<Rightarrow> s\<lparr>udp_packet_handler := dummy_handler\<rparr> | Some h \<Rightarrow> s\<lparr>udp_packet_handler := h\<rparr>)"

definition net_set_arp_handler :: "arp_rxhand option \<Rightarrow> 'x net_core_scheme \<Rightarrow> 'x net_core_scheme" where
  "net_set_arp_handler f s =
    (case f of None \<Rightarrow> s\<lparr>arp_packet_handler := arp_dummy_handler\<rparr> | Some h \<Rightarrow> s\<lparr>arp_packet_handler := h\<rparr>)"

definition net_get_udp_handler :: "'x net_core_scheme \<Rightarrow> rxhand" where
  "net_get_udp_handler s = udp_packet_handler s"

definition net_get_arp_handler :: "'x net_core_scheme \<Rightarrow> arp_rxhand" where
  "net_get_arp_handler s = arp_packet_handler s"

definition NetSetTimeout :: "u32 \<Rightarrow> thand option \<Rightarrow> 'x net_core_scheme \<Rightarrow> 'x net_core_scheme" where
  "NetSetTimeout iv f s =
    (if iv = 0 then s\<lparr>timeHandler := None\<rparr>
     else
       let s = s\<lparr>timeHandler := f\<rparr>;
           (t, s) = net_get_timer 0 s
       in s\<lparr>timeStart := t, timeDelta := iv * ucast (CONFIG_SYS_HZ (plat (clock s))) div 1000\<rparr>)"

definition net_clear_handlers :: "'x net_core_scheme \<Rightarrow> 'x net_core_scheme" where
  "net_clear_handlers s = NetSetTimeout 0 None (net_set_arp_handler None (net_set_udp_handler None s))"

definition net_cleanup_loop :: "'x net_core_scheme \<Rightarrow> 'x net_core_scheme" where
  "net_cleanup_loop s = net_clear_handlers s"

text \<open>
  eth_send hands the frame to the driver, or fails when there is no device; NetSendPacket pads the
  length to 64.
\<close>

definition eth_send :: "nptr \<Rightarrow> int \<Rightarrow> 'x net_core_scheme \<Rightarrow> 'x net_core_scheme" where
  "eth_send packet len s =
    (case eth_current s of
       None \<Rightarrow> s
     | Some dev \<Rightarrow> s\<lparr>sent := sent s @ [bytes (nmem s) packet (nat len)]\<rparr>)"

definition NetSendPacket :: "nptr \<Rightarrow> int \<Rightarrow> 'x net_core_scheme \<Rightarrow> 'x net_core_scheme" where
  "NetSendPacket pkt len s = eth_send pkt (if len < 64 then 64 else len) s"

definition eth_get_name :: "'x net_core_scheme \<Rightarrow> string" where
  "eth_get_name s = (case eth_current s of Some d \<Rightarrow> eth_name d | None \<Rightarrow> ''unknown'')"

definition NetReadIP :: "'b mem \<Rightarrow> 'b ptr \<Rightarrow> u32" where
  "NetReadIP m from = ld32 m from"

definition NetWriteIP :: "'b mem \<Rightarrow> 'b ptr \<Rightarrow> u32 \<Rightarrow> 'b mem" where
  "NetWriteIP m to ip = st32 m to ip"

text \<open>NetCopyIP between two places of the memory; from a variable it is NetWriteIP.\<close>

definition NetCopyIP :: "'b mem \<Rightarrow> 'b ptr \<Rightarrow> 'b ptr \<Rightarrow> 'b mem" where
  "NetCopyIP m to from = memcpy m to from 4"

section \<open>Checksum\<close>

fun cksum_loop :: "'b mem \<Rightarrow> 'b ptr \<Rightarrow> nat \<Rightarrow> u32 \<Rightarrow> u32" where
  "cksum_loop m p 0 xsum = xsum"
| "cksum_loop m p (Suc len) xsum = cksum_loop m (padd p 2) len (xsum + ucast (ld16 m p))"

definition cksum_fold :: "u32 \<Rightarrow> u32" where
  "cksum_fold xsum = (xsum AND 0xffff) + drop_bit 16 xsum"

definition NetCksum :: "'b mem \<Rightarrow> 'b ptr \<Rightarrow> int \<Rightarrow> u32" where
  "NetCksum m ptr len = cksum_fold (cksum_fold (cksum_loop m ptr (nat len) 0)) AND 0xffff"

definition NetCksumOk :: "'b mem \<Rightarrow> 'b ptr \<Rightarrow> int \<Rightarrow> bool" where
  "NetCksumOk m ptr len \<longleftrightarrow> (NetCksum m ptr len + 1) AND 0xfffe = 0"

text \<open>
  One's complement arithmetic: the checksum is the sum of the 16-bit words modulo 65535, 0 only for
  a sum of 0, and NetCksumOk holds exactly when 65535 divides the sum.
\<close>

fun word_sum :: "'b mem \<Rightarrow> 'b ptr \<Rightarrow> nat \<Rightarrow> nat" where
  "word_sum m p 0 = 0"
| "word_sum m p (Suc n) = unat (ld16 m p) + word_sum m (padd p 2) n"

lemma word_sum_bound: "word_sum m p n \<le> n * 65535"
proof (induction n arbitrary: p)
  case (Suc n)
  have "unat (ld16 m p) \<le> 65535" using unat_lt_pow(2) [of "ld16 m p"] by linarith
  then show ?case using Suc [of "padd p 2"] by simp
qed simp

lemma word_sum_split: "word_sum m p (a + b) = word_sum m p a + word_sum m (padd p (2 * a)) b"
  by (induction a arbitrary: p) simp_all

lemma word_sum_cong:
  "(\<And>i. i < 2 * n \<Longrightarrow> m (padd p i) = m' (padd p' i)) \<Longrightarrow> word_sum m p n = word_sum m' p' n"
proof (induction n arbitrary: p p')
  case (Suc n)
  have "m p = m' p'" "m (padd p 1) = m' (padd p' 1)"
    using Suc.prems [of 0] Suc.prems [of 1] by simp_all
  moreover have "word_sum m (padd p 2) n = word_sum m' (padd p' 2) n"
    using Suc.prems [of "i + 2" for i] by (intro Suc.IH) simp
  ultimately show ?case by (simp add: ld16_def)
qed simp

lemma cksum_loop_sum:
  "unat x + word_sum m p n < 2 ^ 32 \<Longrightarrow> unat (cksum_loop m p n x) = unat x + word_sum m p n"
proof (induction n arbitrary: p x)
  case (Suc n)
  have "unat (x + ucast (ld16 m p)) = unat x + unat (ld16 m p)"
    using Suc.prems by (simp add: unat_word_ariths)
  then show ?case using Suc.IH [of "x + ucast (ld16 m p)" "padd p 2"] Suc.prems by simp
qed simp

lemma unat_and_ffff: "unat (x AND 0xffff :: u32) = unat x mod 65536"
proof -
  have "x AND 0xffff = take_bit 16 x" by (simp add: take_bit_eq_mask mask_eq_exp_minus_1)
  then have "unat (x AND 0xffff) = take_bit 16 (unat x)" by (simp only: unsigned_take_bit_eq)
  then show ?thesis by (simp add: take_bit_eq_mod)
qed

lemma unat_cksum_fold: "unat (cksum_fold x) = unat x mod 65536 + unat x div 65536"
proof -
  have "unat x div 65536 < 65536" using unat_lt_pow(3) [of x] by (simp add: div_less_iff_less_mult)
  moreover have "unat x mod 65536 < 65536" by simp
  ultimately have "unat x mod 65536 + unat x div 65536 < 4294967296" by linarith
  then show ?thesis
    by (simp add: cksum_fold_def unat_word_ariths unat_and_ffff unat_drop_bit_div)
qed

text \<open>The folded sum, over nat.\<close>

definition fold16 :: "nat \<Rightarrow> nat" where
  "fold16 S = (if S = 0 then 0 else if S mod 65535 = 0 then 65535 else S mod 65535)"

lemma fold_step: "(S mod 65536 + S div 65536) mod 65535 = S mod (65535::nat)"
proof -
  have "S = S div 65536 * 65536 + S mod 65536" by simp
  then have "S = S div 65536 * 65535 + (S mod 65536 + S div 65536)" by linarith
  then show ?thesis by (metis mod_mult_self3)
qed

lemma fold_zero: "S mod 65536 + S div 65536 = 0 \<longleftrightarrow> S = (0::nat)"
proof
  assume "S mod 65536 + S div 65536 = 0"
  then have "S mod 65536 = 0" "S div 65536 = 0" by (simp_all only: add_is_0)
  then show "S = 0" using div_mult_mod_eq [of S 65536] by linarith
qed simp

lemma fold16_unique: "c \<le> 65535 \<Longrightarrow> c mod 65535 = S mod 65535 \<Longrightarrow> (c = 0 \<longleftrightarrow> S = 0) \<Longrightarrow> c = fold16 S"
  by (cases "c = 65535") (auto simp: fold16_def)

lemma NetCksum_fold16:
  assumes "0 \<le> len" "len \<le> 65536"
  shows "unat (NetCksum m p len) = fold16 (word_sum m p (nat len))"
proof -
  let ?S = "word_sum m p (nat len)"
  define x where "x = cksum_loop m p (nat len) 0"
  have "?S \<le> 65536 * 65535"
    using word_sum_bound [of m p "nat len"] assms by (simp add: order_trans [OF _ mult_le_mono1])
  then have S: "unat x = ?S" "?S < 2 ^ 32"
    using cksum_loop_sum [of 0 m p "nat len"] by (simp_all add: x_def)
  define S1 where "S1 = ?S mod 65536 + ?S div 65536"
  define S2 where "S2 = S1 mod 65536 + S1 div 65536"
  have u: "unat (cksum_fold (cksum_fold x)) = S2"
    by (simp add: unat_cksum_fold S(1) S1_def S2_def)
  have "?S div 65536 < 65536" using S(2) by (simp add: div_less_iff_less_mult)
  moreover have "?S mod 65536 < 65536" by simp
  ultimately have S1: "S1 \<le> 131070" unfolding S1_def by linarith
  have S2: "S2 \<le> 65535"
  proof (cases "S1 < 65536")
    case True
    then show ?thesis by (simp add: S2_def)
  next
    case False
    have e: "S1 = S1 div 65536 * 65536 + S1 mod 65536" by simp
    have "S1 div 65536 < 2" using S1 by (simp add: div_less_iff_less_mult)
    moreover have "S1 div 65536 \<noteq> 0" using False by (simp add: div_eq_0_iff)
    ultimately have "S1 div 65536 = 1" by linarith
    then show ?thesis using e S1 unfolding S2_def by linarith
  qed
  have "S2 mod 65535 = ?S mod 65535"
    unfolding S2_def fold_step unfolding S1_def fold_step ..
  moreover have "S2 = 0 \<longleftrightarrow> ?S = 0"
    unfolding S2_def fold_zero unfolding S1_def fold_zero ..
  ultimately have "S2 = fold16 ?S"
    using S2 by (intro fold16_unique)
  then show ?thesis
    using u S2 by (simp add: NetCksum_def x_def [symmetric] unat_and_ffff)
qed

lemma NetCksumOk_dvd:
  assumes "0 \<le> len" "len \<le> 65536"
  shows "NetCksumOk m p len \<longleftrightarrow> 65535 dvd word_sum m p (nat len)"
proof -
  let ?S = "word_sum m p (nat len)"
  define c where "c = NetCksum m p len"
  have c: "unat c = fold16 ?S" using NetCksum_fold16 [OF assms] by (simp add: c_def)
  have le: "fold16 ?S \<le> 65535" by (simp add: fold16_def)
  have "(c + 1) AND 0xfffe = 0 \<longleftrightarrow> unat c = 0 \<or> unat c = 65535"
  proof -
    have "(0xfffe :: u32) = push_bit 1 (mask 15)"
      by (simp add: mask_eq_exp_minus_1 push_bit_eq_mult)
    then have "(c + 1) AND 0xfffe = push_bit 1 (take_bit 15 (drop_bit 1 (c + 1)))"
      by (simp only:) (rule bit_word_eqI, auto simp only: bit_and_iff bit_push_bit_iff bit_mask_iff bit_take_bit_iff bit_drop_bit_eq comp_def le_add_diff_inverse possible_bit_word)
    moreover have "unat (take_bit 15 (drop_bit 1 (c + 1))) = (unat (c + 1) div 2) mod 32768"
      unfolding unsigned_take_bit_eq unat_drop_bit_div by (simp add: take_bit_eq_mod)
    moreover have "unat (push_bit 1 w) = 2 * unat w" if "unat w < 32768" for w :: u32
      using that by (simp add: push_bit_eq_mult unat_word_ariths)
    ultimately have "unat ((c + 1) AND 0xfffe) = 2 * ((unat (c + 1) div 2) mod 32768)"
      by simp
    then have "(c + 1) AND 0xfffe = 0 \<longleftrightarrow> (unat (c + 1) div 2) mod 32768 = 0"
      by (simp add: word_eq_iff_unat)
    also have "unat (c + 1) = unat c + 1"
      using c le by (simp add: unat_word_ariths)
    also have "((unat c + 1) div 2) mod 32768 = 0 \<longleftrightarrow> unat c = 0 \<or> unat c = 65535"
    proof (cases "unat c < 65535")
      case True
      then have "(unat c + 1) div 2 < 32768" by (simp add: div_less_iff_less_mult)
      then show ?thesis using True by (simp add: div_eq_0_iff)
    next
      case False
      then have "unat c = 65535" using c le by linarith
      then show ?thesis by simp
    qed
    finally show ?thesis .
  qed
  then show ?thesis
    unfolding NetCksumOk_def c_def [symmetric] c by (auto simp: fold16_def)
qed

lemma unat_not16: "unat (NOT (x :: u16)) = 65535 - unat x"
proof -
  have "NOT x = 65535 - x" by (simp add: not_eq_complement)
  moreover have "unat x \<le> 65535" using unat_lt_pow(2) [of x] by linarith
  ultimately show ?thesis by (simp add: unat_sub_if')
qed

lemma word_sum_st16:
  assumes "k < n"
  shows "word_sum (st16 m (padd p (2 * k)) w) p n + unat (ld16 m (padd p (2 * k))) = word_sum m p n + unat w"
proof -
  let ?m = "st16 m (padd p (2 * k)) w"
  obtain r where n: "n = k + Suc r" using assms less_imp_Suc_add by auto
  have "word_sum ?m p k = word_sum m p k"
    by (rule word_sum_cong) (simp add: st16_apply)
  moreover have "word_sum ?m (padd p (2 * k + 2)) r = word_sum m (padd p (2 * k + 2)) r"
    by (rule word_sum_cong) (simp add: st16_apply)
  ultimately show ?thesis
    unfolding n word_sum_split by simp
qed

text \<open>Storing the complement of the checksum in a zero field makes the check succeed.\<close>

lemma NetCksumOk_store:
  assumes "ld16 m (padd p (2 * k)) = 0" "k < n" "n \<le> 65536"
  shows "NetCksumOk (st16 m (padd p (2 * k)) (ucast (NOT (NetCksum m p (int n))))) p (int n)"
proof -
  let ?S = "word_sum m p n" and ?c = "NetCksum m p (int n)"
  have c: "unat ?c = fold16 ?S" using NetCksum_fold16 [of "int n" m p] assms(3) by simp
  then have le: "unat ?c \<le> 65535" by (simp add: fold16_def)
  have "(ucast (NOT ?c) :: u16) = NOT (ucast ?c)"
    by (rule bit_word_eqI) (simp add: bit_simps)
  then have "unat (ucast (NOT ?c) :: u16) = 65535 - fold16 ?S"
    using c le by (simp add: unat_not16 unat_ucast_fits)
  then have "word_sum (st16 m (padd p (2 * k)) (ucast (NOT ?c))) p n = ?S + (65535 - fold16 ?S)"
    using word_sum_st16 [OF assms(2), of m p "ucast (NOT ?c)"] assms(1) by simp
  moreover have "65535 dvd ?S + (65535 - fold16 ?S)"
  proof (cases "?S mod 65535 = 0")
    case True
    then show ?thesis by (auto simp: fold16_def mod_eq_0_iff_dvd)
  next
    case False
    then have f: "fold16 ?S = ?S mod 65535" by (auto simp: fold16_def)
    have "?S + (65535 - ?S mod 65535) = ?S div 65535 * 65535 + 65535"
      using div_mult_mod_eq [of ?S 65535] mod_less_divisor [of 65535 ?S] by linarith
    then show ?thesis unfolding f by simp
  qed
  ultimately show ?thesis
    by (subst NetCksumOk_dvd) (use assms(3) in simp_all)
qed

section \<open>Building headers\<close>

definition our_vlanid :: "'x net_core_scheme \<Rightarrow> u16" where
  "our_vlanid s = (let myvlanid = ntohs (NetOurVLAN s) in if myvlanid = 0xffff then VLAN_NONE else myvlanid)"

definition NetEthHdrSize :: "'x net_core_scheme \<Rightarrow> nat" where
  "NetEthHdrSize s =
    (if our_vlanid s AND VLAN_IDMASK = VLAN_NONE then ETHER_HDR_SIZE else VLAN_ETHER_HDR_SIZE)"

definition NetSetEther :: "nptr \<Rightarrow> nptr \<Rightarrow> u32 \<Rightarrow> 'x net_core_scheme \<Rightarrow> nat \<times> 'x net_core_scheme" where
  "NetSetEther xet addr prot s =
    (let myvlanid = our_vlanid s;
         m = nmem s;
         m = memcpy m (et_dest xet) addr 6;
         m = memcpy m (et_src xet) NetOurEther 6
     in if myvlanid AND VLAN_IDMASK = VLAN_NONE then
          (ETHER_HDR_SIZE, s\<lparr>nmem := st16 m (et_protlen xet) (htons (ucast prot))\<rparr>)
        else
          let m = st16 m (vet_vlan_type xet) (htons (ucast PROT_VLAN));
              m = st16 m (vet_tag xet) (htons (push_bit 5 0 OR (myvlanid AND VLAN_IDMASK)));
              m = st16 m (vet_type xet) (htons (ucast prot))
          in (VLAN_ETHER_HDR_SIZE, s\<lparr>nmem := m\<rparr>))"

definition net_update_ether :: "nptr \<Rightarrow> nptr \<Rightarrow> u32 \<Rightarrow> 'x net_core_scheme \<Rightarrow> nat \<times> 'x net_core_scheme" where
  "net_update_ether et addr prot s =
    (let m = nmem s;
         m = memcpy m (et_dest et) addr 6;
         m = memcpy m (et_src et) NetOurEther 6;
         protlen = ntohs (ld16 m (et_protlen et))
     in if protlen = ucast PROT_VLAN then
          (VLAN_ETHER_HDR_SIZE, s\<lparr>nmem := st16 m (vet_type et) (htons (ucast prot))\<rparr>)
        else if 1514 < protlen then
          (ETHER_HDR_SIZE, s\<lparr>nmem := st16 m (et_protlen et) (htons (ucast prot))\<rparr>)
        else (E802_HDR_SIZE, s\<lparr>nmem := st16 m (et_prot et) (htons (ucast prot))\<rparr>))"

definition net_set_ip_header :: "nptr \<Rightarrow> u32 \<Rightarrow> u32 \<Rightarrow> 'x net_core_scheme \<Rightarrow> 'x net_core_scheme" where
  "net_set_ip_header ip dest source s =
    (let m = nmem s;
         m = st8 m (ip_hl_v ip) 0x45;
         m = st8 m (ip_tos ip) 0;
         m = st16 m (ip_len ip) (htons (of_nat IP_HDR_SIZE));
         m = st16 m (ip_id ip) (htons (ucast (NetIPID s)));
         m = st16 m (ip_off ip) (htons IP_FLAGS_DFRAG);
         m = st8 m (ip_ttl ip) 255;
         m = st16 m (ip_sum ip) 0;
         m = NetWriteIP m (ip_src ip) source;
         m = NetWriteIP m (ip_dst ip) dest
     in s\<lparr>nmem := m, NetIPID := NetIPID s + 1\<rparr>)"

definition net_set_udp_header ::
  "nptr \<Rightarrow> u32 \<Rightarrow> int \<Rightarrow> int \<Rightarrow> int \<Rightarrow> 'x net_core_scheme \<Rightarrow> 'x net_core_scheme" where
  "net_set_udp_header pkt dest dport sport len s =
    (let s = (if len mod 2 = 1 then s\<lparr>nmem := st8 (nmem s) (padd pkt (nat (int IP_UDP_HDR_SIZE + len))) 0\<rparr> else s);
         s = net_set_ip_header pkt dest (NetOurIP s) s;
         m = nmem s;
         m = st16 m (ip_len pkt) (htons (word_of_int (int IP_UDP_HDR_SIZE + len)));
         m = st8 m (ip_p pkt) IPPROTO_UDP;
         m = st16 m (ip_sum pkt) (ucast (NOT (NetCksum m pkt (int IP_HDR_SIZE div 2))));
         m = st16 m (udp_src pkt) (htons (word_of_int sport));
         m = st16 m (udp_dst pkt) (htons (word_of_int dport));
         m = st16 m (udp_len pkt) (htons (word_of_int (int UDP_HDR_SIZE + len)));
         m = st16 m (udp_xsum pkt) 0
     in s\<lparr>nmem := m\<rparr>)"

section \<open>Strings\<close>

text \<open>string_to_ip: four numbers, the character after each skipped unless it ends the string.\<close>

fun string_to_ip_loop :: "nat \<Rightarrow> cview \<Rightarrow> nat \<Rightarrow> u32 \<Rightarrow> u32 option" where
  "string_to_ip_loop 0 v i addr = Some addr"
| "string_to_ip_loop (Suc k) v i addr =
    do {
      (val, e) \<leftarrow> strtoul (Some (\<lambda>j. v (i + j))) 10;
      e \<leftarrow> e;
      string_to_ip_loop k v (if v (i + e) \<noteq> 0 then i + e + 1 else i + e) (push_bit 8 addr OR (val AND 0xFF))
    }"

definition string_to_ip :: "cview option \<Rightarrow> u32 option" where
  "string_to_ip s =
    (case s of None \<Rightarrow> Some 0 | Some v \<Rightarrow> do { addr \<leftarrow> string_to_ip_loop 4 v 0 0; Some (htonl addr) })"

text \<open>copy_filename: the loop bound is size; quotes end the name.\<close>

fun copy_filename_loop :: "'b mem \<Rightarrow> 'b ptr \<Rightarrow> cview \<Rightarrow> nat \<Rightarrow> nat \<Rightarrow> 'b mem" where
  "copy_filename_loop m dst src i 0 = st8 m dst 0"
| "copy_filename_loop m dst src i (Suc n) =
    (if src i \<noteq> 0 \<and> src i \<noteq> of_char CHR 0x22
     then copy_filename_loop (st8 m dst (src i)) (padd dst 1) src (Suc i) n else st8 m dst 0)"

definition copy_filename :: "'b mem \<Rightarrow> 'b ptr \<Rightarrow> cview \<Rightarrow> int \<Rightarrow> 'b mem" where
  "copy_filename m dst src sz =
    (let (i, sz) = (if src 0 \<noteq> 0 \<and> src 0 = of_char CHR 0x22 then (1, sz - 1) else (0, sz))
     in copy_filename_loop m dst src i (nat (sz - 1)))"

definition eth_env_init :: "cview option \<Rightarrow> 'x net_core_scheme \<Rightarrow> 'x net_core_scheme" where
  "eth_env_init filename s =
    s\<lparr>nmem := copy_filename (nmem s) BootFile (case filename of None \<Rightarrow> lit ''zImage'' | Some f \<Rightarrow> f) 128\<rparr>"

definition string_to_VLAN :: "cview option \<Rightarrow> u16 option" where
  "string_to_VLAN s =
    (case s of
       None \<Rightarrow> Some (htons VLAN_NONE)
     | Some v \<Rightarrow>
         if v 0 < of_char CHR ''0'' \<or> of_char CHR ''9'' < v 0 then Some (htons VLAN_NONE)
         else do { (n, e) \<leftarrow> strtoul (Some v) 10; Some (htons (ucast n)) })"

section \<open>What the headers hold\<close>

text \<open>Sixteen-bit fields after stores elsewhere in the packet.\<close>

lemma ld16_cong: "m p = m' p \<Longrightarrow> m (padd p 1) = m' (padd p 1) \<Longrightarrow> ld16 m p = ld16 m' p"
  by (simp add: ld16_def)

lemma ld16_st8_off [mem_simps]: "q \<noteq> p \<Longrightarrow> q \<noteq> padd p 1 \<Longrightarrow> ld16 (st8 m q v) p = ld16 m p"
  by (auto simp: ld16_def st8_apply)

lemma ld16_st16_other [mem_simps]:
  "q \<noteq> p \<Longrightarrow> q \<noteq> padd p 1 \<Longrightarrow> padd q 1 \<noteq> p \<Longrightarrow> ld16 (st16 m q v) p = ld16 m p"
  by (cases p; cases q) (auto simp: ld16_def st16_apply)

lemma ld16_st32_other [mem_simps]:
  "q \<noteq> p \<Longrightarrow> q \<noteq> padd p 1 \<Longrightarrow> padd q 1 \<noteq> p \<Longrightarrow> padd q 2 \<noteq> p \<Longrightarrow> padd q 3 \<noteq> p \<Longrightarrow>
   ld16 (st32 m q v) p = ld16 m p"
  by (cases p; cases q) (auto simp: ld16_def st32_apply)

lemma net_set_ip_header_nmem:
  fixes s :: "'x net_core_scheme" and ip :: nptr and dest source :: u32
  defines "m \<equiv> nmem (net_set_ip_header ip dest source s)"
  shows "m (padd ip 0) = 0x45" "m (padd ip 1) = 0" "m (padd ip 8) = 255" "ld16 m (padd ip 6) = htons 0x4000"
    "ld16 m (padd ip 10) = 0" "ld32 m (padd ip 12) = source" "ld32 m (padd ip 16) = dest"
    "\<And>i. 20 \<le> i \<Longrightarrow> m (padd ip i) = nmem s (padd ip i)"
    "\<And>q. fst q \<noteq> fst ip \<or> snd q < snd ip \<Longrightarrow> m q = nmem s q"
    "m (padd ip 9) = nmem s (padd ip 9)"
proof -
  note d = m_def net_set_ip_header_def Let_def hdr_defs NetWriteIP_def
  show "m (padd ip 0) = 0x45" "m (padd ip 1) = 0" "m (padd ip 8) = 255" "m (padd ip 9) = nmem s (padd ip 9)"
    by (simp_all add: d st8_apply st16_apply st32_apply)
  show "ld16 m (padd ip 6) = htons 0x4000" "ld16 m (padd ip 10) = 0"
    by (simp_all add: d mem_simps)
  show "ld32 m (padd ip 16) = dest"
    by (simp add: d)
  have "ld32 m (padd ip 12) = ld32 (st32 (nmem s) (padd ip 12) source) (padd ip 12)"
    by (rule ld32_cong) (simp add: d st32_apply)
  then show "ld32 m (padd ip 12) = source" by simp
  show "\<And>i. 20 \<le> i \<Longrightarrow> m (padd ip i) = nmem s (padd ip i)"
    by (simp add: d st8_apply st16_apply st32_apply)
  show "m q = nmem s q" if "fst q \<noteq> fst ip \<or> snd q < snd ip" for q
  proof -
    have "q \<noteq> padd ip k" "q \<noteq> ip" for k using that by auto
    then show ?thesis by (simp add: d st8_apply st16_apply st32_apply)
  qed
qed

lemma NetCksum_cong:
  assumes "\<And>i. i < 2 * n \<Longrightarrow> m (padd p i) = m' (padd p' i)" "n \<le> 65536"
  shows "NetCksum m p (int n) = NetCksum m' p' (int n)" "NetCksumOk m p (int n) = NetCksumOk m' p' (int n)"
proof -
  show "NetCksum m p (int n) = NetCksum m' p' (int n)"
    using NetCksum_fold16 [of "int n" m p] NetCksum_fold16 [of "int n" m' p'] word_sum_cong [of n m p m' p'] assms
    by (simp add: word_eq_iff_unat)
  then show "NetCksumOk m p (int n) = NetCksumOk m' p' (int n)"
    by (simp add: NetCksumOk_def)
qed

text \<open>The fields of a finished UDP packet, the checksum among them; the payload is untouched.\<close>

lemma net_set_udp_header_nmem:
  fixes s :: "'x net_core_scheme" and pkt :: nptr and dest :: u32 and dport sport len :: int
  assumes "0 \<le> len"
  defines "m \<equiv> nmem (net_set_udp_header pkt dest dport sport len s)"
  shows "m (padd pkt 0) = 0x45" "ld16 m (padd pkt 2) = htons (word_of_int (28 + len))"
    "ld16 m (padd pkt 6) = htons 0x4000" "m (padd pkt 9) = 17"
    "NetCksumOk m pkt 10" "ld32 m (padd pkt 12) = NetOurIP s" "ld32 m (padd pkt 16) = dest"
    "ld16 m (padd pkt 20) = htons (word_of_int sport)" "ld16 m (padd pkt 22) = htons (word_of_int dport)"
    "ld16 m (padd pkt 24) = htons (word_of_int (8 + len))" "ld16 m (padd pkt 26) = 0"
    "\<And>i. i < nat len \<Longrightarrow> m (padd pkt (28 + i)) = nmem s (padd pkt (28 + i))"
    "\<And>i. nat len < i \<Longrightarrow> m (padd pkt (28 + i)) = nmem s (padd pkt (28 + i))"
    "\<And>q. fst q \<noteq> fst pkt \<or> snd q < snd pkt \<Longrightarrow> m q = nmem s q"
proof -
  define s0 where "s0 = (if len mod 2 = 1 then s\<lparr>nmem := st8 (nmem s) (padd pkt (nat (28 + len))) 0\<rparr> else s)"
  define m1 where "m1 = nmem (net_set_ip_header pkt dest (NetOurIP s) s0)"
  define m2 where "m2 = st8 (st16 m1 (padd pkt 2) (htons (word_of_int (28 + len)))) (padd pkt 9) 17"
  define m3 where "m3 = st16 m2 (padd pkt 10) (ucast (NOT (NetCksum m2 pkt 10)))"
  define m4 where "m4 = st16 (st16 (st16 (st16 m3 (padd pkt 20) (htons (word_of_int sport)))
      (padd pkt 22) (htons (word_of_int dport))) (padd pkt 24) (htons (word_of_int (8 + len)))) (padd pkt 26) 0"
  have "NetOurIP s0 = NetOurIP s" by (simp add: s0_def)
  then have m: "m = m4"
    by (simp add: m_def m4_def m3_def m2_def m1_def s0_def net_set_udp_header_def Let_def hdr_defs)
  note h = net_set_ip_header_nmem [where ip = pkt and dest = dest and source = "NetOurIP s" and s = s0,
      folded m1_def]
  note st = st8_apply st16_apply
  have "ld16 m2 (padd pkt (2 * 5)) = 0"
    using h(5) by (simp add: m2_def mem_simps)
  from NetCksumOk_store [OF this, of 10] have "NetCksumOk m3 pkt (int 10)"
    by (simp add: m3_def)
  moreover have "NetCksumOk m4 pkt (int 10) = NetCksumOk m3 pkt (int 10)"
    by (rule NetCksum_cong) (simp_all add: m4_def st)
  ultimately show "NetCksumOk m pkt 10" by (simp add: m)
  show "m (padd pkt 0) = 0x45" "m (padd pkt 9) = 17"
    using h(1) by (simp_all add: m m4_def m3_def m2_def st)
  show "ld16 m (padd pkt 2) = htons (word_of_int (28 + len))" "ld16 m (padd pkt 6) = htons 0x4000"
    using h(4) by (simp_all add: m m4_def m3_def m2_def mem_simps)
  have "ld32 m (padd pkt k) = ld32 m1 (padd pkt k)" if "12 \<le> k" "k \<le> 16" for k
    using that by (intro ld32_cong) (simp add: m m4_def m3_def m2_def st)
  then show "ld32 m (padd pkt 12) = NetOurIP s" "ld32 m (padd pkt 16) = dest"
    using h(6,7) by simp_all
  show "ld16 m (padd pkt 20) = htons (word_of_int sport)" "ld16 m (padd pkt 22) = htons (word_of_int dport)"
    "ld16 m (padd pkt 24) = htons (word_of_int (8 + len))" "ld16 m (padd pkt 26) = 0"
    by (simp_all add: m m4_def mem_simps)
  have pay: "m (padd pkt (28 + i)) = nmem s0 (padd pkt (28 + i))" for i
    using h(8) [of "28 + i"] by (simp add: m m4_def m3_def m2_def st)
  show "\<And>i. i < nat len \<Longrightarrow> m (padd pkt (28 + i)) = nmem s (padd pkt (28 + i))"
    "\<And>i. nat len < i \<Longrightarrow> m (padd pkt (28 + i)) = nmem s (padd pkt (28 + i))"
    using assms(1) by (simp_all add: pay s0_def st nat_add_distrib)
  show "m q = nmem s q" if "fst q \<noteq> fst pkt \<or> snd q < snd pkt" for q
  proof -
    have "q \<noteq> padd pkt k" "q \<noteq> pkt" for k using that by auto
    then show ?thesis using h(9) [OF that] by (simp add: m m4_def m3_def m2_def st s0_def)
  qed
qed

text \<open>
  The header constructors write the memory (and count NetIPID): the states after them in that shape.
\<close>

definition eth_mem :: "nptr \<Rightarrow> nptr \<Rightarrow> u32 \<Rightarrow> 'x net_core_scheme \<Rightarrow> blk mem" where
  "eth_mem xet addr prot s = nmem (snd (NetSetEther xet addr prot s))"

definition ip_mem :: "nptr \<Rightarrow> u32 \<Rightarrow> u32 \<Rightarrow> 'x net_core_scheme \<Rightarrow> blk mem" where
  "ip_mem ip dest source s = nmem (net_set_ip_header ip dest source s)"

definition udp_mem :: "nptr \<Rightarrow> u32 \<Rightarrow> int \<Rightarrow> int \<Rightarrow> int \<Rightarrow> 'x net_core_scheme \<Rightarrow> blk mem" where
  "udp_mem pkt dest dport sport len s = nmem (net_set_udp_header pkt dest dport sport len s)"

lemma NetSetEther_shape [frame_simps]:
  "NetSetEther xet addr prot s = (NetEthHdrSize s, s\<lparr>nmem := eth_mem xet addr prot s\<rparr>)"
  by (simp add: eth_mem_def NetSetEther_def NetEthHdrSize_def Let_def)

lemma net_set_ip_header_shape [frame_simps]:
  "net_set_ip_header ip dest source s = s\<lparr>nmem := ip_mem ip dest source s, NetIPID := NetIPID s + 1\<rparr>"
  by (simp add: ip_mem_def net_set_ip_header_def Let_def)

lemma net_set_udp_header_shape [frame_simps]:
  "net_set_udp_header pkt dest dport sport len s =
    s\<lparr>nmem := udp_mem pkt dest dport sport len s, NetIPID := NetIPID s + 1\<rparr>"
  by (simp add: udp_mem_def net_set_udp_header_def net_set_ip_header_def Let_def)

lemmas ip_mem_facts = net_set_ip_header_nmem [folded ip_mem_def]
lemmas udp_mem_facts = net_set_udp_header_nmem [folded udp_mem_def]

lemma NetEthHdrSize_cases: "NetEthHdrSize s = 14 \<or> NetEthHdrSize s = 18"
  by (simp add: NetEthHdrSize_def hdr_defs)

lemma NetEthHdrSize_cong: "NetOurVLAN s = NetOurVLAN t \<Longrightarrow> NetEthHdrSize s = NetEthHdrSize t"
  by (simp add: NetEthHdrSize_def our_vlanid_def)

lemma NetEthHdrSize_updates [simp]:
  "NetEthHdrSize (s\<lparr>nmem := a\<rparr>) = NetEthHdrSize s" "NetEthHdrSize (s\<lparr>clock := b\<rparr>) = NetEthHdrSize s"
  "NetEthHdrSize (s\<lparr>sent := c\<rparr>) = NetEthHdrSize s" "NetEthHdrSize (s\<lparr>NetIPID := d\<rparr>) = NetEthHdrSize s"
  by (simp_all add: NetEthHdrSize_def our_vlanid_def)

text \<open>The link-layer header: destination, our address, protocol; VLAN tag where configured.\<close>

lemma eth_mem_facts:
  assumes "fst xet \<noteq> fst addr" "fst xet \<noteq> NetOurEther_b"
  shows "\<And>i. i < 6 \<Longrightarrow> eth_mem xet addr prot s (padd xet i) = nmem s (padd addr i)"
    "\<And>i. i < 6 \<Longrightarrow> eth_mem xet addr prot s (padd xet (6 + i)) = nmem s (padd NetOurEther i)"
    "ld16 (eth_mem xet addr prot s) (padd xet (NetEthHdrSize s - 2)) = htons (ucast prot)"
    "NetEthHdrSize s = 18 \<Longrightarrow> ld16 (eth_mem xet addr prot s) (padd xet 12) = htons 0x8100"
    "\<And>i. NetEthHdrSize s \<le> i \<Longrightarrow> eth_mem xet addr prot s (padd xet i) = nmem s (padd xet i)"
    "\<And>q. fst q \<noteq> fst xet \<Longrightarrow> eth_mem xet addr prot s q = nmem s q"
proof -
  have f: "forward_safe xet addr 6" "forward_safe (padd xet 6) NetOurEther 6"
    using assms by (simp_all add: object_defs)
  define m where "m = memcpy (memcpy (nmem s) xet addr 6) (padd xet 6) NetOurEther 6"
  have m6: "m (padd xet (6 + i)) = (if i < 6 then nmem s (padd NetOurEther i) else nmem s (padd xet (6 + i)))" for i
    using memcpy.copy_padd [OF f(2), of "memcpy (nmem s) xet addr 6" i] memcpy.copy_padd [OF f(1), of "nmem s" "6 + i"]
      memcpy.copy_elsewhere [OF f(1), of "padd NetOurEther i" "nmem s"] assms(2)
    by (auto simp: m_def object_defs)
  have m0: "m (padd xet i) = nmem s (padd addr i)" if "i < 6" for i
  proof -
    have "m (fst xet, snd xet + i) = memcpy (nmem s) xet addr 6 (fst xet, snd xet + i)"
      unfolding m_def memcpy.copy_apply [OF f(2)] using that by simp
    then show ?thesis
      using memcpy.copy_padd [OF f(1), of "nmem s" i] that by (simp add: padd_def)
  qed
  have mo: "m q = nmem s q" if "fst q \<noteq> fst xet" for q
    using that memcpy.copy_elsewhere [OF f(2), of q] memcpy.copy_elsewhere [OF f(1), of q] by (simp add: m_def)
  have e: "eth_mem xet addr prot s =
    (if NetEthHdrSize s = 14 then st16 m (padd xet 12) (htons (ucast prot))
     else st16 (st16 (st16 m (padd xet 12) (htons 0x8100)) (padd xet 14)
       (htons (our_vlanid s AND VLAN_IDMASK))) (padd xet 16) (htons (ucast prot)))"
    by (simp add: eth_mem_def NetSetEther_def NetEthHdrSize_def Let_def m_def et_dest_def et_src_def
        et_protlen_def vet_vlan_type_def vet_tag_def vet_type_def ETHER_HDR_SIZE_def VLAN_ETHER_HDR_SIZE_def
        PROT_VLAN_def)
  have big: "m (padd xet i) = nmem s (padd xet i)" if "12 \<le> i" for i
  proof -
    have "\<not> i - 6 < 6" "6 + (i - 6) = i" using that by simp_all
    then show ?thesis using m6 [of "i - 6"] by simp
  qed
  show "\<And>i. i < 6 \<Longrightarrow> eth_mem xet addr prot s (padd xet i) = nmem s (padd addr i)"
    "\<And>i. i < 6 \<Longrightarrow> eth_mem xet addr prot s (padd xet (6 + i)) = nmem s (padd NetOurEther i)"
    using m0 m6 by (simp_all add: e st16_apply)
  show "ld16 (eth_mem xet addr prot s) (padd xet (NetEthHdrSize s - 2)) = htons (ucast prot)"
    using NetEthHdrSize_cases [of s] by (auto simp: e)
  show "NetEthHdrSize s = 18 \<Longrightarrow> ld16 (eth_mem xet addr prot s) (padd xet 12) = htons 0x8100"
    by (simp add: e mem_simps)
  show "\<And>i. NetEthHdrSize s \<le> i \<Longrightarrow> eth_mem xet addr prot s (padd xet i) = nmem s (padd xet i)"
    using NetEthHdrSize_cases [of s] big by (auto simp: e st16_apply)
  show "\<And>q. fst q \<noteq> fst xet \<Longrightarrow> eth_mem xet addr prot s q = nmem s q"
    using mo by (auto simp: e st16_apply)
qed

section \<open>Frames as byte lists\<close>

definition be16 :: "u16 \<Rightarrow> u8 list" where
  "be16 v = [ucast (drop_bit 8 v), ucast v]"

text \<open>An IP address is kept in network order, so its bytes in memory are the address as sent.\<close>

definition ip_bytes :: "u32 \<Rightarrow> u8 list" where
  "ip_bytes a = [ucast a, ucast (drop_bit 8 a), ucast (drop_bit 16 a), ucast (drop_bit 24 a)]"

lemma length_be16 [simp]: "length (be16 v) = 2" "length (ip_bytes a) = 4"
  by (simp_all add: be16_def ip_bytes_def)

lemma bytes_be16: "ld16 m p = htons v \<Longrightarrow> bytes m p 2 = be16 v"
proof -
  assume a: "ld16 m p = htons v"
  have "m p = ucast (drop_bit 8 v)" "m (padd p 1) = ucast v"
    unfolding ld16_bytes [of m p, symmetric] a htons_def by (auto intro!: bit_word_eqI simp: bit_simps bit_swab16 add.commute)
  then show ?thesis by (simp add: bytes_def be16_def numeral_2_eq_2)
qed

lemma bytes_ip: "bytes m p 4 = ip_bytes (ld32 m p)"
  using ld32_byte [of m p] by (simp add: bytes_def ip_bytes_def numeral_eq_Suc)

lemma bytes_1: "bytes m p 1 = [m p]"
  by (simp add: bytes_def)

lemma bytes_split: "k \<le> n \<Longrightarrow> bytes m p n = bytes m p k @ bytes m (padd p k) (n - k)"
  using bytes_add [of m p k "n - k"] by simp

lemma take_bytes: "k \<le> n \<Longrightarrow> take k (bytes m p n) = bytes m p k"
  by (simp add: bytes_split)

lemma NetSendPacket_sent:
  "eth_current s \<noteq> None \<Longrightarrow>
   NetSendPacket p len s = s\<lparr>sent := sent s @ [bytes (nmem s) p (nat (if len < 64 then 64 else len))]\<rparr>"
  by (auto simp: NetSendPacket_def eth_send_def)

section \<open>Packets\<close>

text \<open>A well-formed UDP packet at pkt, with its addresses, ports and payload.\<close>

definition udp_packet_at :: "'b mem \<Rightarrow> 'b ptr \<Rightarrow> u32 \<Rightarrow> u32 \<Rightarrow> u16 \<Rightarrow> u16 \<Rightarrow> u8 list \<Rightarrow> bool" where
  "udp_packet_at m pkt src dst sport dport payload \<longleftrightarrow>
    m (ip_hl_v pkt) = 0x45 \<and> ld16 m (ip_len pkt) = htons (of_nat (28 + length payload)) \<and>
    ld16 m (ip_off pkt) = htons 0x4000 \<and> m (ip_p pkt) = IPPROTO_UDP \<and> NetCksumOk m pkt 10 \<and>
    ld32 m (ip_src pkt) = src \<and> ld32 m (ip_dst pkt) = dst \<and>
    ld16 m (udp_src pkt) = htons sport \<and> ld16 m (udp_dst pkt) = htons dport \<and>
    ld16 m (udp_len pkt) = htons (of_nat (8 + length payload)) \<and>
    bytes m (padd pkt 28) (length payload) = payload"

lemma udp_mem_packet:
  "udp_packet_at (udp_mem pkt dest dport sport (int n) s) pkt (NetOurIP s) dest (word_of_int sport)
     (word_of_int dport) (bytes (nmem s) (padd pkt 28) n)"
proof -
  have "bytes (udp_mem pkt dest dport sport (int n) s) (padd pkt 28) n = bytes (nmem s) (padd pkt 28) n"
    by (rule bytes_cong) (simp add: udp_mem_facts(12))
  then show ?thesis
    using udp_mem_facts(1-10) [of "int n" pkt dest dport sport s]
    by (simp add: udp_packet_at_def hdr_defs)
qed

lemma bytes_eq_nth: "bytes m p n = bytes m' p' n \<Longrightarrow> i < n \<Longrightarrow> m (padd p i) = m' (padd p' i)"
  by (metis nth_bytes)

lemma ld_bytes_eq:
  assumes "bytes m p n = bytes m' p' n"
  shows "i + 2 \<le> n \<Longrightarrow> ld16 m (padd p i) = ld16 m' (padd p' i)"
    "i + 4 \<le> n \<Longrightarrow> ld32 m (padd p i) = ld32 m' (padd p' i)"
  using bytes_eq_nth [OF assms, of i] bytes_eq_nth [OF assms, of "i + 1"] bytes_eq_nth [OF assms, of "i + 2"]
    bytes_eq_nth [OF assms, of "i + 3"]
  by (simp_all add: ld16_def ld32_def numeral_3_eq_3)

text \<open>A packet is determined by its bytes, wherever they lie.\<close>

lemma udp_packet_at_bytes:
  assumes "bytes m p (28 + length payload) = bytes m' p' (28 + length payload)"
    "udp_packet_at m p src dst sport dport payload"
  shows "udp_packet_at m' p' src dst sport dport payload"
proof -
  note b = bytes_eq_nth [OF assms(1)] and l = ld_bytes_eq [OF assms(1)]
  have "NetCksumOk m p (int 10) = NetCksumOk m' p' (int 10)"
    by (rule NetCksum_cong) (use b in auto)
  moreover have "bytes m (padd p 28) (length payload) = bytes m' (padd p' 28) (length payload)"
    by (rule bytes_cong) (use b in simp)
  ultimately show ?thesis
    using assms(2) b [of 0] b [of 9] l(1) [of 2] l(1) [of 6] l(2) [of 12] l(2) [of 16] l(1) [of 20] l(1) [of 22] l(1) [of 24]
    by (simp add: udp_packet_at_def hdr_defs)
qed

text \<open>A frame as a memory of its own, so that a packet in a frame can be spoken of.\<close>

definition frame_mem :: "u8 list \<Rightarrow> unit mem" where
  "frame_mem fr q = (if snd q < length fr then fr ! snd q else 0)"

lemma bytes_frame_mem: "bytes (frame_mem (bytes m p n)) ((), i) k = bytes m (padd p i) k" if "i + k \<le> n"
  using that by (auto simp: frame_mem_def intro!: bytes_cong)

definition udp_frame :: "u8 list \<Rightarrow> nat \<Rightarrow> u32 \<Rightarrow> u32 \<Rightarrow> u16 \<Rightarrow> u16 \<Rightarrow> u8 list \<Rightarrow> bool" where
  "udp_frame fr h src dst sport dport payload \<longleftrightarrow>
    h + 28 + length payload \<le> length fr \<and> udp_packet_at (frame_mem fr) ((), h) src dst sport dport payload"

lemma udp_frame_bytes:
  assumes "udp_packet_at m (padd p h) src dst sport dport payload" "h + 28 + length payload \<le> n"
  shows "udp_frame (bytes m p n) h src dst sport dport payload"
proof -
  have "bytes m (padd p h) (28 + length payload) = bytes (frame_mem (bytes m p n)) ((), h) (28 + length payload)"
    using assms(2) by (subst bytes_frame_mem) simp_all
  from udp_packet_at_bytes [OF this assms(1)] show ?thesis
    using assms(2) by (simp add: udp_frame_def)
qed

lemma udp_frame_at:
  assumes "udp_frame fr h src dst sport dport payload" "bytes m p (length fr) = fr"
  shows "udp_packet_at m (padd p h) src dst sport dport payload"
proof -
  have l: "h + 28 + length payload \<le> length fr"
    and u: "udp_packet_at (frame_mem fr) ((), h) src dst sport dport payload"
    using assms(1) by (simp_all add: udp_frame_def)
  have "bytes (frame_mem fr) ((), h) (28 + length payload) = bytes m (padd p h) (28 + length payload)"
    using bytes_frame_mem [of h "28 + length payload" "length fr" m p] l by (simp add: assms(2))
  from udp_packet_at_bytes [OF this u] show ?thesis .
qed

section \<open>Properties\<close>

text \<open>C10: NetCksumOk accepts a header exactly when the ones' complement sum of its 16-bit words is zero, and
  storing the complement of NetCksum in a zeroed checksum field makes it accepted.\<close>

theorem checksum_valid:
  assumes "n \<le> 65536" "k < n" "ld16 m (padd p (2 * k)) = 0"
  shows "(NetCksumOk m p (int n) \<longleftrightarrow> 65535 dvd word_sum m p n) \<and>
    NetCksumOk (st16 m (padd p (2 * k)) (ucast (NOT (NetCksum m p (int n))))) p (int n)"
  using NetCksumOk_dvd [of "int n" m p] NetCksumOk_store [OF assms(3,2,1)] assms(1) by simp

lemma word_sum_10:
  "word_sum m p 10 = unat (ld16 m p) + unat (ld16 m (padd p 2)) + unat (ld16 m (padd p 4)) +
    unat (ld16 m (padd p 6)) + unat (ld16 m (padd p 8)) + unat (ld16 m (padd p 10)) + unat (ld16 m (padd p 12)) +
    unat (ld16 m (padd p 14)) + unat (ld16 m (padd p 16)) + unat (ld16 m (padd p 18))"
  by (simp add: eval_nat_numeral)

theorem checksum_valid_witness:
  "let m = (\<lambda>q :: unit ptr. if snd q < 10 then 1 else 0) in
     \<not> NetCksumOk m ((), 0) 10 \<and> NetCksumOk (st16 m ((), 10) (ucast (NOT (NetCksum m ((), 0) 10)))) ((), 0) 10"
proof -
  define m where "m = (\<lambda>q :: unit ptr. if snd q < 10 then 1 else 0 :: u8)"
  have m: "m ((), i) = (if i < 10 then 1 else 0)" for i by (simp add: m_def)
  have z: "ld16 m (padd ((), 0) (2 * 5)) = 0"
    by (simp add: m ld16_def)
  have "word_sum m ((), 0) 10 = 1285"
    unfolding word_sum_10 by (simp add: m unat_ld16)
  then show ?thesis
    using checksum_valid [of 10 5 m "((), 0)"] z by (simp add: m_def [symmetric] Let_def)
qed

text \<open>net_set_udp_header makes the buffer a well-formed UDP packet: version and length fields, header
  checksum, addresses and ports, around the payload already there, which it leaves unchanged.\<close>

theorem net_set_udp_header_packet:
  "udp_packet_at (nmem (net_set_udp_header pkt dest dport sport (int n) s)) pkt (NetOurIP s) dest
     (word_of_int sport) (word_of_int dport) (bytes (nmem s) (padd pkt 28) n)"
  using udp_mem_packet by (simp add: udp_mem_def)

end
