(* ===== verification/Arp.thy ===== *)
theory Arp
  imports NetCore
begin

unbundle bit_operations_syntax

text \<open>
  net/arp.c: the state of the one pending address resolution, the request, its retransmission, and
  the handling of received requests and replies.
\<close>

record net_arp = net_core +
  NetArpWaitPacketIP :: u32
  NetArpWaitReplyIP :: u32
  NetArpWaitPacketMAC :: nptr
  NetArpWaitTxPacketSize :: int
  NetArpWaitTimerStart :: u32
  NetArpWaitTry :: int
  NetArpTxPacket :: nptr

definition ARP_TIMEOUT :: u32 where "ARP_TIMEOUT = 5000"
definition ARP_TIMEOUT_COUNT :: int where "ARP_TIMEOUT_COUNT = 5"

text \<open>The buffer pointer is rounded down to the packet alignment.\<close>

definition align_down :: "'b ptr \<Rightarrow> 'b ptr" where
  "align_down p = (fst p, snd p - snd p mod PKTALIGN)"

definition ArpInit :: "'x net_arp_scheme \<Rightarrow> 'x net_arp_scheme" where
  "ArpInit s = s\<lparr>NetArpWaitPacketMAC := NULL, NetArpWaitPacketIP := 0, NetArpWaitReplyIP := 0,
    NetArpWaitTxPacketSize := 0, NetArpTxPacket := align_down (NetArpPacketBuf, PKTALIGN - 1)\<rparr>"

definition arp_raw_request :: "u32 \<Rightarrow> nptr \<Rightarrow> u32 \<Rightarrow> 'x net_arp_scheme \<Rightarrow> 'x net_arp_scheme" where
  "arp_raw_request sourceIP targetEther targetIP s =
    (let pkt = NetArpTxPacket s;
         (eth_hdr_size, s) = NetSetEther pkt NetBcastAddr PROT_ARP s;
         arp = padd pkt eth_hdr_size;
         m = nmem s;
         m = st16 m (ar_hrd arp) (htons ARP_ETHER);
         m = st16 m (ar_pro arp) (htons (ucast PROT_IP));
         m = st8 m (ar_hln arp) (of_nat ARP_HLEN);
         m = st8 m (ar_pln arp) (of_nat ARP_PLEN);
         m = st16 m (ar_op arp) (htons ARPOP_REQUEST);
         m = memcpy m (ar_sha arp) NetOurEther ARP_HLEN;
         m = NetWriteIP m (ar_spa arp) sourceIP;
         m = memcpy m (ar_tha arp) targetEther ARP_HLEN;
         m = NetWriteIP m (ar_tpa arp) targetIP
     in NetSendPacket (NetArpTxPacket s) (int (eth_hdr_size + ARP_HDR_SIZE)) (s\<lparr>nmem := m\<rparr>))"

definition ArpRequest :: "'x net_arp_scheme \<Rightarrow> 'x net_arp_scheme" where
  "ArpRequest s =
    (let s =
       (if NetArpWaitPacketIP s AND NetOurSubnetMask s \<noteq> NetOurIP s AND NetOurSubnetMask s then
          if NetOurGatewayIP s = 0 then s\<lparr>NetArpWaitReplyIP := NetArpWaitPacketIP s\<rparr>
          else s\<lparr>NetArpWaitReplyIP := NetOurGatewayIP s\<rparr>
        else s\<lparr>NetArpWaitReplyIP := NetArpWaitPacketIP s\<rparr>)
     in arp_raw_request (NetOurIP s) NetEtherNullAddr (NetArpWaitReplyIP s) s)"

definition ArpTimeoutCheck :: "'x net_arp_scheme \<Rightarrow> 'x net_arp_scheme" where
  "ArpTimeoutCheck s =
    (if NetArpWaitPacketIP s = 0 then s
     else
       let (t, s) = net_get_timer 0 s in
       if ARP_TIMEOUT < t - NetArpWaitTimerStart s then
         let s = s\<lparr>NetArpWaitTry := NetArpWaitTry s + 1\<rparr> in
         if ARP_TIMEOUT_COUNT \<le> NetArpWaitTry s then s\<lparr>NetArpWaitTry := 0\<rparr>
         else ArpRequest (s\<lparr>NetArpWaitTimerStart := t\<rparr>)
       else s)"

text \<open>
  ArpReceive: et is the frame, arp (the ip argument) the ARP header in it, len the bytes from there.
  A request is answered in the receive buffer; a reply matching the pending request supplies the
  address of the waiting packet, which is then sent.
\<close>

definition arp_answer :: "nptr \<Rightarrow> nptr \<Rightarrow> 'x net_arp_scheme \<Rightarrow> 'x net_arp_scheme" where
  "arp_answer et arp s =
    (let (eth_hdr_size, s) = net_update_ether et (et_src et) PROT_ARP s;
         m = nmem s;
         m = st16 m (ar_op arp) (htons ARPOP_REPLY);
         m = memcpy m (ar_tha arp) (ar_sha arp) ARP_HLEN;
         m = NetCopyIP m (ar_tpa arp) (ar_spa arp);
         m = memcpy m (ar_sha arp) NetOurEther ARP_HLEN;
         m = NetWriteIP m (ar_spa arp) (NetOurIP s)
     in NetSendPacket et (int (eth_hdr_size + ARP_HDR_SIZE)) (s\<lparr>nmem := m\<rparr>))"

definition arp_reply :: "nptr \<Rightarrow> 'x net_arp_scheme \<Rightarrow> 'x net_arp_scheme" where
  "arp_reply arp s =
    (if NetArpWaitPacketIP s = 0 then s
     else
       let reply_ip_addr = NetReadIP (nmem s) (ar_spa arp) in
       if reply_ip_addr = NetArpWaitReplyIP s then
         let m = nmem s;
             m = (if NetArpWaitPacketMAC s \<noteq> NULL then memcpy m (NetArpWaitPacketMAC s) (ar_sha arp) ARP_HLEN else m);
             s = (case net_get_arp_handler s of arp_dummy_handler \<Rightarrow> s\<lparr>nmem := m\<rparr>);
             m = memcpy (nmem s) (et_dest (NetTxPacket s)) (ar_sha arp) ARP_HLEN;
             s = NetSendPacket (NetTxPacket s) (NetArpWaitTxPacketSize s) (s\<lparr>nmem := m\<rparr>)
         in s\<lparr>NetArpWaitPacketIP := 0, NetArpWaitTxPacketSize := 0, NetArpWaitPacketMAC := NULL\<rparr>
       else s)"

definition ArpReceive :: "nptr \<Rightarrow> nptr \<Rightarrow> int \<Rightarrow> 'x net_arp_scheme \<Rightarrow> 'x net_arp_scheme" where
  "ArpReceive et arp len s =
    (let m = nmem s in
     if len < int ARP_HDR_SIZE then s
     else if ntohs (ld16 m (ar_hrd arp)) \<noteq> ARP_ETHER then s
     else if ntohs (ld16 m (ar_pro arp)) \<noteq> ucast PROT_IP then s
     else if m (ar_hln arp) \<noteq> of_nat ARP_HLEN then s
     else if m (ar_pln arp) \<noteq> of_nat ARP_PLEN then s
     else if NetOurIP s = 0 then s
     else if NetReadIP m (ar_tpa arp) \<noteq> NetOurIP s then s
     else if ntohs (ld16 m (ar_op arp)) = ARPOP_REQUEST then arp_answer et arp s
     else if ntohs (ld16 m (ar_op arp)) = ARPOP_REPLY then arp_reply arp s
     else s)"

text \<open>The transmit path of a UDP packet: at once, or after an ARP exchange when the address is all zero.\<close>

definition NetSendUDPPacket ::
  "nptr \<Rightarrow> u32 \<Rightarrow> int \<Rightarrow> int \<Rightarrow> int \<Rightarrow> 'x net_arp_scheme \<Rightarrow> int \<times> 'x net_arp_scheme" where
  "NetSendUDPPacket ether dest dport sport payload_len s =
    (if NetTxPacket s = NULL then (-1, s)
     else
       let dest = (if dest = 0 then 0xFFFFFFFF else dest);
           ether = (if dest = 0xFFFFFFFF then NetBcastAddr else ether);
           pkt = NetTxPacket s;
           (eth_hdr_size, s) = NetSetEther pkt ether PROT_IP s;
           pkt = padd pkt eth_hdr_size;
           s = net_set_udp_header pkt dest dport sport payload_len s;
           pkt_hdr_size = int (eth_hdr_size + IP_UDP_HDR_SIZE)
       in if memcmp (nmem s) ether (nmem s) NetEtherNullAddr 6 = 0 then
            let s = s\<lparr>NetArpWaitPacketIP := dest, NetArpWaitPacketMAC := ether,
                      NetArpWaitTxPacketSize := pkt_hdr_size + payload_len, NetArpWaitTry := 1\<rparr>;
                (t, s) = net_get_timer 0 s
            in (1, ArpRequest (s\<lparr>NetArpWaitTimerStart := t\<rparr>))
          else (0, NetSendPacket (NetTxPacket s) (pkt_hdr_size + payload_len) s))"

section \<open>The frames\<close>

text \<open>An ARP frame on an untagged Ethernet, 42 bytes before padding.\<close>

definition arp_frame :: "u8 list \<Rightarrow> u8 list \<Rightarrow> u16 \<Rightarrow> u8 list \<Rightarrow> u32 \<Rightarrow> u8 list \<Rightarrow> u32 \<Rightarrow> u8 list" where
  "arp_frame edst esrc op sha spa tha tpa =
    edst @ esrc @ be16 0x0806 @ be16 1 @ be16 0x0800 @ [6, 4] @ be16 op @ sha @ ip_bytes spa @ tha @ ip_bytes tpa"

definition ether_of :: "'x net_core_scheme \<Rightarrow> nptr \<Rightarrow> u8 list" where
  "ether_of s p = bytes (nmem s) p 6"

lemma bytes_arp_frame:
  assumes "bytes m p 6 = edst" "bytes m (padd p 6) 6 = esrc" "ld16 m (padd p 12) = htons 0x0806"
    "ld16 m (padd p 14) = htons 1" "ld16 m (padd p 16) = htons 0x0800" "m (padd p 18) = 6" "m (padd p 19) = 4"
    "ld16 m (padd p 20) = htons op" "bytes m (padd p 22) 6 = sha" "ld32 m (padd p 28) = spa"
    "bytes m (padd p 32) 6 = tha" "ld32 m (padd p 38) = tpa"
  shows "bytes m p 42 = arp_frame edst esrc op sha spa tha tpa"
proof -
  have "bytes m (padd p 18) 2 = [6, 4]"
    using assms(6,7) by (simp add: bytes_def numeral_2_eq_2)
  then show ?thesis
    using assms bytes_split [of 6 42 m p] bytes_split [of 6 36 m "padd p 6"] bytes_split [of 2 30 m "padd p 12"]
      bytes_split [of 2 28 m "padd p 14"] bytes_split [of 2 26 m "padd p 16"] bytes_split [of 2 24 m "padd p 18"]
      bytes_split [of 2 22 m "padd p 20"] bytes_split [of 6 20 m "padd p 22"] bytes_split [of 4 14 m "padd p 28"]
      bytes_split [of 6 10 m "padd p 32"] bytes_ip [of m "padd p 28"] bytes_ip [of m "padd p 38"]
    by (simp add: arp_frame_def bytes_be16)
qed

text \<open>The objects that hold the addresses are not the buffer the frame is built in.\<close>

definition arp_buffers_ok :: "'x net_arp_scheme \<Rightarrow> bool" where
  "arp_buffers_ok s \<longleftrightarrow> fst (NetArpTxPacket s) = NetArpPacketBuf \<and> fst (NetTxPacket s) = PktBuf \<and>
    our_vlanid s AND VLAN_IDMASK = VLAN_NONE \<and> eth_current s \<noteq> None"

definition arp_req_mem :: "u32 \<Rightarrow> nptr \<Rightarrow> u32 \<Rightarrow> 'x net_arp_scheme \<Rightarrow> blk mem" where
  "arp_req_mem sip tether tip s = nmem (arp_raw_request sip tether tip s)"

lemma arp_raw_request_shape:
  assumes "eth_current s \<noteq> None"
  shows "arp_raw_request sip tether tip s =
    s\<lparr>nmem := arp_req_mem sip tether tip s,
      sent := sent s @ [bytes (arp_req_mem sip tether tip s) (NetArpTxPacket s) 64]\<rparr>"
  using assms NetEthHdrSize_cases [of s]
  by (auto simp: arp_req_mem_def arp_raw_request_def frame_simps Let_def NetSendPacket_sent ARP_HDR_SIZE_def)

lemma arp_req_mem_frame:
  assumes "arp_buffers_ok s" "fst tether \<noteq> NetArpPacketBuf"
  shows "bytes (arp_req_mem sip tether tip s) (NetArpTxPacket s) 42 =
    arp_frame (ether_of s NetBcastAddr) (ether_of s NetOurEther) 1 (ether_of s NetOurEther) sip (ether_of s tether) tip"
    "\<And>q. fst q \<noteq> NetArpPacketBuf \<Longrightarrow> arp_req_mem sip tether tip s q = nmem s q"
proof -
  let ?p = "NetArpTxPacket s"
  have p: "fst ?p = NetArpPacketBuf" and h: "NetEthHdrSize s = 14"
    using assms by (auto simp: arp_buffers_ok_def NetEthHdrSize_def ETHER_HDR_SIZE_def)
  define m0 where "m0 = eth_mem ?p NetBcastAddr PROT_ARP s"
  have e: "\<And>i. i < 6 \<Longrightarrow> m0 (padd ?p i) = nmem s (padd NetBcastAddr i)"
    "\<And>i. i < 6 \<Longrightarrow> m0 (padd ?p (6 + i)) = nmem s (padd NetOurEther i)"
    "ld16 m0 (padd ?p 12) = htons 0x0806" "\<And>q. fst q \<noteq> NetArpPacketBuf \<Longrightarrow> m0 q = nmem s q"
    using eth_mem_facts [of ?p NetBcastAddr, where prot = PROT_ARP and s = s] p
    by (simp_all add: m0_def h object_defs PROT_ARP_def)
  define m1 where "m1 = st16 (st8 (st8 (st16 (st16 m0 (padd ?p 14) (htons 1)) (padd ?p 16) (htons 0x0800))
      (padd ?p 18) 6) (padd ?p 19) 4) (padd ?p 20) (htons 1)"
  define m2 where "m2 = st32 (memcpy m1 (padd ?p 22) NetOurEther 6) (padd ?p 28) sip"
  define m3 where "m3 = st32 (memcpy m2 (padd ?p 32) tether 6) (padd ?p 38) tip"
  have m: "arp_req_mem sip tether tip s = m3"
    using assms(1) by (simp add: arp_buffers_ok_def arp_req_mem_def arp_raw_request_def frame_simps Let_def
        NetSendPacket_sent h m3_def m2_def m1_def m0_def hdr_defs NetWriteIP_def)
  have f: "forward_safe (padd ?p 22) NetOurEther 6" "forward_safe (padd ?p 32) tether 6"
    using p assms(2) by (simp_all add: object_defs)
  obtain off where off: "?p = (NetArpPacketBuf, off)" using p by (cases ?p) simp
  note c = memcpy.copy_apply [OF f(1), unfolded off padd_simps] memcpy.copy_apply [OF f(2), unfolded off padd_simps]
  note st = st8_apply st16_apply st32_apply
  have m1o: "m1 q = nmem s q" if "fst q \<noteq> NetArpPacketBuf" for q
    using e(4) [OF that] that by (auto simp: m1_def st off)
  have m2o: "m2 q = nmem s q" if "fst q \<noteq> NetArpPacketBuf" for q
    using m1o [OF that] that by (cases q) (auto simp: m2_def st off c)
  have src: "m1 (padd NetOurEther i) = nmem s (padd NetOurEther i)"
    "m2 (padd tether i) = nmem s (padd tether i)" for i
    using m1o [of "padd NetOurEther i"] m2o [of "padd tether i"] assms(2) by (simp_all add: object_defs)
  have lo: "m3 (padd ?p i) = m0 (padd ?p i)" if "i < 14" for i
    using that by (auto simp: m3_def m2_def m1_def st off c)
  have mid: "m3 (padd ?p i) = m1 (padd ?p i)" if "i < 22" for i
    using that by (auto simp: m3_def m2_def st off c)
  have sha: "m3 (padd ?p (22 + i)) = nmem s (padd NetOurEther i)" if "i < 6" for i
    using that src(1) [of i] by (auto simp: m3_def m2_def st off c)
  have tha: "m3 (padd ?p (32 + i)) = nmem s (padd tether i)" if "i < 6" for i
    using that src(2) [of i] by (auto simp: m3_def st off c)
  have "ld32 m3 (padd ?p 28) = ld32 m2 (padd ?p 28)"
    by (rule ld32_cong) (auto simp: m3_def st off c)
  then have ips: "ld32 m3 (padd ?p 28) = sip" "ld32 m3 (padd ?p 38) = tip"
    by (simp_all add: m2_def m3_def)
  show "bytes (arp_req_mem sip tether tip s) ?p 42 =
    arp_frame (ether_of s NetBcastAddr) (ether_of s NetOurEther) 1 (ether_of s NetOurEther) sip (ether_of s tether) tip"
    unfolding m
  proof (rule bytes_arp_frame)
    show "bytes m3 ?p 6 = ether_of s NetBcastAddr" "bytes m3 (padd ?p 6) 6 = ether_of s NetOurEther"
      "bytes m3 (padd ?p 22) 6 = ether_of s NetOurEther" "bytes m3 (padd ?p 32) 6 = ether_of s tether"
      using lo e(1,2) sha tha by (auto simp: ether_of_def intro!: bytes_cong)
    have "ld16 m3 (padd ?p 12) = ld16 m0 (padd ?p 12)"
      using lo [of 12] lo [of 13] by (intro ld16_cong) simp_all
    then show "ld16 m3 (padd ?p 12) = htons 0x0806" using e(3) by simp
    have "ld16 m3 (padd ?p i) = ld16 m1 (padd ?p i)" if "i < 21" for i
      using that mid [of i] mid [of "Suc i"] by (intro ld16_cong) simp_all
    then show "ld16 m3 (padd ?p 14) = htons 1" "ld16 m3 (padd ?p 16) = htons 0x0800" "ld16 m3 (padd ?p 20) = htons 1"
      by (simp_all add: m1_def mem_simps)
    show "m3 (padd ?p 18) = 6" "m3 (padd ?p 19) = 4"
      by (simp_all add: mid m1_def st)
    show "ld32 m3 (padd ?p 28) = sip" "ld32 m3 (padd ?p 38) = tip" by (fact ips)+
  qed
  show "arp_req_mem sip tether tip s q = nmem s q" if "fst q \<noteq> NetArpPacketBuf" for q
    using that e(4) [of q] by (cases q) (auto simp: m m3_def m2_def m1_def st off c)
qed

section \<open>Requests\<close>

text \<open>The address asked for: the waiting packet's own, or the gateway's on another subnet.\<close>

definition next_hop :: "'x net_arp_scheme \<Rightarrow> u32" where
  "next_hop s =
    (if NetArpWaitPacketIP s AND NetOurSubnetMask s \<noteq> NetOurIP s AND NetOurSubnetMask s \<and> NetOurGatewayIP s \<noteq> 0
     then NetOurGatewayIP s else NetArpWaitPacketIP s)"

definition arp_request_mem :: "'x net_arp_scheme \<Rightarrow> blk mem" where
  "arp_request_mem s = nmem (ArpRequest s)"

lemma arp_buffers_ok_update [simp]:
  "arp_buffers_ok (s\<lparr>NetArpWaitReplyIP := a\<rparr>) = arp_buffers_ok s"
  "arp_buffers_ok (s\<lparr>NetArpWaitTry := b\<rparr>) = arp_buffers_ok s"
  "arp_buffers_ok (s\<lparr>NetArpWaitTimerStart := c\<rparr>) = arp_buffers_ok s"
  "arp_buffers_ok (s\<lparr>clock := d\<rparr>) = arp_buffers_ok s"
  "arp_buffers_ok (s\<lparr>NetArpWaitPacketIP := c\<rparr>) = arp_buffers_ok s"
  "arp_buffers_ok (s\<lparr>NetArpWaitPacketMAC := p\<rparr>) = arp_buffers_ok s"
  "arp_buffers_ok (s\<lparr>NetArpWaitTxPacketSize := i\<rparr>) = arp_buffers_ok s"
  "arp_buffers_ok (s\<lparr>nmem := m\<rparr>) = arp_buffers_ok s"
  "arp_buffers_ok (s\<lparr>sent := fs\<rparr>) = arp_buffers_ok s"
  "arp_buffers_ok (s\<lparr>NetIPID := c\<rparr>) = arp_buffers_ok s"
  by (simp_all add: arp_buffers_ok_def our_vlanid_def)

lemma ArpRequest_raw:
  "ArpRequest s = arp_raw_request (NetOurIP s) NetEtherNullAddr (next_hop s) (s\<lparr>NetArpWaitReplyIP := next_hop s\<rparr>)"
  by (simp add: ArpRequest_def next_hop_def)

lemma ArpRequest_shape:
  assumes "arp_buffers_ok s"
  shows "ArpRequest s = s\<lparr>NetArpWaitReplyIP := next_hop s, nmem := arp_request_mem s,
      sent := sent s @ [bytes (arp_request_mem s) (NetArpTxPacket s) 64]\<rparr>"
  using assms
  by (auto simp: arp_request_mem_def ArpRequest_raw arp_raw_request_shape arp_buffers_ok_def)

lemma arp_request_frame:
  assumes "arp_buffers_ok s"
  shows "bytes (arp_request_mem s) (NetArpTxPacket s) 42 =
    arp_frame (ether_of s NetBcastAddr) (ether_of s NetOurEther) 1 (ether_of s NetOurEther) (NetOurIP s)
      (ether_of s NetEtherNullAddr) (next_hop s)"
    "\<And>q. fst q \<noteq> NetArpPacketBuf \<Longrightarrow> arp_request_mem s q = nmem s q"
  using arp_req_mem_frame [of "s\<lparr>NetArpWaitReplyIP := next_hop s\<rparr>" NetEtherNullAddr, where
      sip = "NetOurIP s" and tip = "next_hop s"] assms
  by (auto simp: arp_request_mem_def ArpRequest_raw arp_req_mem_def ether_of_def object_defs)

section \<open>Received ARP packets\<close>

text \<open>A packet ArpReceive looks at: long enough, Ethernet and IPv4 addresses, for our address.\<close>

definition arp_for_us :: "blk mem \<Rightarrow> u32 \<Rightarrow> nptr \<Rightarrow> int \<Rightarrow> bool" where
  "arp_for_us m ourip arp len \<longleftrightarrow> 28 \<le> len \<and> ntohs (ld16 m (ar_hrd arp)) = 1 \<and> ntohs (ld16 m (ar_pro arp)) = 0x800 \<and>
    m (ar_hln arp) = 6 \<and> m (ar_pln arp) = 4 \<and> ourip \<noteq> 0 \<and> ld32 m (ar_tpa arp) = ourip"

lemma ArpReceive_cases:
  "ArpReceive et arp len s =
    (if \<not> arp_for_us (nmem s) (NetOurIP s) arp len then s
     else if ntohs (ld16 (nmem s) (ar_op arp)) = 1 then arp_answer et arp s
     else if ntohs (ld16 (nmem s) (ar_op arp)) = 2 then arp_reply arp s else s)"
  by (auto simp: ArpReceive_def arp_for_us_def Let_def ARP_HDR_SIZE_def ARP_ETHER_def PROT_IP_def ARP_HLEN_def
      ARP_PLEN_def NetReadIP_def ARPOP_REQUEST_def ARPOP_REPLY_def)

definition arp_answer_mem :: "nptr \<Rightarrow> nptr \<Rightarrow> 'x net_arp_scheme \<Rightarrow> blk mem" where
  "arp_answer_mem et arp s = nmem (arp_answer et arp s)"

lemma arp_answer_frame:
  assumes "eth_current s \<noteq> None" "fst et \<noteq> NetOurEther_b" "ld16 (nmem s) (padd et 12) = htons 0x0806"
    "arp_for_us (nmem s) (NetOurIP s) (padd et 14) len"
  shows "arp_answer et (padd et 14) s = s\<lparr>nmem := arp_answer_mem et (padd et 14) s,
      sent := sent s @ [bytes (arp_answer_mem et (padd et 14) s) et 64]\<rparr>"
    "bytes (arp_answer_mem et (padd et 14) s) et 42 =
       arp_frame (bytes (nmem s) (padd et 6) 6) (ether_of s NetOurEther) 2 (ether_of s NetOurEther) (NetOurIP s)
         (bytes (nmem s) (padd et 22) 6) (ld32 (nmem s) (padd et 28))"
    "\<And>q. fst q \<noteq> fst et \<Longrightarrow> arp_answer_mem et (padd et 14) s q = nmem s q"
proof -
  obtain B off where et: "et = (B, off)" by (cases et)
  have B: "B \<noteq> NetOurEther_b" using assms(2) by (simp add: et)
  note ap = memcpy.copy_apply forward_safe_def st8_apply st16_apply st32_apply
  define m0 where "m0 = memcpy (memcpy (nmem s) et (padd et 6) 6) (padd et 6) NetOurEther 6"
  define m1 where "m1 = st16 (st16 m0 (padd et 12) (htons 0x0806)) (padd et 20) (htons 2)"
  define m2 where "m2 = memcpy (memcpy m1 (padd et 32) (padd et 22) 6) (padd et 38) (padd et 28) 4"
  define m3 where "m3 = st32 (memcpy m2 (padd et 22) NetOurEther 6) (padd et 28) (NetOurIP s)"
  have pl: "ld16 m0 (padd et 12) = htons 0x0806"
    using assms(3) by (subst ld16_cong [where m' = "nmem s"]) (simp_all add: m0_def et ap object_defs B)
  have m: "arp_answer et (padd et 14) s = s\<lparr>nmem := m3, sent := sent s @ [bytes m3 et 64]\<rparr>"
    using assms(1) pl
    by (simp add: arp_answer_def net_update_ether_def Let_def hdr_defs NetCopyIP_def NetWriteIP_def
        NetSendPacket_sent m3_def m2_def m1_def m0_def)
  then have mm: "arp_answer_mem et (padd et 14) s = m3" by (simp add: arp_answer_mem_def)
  then show "arp_answer et (padd et 14) s = s\<lparr>nmem := arp_answer_mem et (padd et 14) s,
      sent := sent s @ [bytes (arp_answer_mem et (padd et 14) s) et 64]\<rparr>"
    using m by simp
  have b0: "m0 (padd et i) = nmem s (padd et i)" if "12 \<le> i" for i
    using that B by (simp add: m0_def et ap object_defs)
  have our: "m0 (padd NetOurEther i) = nmem s (padd NetOurEther i)" for i
    using B by (simp add: m0_def et ap object_defs)
  have our2: "m2 (padd NetOurEther i) = nmem s (padd NetOurEther i)" for i
    using our [of i] B by (simp add: m2_def m1_def et ap object_defs)
  have lo: "m3 (padd et i) = m1 (padd et i)" if "i < 22" for i
    using that B by (simp add: m3_def m2_def et ap object_defs)
  have sha: "m3 (padd et (22 + i)) = nmem s (padd NetOurEther i)" if "i < 6" for i
    using that our2 [of i] B by (simp add: m3_def et ap object_defs)
  have m1_hi: "m1 (padd et i) = nmem s (padd et i)" if "22 \<le> i" for i
    using that b0 [of i] by (simp add: m1_def et ap)
  have tha: "m3 (padd et (32 + i)) = nmem s (padd et (22 + i))" if "i < 6" for i
    using that m1_hi [of "22 + i"] B by (simp add: m3_def m2_def et ap object_defs add.assoc)
  have tpa: "m3 (padd et (38 + i)) = nmem s (padd et (28 + i))" if "i < 4" for i
    using that m1_hi [of "28 + i"] B by (simp add: m3_def m2_def et ap object_defs add.assoc)
  have ld: "ld16 m3 (padd et i) = ld16 m1 (padd et i)" if "i < 21" for i
    using that lo [of i] lo [of "Suc i"] by (intro ld16_cong) simp_all
  have ld0: "ld16 m0 (padd et i) = ld16 (nmem s) (padd et i)" if "12 \<le> i" for i
    using that b0 [of i] b0 [of "Suc i"] by (intro ld16_cong) simp_all
  have old: "ld16 (nmem s) (padd et 14) = htons 1" "ld16 (nmem s) (padd et 16) = htons 0x800"
    "nmem s (padd et 18) = 6" "nmem s (padd et 19) = 4"
    using assms(4) by (auto simp: arp_for_us_def hdr_defs) (metis byte_swap_inverse(2))+
  have dst: "m1 (padd et i) = nmem s (padd et (6 + i))" "m1 (padd et (6 + i)) = nmem s (padd NetOurEther i)"
    if "i < 6" for i
    using that B by (simp_all add: m1_def m0_def et ap object_defs add.assoc)
  show "bytes (arp_answer_mem et (padd et 14) s) et 42 =
       arp_frame (bytes (nmem s) (padd et 6) 6) (ether_of s NetOurEther) 2 (ether_of s NetOurEther) (NetOurIP s)
         (bytes (nmem s) (padd et 22) 6) (ld32 (nmem s) (padd et 28))"
    unfolding mm
  proof (rule bytes_arp_frame)
    show "bytes m3 et 6 = bytes (nmem s) (padd et 6) 6"
      by (intro bytes_cong) (simp add: lo dst)
    show "bytes m3 (padd et 6) 6 = ether_of s NetOurEther"
      unfolding ether_of_def by (intro bytes_cong) (simp add: lo dst)
    show "bytes m3 (padd et 22) 6 = ether_of s NetOurEther" "bytes m3 (padd et 32) 6 = bytes (nmem s) (padd et 22) 6"
      using sha tha by (auto simp: ether_of_def intro!: bytes_cong)
    show "ld32 m3 (padd et 28) = NetOurIP s" by (simp add: m3_def)
    show "ld32 m3 (padd et 38) = ld32 (nmem s) (padd et 28)"
      using tpa [of 0] tpa [of 1] tpa [of 2] tpa [of 3] by (simp add: ld32_def ld16_def)
    show "ld16 m3 (padd et 12) = htons 0x0806" "ld16 m3 (padd et 20) = htons 2"
      "ld16 m3 (padd et 14) = htons 1" "ld16 m3 (padd et 16) = htons 0x0800"
      using old ld0 by (simp_all add: ld m1_def mem_simps)
    show "m3 (padd et 18) = 6" "m3 (padd et 19) = 4"
      using old b0 [of 18] b0 [of 19] by (simp_all add: lo m1_def st16_apply)
  qed
  show "arp_answer_mem et (padd et 14) s q = nmem s q" if "fst q \<noteq> fst et" for q
    using that B unfolding mm by (cases q) (simp add: m3_def m2_def m1_def m0_def et ap object_defs)
qed

section \<open>Resolution and transmission\<close>

text \<open>The reply's bytes do not overlap the places its address is copied to.\<close>

definition arp_reply_apart :: "nptr \<Rightarrow> 'x net_arp_scheme \<Rightarrow> bool" where
  "arp_reply_apart arp s \<longleftrightarrow>
    (fst arp = fst (NetTxPacket s) \<longrightarrow> snd (NetTxPacket s) + 6 \<le> snd arp + 8) \<and>
    fst (NetArpWaitPacketMAC s) \<noteq> fst arp \<and> fst (NetArpWaitPacketMAC s) \<noteq> fst (NetTxPacket s)"

definition arp_reply_mem :: "nptr \<Rightarrow> 'x net_arp_scheme \<Rightarrow> blk mem" where
  "arp_reply_mem arp s =
    memcpy (if NetArpWaitPacketMAC s \<noteq> NULL then memcpy (nmem s) (NetArpWaitPacketMAC s) (ar_sha arp) 6 else nmem s)
      (NetTxPacket s) (ar_sha arp) 6"

lemma arp_reply_matching:
  assumes "eth_current s \<noteq> None" "NetArpWaitPacketIP s \<noteq> 0" "ld32 (nmem s) (ar_spa arp) = NetArpWaitReplyIP s"
  shows "arp_reply arp s = s\<lparr>nmem := arp_reply_mem arp s,
      sent := sent s @ [bytes (arp_reply_mem arp s) (NetTxPacket s)
        (nat (if NetArpWaitTxPacketSize s < 64 then 64 else NetArpWaitTxPacketSize s))],
      NetArpWaitPacketIP := 0, NetArpWaitTxPacketSize := 0, NetArpWaitPacketMAC := NULL\<rparr>"
  using assms
  by (simp add: arp_reply_def arp_reply_mem_def Let_def NetReadIP_def NetSendPacket_sent ARP_HLEN_def et_dest_def
      split: arp_rxhand.split)

lemma arp_reply_other:
  "NetArpWaitPacketIP s = 0 \<or> ld32 (nmem s) (ar_spa arp) \<noteq> NetArpWaitReplyIP s \<Longrightarrow> arp_reply arp s = s"
  by (auto simp: arp_reply_def Let_def NetReadIP_def)

lemma arp_reply_mem_facts:
  assumes "arp_reply_apart arp s"
  shows "NetArpWaitPacketMAC s \<noteq> NULL \<Longrightarrow>
      bytes (arp_reply_mem arp s) (NetArpWaitPacketMAC s) 6 = bytes (nmem s) (ar_sha arp) 6"
    "bytes (arp_reply_mem arp s) (NetTxPacket s) 6 = bytes (nmem s) (ar_sha arp) 6"
    "\<And>i. 6 \<le> i \<Longrightarrow> arp_reply_mem arp s (padd (NetTxPacket s) i) = nmem s (padd (NetTxPacket s) i)"
    "\<And>q. fst q \<noteq> fst (NetTxPacket s) \<Longrightarrow> fst q \<noteq> fst (NetArpWaitPacketMAC s) \<Longrightarrow> arp_reply_mem arp s q = nmem s q"
proof -
  let ?m1 = "if NetArpWaitPacketMAC s \<noteq> NULL then memcpy (nmem s) (NetArpWaitPacketMAC s) (ar_sha arp) 6 else nmem s"
  have f1: "forward_safe (NetArpWaitPacketMAC s) (ar_sha arp) 6"
    using assms by (simp add: arp_reply_apart_def ar_sha_def)
  have f2: "forward_safe (NetTxPacket s) (ar_sha arp) 6"
    using assms by (auto simp: arp_reply_apart_def ar_sha_def forward_safe_def)
  have m1: "?m1 q = nmem s q" if "fst q \<noteq> fst (NetArpWaitPacketMAC s)" for q
    using memcpy.copy_elsewhere [OF f1 that] by simp
  have sha: "bytes ?m1 (ar_sha arp) 6 = bytes (nmem s) (ar_sha arp) 6"
    using assms by (intro bytes_cong m1) (auto simp: arp_reply_apart_def ar_sha_def)
  show "bytes (arp_reply_mem arp s) (NetTxPacket s) 6 = bytes (nmem s) (ar_sha arp) 6"
    unfolding arp_reply_mem_def memcpy.copy_read [OF f2] sha ..
  show "bytes (arp_reply_mem arp s) (NetArpWaitPacketMAC s) 6 = bytes (nmem s) (ar_sha arp) 6"
    if "NetArpWaitPacketMAC s \<noteq> NULL"
  proof -
    have "bytes (arp_reply_mem arp s) (NetArpWaitPacketMAC s) 6 = bytes ?m1 (NetArpWaitPacketMAC s) 6"
      unfolding arp_reply_mem_def using assms
      by (intro bytes_cong memcpy.copy_elsewhere [OF f2]) (simp add: arp_reply_apart_def)
    then show ?thesis using memcpy.copy_read [OF f1, of "nmem s"] that by simp
  qed
  show "arp_reply_mem arp s (padd (NetTxPacket s) i) = nmem s (padd (NetTxPacket s) i)" if "6 \<le> i" for i
    using that assms m1 [of "padd (NetTxPacket s) i"] unfolding arp_reply_mem_def memcpy.copy_padd [OF f2]
    by (auto simp: arp_reply_apart_def)
  show "arp_reply_mem arp s q = nmem s q"
    if "fst q \<noteq> fst (NetTxPacket s)" "fst q \<noteq> fst (NetArpWaitPacketMAC s)" for q
    unfolding arp_reply_mem_def memcpy.copy_elsewhere [OF f2 that(1)] using m1 [OF that(2)] by simp
qed

text \<open>The transmit buffer after the headers of a UDP packet are in place.\<close>

definition udp_tx_mem :: "nptr \<Rightarrow> u32 \<Rightarrow> int \<Rightarrow> int \<Rightarrow> int \<Rightarrow> 'x net_arp_scheme \<Rightarrow> blk mem" where
  "udp_tx_mem ether dest dport sport len s =
    udp_mem (padd (NetTxPacket s) (NetEthHdrSize s)) dest dport sport len
      (s\<lparr>nmem := eth_mem (NetTxPacket s) ether PROT_IP s\<rparr>)"

lemma udp_tx_mem_facts:
  fixes s :: "'x net_arp_scheme" and ether :: nptr and dest :: u32 and dport sport :: int and n :: nat
  assumes "fst (NetTxPacket s) \<notin> {fst ether, NetOurEther_b}"
  defines "m \<equiv> udp_tx_mem ether dest dport sport (int n) s" and "h \<equiv> NetEthHdrSize s"
  shows "bytes m (NetTxPacket s) 6 = bytes (nmem s) ether 6"
    "bytes m (padd (NetTxPacket s) 6) 6 = ether_of s NetOurEther"
    "ld16 m (padd (NetTxPacket s) (h - 2)) = htons (ucast PROT_IP)"
    "udp_packet_at m (padd (NetTxPacket s) h) (NetOurIP s) dest (word_of_int sport) (word_of_int dport)
       (bytes (nmem s) (padd (NetTxPacket s) (h + 28)) n)"
    "\<And>q. fst q \<noteq> fst (NetTxPacket s) \<Longrightarrow> m q = nmem s q"
proof -
  let ?t = "NetTxPacket s"
  define m0 where "m0 = eth_mem ?t ether PROT_IP s"
  note e = eth_mem_facts [of ?t ether, where prot = PROT_IP and s = s, folded m0_def h_def]
  have a: "fst ?t \<noteq> fst ether" "fst ?t \<noteq> NetOurEther_b" using assms(1) by auto
  have h: "14 \<le> h" using NetEthHdrSize_cases [of s] by (auto simp: h_def)
  have m: "m = udp_mem (padd ?t h) dest dport sport (int n) (s\<lparr>nmem := m0\<rparr>)"
    by (simp add: m_def udp_tx_mem_def m0_def h_def)
  have lo: "m (padd ?t i) = m0 (padd ?t i)" if "i < h" for i
    using udp_mem_facts(14) [of "int n" "padd ?t i" "padd ?t h", where s = "s\<lparr>nmem := m0\<rparr>"] that by (simp add: m)
  show "m q = nmem s q" if "fst q \<noteq> fst ?t" for q
    using udp_mem_facts(14) [of "int n" q "padd ?t h", where s = "s\<lparr>nmem := m0\<rparr>"] e(6) [OF a, of q] that by (simp add: m)
  show "bytes m ?t 6 = bytes (nmem s) ether 6" "bytes m (padd ?t 6) 6 = ether_of s NetOurEther"
    using lo e(1,2) [OF a] h by (auto simp: ether_of_def intro!: bytes_cong)
  have "ld16 m (padd ?t (h - 2)) = ld16 m0 (padd ?t (h - 2))"
    using lo [of "h - 2"] lo [of "h - 2 + 1"] h by (intro ld16_cong) simp_all
  then show "ld16 m (padd ?t (h - 2)) = htons (ucast PROT_IP)"
    using e(3) [OF a] by simp
  have "bytes m0 (padd ?t (h + 28)) n = bytes (nmem s) (padd ?t (h + 28)) n"
    using e(5) [OF a] by (intro bytes_cong) simp
  then show "udp_packet_at m (padd ?t h) (NetOurIP s) dest (word_of_int sport) (word_of_int dport)
       (bytes (nmem s) (padd ?t (h + 28)) n)"
    using udp_mem_packet [of "padd ?t h" dest dport sport n "s\<lparr>nmem := m0\<rparr>"] by (simp add: m)
qed

lemma memcmp_null:
  "memcmp m p m NetEtherNullAddr 6 = 0 \<longleftrightarrow> bytes m p 6 = bytes m NetEtherNullAddr 6"
  by (simp add: memcmp_0_iff)

text \<open>NetSendUDPPacket with the address known: the packet goes out at once.\<close>

definition udp_dest :: "u32 \<Rightarrow> u32" where
  "udp_dest dest = (if dest = 0 then 0xFFFFFFFF else dest)"

definition udp_ether :: "nptr \<Rightarrow> u32 \<Rightarrow> nptr" where
  "udp_ether ether dest = (if udp_dest dest = 0xFFFFFFFF then NetBcastAddr else ether)"

lemma NetSendUDPPacket_unfold:
  fixes ether :: nptr and dest :: u32 and dport sport len :: int and s :: "'x net_arp_scheme"
  assumes "NetTxPacket s \<noteq> NULL"
  defines "e \<equiv> udp_ether ether dest" and "m \<equiv> udp_tx_mem (udp_ether ether dest) (udp_dest dest) dport sport len s"
  shows "NetSendUDPPacket ether dest dport sport len s =
    (let s1 = s\<lparr>nmem := m, NetIPID := NetIPID s + 1\<rparr>; size = int (NetEthHdrSize s + 28) + len in
     if memcmp m e m NetEtherNullAddr 6 = 0
     then (let s2 = s1\<lparr>NetArpWaitPacketIP := udp_dest dest, NetArpWaitPacketMAC := e,
                 NetArpWaitTxPacketSize := size, NetArpWaitTry := 1\<rparr>;
               (t, s3) = net_get_timer 0 s2
           in (1, ArpRequest (s3\<lparr>NetArpWaitTimerStart := t\<rparr>)))
     else (0, NetSendPacket (NetTxPacket s) size s1))"
  using assms(1)
  by (simp add: NetSendUDPPacket_def udp_ether_def udp_dest_def frame_simps Let_def udp_tx_mem_def
      e_def m_def IP_UDP_HDR_SIZE_def)

lemma NetSendUDPPacket_known:
  fixes s :: "'x net_arp_scheme" and ether :: nptr and dest :: u32 and dport sport :: int and n :: nat
  assumes "fst (NetTxPacket s) = PktBuf" "fst ether \<noteq> PktBuf" "eth_current s \<noteq> None"
    "dest \<noteq> 0" "dest \<noteq> 0xFFFFFFFF" "bytes (nmem s) ether 6 \<noteq> bytes (nmem s) NetEtherNullAddr 6"
  defines "h \<equiv> NetEthHdrSize s" and "m \<equiv> udp_tx_mem ether dest dport sport (int n) s"
  shows "NetSendUDPPacket ether dest dport sport (int n) s =
    (0, s\<lparr>nmem := m, NetIPID := NetIPID s + 1, sent := sent s @ [bytes m (NetTxPacket s) (max 64 (h + 28 + n))]\<rparr>)"
    "udp_frame (bytes m (NetTxPacket s) (max 64 (h + 28 + n))) h (NetOurIP s) dest
       (word_of_int sport) (word_of_int dport) (bytes (nmem s) (padd (NetTxPacket s) (h + 28)) n)"
    "take 6 (bytes m (NetTxPacket s) (max 64 (h + 28 + n))) = bytes (nmem s) ether 6"
proof -
  have e: "udp_ether ether dest = ether" "udp_dest dest = dest"
    using assms(4,5) by (simp_all add: udp_ether_def udp_dest_def)
  have t: "NetTxPacket s \<noteq> NULL" using assms(1) by (auto simp: NULL_def)
  have u: "fst (NetTxPacket s) \<notin> {fst ether, NetOurEther_b}" using assms(1,2) by auto
  note f = udp_tx_mem_facts [OF u, where dest = dest and dport = dport and sport = sport and n = n,
      folded m_def h_def]
  have mo: "bytes m p 6 = bytes (nmem s) p 6" if "fst p \<noteq> PktBuf" for p
    by (rule bytes_elsewhere [where B = PktBuf, OF _ that], rule f(5)) (simp add: assms(1))
  then have "bytes m ether 6 = bytes (nmem s) ether 6" "bytes m NetEtherNullAddr 6 = bytes (nmem s) NetEtherNullAddr 6"
    using assms(2) by (simp_all add: object_defs)
  then have c: "memcmp m ether m NetEtherNullAddr 6 \<noteq> 0"
    using assms(6) by (simp add: memcmp_null)
  have sz: "nat (if int (h + 28) + int n < 64 then 64 else int (h + 28) + int n) = max 64 (h + 28 + n)"
    "nat (int h + 28 + int n) = h + 28 + n"
    by auto
  show "NetSendUDPPacket ether dest dport sport (int n) s =
    (0, s\<lparr>nmem := m, NetIPID := NetIPID s + 1, sent := sent s @ [bytes m (NetTxPacket s) (max 64 (h + 28 + n))]\<rparr>)"
    using c assms(3) sz
    by (simp add: NetSendUDPPacket_unfold [OF t] e NetSendPacket_sent Let_def flip: m_def h_def)
  show "udp_frame (bytes m (NetTxPacket s) (max 64 (h + 28 + n))) h (NetOurIP s) dest
       (word_of_int sport) (word_of_int dport) (bytes (nmem s) (padd (NetTxPacket s) (h + 28)) n)"
    using f(4) by (intro udp_frame_bytes) simp_all
  show "take 6 (bytes m (NetTxPacket s) (max 64 (h + 28 + n))) = bytes (nmem s) ether 6"
    using f(1) by (simp add: take_bytes)
qed

text \<open>With the address unknown the packet waits in the transmit buffer while a request goes out.\<close>

lemma NetSendUDPPacket_unknown:
  fixes s :: "'x net_arp_scheme" and ether :: nptr and dest :: u32 and dport sport :: int and n :: nat
  assumes "arp_buffers_ok s" "fst ether \<notin> {PktBuf, NetArpPacketBuf}"
    "dest \<noteq> 0" "dest \<noteq> 0xFFFFFFFF" "bytes (nmem s) ether 6 = bytes (nmem s) NetEtherNullAddr 6"
  defines "m \<equiv> udp_tx_mem ether dest dport sport (int n) s" and "s' \<equiv> snd (NetSendUDPPacket ether dest dport sport (int n) s)"
  shows "fst (NetSendUDPPacket ether dest dport sport (int n) s) = 1"
    "NetArpWaitPacketIP s' = dest" "NetArpWaitPacketMAC s' = ether" "NetArpWaitTxPacketSize s' = int (42 + n)"
    "NetArpWaitTry s' = 1" "NetArpWaitTimerStart s' = fst (get_timer 0 (clock s))"
    "NetTxPacket s' = NetTxPacket s" "eth_current s' = eth_current s"
    "NetArpWaitReplyIP s' = next_hop (s\<lparr>NetArpWaitPacketIP := dest\<rparr>)"
    "\<And>q. fst q \<noteq> NetArpPacketBuf \<Longrightarrow> nmem s' q = m q"
    "\<exists>fr. sent s' = sent s @ [fr] \<and> length fr = 64 \<and> take 42 fr =
       arp_frame (ether_of s NetBcastAddr) (ether_of s NetOurEther) 1 (ether_of s NetOurEther) (NetOurIP s)
         (ether_of s NetEtherNullAddr) (next_hop (s\<lparr>NetArpWaitPacketIP := dest\<rparr>))"
proof -
  have tx: "fst (NetTxPacket s) = PktBuf" and h: "NetEthHdrSize s = 14"
    using assms(1) by (auto simp: arp_buffers_ok_def NetEthHdrSize_def ETHER_HDR_SIZE_def)
  have e: "udp_ether ether dest = ether" "udp_dest dest = dest"
    using assms(3,4) by (simp_all add: udp_ether_def udp_dest_def)
  have t: "NetTxPacket s \<noteq> NULL" using tx by (auto simp: NULL_def)
  have u: "fst (NetTxPacket s) \<notin> {fst ether, NetOurEther_b}" using tx assms(2) by auto
  note f = udp_tx_mem_facts [OF u, where dest = dest and dport = dport and sport = sport and n = n,
      folded m_def]
  have mo: "bytes m p 6 = bytes (nmem s) p 6" if "fst p \<noteq> PktBuf" for p
    by (rule bytes_elsewhere [where B = PktBuf, OF _ that], rule f(5)) (simp add: tx)
  have null: "fst NetEtherNullAddr \<noteq> PktBuf" "fst ether \<noteq> PktBuf" using assms(2) by (simp_all add: object_defs)
  have c: "memcmp m ether m NetEtherNullAddr 6 = 0"
    unfolding memcmp_null mo [OF null(1)] mo [OF null(2)] by (rule assms(5))
  define s1 where "s1 = s\<lparr>nmem := m, NetIPID := NetIPID s + 1, NetArpWaitPacketIP := dest,
    NetArpWaitPacketMAC := ether, NetArpWaitTxPacketSize := int (42 + n), NetArpWaitTry := 1,
    clock := snd (get_timer 0 (clock s)), NetArpWaitTimerStart := fst (get_timer 0 (clock s))\<rparr>"
  have r: "NetSendUDPPacket ether dest dport sport (int n) s = (1, ArpRequest s1)"
    using c by (simp add: NetSendUDPPacket_unfold [OF t] e h Let_def net_get_timer_def case_prod_beta s1_def
        add.commute flip: m_def)
  have ok: "arp_buffers_ok s1" using assms(1) by (simp add: s1_def)
  have nh: "next_hop s1 = next_hop (s\<lparr>NetArpWaitPacketIP := dest\<rparr>)" by (simp add: s1_def next_hop_def)
  have s': "s' = ArpRequest s1" by (simp add: s'_def r)
  show "fst (NetSendUDPPacket ether dest dport sport (int n) s) = 1" by (simp add: r)
  show "NetArpWaitPacketIP s' = dest" "NetArpWaitPacketMAC s' = ether" "NetArpWaitTxPacketSize s' = int (42 + n)"
    "NetArpWaitTry s' = 1" "NetArpWaitTimerStart s' = fst (get_timer 0 (clock s))"
    "NetTxPacket s' = NetTxPacket s" "eth_current s' = eth_current s"
    unfolding s' ArpRequest_shape [OF ok] by (simp_all add: s1_def)
  show "NetArpWaitReplyIP s' = next_hop (s\<lparr>NetArpWaitPacketIP := dest\<rparr>)"
    unfolding s' ArpRequest_shape [OF ok] by (simp add: nh)
  show "nmem s' q = m q" if "fst q \<noteq> NetArpPacketBuf" for q
    using arp_request_frame(2) [OF ok that] unfolding s' ArpRequest_shape [OF ok] by (simp add: s1_def)
  have eo: "ether_of s1 p = ether_of s p" if "fst p \<noteq> PktBuf" for p
    using mo [OF that] by (simp add: s1_def ether_of_def)
  have s1f: "sent s1 = sent s" "NetOurIP s1 = NetOurIP s"
    by (simp_all add: s1_def)
  have eo: "ether_of s1 NetBcastAddr = ether_of s NetBcastAddr" "ether_of s1 NetOurEther = ether_of s NetOurEther"
    "ether_of s1 NetEtherNullAddr = ether_of s NetEtherNullAddr"
    by (simp_all add: eo object_defs)
  show "\<exists>fr. sent s' = sent s @ [fr] \<and> length fr = 64 \<and> take 42 fr =
       arp_frame (ether_of s NetBcastAddr) (ether_of s NetOurEther) 1 (ether_of s NetOurEther) (NetOurIP s)
         (ether_of s NetEtherNullAddr) (next_hop (s\<lparr>NetArpWaitPacketIP := dest\<rparr>))"
    using arp_request_frame(1) [OF ok] unfolding s' ArpRequest_shape [OF ok]
    by (simp add: take_bytes nh eo s1f)
qed

text \<open>What a transmission changes, whichever way it goes: the two packet buffers and its own variables.\<close>

definition tx_only :: "'x net_arp_scheme \<Rightarrow> 'x net_arp_scheme \<Rightarrow> bool" where
  "tx_only s s' \<longleftrightarrow>
    s'\<lparr>NetIPID := NetIPID s, NetArpWaitPacketIP := NetArpWaitPacketIP s,
      NetArpWaitReplyIP := NetArpWaitReplyIP s, NetArpWaitPacketMAC := NetArpWaitPacketMAC s,
      NetArpWaitTxPacketSize := NetArpWaitTxPacketSize s, NetArpWaitTimerStart := NetArpWaitTimerStart s,
      NetArpWaitTry := NetArpWaitTry s, clock := clock s, sent := sent s, nmem := nmem s\<rparr> = s \<and>
    (\<forall>b i. b = PktBuf \<or> b = NetArpPacketBuf \<or> nmem s' (b, i) = nmem s (b, i)) \<and>
    plat (clock s') = plat (clock s) \<and> (\<exists>fr. sent s' = sent s @ [fr])"

lemma tx_only_mem: "tx_only s s' \<Longrightarrow> fst q \<noteq> PktBuf \<Longrightarrow> fst q \<noteq> NetArpPacketBuf \<Longrightarrow> nmem s' q = nmem s q"
  by (cases q) (auto simp: tx_only_def)

lemma tx_only_sel:
  assumes "tx_only s s'"
  shows "NetOurIP s' = NetOurIP s" "NetTxPacket s' = NetTxPacket s" "NetArpTxPacket s' = NetArpTxPacket s"
    "eth_current s' = eth_current s" "NetOurVLAN s' = NetOurVLAN s" "net_state s' = net_state s"
    "NetBootFileXferSize s' = NetBootFileXferSize s" "udp_packet_handler s' = udp_packet_handler s"
    "timeHandler s' = timeHandler s" "net_arp.more s' = net_arp.more s" "NetOurSubnetMask s' = NetOurSubnetMask s"
    "NetOurGatewayIP s' = NetOurGatewayIP s" "NetServerIP s' = NetServerIP s"
proof -
  obtain r where r: "r = s" "s'\<lparr>NetIPID := NetIPID s, NetArpWaitPacketIP := NetArpWaitPacketIP s,
      NetArpWaitReplyIP := NetArpWaitReplyIP s, NetArpWaitPacketMAC := NetArpWaitPacketMAC s,
      NetArpWaitTxPacketSize := NetArpWaitTxPacketSize s, NetArpWaitTimerStart := NetArpWaitTimerStart s,
      NetArpWaitTry := NetArpWaitTry s, clock := clock s, sent := sent s, nmem := nmem s\<rparr> = r"
    using assms by (simp add: tx_only_def)
  from r(2) [THEN arg_cong [where f = NetOurIP]] show "NetOurIP s' = NetOurIP s" unfolding r(1) by simp
  from r(2) [THEN arg_cong [where f = NetTxPacket]] show "NetTxPacket s' = NetTxPacket s" unfolding r(1) by simp
  from r(2) [THEN arg_cong [where f = NetArpTxPacket]] show "NetArpTxPacket s' = NetArpTxPacket s" unfolding r(1) by simp
  from r(2) [THEN arg_cong [where f = eth_current]] show "eth_current s' = eth_current s" unfolding r(1) by simp
  from r(2) [THEN arg_cong [where f = NetOurVLAN]] show "NetOurVLAN s' = NetOurVLAN s" unfolding r(1) by simp
  from r(2) [THEN arg_cong [where f = net_state]] show "net_state s' = net_state s" unfolding r(1) by simp
  from r(2) [THEN arg_cong [where f = NetBootFileXferSize]]
  show "NetBootFileXferSize s' = NetBootFileXferSize s" unfolding r(1) by simp
  from r(2) [THEN arg_cong [where f = udp_packet_handler]]
  show "udp_packet_handler s' = udp_packet_handler s" unfolding r(1) by simp
  from r(2) [THEN arg_cong [where f = timeHandler]] show "timeHandler s' = timeHandler s" unfolding r(1) by simp
  from r(2) [THEN arg_cong [where f = net_arp.more]] show "net_arp.more s' = net_arp.more s" unfolding r(1) by simp
  from r(2) [THEN arg_cong [where f = NetOurSubnetMask]]
  show "NetOurSubnetMask s' = NetOurSubnetMask s" unfolding r(1) by simp
  from r(2) [THEN arg_cong [where f = NetOurGatewayIP]]
  show "NetOurGatewayIP s' = NetOurGatewayIP s" unfolding r(1) by simp
  from r(2) [THEN arg_cong [where f = NetServerIP]] show "NetServerIP s' = NetServerIP s" unfolding r(1) by simp
qed

lemma tx_only_ok: "tx_only s s' \<Longrightarrow> arp_buffers_ok s \<Longrightarrow> arp_buffers_ok s'"
  by (simp add: arp_buffers_ok_def our_vlanid_def tx_only_sel)

lemma NetSendUDPPacket_tx_only:
  fixes s :: "'x net_arp_scheme" and ether :: nptr and dest :: u32 and dport sport :: int and n :: nat
  assumes "arp_buffers_ok s" "fst ether \<noteq> PktBuf"
  shows "tx_only s (snd (NetSendUDPPacket ether dest dport sport (int n) s))"
proof -
  have tx: "fst (NetTxPacket s) = PktBuf" and dev: "eth_current s \<noteq> None"
    using assms(1) by (auto simp: arp_buffers_ok_def)
  have t: "NetTxPacket s \<noteq> NULL" using tx by (auto simp: NULL_def)
  define e where "e = udp_ether ether dest"
  define m where "m = udp_tx_mem e (udp_dest dest) dport sport (int n) s"
  have u: "fst (NetTxPacket s) \<notin> {fst e, NetOurEther_b}"
    using tx assms(2) by (auto simp: e_def udp_ether_def object_defs)
  note mo = udp_tx_mem_facts(5) [OF u, where dest = "udp_dest dest" and dport = dport and sport = sport and n = n,
      folded m_def, unfolded tx]
  show ?thesis
  proof (cases "memcmp m e m NetEtherNullAddr 6 = 0")
    case True
    define s1 where "s1 = s\<lparr>nmem := m, NetIPID := NetIPID s + 1, NetArpWaitPacketIP := udp_dest dest,
      NetArpWaitPacketMAC := e, NetArpWaitTxPacketSize := int (NetEthHdrSize s + 28) + int n, NetArpWaitTry := 1,
      clock := snd (get_timer 0 (clock s)), NetArpWaitTimerStart := fst (get_timer 0 (clock s))\<rparr>"
    have r: "NetSendUDPPacket ether dest dport sport (int n) s = (1, ArpRequest s1)"
      using True by (simp add: NetSendUDPPacket_unfold [OF t] Let_def net_get_timer_def case_prod_beta s1_def
          flip: m_def e_def)
    have ok: "arp_buffers_ok s1" using assms(1) by (simp add: s1_def)
    have mem: "arp_request_mem s1 q = nmem s q" if "fst q \<noteq> PktBuf" "fst q \<noteq> NetArpPacketBuf" for q
      using arp_request_frame(2) [OF ok that(2)] mo [OF that(1)] by (simp add: s1_def)
    have p: "plat (snd (get_timer 0 (clock s))) = plat (clock s)"
      by (simp add: get_timer_def case_prod_beta)
    define M N F where "M = arp_request_mem s1" and "N = next_hop s1"
      and "F = bytes (arp_request_mem s1) (NetArpTxPacket s1) 64"
    have mem': "\<forall>b i. b = PktBuf \<or> b = NetArpPacketBuf \<or> M (b, i) = nmem s (b, i)"
      using mem by (auto simp: M_def)
    have "ArpRequest s1 = s1\<lparr>NetArpWaitReplyIP := N, nmem := M, sent := sent s @ [F]\<rparr>"
      unfolding ArpRequest_shape [OF ok] by (simp add: M_def N_def F_def s1_def)
    then show ?thesis
      using mem' p unfolding r by (simp add: tx_only_def s1_def)
  next
    case False
    then have "NetSendUDPPacket ether dest dport sport (int n) s =
        (0, s\<lparr>nmem := m, NetIPID := NetIPID s + 1,
           sent := sent s @ [bytes m (NetTxPacket s) (nat (if int (NetEthHdrSize s + 28) + int n < 64 then 64
             else int (NetEthHdrSize s + 28) + int n))]\<rparr>)"
      using dev by (simp add: NetSendUDPPacket_unfold [OF t] NetSendPacket_sent Let_def flip: m_def e_def)
    then show ?thesis
      using mo by (auto simp: tx_only_def)
  qed
qed

section \<open>Properties\<close>

text \<open>A configured machine for the examples: 10.0.0.179, mask 255.255.255.0, gateway 10.0.0.254.\<close>

definition sample_mem :: "blk mem" where
  "sample_mem q = (case fst q of NetOurEther_b \<Rightarrow> 2 | NetBcastAddr_b \<Rightarrow> 255 | _ \<Rightarrow> 0)"

definition sample_arp :: net_arp where
  "sample_arp = \<lparr>nmem = sample_mem, clock = sample_clock,
     eth_current = Some \<lparr>eth_name = ''eth0'', eth_state = ETH_STATE_ACTIVE\<rparr>, sent = [],
     NetOurSubnetMask = 0x00FFFFFF, NetOurGatewayIP = 0xFE00000A, NetBootFileSize = 0, NetBootFileXferSize = 0,
     NetOurIP = 0xB300000A, NetServerIP = 0x8000000A, NetRxPacket = NULL, NetRxPacketLen = 0, NetIPID = 0,
     net_state = NETLOOP_CONTINUE, NetRestarted = 0, NetDevExists = 1, NetOurVLAN = 0xFFFF,
     NetOurNativeVLAN = 0xFFFF, NetRxPackets = [], udp_packet_handler = dummy_handler,
     arp_packet_handler = arp_dummy_handler, timeHandler = None, timeStart = 0, timeDelta = 0,
     NetTxPacket = (PktBuf, 0), NetTryCount = 1, net_first_call = False, NetArpWaitPacketIP = 0,
     NetArpWaitReplyIP = 0, NetArpWaitPacketMAC = NULL, NetArpWaitTxPacketSize = 0, NetArpWaitTimerStart = 0,
     NetArpWaitTry = 0, NetArpTxPacket = (NetArpPacketBuf, 0)\<rparr>"

lemma sample_arp_ok: "arp_buffers_ok sample_arp"
  by (simp add: arp_buffers_ok_def sample_arp_def our_vlanid_def hdr_defs ntohs_def swab16_def)

lemma sample_bytes:
  "bytes sample_mem p 6 = replicate 6 (case fst p of NetOurEther_b \<Rightarrow> 2 | NetBcastAddr_b \<Rightarrow> 255 | _ \<Rightarrow> 0)"
  by (rule nth_equalityI) (auto simp: sample_mem_def split: blk.splits)

text \<open>C8: With the hardware address known, NetSendUDPPacket sends one frame at once: addressed to it, at least
  64 bytes long, and holding a well-formed UDP packet with the payload that was in the transmit buffer.\<close>

theorem NetSendUDPPacket_sends:
  fixes s :: "'x net_arp_scheme" and ether :: nptr and dest :: u32 and dport sport :: int and n :: nat
  assumes "fst (NetTxPacket s) = PktBuf" "fst ether \<noteq> PktBuf" "eth_current s \<noteq> None"
    "dest \<noteq> 0" "dest \<noteq> 0xFFFFFFFF" "bytes (nmem s) ether 6 \<noteq> bytes (nmem s) NetEtherNullAddr 6"
  shows "\<exists>fr. fst (NetSendUDPPacket ether dest dport sport (int n) s) = 0 \<and>
    sent (snd (NetSendUDPPacket ether dest dport sport (int n) s)) = sent s @ [fr] \<and>
    length fr = max 64 (NetEthHdrSize s + 28 + n) \<and> take 6 fr = bytes (nmem s) ether 6 \<and>
    udp_frame fr (NetEthHdrSize s) (NetOurIP s) dest (word_of_int sport) (word_of_int dport)
      (bytes (nmem s) (padd (NetTxPacket s) (NetEthHdrSize s + 28)) n)"
  using NetSendUDPPacket_known [OF assms, of dport sport n] by simp

theorem NetSendUDPPacket_sends_witness:
  "\<exists>fr. sent (snd (NetSendUDPPacket NetOurEther 0x8000000A 69 1024 (int 9) sample_arp)) = [fr] \<and> length fr = 64 \<and>
     take 6 fr = replicate 6 2 \<and> udp_frame fr 14 0xB300000A 0x8000000A 1024 69 (replicate 9 0)"
proof -
  have p: "fst (NetTxPacket sample_arp) = PktBuf" "fst NetOurEther \<noteq> PktBuf" "eth_current sample_arp \<noteq> None"
    "(0x8000000A :: u32) \<noteq> 0" "(0x8000000A :: u32) \<noteq> 0xFFFFFFFF" "nmem sample_arp = sample_mem"
    "sent sample_arp = []" "NetOurIP sample_arp = 0xB300000A"
    by (simp_all add: sample_arp_def object_defs)
  have h: "NetEthHdrSize sample_arp = 14"
    using sample_arp_ok by (simp add: arp_buffers_ok_def NetEthHdrSize_def ETHER_HDR_SIZE_def)
  have e: "bytes (nmem sample_arp) NetOurEther 6 \<noteq> bytes (nmem sample_arp) NetEtherNullAddr 6"
    unfolding p(6) sample_bytes by (simp add: object_defs)
  have b: "bytes sample_mem (PktBuf, 42) 9 = replicate 9 0"
    by (rule nth_equalityI) (auto simp: sample_mem_def)
  show ?thesis
    using NetSendUDPPacket_sends [OF p(1-5) e, of 69 1024 9] p h b
    by (simp add: sample_arp_def sample_bytes object_defs)
qed

text \<open>An ARP request for our address is answered with one frame: our hardware address for our IP address,
  sent to the asker; nothing but the receive buffer and the frame log changes.\<close>

theorem ArpReceive_answers:
  fixes s :: "'x net_arp_scheme" and et :: nptr
  assumes "eth_current s \<noteq> None" "fst et \<noteq> NetOurEther_b" "ld16 (nmem s) (padd et 12) = htons 0x0806"
    "arp_for_us (nmem s) (NetOurIP s) (padd et 14) len" "ntohs (ld16 (nmem s) (padd et 20)) = 1"
  shows "\<exists>m fr. ArpReceive et (padd et 14) len s = s\<lparr>nmem := m, sent := sent s @ [fr]\<rparr> \<and>
    take 42 fr = arp_frame (bytes (nmem s) (padd et 6) 6) (ether_of s NetOurEther) 2 (ether_of s NetOurEther)
      (NetOurIP s) (bytes (nmem s) (padd et 22) 6) (ld32 (nmem s) (padd et 28)) \<and> length fr = 64 \<and>
    (\<forall>q. fst q = fst et \<or> m q = nmem s q)"
proof -
  note a = arp_answer_frame [OF assms(1-4)]
  have "ArpReceive et (padd et 14) len s = arp_answer et (padd et 14) s"
    using assms(4,5) by (simp add: ArpReceive_cases ar_op_def)
  then show ?thesis
    using a by (intro exI [of _ "arp_answer_mem et (padd et 14) s"]
        exI [of _ "bytes (arp_answer_mem et (padd et 14) s) et 64"])
        (simp add: take_bytes del: split_paired_All, blast)
qed

text \<open>A frame placed in a driver buffer.\<close>

definition received :: "u8 list \<Rightarrow> blk mem \<Rightarrow> blk mem" where
  "received fr m q = (if fst q = Driver 0 \<and> snd q < length fr then fr ! snd q else m q)"

lemma received_other: "fst q \<noteq> Driver 0 \<Longrightarrow> received fr m q = m q"
  by (simp add: received_def)

lemma bytes_received:
  assumes "i + n \<le> length fr"
  shows "bytes (received fr m) (Driver 0, i) n = take n (drop i fr)"
  using assms by (intro nth_equalityI) (auto simp: received_def)

lemma ld16_be16: "bytes m p 2 = be16 v \<Longrightarrow> ld16 m p = htons v"
  using ld_bytes_eq(1) [of m p 2 "st16 m p (htons v)" p 0] bytes_be16 [of "st16 m p (htons v)" p v] by simp

lemma ld32_ip: "bytes m p 4 = ip_bytes a \<Longrightarrow> ld32 m p = a"
  using ld_bytes_eq(2) [of m p 4 "st32 m p a" p 0] bytes_ip [of "st32 m p a" p] by simp

lemma received_arp:
  fixes edst esrc sha tha :: "u8 list" and op :: u16 and spa tpa :: u32 and m :: "blk mem"
  assumes l: "length edst = 6" "length esrc = 6" "length sha = 6" "length tha = 6"
  defines "m' \<equiv> received (arp_frame edst esrc op sha spa tha tpa) m"
  shows "ld16 m' (Driver 0, 12) = htons 0x0806" "ntohs (ld16 m' (Driver 0, 20)) = op"
    "bytes m' (Driver 0, 6) 6 = esrc" "bytes m' (Driver 0, 22) 6 = sha" "ld32 m' (Driver 0, 28) = spa"
    "tpa \<noteq> 0 \<Longrightarrow> arp_for_us m' tpa (Driver 0, 14) 28"
proof -
  let ?fr = "arp_frame edst esrc op sha spa tha tpa"
  have len: "length ?fr = 42" by (simp add: arp_frame_def l)
  have b: "bytes m' (Driver 0, i) n = take n (drop i ?fr)" if "i + n \<le> 42" for i n
    unfolding m'_def using that by (intro bytes_received) (simp add: len)
  have two: "length (be16 v) = Suc (Suc 0)" for v by simp
  note s = arp_frame_def l two
  have h: "ld16 m' (Driver 0, 12) = htons 0x0806" "ld16 m' (Driver 0, 14) = htons 1"
    "ld16 m' (Driver 0, 16) = htons 0x800" "ld16 m' (Driver 0, 20) = htons op"
    by (rule ld16_be16, simp add: b s)+
  then show "ld16 m' (Driver 0, 12) = htons 0x0806" "ntohs (ld16 m' (Driver 0, 20)) = op" by simp_all
  show "bytes m' (Driver 0, 6) 6 = esrc" "bytes m' (Driver 0, 22) 6 = sha" by (simp_all add: b s)
  have i: "ld32 m' (Driver 0, 28) = spa" "ld32 m' (Driver 0, 38) = tpa"
    by (rule ld32_ip, simp add: b s)+
  then show "ld32 m' (Driver 0, 28) = spa" by simp
  have "bytes m' (Driver 0, 18) 2 = [6, 4]" by (simp add: b s)
  then have "m' (Driver 0, 18) = 6" "m' (Driver 0, 19) = 4"
    by (simp_all add: bytes_def numeral_2_eq_2)
  then show "arp_for_us m' tpa (Driver 0, 14) 28" if "tpa \<noteq> 0"
    using that h i by (simp add: arp_for_us_def hdr_defs)
qed

theorem ArpReceive_answers_witness:
  "\<exists>fr. sent (ArpReceive (Driver 0, 0) (Driver 0, 14) 28
      (sample_arp\<lparr>nmem := received (arp_frame (replicate 6 255) [1, 2, 3, 4, 5, 6] 1 [1, 2, 3, 4, 5, 6] 0x8000000A
        (replicate 6 0) 0xB300000A) sample_mem\<rparr>)) = [fr] \<and>
     take 42 fr = arp_frame [1, 2, 3, 4, 5, 6] (replicate 6 2) 2 (replicate 6 2) 0xB300000A [1, 2, 3, 4, 5, 6] 0x8000000A"
proof -
  let ?m = "received (arp_frame (replicate 6 255) [1, 2, 3, 4, 5, 6] 1 [1, 2, 3, 4, 5, 6] 0x8000000A
        (replicate 6 0) 0xB300000A) sample_mem"
  let ?s = "sample_arp\<lparr>nmem := ?m\<rparr>"
  have l: "length (replicate 6 (255 :: u8)) = 6" "length [1, 2, 3, 4, 5, 6 :: u8] = 6" "length (replicate 6 (0 :: u8)) = 6"
    and ip: "(0xB300000A :: u32) \<noteq> 0"
    by simp_all
  note r = received_arp [OF l(1,2,2,3), where op = 1 and spa = "0x8000000A" and tpa = "0xB300000A" and m = sample_mem]
  have "ether_of ?s NetOurEther = bytes sample_mem NetOurEther 6"
    by (auto simp: ether_of_def object_defs intro!: bytes_cong received_other)
  then have o: "ether_of ?s NetOurEther = replicate 6 2"
    by (simp add: sample_bytes object_defs)
  have p: "eth_current ?s \<noteq> None" "nmem ?s = ?m" "NetOurIP ?s = 0xB300000A" "sent ?s = []"
    "fst (Driver 0, 0 :: nat) \<noteq> NetOurEther_b"
    by (simp_all add: sample_arp_def)
  obtain m fr where "ArpReceive (Driver 0, 0) (padd (Driver 0, 0) 14) 28 ?s = ?s\<lparr>nmem := m, sent := sent ?s @ [fr]\<rparr>"
    "take 42 fr = arp_frame [1, 2, 3, 4, 5, 6] (replicate 6 2) 2 (replicate 6 2) 0xB300000A [1, 2, 3, 4, 5, 6] 0x8000000A"
    using ArpReceive_answers [of ?s "(Driver 0, 0)" 28, OF p(1,5)] r(1-5) r(6) [OF ip] o
    unfolding p(2,3) padd_simps by (auto simp del: split_paired_All)
  then show ?thesis
    using p(4) by (intro exI [of _ fr]) simp
qed

text \<open>The whole exchange, from the packet handed over to its transmission.\<close>

lemma resolve_and_send:
  fixes s :: "'x net_arp_scheme" and ether et :: nptr and dest :: u32 and dport sport :: int and n :: nat
  assumes ok: "arp_buffers_ok s" and eth: "fst ether \<notin> {Null, PktBuf, NetArpPacketBuf}" "fst et \<notin> {PktBuf, fst ether}"
    and dest: "dest \<noteq> 0" "dest \<noteq> 0xFFFFFFFF" and null: "bytes (nmem s) ether 6 = bytes (nmem s) NetEtherNullAddr 6"
    and s1: "s1 = snd (NetSendUDPPacket ether dest dport sport (int n) s)"
    and rx: "\<And>b i. b \<noteq> fst et \<Longrightarrow> m (b, i) = nmem s1 (b, i)"
    and reply: "arp_for_us m (NetOurIP s) (padd et 14) len" "ntohs (ld16 m (padd et 20)) = 2"
      "ld32 m (padd et 28) = next_hop (s\<lparr>NetArpWaitPacketIP := dest\<rparr>)"
  shows "\<exists>req fr. sent (ArpReceive et (padd et 14) len (s1\<lparr>nmem := m\<rparr>)) = sent s @ [req, fr] \<and>
    take 42 req = arp_frame (ether_of s NetBcastAddr) (ether_of s NetOurEther) 1 (ether_of s NetOurEther)
      (NetOurIP s) (ether_of s NetEtherNullAddr) (next_hop (s\<lparr>NetArpWaitPacketIP := dest\<rparr>)) \<and>
    take 6 fr = bytes m (padd et 22) 6 \<and>
    udp_frame fr 14 (NetOurIP s) dest (word_of_int sport) (word_of_int dport)
      (bytes (nmem s) (padd (NetTxPacket s) 42) n) \<and>
    NetArpWaitPacketIP (ArpReceive et (padd et 14) len (s1\<lparr>nmem := m\<rparr>)) = 0"
proof -
  let ?m0 = "udp_tx_mem ether dest dport sport (int n) s" and ?s2 = "s1\<lparr>nmem := m\<rparr>" and ?arp = "padd et 14"
  have eth': "fst ether \<notin> {PktBuf, NetArpPacketBuf}" using eth by simp
  note u = NetSendUDPPacket_unknown [OF ok eth' dest null, where dport = dport and sport = sport and n = n, folded s1]
  have tx: "fst (NetTxPacket s) = PktBuf" and h: "NetEthHdrSize s = 14" and dev: "eth_current s \<noteq> None"
    using ok by (auto simp: arp_buffers_ok_def NetEthHdrSize_def ETHER_HDR_SIZE_def)
  have ip: "NetOurIP s1 = NetOurIP s"
    unfolding s1 using NetSendUDPPacket_tx_only [OF ok] eth' by (intro tx_only_sel) auto
  have "ArpReceive et ?arp len ?s2 = arp_reply ?arp ?s2"
    using reply(1,2) ip by (simp add: ArpReceive_cases ar_op_def)
  moreover have mac: "NetArpWaitPacketMAC ?s2 \<noteq> NULL" using eth(1) u(3) by (auto simp: NULL_def)
  have c: "eth_current ?s2 \<noteq> None" "NetArpWaitPacketIP ?s2 \<noteq> 0" "ld32 (nmem ?s2) (ar_spa ?arp) = NetArpWaitReplyIP ?s2"
    using dev u(2,8,9) dest(1) reply(3) by (simp_all add: ar_spa_def)
  have sz: "nat (if NetArpWaitTxPacketSize ?s2 < 64 then 64 else NetArpWaitTxPacketSize ?s2) = max 64 (42 + n)"
    using u(4) by auto
  let ?m3 = "arp_reply_mem ?arp ?s2"
  define fr where "fr = bytes ?m3 (NetTxPacket s) (max 64 (42 + n))"
  note a = arp_reply_matching [OF c, unfolded sz]
  ultimately have r: "ArpReceive et ?arp len ?s2 = ?s2\<lparr>nmem := ?m3, sent := sent s1 @ [fr],
      NetArpWaitPacketIP := 0, NetArpWaitTxPacketSize := 0, NetArpWaitPacketMAC := NULL\<rparr>"
    using u(7) by (simp add: fr_def)
  have apart: "arp_reply_apart ?arp ?s2"
    using eth tx u(3,7) by (auto simp: arp_reply_apart_def)
  note am = arp_reply_mem_facts [OF apart]
  have to: "take 6 fr = bytes m (padd et 22) 6"
    using am(2) u(7) by (simp add: fr_def take_bytes ar_sha_def)
  have "?m3 (padd (NetTxPacket s) i) = ?m0 (padd (NetTxPacket s) i)" if "6 \<le> i" for i
  proof -
    have "?m3 (padd (NetTxPacket s) i) = m (padd (NetTxPacket s) i)" using am(3) [OF that] u(7) by simp
    also have "\<dots> = nmem s1 (padd (NetTxPacket s) i)" using rx [of PktBuf] eth(2) tx by (auto simp: padd_def)
    finally show ?thesis using u(10) [of "padd (NetTxPacket s) i"] tx by simp
  qed
  then have same: "bytes ?m3 (padd (NetTxPacket s) 14) k = bytes ?m0 (padd (NetTxPacket s) 14) k" for k
    by (intro bytes_cong) simp
  have t: "fst (NetTxPacket s) \<notin> {fst ether, NetOurEther_b}" using tx eth by auto
  note pk = udp_tx_mem_facts(4) [OF t, where dest = dest and dport = dport and sport = sport and n = n, unfolded h]
  have "udp_packet_at ?m3 (padd (NetTxPacket s) 14) (NetOurIP s) dest (word_of_int sport) (word_of_int dport)
      (bytes (nmem s) (padd (NetTxPacket s) 42) n)"
    using udp_packet_at_bytes [OF same [symmetric] pk] by simp
  then have pkt: "udp_frame fr 14 (NetOurIP s) dest (word_of_int sport) (word_of_int dport)
      (bytes (nmem s) (padd (NetTxPacket s) 42) n)"
    unfolding fr_def by (rule udp_frame_bytes) simp
  obtain req where req: "sent s1 = sent s @ [req]" "take 42 req = arp_frame (ether_of s NetBcastAddr)
      (ether_of s NetOurEther) 1 (ether_of s NetOurEther) (NetOurIP s) (ether_of s NetEtherNullAddr)
      (next_hop (s\<lparr>NetArpWaitPacketIP := dest\<rparr>))"
    using u(11) by blast
  show ?thesis
    by (intro exI [of _ req] exI [of _ fr]) (simp add: r req to pkt)
qed

text \<open>C7: With the hardware address unknown, NetSendUDPPacket sends an ARP request for the next hop and keeps
  the packet; when a matching reply arrives in a receive buffer, the packet goes out to the address the reply
  gives, complete, and the request is no longer pending.\<close>

theorem arp_resolves_and_sends:
  fixes s :: "'x net_arp_scheme" and ether et :: nptr and dest :: u32 and dport sport :: int and n :: nat
  assumes ok: "arp_buffers_ok s" and eth: "fst ether \<notin> {Null, PktBuf, NetArpPacketBuf}" "fst et \<notin> {PktBuf, fst ether}"
    and dest: "dest \<noteq> 0" "dest \<noteq> 0xFFFFFFFF" and null: "bytes (nmem s) ether 6 = bytes (nmem s) NetEtherNullAddr 6"
    and s1: "s1 = snd (NetSendUDPPacket ether dest dport sport (int n) s)"
    and rx: "\<And>b i. b \<noteq> fst et \<Longrightarrow> m (b, i) = nmem s1 (b, i)"
    and reply: "arp_for_us m (NetOurIP s) (padd et 14) len" "ntohs (ld16 m (padd et 20)) = 2"
      "ld32 m (padd et 28) = next_hop (s\<lparr>NetArpWaitPacketIP := dest\<rparr>)"
  shows "\<exists>req fr. sent (ArpReceive et (padd et 14) len (s1\<lparr>nmem := m\<rparr>)) = sent s @ [req, fr] \<and>
    take 42 req = arp_frame (ether_of s NetBcastAddr) (ether_of s NetOurEther) 1 (ether_of s NetOurEther)
      (NetOurIP s) (ether_of s NetEtherNullAddr) (next_hop (s\<lparr>NetArpWaitPacketIP := dest\<rparr>)) \<and>
    take 6 fr = bytes m (padd et 22) 6 \<and>
    udp_frame fr 14 (NetOurIP s) dest (word_of_int sport) (word_of_int dport)
      (bytes (nmem s) (padd (NetTxPacket s) 42) n) \<and>
    NetArpWaitPacketIP (ArpReceive et (padd et 14) len (s1\<lparr>nmem := m\<rparr>)) = 0"
  by (rule resolve_and_send [OF assms])

theorem arp_resolves_and_sends_witness:
  "\<exists>req fr. let s1 = snd (NetSendUDPPacket NetServerEther 0x8000000A 69 1024 (int 9) sample_arp);
       m = received (arp_frame (replicate 6 2) [1, 2, 3, 4, 5, 6] 2 [1, 2, 3, 4, 5, 6] 0x8000000A (replicate 6 2)
         0xB300000A) (nmem s1)
     in sent (ArpReceive (Driver 0, 0) (Driver 0, 14) 28 (s1\<lparr>nmem := m\<rparr>)) = [req, fr] \<and>
       take 6 fr = [1, 2, 3, 4, 5, 6] \<and> udp_frame fr 14 0xB300000A 0x8000000A 1024 69 (replicate 9 0)"
proof -
  define s1 where "s1 = snd (NetSendUDPPacket NetServerEther 0x8000000A 69 1024 (int 9) sample_arp)"
  let ?m = "received (arp_frame (replicate 6 2) [1, 2, 3, 4, 5, 6] 2 [1, 2, 3, 4, 5, 6] 0x8000000A (replicate 6 2)
         0xB300000A) (nmem s1)"
  have l: "length (replicate 6 (2 :: u8)) = 6" "length [1, 2, 3, 4, 5, 6 :: u8] = 6"
    and ip: "(0xB300000A :: u32) \<noteq> 0"
    by simp_all
  note r = received_arp [OF l(1,2,2,1), where op = 2 and spa = "0x8000000A" and tpa = "0xB300000A" and m = "nmem s1"]
  have p: "nmem sample_arp = sample_mem" "sent sample_arp = []" "NetOurIP sample_arp = 0xB300000A"
    "NetTxPacket sample_arp = (PktBuf, 0)"
    "next_hop (sample_arp\<lparr>NetArpWaitPacketIP := 0x8000000A\<rparr>) = 0x8000000A"
    by (simp_all add: sample_arp_def next_hop_def)
  have n: "bytes (nmem sample_arp) NetServerEther 6 = bytes (nmem sample_arp) NetEtherNullAddr 6"
    unfolding p(1) sample_bytes by (simp add: object_defs)
  have e: "fst NetServerEther \<notin> {Null, PktBuf, NetArpPacketBuf}" "fst (Driver 0, 0 :: nat) \<notin> {PktBuf, fst NetServerEther}"
    "(0x8000000A :: u32) \<noteq> 0" "(0x8000000A :: u32) \<noteq> 0xFFFFFFFF"
    by (simp_all add: object_defs)
  have x: "?m (b, i) = nmem s1 (b, i)" if "b \<noteq> fst (Driver 0, 0 :: nat)" for b i
    using that by (simp add: received_other)
  have q: "arp_for_us ?m (NetOurIP sample_arp) (padd (Driver 0, 0) 14) 28" "ntohs (ld16 ?m (padd (Driver 0, 0) 20)) = 2"
    "ld32 ?m (padd (Driver 0, 0) 28) = next_hop (sample_arp\<lparr>NetArpWaitPacketIP := 0x8000000A\<rparr>)"
    using r(2,5) r(6) [OF ip] by (simp_all add: p)
  have b: "bytes sample_mem (PktBuf, 42) 9 = replicate 9 0"
    by (rule nth_equalityI) (auto simp: sample_mem_def)
  show ?thesis
    unfolding s1_def [symmetric] Let_def
    using arp_resolves_and_sends [OF sample_arp_ok e n s1_def x q] r(4) b by (simp add: p) blast
qed

end
