(* ===== verification/Ping.thy ===== *)
theory Ping
  imports Arp
begin

unbundle bit_operations_syntax

text \<open>
  net/ping.c: the echo request, its reply and timeout, and the answer to echo requests of others.
\<close>

record net_ping = net_arp +
  PingSeqNo :: u16
  NetPingIP :: u32

definition set_icmp_header :: "nptr \<Rightarrow> u32 \<Rightarrow> 'x net_ping_scheme \<Rightarrow> 'x net_ping_scheme" where
  "set_icmp_header pkt dest s =
    (let ip = pkt; icmp = padd pkt IP_HDR_SIZE;
         s = net_set_ip_header pkt dest (NetOurIP s) s;
         m = nmem s;
         m = st16 m (ip_len ip) (htons (of_nat IP_ICMP_HDR_SIZE));
         m = st8 m (ip_p ip) IPPROTO_ICMP;
         m = st16 m (ip_sum ip) (ucast (NOT (NetCksum m ip (int IP_HDR_SIZE div 2))));
         m = st8 m (icmp_type icmp) ICMP_ECHO_REQUEST;
         m = st8 m (icmp_code icmp) 0;
         m = st16 m (icmp_checksum icmp) 0;
         m = st16 m (icmp_id icmp) 0;
         m = st16 m (icmp_sequence icmp) (htons (PingSeqNo s));
         m = st16 m (icmp_checksum icmp) (ucast (NOT (NetCksum m icmp (int ICMP_HDR_SIZE div 2))))
     in s\<lparr>nmem := m, PingSeqNo := PingSeqNo s + 1\<rparr>)"

definition ping_send :: "'x net_ping_scheme \<Rightarrow> int \<times> 'x net_ping_scheme" where
  "ping_send s =
    (let s = s\<lparr>NetArpWaitPacketIP := NetPingIP s\<rparr>;
         (eth_hdr_size, s) = NetSetEther (NetTxPacket s) NetEtherNullAddr PROT_IP s;
         pkt = padd (NetTxPacket s) eth_hdr_size;
         s = set_icmp_header pkt (NetPingIP s) s;
         s = s\<lparr>NetArpWaitTxPacketSize := int (eth_hdr_size + IP_ICMP_HDR_SIZE), NetArpWaitTry := 1\<rparr>;
         (t, s) = net_get_timer 0 s
     in (1, ArpRequest (s\<lparr>NetArpWaitTimerStart := t\<rparr>)))"

definition ping_timeout :: "'x net_core_scheme \<Rightarrow> 'x net_core_scheme" where
  "ping_timeout s = net_set_state NETLOOP_FAIL s"

definition ping_start :: "'x net_ping_scheme \<Rightarrow> 'x net_ping_scheme" where
  "ping_start s = snd (ping_send (NetSetTimeout 10000 (Some ping_timeout_f) s))"

text \<open>The number of halfwords of the ICMP part: size_t arithmetic, so a length below 20 wraps.\<close>

definition icmp_halfwords :: "int \<Rightarrow> int" where
  "icmp_halfwords len = uint (drop_bit 1 (as_unsigned (len - int IP_HDR_SIZE)))"

definition ping_answer :: "nptr \<Rightarrow> nptr \<Rightarrow> int \<Rightarrow> 'x net_core_scheme \<Rightarrow> 'x net_core_scheme" where
  "ping_answer et ip len s =
    (let icmph = udp_src ip;
         (eth_hdr_size, s) = net_update_ether et (et_src et) PROT_IP s;
         m = nmem s;
         m = st16 m (ip_sum ip) 0;
         m = st16 m (ip_off ip) 0;
         m = NetCopyIP m (ip_dst ip) (ip_src ip);
         m = NetWriteIP m (ip_src ip) (NetOurIP s);
         m = st16 m (ip_sum ip) (ucast (NOT (NetCksum m ip (int IP_HDR_SIZE div 2))));
         m = st8 m (icmp_type icmph) ICMP_ECHO_REPLY;
         m = st16 m (icmp_checksum icmph) 0;
         m = st16 m (icmp_checksum icmph) (ucast (NOT (NetCksum m icmph (icmp_halfwords len))))
     in NetSendPacket et (int eth_hdr_size + len) (s\<lparr>nmem := m\<rparr>))"

definition ping_receive :: "nptr \<Rightarrow> nptr \<Rightarrow> int \<Rightarrow> 'x net_ping_scheme \<Rightarrow> 'x net_ping_scheme" where
  "ping_receive et ip len s =
    (let icmph = udp_src ip; m = nmem s in
     if m (icmp_type icmph) = ICMP_ECHO_REPLY then
       (if NetReadIP m (ip_src ip) = NetPingIP s then net_set_state NETLOOP_SUCCESS s else s)
     else if m (icmp_type icmph) = ICMP_ECHO_REQUEST then ping_answer et ip len s
     else s)"

section \<open>Answering echo requests\<close>

lemma word_sum_offset: "word_sum m (padd p (2 * k)) n = word_sum m p (k + n) - word_sum m p k"
  by (simp add: word_sum_split)

text \<open>
  What a received echo request turns into: the frame goes back to where it came from, with the IP
  addresses exchanged for ours and the sender's, both checksums right (that of the ICMP part over an
  even number of bytes), and everything from the ICMP identifier on unchanged.
\<close>

definition ping_answer_mem :: "nptr \<Rightarrow> nptr \<Rightarrow> int \<Rightarrow> 'x net_core_scheme \<Rightarrow> blk mem" where
  "ping_answer_mem et ip len s = nmem (ping_answer et ip len s)"

lemma ping_answer_facts:
  fixes s :: "'x net_core_scheme" and et :: nptr and len :: int
  assumes "eth_current s \<noteq> None" "fst et \<noteq> NetOurEther_b" "ld16 (nmem s) (padd et 12) = htons 0x0800"
    "28 \<le> len" "len \<le> 65535"
  defines "m \<equiv> ping_answer_mem et (padd et 14) len s"
  shows "ping_answer et (padd et 14) len s = s\<lparr>nmem := m, sent := sent s @ [bytes m et (nat (max 64 (14 + len)))]\<rparr>"
    "bytes m et 6 = bytes (nmem s) (padd et 6) 6" "bytes m (padd et 6) 6 = bytes (nmem s) NetOurEther 6"
    "ld16 m (padd et 12) = htons 0x0800"
    "NetCksumOk m (padd et 14) 10" "ld32 m (padd et 26) = NetOurIP s" "ld32 m (padd et 30) = ld32 (nmem s) (padd et 26)"
    "m (padd et 34) = 0" "NetCksumOk m (padd et 34) ((len - 20) div 2)"
    "\<And>i. 38 \<le> i \<Longrightarrow> m (padd et i) = nmem s (padd et i)"
proof -
  obtain B off where et: "et = (B, off)" by (cases et)
  have B: "B \<noteq> NetOurEther_b" using assms(2) by (simp add: et)
  note ap = memcpy.copy_apply forward_safe_def st8_apply st16_apply st32_apply
  define n where "n = nat ((len - 20) div 2)"
  have "unat (word_of_int (len - 20) :: u32) = nat (len - 20)"
    using assms(4,5) unfolding unsigned_of_int by (simp add: take_bit_int_eq_self)
  then have "unat (drop_bit 1 (word_of_int (len - 20) :: u32)) = nat (len - 20) div 2"
    unfolding unat_drop_bit_div by simp
  then have "uint (drop_bit 1 (word_of_int (len - 20) :: u32)) = int (nat (len - 20) div 2)"
    by (metis uint_nat)
  then have hw: "icmp_halfwords len = int n"
    using assms(4) by (simp add: icmp_halfwords_def as_unsigned_def IP_HDR_SIZE_def n_def zdiv_int nat_div_distrib)
  have n: "2 \<le> n" "n \<le> 65536"
    using assms(4,5) by (simp_all add: n_def)
  define m0 where "m0 = memcpy (memcpy (nmem s) et (padd et 6) 6) (padd et 6) NetOurEther 6"
  define m1 where "m1 = st16 (st16 (st16 m0 (padd et 12) (htons 0x0800)) (padd et 24) 0) (padd et 20) 0"
  define m2 where "m2 = st32 (memcpy m1 (padd et 30) (padd et 26) 4) (padd et 26) (NetOurIP s)"
  define m3 where "m3 = st16 m2 (padd et 24) (ucast (NOT (NetCksum m2 (padd et 14) 10)))"
  define m4 where "m4 = st16 (st8 m3 (padd et 34) 0) (padd et 36) 0"
  define m5 where "m5 = st16 m4 (padd et 36) (ucast (NOT (NetCksum m4 (padd et 34) (int n))))"
  have pl: "ld16 m0 (padd et 12) = htons 0x0800"
    using assms(3) by (subst ld16_cong [where m' = "nmem s"]) (simp_all add: m0_def et ap object_defs B)
  have sz: "(if 14 + len < 64 then 64 else 14 + len) = max 64 (14 + len)" by simp
  have a: "ping_answer et (padd et 14) len s = s\<lparr>nmem := m5, sent := sent s @ [bytes m5 et (nat (max 64 (14 + len)))]\<rparr>"
    using assms(1) pl sz
    by (simp add: ping_answer_def net_update_ether_def Let_def hdr_defs NetCopyIP_def NetWriteIP_def
        NetSendPacket_sent hw m5_def m4_def m3_def m2_def m1_def m0_def)
  then have m: "m = m5" by (simp add: m_def ping_answer_mem_def)
  then show "ping_answer et (padd et 14) len s = s\<lparr>nmem := m, sent := sent s @ [bytes m et (nat (max 64 (14 + len)))]\<rparr>"
    using a by simp
  have hi: "m0 (padd et i) = nmem s (padd et i)" if "12 \<le> i" for i
    using that B by (simp add: m0_def et ap object_defs)
  have lo: "m (padd et i) = m3 (padd et i)" if "i < 34" for i
    using that by (simp add: m m5_def m4_def et ap)
  have m2_lo: "m2 (padd et i) = m1 (padd et i)" if "i < 26" for i
    using that by (simp add: m2_def et ap)
  have "m1 (padd et i) = nmem s (padd et (6 + i))" "m1 (padd et (6 + i)) = nmem s (padd NetOurEther i)"
    if "i < 6" for i
    using that B by (simp_all add: m1_def m0_def et ap object_defs add.assoc)
  moreover have "m (padd et i) = m1 (padd et i)" if "i < 12" for i
    using that m2_lo [of i] lo [of i] by (simp add: m3_def st16_apply)
  ultimately show "bytes m et 6 = bytes (nmem s) (padd et 6) 6" "bytes m (padd et 6) 6 = bytes (nmem s) NetOurEther 6"
    by (auto intro!: bytes_cong)
  have ld3: "ld16 m (padd et i) = ld16 m3 (padd et i)" if "i < 33" for i
    using that lo [of i] lo [of "Suc i"] by (intro ld16_cong) simp_all
  have ld2: "ld16 m2 (padd et i) = ld16 m1 (padd et i)" if "i < 25" for i
    using that m2_lo [of i] m2_lo [of "Suc i"] by (intro ld16_cong) simp_all
  show "ld16 m (padd et 12) = htons 0x0800"
    using ld2 [of 12] by (simp add: ld3 m3_def m1_def mem_simps)
  have "ld16 m2 (padd (padd et 14) (2 * 5)) = 0"
    using ld2 [of 24] by (simp add: m1_def mem_simps)
  from NetCksumOk_store [OF this, of 10] have "NetCksumOk m3 (padd et 14) (int 10)"
    by (simp add: m3_def)
  moreover have "NetCksumOk m (padd et 14) (int 10) = NetCksumOk m3 (padd et 14) (int 10)"
    by (rule NetCksum_cong) (simp_all add: lo)
  ultimately show "NetCksumOk m (padd et 14) 10" by simp
  have ld4: "ld32 m (padd et i) = ld32 m2 (padd et i)" if "26 \<le> i" "i < 31" for i
    using that lo by (intro ld32_cong) (simp add: m3_def st16_apply)
  then show "ld32 m (padd et 26) = NetOurIP s" by (simp add: m2_def)
  have "m2 (padd et (30 + i)) = nmem s (padd et (26 + i))" if "i < 4" for i
    using that hi [of "26 + i"] B by (simp add: m2_def m1_def et ap add.assoc)
  from this [of 0] this [of 1] this [of 2] this [of 3]
  have "ld32 m2 (padd et 30) = ld32 (nmem s) (padd et 26)"
    by (simp add: ld32_def ld16_def)
  then show "ld32 m (padd et 30) = ld32 (nmem s) (padd et 26)" using ld4 [of 30] by simp
  show "m (padd et 34) = 0" by (simp add: m m5_def m4_def st8_apply st16_apply)
  have "ld16 m4 (padd (padd et 34) (2 * 1)) = 0" by (simp add: m4_def)
  from NetCksumOk_store [OF this, of n] have "NetCksumOk m (padd et 34) (int n)"
    using n by (simp add: m m5_def)
  then show "NetCksumOk m (padd et 34) ((len - 20) div 2)"
    using assms(4) by (simp add: n_def)
  show "m (padd et i) = nmem s (padd et i)" if "38 \<le> i" for i
    using that hi [of i] by (simp add: m m5_def m4_def m3_def m2_def m1_def et ap)
qed

section \<open>Sending an echo request\<close>

definition icmp_mem :: "nptr \<Rightarrow> u32 \<Rightarrow> 'x net_ping_scheme \<Rightarrow> blk mem" where
  "icmp_mem pkt dest s = nmem (set_icmp_header pkt dest s)"

lemma set_icmp_header_shape [frame_simps]:
  "set_icmp_header pkt dest s =
    s\<lparr>nmem := icmp_mem pkt dest s, NetIPID := NetIPID s + 1, PingSeqNo := PingSeqNo s + 1\<rparr>"
  by (simp add: icmp_mem_def set_icmp_header_def frame_simps Let_def)

text \<open>An ICMP echo request with both checksums right.\<close>

lemma icmp_mem_facts:
  fixes s :: "'x net_ping_scheme" and pkt :: nptr and dest :: u32
  defines "m \<equiv> icmp_mem pkt dest s"
  shows "m pkt = 0x45" "ld16 m (padd pkt 2) = htons 28" "m (padd pkt 9) = 1" "NetCksumOk m pkt 10"
    "ld32 m (padd pkt 12) = NetOurIP s" "ld32 m (padd pkt 16) = dest" "m (padd pkt 20) = 8" "m (padd pkt 21) = 0"
    "ld16 m (padd pkt 26) = htons (PingSeqNo s)" "NetCksumOk m (padd pkt 20) 4"
    "\<And>q. fst q \<noteq> fst pkt \<or> snd q < snd pkt \<Longrightarrow> m q = nmem s q"
proof -
  define m1 where "m1 = ip_mem pkt dest (NetOurIP s) s"
  define m2 where "m2 = st8 (st16 m1 (padd pkt 2) (htons 28)) (padd pkt 9) 1"
  define m3 where "m3 = st16 m2 (padd pkt 10) (ucast (NOT (NetCksum m2 pkt 10)))"
  define m4 where "m4 = st16 (st16 (st16 (st8 (st8 m3 (padd pkt 20) 8) (padd pkt 21) 0) (padd pkt 22) 0)
      (padd pkt 24) 0) (padd pkt 26) (htons (PingSeqNo s))"
  define m5 where "m5 = st16 m4 (padd pkt 22) (ucast (NOT (NetCksum m4 (padd pkt 20) 4)))"
  note st = st8_apply st16_apply
  note h = ip_mem_facts [where ip = pkt and dest = dest and source = "NetOurIP s" and s = s, folded m1_def]
  have m: "m = m5"
    by (simp add: m_def icmp_mem_def set_icmp_header_def frame_simps Let_def hdr_defs m5_def m4_def m3_def m2_def m1_def)
  have "ld16 m2 (padd pkt (2 * 5)) = 0"
    using h(5) by (simp add: m2_def mem_simps)
  from NetCksumOk_store [OF this, of 10] have "NetCksumOk m3 pkt (int 10)" by (simp add: m3_def)
  moreover have "NetCksumOk m pkt (int 10) = NetCksumOk m3 pkt (int 10)"
    by (rule NetCksum_cong) (simp_all add: m m5_def m4_def st)
  ultimately show "NetCksumOk m pkt 10" by simp
  have "ld16 m4 (padd (padd pkt 20) (2 * 1)) = 0"
    by (simp add: m4_def mem_simps)
  from NetCksumOk_store [OF this, of 4] show "NetCksumOk m (padd pkt 20) 4"
    by (simp add: m m5_def)
  show "m pkt = 0x45" "m (padd pkt 9) = 1" "m (padd pkt 20) = 8" "m (padd pkt 21) = 0"
    using h(1) by (simp_all add: m m5_def m4_def m3_def m2_def st)
  show "ld16 m (padd pkt 2) = htons 28" "ld16 m (padd pkt 26) = htons (PingSeqNo s)"
    by (simp_all add: m m5_def m4_def m3_def m2_def mem_simps)
  have "ld32 m (padd pkt k) = ld32 m1 (padd pkt k)" if "12 \<le> k" "k \<le> 16" for k
    using that by (intro ld32_cong) (simp add: m m5_def m4_def m3_def m2_def st)
  then show "ld32 m (padd pkt 12) = NetOurIP s" "ld32 m (padd pkt 16) = dest"
    using h(6,7) by simp_all
  show "m q = nmem s q" if "fst q \<noteq> fst pkt \<or> snd q < snd pkt" for q
  proof -
    have "q \<noteq> padd pkt k" "q \<noteq> pkt" for k using that by auto
    then show ?thesis using h(9) [OF that] by (simp add: m m5_def m4_def m3_def m2_def st)
  qed
qed

text \<open>ping_receive, branch by branch.\<close>

lemma ping_receive_reply:
  "nmem s (padd ip 20) = 0 \<Longrightarrow>
   ping_receive et ip len s = (if ld32 (nmem s) (padd ip 12) = NetPingIP s then s\<lparr>net_state := NETLOOP_SUCCESS\<rparr> else s)"
  by (simp add: ping_receive_def Let_def hdr_defs NetReadIP_def net_set_state_def)

lemma ping_receive_request:
  "nmem s (padd ip 20) = 8 \<Longrightarrow> ping_receive et ip len s = ping_answer et ip len s"
  by (simp add: ping_receive_def Let_def hdr_defs)

lemma ping_receive_other:
  "nmem s (padd ip 20) \<noteq> 0 \<Longrightarrow> nmem s (padd ip 20) \<noteq> 8 \<Longrightarrow> ping_receive et ip len s = s"
  by (simp add: ping_receive_def Let_def hdr_defs)

section \<open>Properties\<close>


definition sample_ping :: "u8 list \<Rightarrow> net_ping" where
  "sample_ping fr = net_arp.extend (sample_arp\<lparr>nmem := received fr sample_mem\<rparr>) (net_ping.fields 7 0x8000000A)"

lemmas sample_ping_simps = sample_ping_def sample_arp_def net_arp.defs net_ping.defs

text \<open>An echo request of 10.0.0.128 with eight bytes of data.\<close>

definition echo_request :: "u8 list" where
  "echo_request = replicate 6 2 @ [1, 2, 3, 4, 5, 6] @ be16 0x0800 @
    [0x45, 0] @ be16 36 @ [0, 0, 0, 0, 64, 1, 0, 0] @ ip_bytes 0x8000000A @ ip_bytes 0xB300000A @
    [8, 0, 0, 0, 0, 1, 0, 1, 65, 66, 67, 68, 69, 70, 71, 72]"


text \<open>ping_start parks an echo request for NetPingIP in the transmit buffer, with both checksums valid and
  the current sequence number, asks for the next hop's address, and arms the failure timeout.\<close>

theorem ping_start_requests:
  fixes s :: "'x net_ping_scheme"
  assumes ok: "arp_buffers_ok s"
  defines "s' \<equiv> ping_start s" and "p \<equiv> padd (NetTxPacket s) 14"
  shows "\<exists>req. sent s' = sent s @ [req] \<and> take 42 req = arp_frame (ether_of s NetBcastAddr) (ether_of s NetOurEther) 1
      (ether_of s NetOurEther) (NetOurIP s) (ether_of s NetEtherNullAddr) (next_hop (s\<lparr>NetArpWaitPacketIP := NetPingIP s\<rparr>)) \<and>
    NetArpWaitPacketIP s' = NetPingIP s \<and> NetArpWaitTxPacketSize s' = 42 \<and>
    nmem s' p = 0x45 \<and> nmem s' (padd p 9) = 1 \<and> NetCksumOk (nmem s') p 10 \<and>
    ld32 (nmem s') (padd p 12) = NetOurIP s \<and> ld32 (nmem s') (padd p 16) = NetPingIP s \<and>
    nmem s' (padd p 20) = 8 \<and> ld16 (nmem s') (padd p 26) = htons (PingSeqNo s) \<and> NetCksumOk (nmem s') (padd p 20) 4 \<and>
    PingSeqNo s' = PingSeqNo s + 1 \<and> timeHandler s' = Some ping_timeout_f"
proof -
  have tx: "fst (NetTxPacket s) = PktBuf" and h: "NetEthHdrSize s = 14"
    using ok by (auto simp: arp_buffers_ok_def NetEthHdrSize_def ETHER_HDR_SIZE_def)
  define sT where "sT = NetSetTimeout 10000 (Some ping_timeout_f) s"
  define s0 where "s0 = sT\<lparr>NetArpWaitPacketIP := NetPingIP sT\<rparr>"
  have s0: "nmem s0 = nmem s" "sent s0 = sent s" "NetTxPacket s0 = NetTxPacket s" "NetEthHdrSize s0 = 14"
    "NetOurIP s0 = NetOurIP s" "PingSeqNo s0 = PingSeqNo s" "timeHandler s0 = Some ping_timeout_f"
    "NetPingIP s0 = NetPingIP s" "arp_buffers_ok s0" "next_hop s0 = next_hop (s\<lparr>NetArpWaitPacketIP := NetPingIP s\<rparr>)"
    using ok h by (simp_all add: s0_def sT_def NetSetTimeout_def net_get_timer_def case_prod_beta arp_buffers_ok_def
        our_vlanid_def next_hop_def NetEthHdrSize_def)
  define s1 where "s1 = s0\<lparr>nmem := eth_mem (NetTxPacket s) NetEtherNullAddr PROT_IP s0\<rparr>"
  define m where "m = icmp_mem p (NetPingIP s) s1"
  have p: "fst p = PktBuf" by (simp add: p_def tx)
  have ok1: "arp_buffers_ok s1" using s0(9) by (simp add: s1_def)
  define s2 where "s2 = s1\<lparr>nmem := m, NetIPID := NetIPID s1 + 1, PingSeqNo := PingSeqNo s1 + 1,
    NetArpWaitTxPacketSize := 42, NetArpWaitTry := 1, clock := snd (get_timer 0 (clock s1)),
    NetArpWaitTimerStart := fst (get_timer 0 (clock s1))\<rparr>"
  have ok2: "arp_buffers_ok s2"
    using ok1 by (simp add: s2_def arp_buffers_ok_def our_vlanid_def)
  have r: "s' = ArpRequest s2"
    unfolding s'_def ping_start_def ping_send_def Let_def sT_def [symmetric] s0_def [symmetric]
    by (simp add: frame_simps s0 case_prod_beta net_get_timer_def s1_def hdr_defs p_def [symmetric] m_def s2_def)
  note e = eth_mem_facts [of "NetTxPacket s" NetEtherNullAddr, where prot = PROT_IP and s = s0]
  have m0: "nmem s1 q = nmem s q" if "fst q \<noteq> PktBuf" for q
    using e(6) [of q] that tx s0(1) by (simp add: s1_def object_defs)
  note f = icmp_mem_facts [where s = s1 and pkt = p and dest = "NetPingIP s", folded m_def]
  have m2: "nmem s2 q = nmem s q" if "fst q \<noteq> PktBuf" for q
    using f(11) [of q] that p m0 by (simp add: s2_def)
  have eo: "ether_of s2 b = ether_of s b" if "fst b \<noteq> PktBuf" for b
    unfolding ether_of_def by (rule bytes_elsewhere [where B = PktBuf, OF _ that]) (rule m2)
  have nh: "next_hop s2 = next_hop (s\<lparr>NetArpWaitPacketIP := NetPingIP s\<rparr>)"
    unfolding s0(10) [symmetric] by (simp add: s2_def s1_def next_hop_def)
  note q = arp_request_frame [OF ok2]
  have am: "nmem s' b = m b" if "fst b = PktBuf" for b
    using q(2) [of b] that by (simp add: r ArpRequest_shape [OF ok2]) (simp add: s2_def)
  have ld: "ld16 (nmem s') b = ld16 m b" "ld32 (nmem s') b = ld32 m b" if "fst b = PktBuf" for b
    by (rule ld16_cong ld32_cong; rule am; simp add: that)+
  have ck: "NetCksumOk (nmem s') b (int k) = NetCksumOk m b (int k)" if "fst b = PktBuf" "k \<le> 65536" for b k
    by (rule NetCksum_cong) (rule am, simp_all add: that)
  have f4: "NetCksumOk (nmem s') p 10" "NetCksumOk (nmem s') (padd p 20) 4"
    using f(4,10) ck [of p 10] ck [of "padd p 20" 4] p by simp_all
  have fr: "take 42 (bytes (arp_request_mem s2) (NetArpTxPacket s2) 64) =
      arp_frame (ether_of s NetBcastAddr) (ether_of s NetOurEther) 1 (ether_of s NetOurEther) (NetOurIP s)
        (ether_of s NetEtherNullAddr) (next_hop (s\<lparr>NetArpWaitPacketIP := NetPingIP s\<rparr>))"
    using q(1) nh s0(5) by (simp add: take_bytes eo object_defs) (simp add: s2_def s1_def)
  have "sent s' = sent s @ [bytes (arp_request_mem s2) (NetArpTxPacket s2) 64]" "PingSeqNo s' = PingSeqNo s + 1"
    "timeHandler s' = Some ping_timeout_f" "NetArpWaitPacketIP s' = NetPingIP s" "NetArpWaitTxPacketSize s' = 42"
    unfolding r ArpRequest_shape [OF ok2] by (simp_all add: s2_def s1_def s0) (simp add: s0_def sT_def NetSetTimeout_def net_get_timer_def case_prod_beta)
  with f f4 fr show ?thesis
    by (intro exI [of _ "bytes (arp_request_mem s2) (NetArpTxPacket s2) 64"]) (simp add: am ld p s1_def s0)
qed

theorem ping_start_requests_witness:
  "\<exists>req. sent (ping_start (sample_ping [])) = [req] \<and> PingSeqNo (ping_start (sample_ping [])) = 8 \<and>
     nmem (ping_start (sample_ping [])) (PktBuf, 34) = 8 \<and> NetCksumOk (nmem (ping_start (sample_ping []))) (PktBuf, 34) 4"
proof -
  have ok: "arp_buffers_ok (sample_ping [])"
    using sample_arp_ok by (simp add: arp_buffers_ok_def our_vlanid_def sample_ping_simps)
  have p: "sent (sample_ping []) = []" "NetTxPacket (sample_ping []) = (PktBuf, 0)" "PingSeqNo (sample_ping []) = 7"
    by (simp_all add: sample_ping_simps)
  show ?thesis
    using ping_start_requests [OF ok] by (auto simp: p)
qed

end
