(* ===== verification/Tftp.thy ===== *)
theory Tftp
  imports Ping Printf
begin

unbundle bit_operations_syntax

text \<open>
  net/tftp.c in the build's configuration (read transfers only: no TFTPPUT, TFTPSRV, TSIZE and no
  flash target): the statics, the construction and transmission of the client's packets, the packet
  handler, the timeout handler and the start of a transfer.

  The loaded image goes to load_addr in the object Ram; the code that formats and copies strings may
  in principle not return, so the functions that call it are in the option monad.
\<close>

section \<open>State\<close>

record net_tftp = net_ping +
  TftpTimeoutMSecs :: u32
  TftpTimeoutCountMax :: int
  time_start :: u32
  TftpRRQTimeoutCountMax :: int
  TftpRemoteIP :: u32
  TftpRemotePort :: int
  TftpOurPort :: int
  TftpTimeoutCount :: int
  TftpBlock :: u32
  TftpLastBlock :: u32
  TftpBlockWrap :: u32
  TftpBlockWrapOffset :: u32
  TftpState :: int
  TftpBlkSize :: u16
  TftpBlkSizeOption :: u16
  load_addr :: u32

definition WELL_KNOWN_PORT :: int where "WELL_KNOWN_PORT = 69"
definition TIMEOUT :: u32 where "TIMEOUT = 5000"
definition TIMEOUT_COUNT :: int where "TIMEOUT_COUNT = 10"
definition TFTP_RRQ :: u16 where "TFTP_RRQ = 1"
definition TFTP_DATA :: u16 where "TFTP_DATA = 3"
definition TFTP_ACK :: u16 where "TFTP_ACK = 4"
definition TFTP_ERROR :: u16 where "TFTP_ERROR = 5"
definition TFTP_OACK :: u16 where "TFTP_OACK = 6"
definition TFTP_ERR_FILE_NOT_FOUND :: u16 where "TFTP_ERR_FILE_NOT_FOUND = 1"
definition TFTP_ERR_ACCESS_DENIED :: u16 where "TFTP_ERR_ACCESS_DENIED = 2"
definition STATE_SEND_RRQ :: int where "STATE_SEND_RRQ = 1"
definition STATE_DATA :: int where "STATE_DATA = 2"
definition STATE_TOO_LARGE :: int where "STATE_TOO_LARGE = 3"
definition STATE_BAD_MAGIC :: int where "STATE_BAD_MAGIC = 4"
definition STATE_OACK :: int where "STATE_OACK = 5"
definition STATE_RECV_WRQ :: int where "STATE_RECV_WRQ = 6"
definition STATE_SEND_WRQ :: int where "STATE_SEND_WRQ = 7"
definition TFTP_BLOCK_SIZE :: u16 where "TFTP_BLOCK_SIZE = 512"
definition TFTP_SEQUENCE_SIZE :: u32 where "TFTP_SEQUENCE_SIZE = push_bit 16 1"
definition MAX_LEN :: nat where "MAX_LEN = 128"
definition TFTP_MTU_BLOCKSIZE :: u16 where "TFTP_MTU_BLOCKSIZE = 1468"

lemmas tftp_consts = WELL_KNOWN_PORT_def TIMEOUT_def TIMEOUT_COUNT_def TFTP_RRQ_def TFTP_DATA_def TFTP_ACK_def
  TFTP_ERROR_def TFTP_OACK_def TFTP_ERR_FILE_NOT_FOUND_def TFTP_ERR_ACCESS_DENIED_def STATE_SEND_RRQ_def
  STATE_DATA_def STATE_TOO_LARGE_def STATE_BAD_MAGIC_def STATE_OACK_def STATE_RECV_WRQ_def STATE_SEND_WRQ_def
  TFTP_BLOCK_SIZE_def TFTP_SEQUENCE_SIZE_def MAX_LEN_def TFTP_MTU_BLOCKSIZE_def

text \<open>The initial values of the statics.\<close>

definition tftp_statics_init :: "'x net_tftp_scheme \<Rightarrow> 'x net_tftp_scheme" where
  "tftp_statics_init s = s\<lparr>TftpTimeoutMSecs := TIMEOUT, TftpTimeoutCountMax := TIMEOUT_COUNT,
    TftpRRQTimeoutCountMax := TIMEOUT_COUNT, time_start := 0, TftpRemoteIP := 0, TftpRemotePort := 0,
    TftpOurPort := 0, TftpTimeoutCount := 0, TftpBlock := 0, TftpLastBlock := 0, TftpBlockWrap := 0,
    TftpBlockWrapOffset := 0, TftpState := 0, TftpBlkSize := TFTP_BLOCK_SIZE,
    TftpBlkSizeOption := TFTP_MTU_BLOCKSIZE\<rparr>"

text \<open>The formats printed here have no floating point conversion; this is what stands for __dtostr in them.\<close>

definition no_double :: "unit \<Rightarrow> int \<Rightarrow> int \<Rightarrow> bool \<Rightarrow> u8 list" where
  "no_double _ _ _ _ = []"

section \<open>Operations\<close>

definition ram :: "u32 \<Rightarrow> nptr" where
  "ram a = (Ram, unat a)"

definition store_block :: "int \<Rightarrow> nptr \<Rightarrow> u32 \<Rightarrow> 'x net_tftp_scheme \<Rightarrow> 'x net_tftp_scheme" where
  "store_block block src len s =
    (let offset = word_of_int (block * uint (TftpBlkSize s)) + TftpBlockWrapOffset s;
         newsize = offset + len;
         s = s\<lparr>nmem := memcpy (nmem s) (ram (load_addr s + offset)) src (unat len)\<rparr>
     in if NetBootFileXferSize s < newsize then s\<lparr>NetBootFileXferSize := newsize\<rparr> else s)"

definition new_transfer :: "'x net_tftp_scheme \<Rightarrow> 'x net_tftp_scheme" where
  "new_transfer s = s\<lparr>TftpLastBlock := 0, TftpBlockWrap := 0, TftpBlockWrapOffset := 0\<rparr>"

text \<open>restart prints its message and nothing else; show_block_marker prints only.\<close>

definition tftp_restart :: "'x net_tftp_scheme \<Rightarrow> 'x net_tftp_scheme" where
  "tftp_restart s = s"

definition update_block_number :: "'x net_tftp_scheme \<Rightarrow> 'x net_tftp_scheme" where
  "update_block_number s =
    (if TftpBlock s = 0 then
       s\<lparr>TftpBlockWrap := TftpBlockWrap s + 1,
         TftpBlockWrapOffset := TftpBlockWrapOffset s + ucast (TftpBlkSize s) * TFTP_SEQUENCE_SIZE,
         TftpTimeoutCount := 0\<rparr>
     else s)"

definition tftp_complete :: "'x net_tftp_scheme \<Rightarrow> 'x net_tftp_scheme" where
  "tftp_complete s =
    (let (t, s) = net_get_timer (time_start s) s in net_set_state NETLOOP_SUCCESS (s\<lparr>time_start := t\<rparr>))"

text \<open>
  TftpSend builds the packet of the current state in the transmit buffer: the read request with its
  options, an acknowledgement, or an error.  tftp_packet is that part, from the switch; it returns the
  memory and the length.
\<close>

definition tftp_rrq :: "nptr \<Rightarrow> 'x net_tftp_scheme \<Rightarrow> (blk mem \<times> int) option" where
  "tftp_rrq xp s =
    do {
      let m = st16 (nmem s) xp (htons TFTP_RRQ);
      let pkt = padd xp 2;
      m \<leftarrow> strcpy m pkt (view m tftp_filename);
      n \<leftarrow> strlen m tftp_filename;
      let pkt = padd pkt (n + 1);
      m \<leftarrow> strcpy m pkt (lit ''octet'');
      let pkt = padd pkt (5 + 1);
      m \<leftarrow> strcpy m pkt (lit ''timeout'');
      let pkt = padd pkt (7 + 1);
      (m, _) \<leftarrow> sprintf no_double m pkt ''%lu'' [Int32 (TftpTimeoutMSecs s div 1000)];
      n \<leftarrow> strlen m pkt;
      let pkt = padd pkt (n + 1);
      (m, n) \<leftarrow> sprintf no_double m pkt ''blksize%c%d%c'' [Int32 0, Int32 (ucast (TftpBlkSizeOption s)), Int32 0];
      let pkt = padd pkt n;
      Some (m, int (snd pkt) - int (snd xp))
    }"

definition tftp_packet :: "nptr \<Rightarrow> 'x net_tftp_scheme \<Rightarrow> (blk mem \<times> int) option" where
  "tftp_packet pkt s =
    (let m = nmem s in
     if TftpState s = STATE_SEND_RRQ \<or> TftpState s = STATE_SEND_WRQ then tftp_rrq pkt s
     else if TftpState s = STATE_OACK \<or> TftpState s = STATE_RECV_WRQ \<or> TftpState s = STATE_DATA then
       Some (st16 (st16 m pkt (htons TFTP_ACK)) (padd pkt 2) (htons (ucast (TftpBlock s))), 4)
     else if TftpState s = STATE_TOO_LARGE then
       do {
         m \<leftarrow> strcpy (st16 (st16 m pkt (htons TFTP_ERROR)) (padd pkt 2) (htons 3)) (padd pkt 4) (lit ''File too large'');
         Some (m, 4 + 14 + 1)
       }
     else if TftpState s = STATE_BAD_MAGIC then
       do {
         m \<leftarrow> strcpy (st16 (st16 m pkt (htons TFTP_ERROR)) (padd pkt 2) (htons 2)) (padd pkt 4) (lit ''File has bad magic'');
         Some (m, 4 + 18 + 1)
       }
     else Some (m, 0))"

definition TftpSend :: "'x net_tftp_scheme \<Rightarrow> 'x net_tftp_scheme option" where
  "TftpSend s =
    do {
      (m, len) \<leftarrow> tftp_packet (padd (NetTxPacket s) (NetEthHdrSize s + IP_UDP_HDR_SIZE)) s;
      Some (snd (NetSendUDPPacket NetServerEther (TftpRemoteIP s) (TftpRemotePort s) (TftpOurPort s) len (s\<lparr>nmem := m\<rparr>)))
    }"

text \<open>The search for the blksize option: i is an int, compared with the unsigned length.\<close>

function oack_options :: "blk mem \<Rightarrow> nptr \<Rightarrow> u32 \<Rightarrow> nat \<Rightarrow> u16 \<Rightarrow> u16 option" where
  "oack_options m pkt len i blksize =
    (if i + 8 < unat len then
       do {
         c \<leftarrow> strcmp (view m (padd pkt i)) (lit ''blksize'');
         blksize \<leftarrow> (if c = 0 then do { (n, _) \<leftarrow> strtoul (Some (view m (padd pkt (i + 8)))) 10; Some (ucast n) }
                     else Some blksize);
         oack_options m pkt len (i + 1) blksize
       }
     else Some blksize)"
  by pat_completeness auto
termination by (relation "measure (\<lambda>(m, pkt, len, i, b). unat len - i)") auto

declare oack_options.simps [simp del]

text \<open>The DATA case, behind the opcode: pkt points at the block number, len counts from there.\<close>

definition tftp_accept :: "nptr \<Rightarrow> u32 \<Rightarrow> 'x net_tftp_scheme \<Rightarrow> 'x net_tftp_scheme option" where
  "tftp_accept pkt len s =
    (if TftpBlock s = TftpLastBlock s then Some s
     else
       let s = s\<lparr>TftpLastBlock := TftpBlock s, TftpTimeoutCountMax := TIMEOUT_COUNT\<rparr>;
           s = NetSetTimeout (TftpTimeoutMSecs s) (Some TftpTimeout_f) s;
           s = store_block (sint (TftpBlock s - 1)) (padd pkt 2) len s
       in do {
            s \<leftarrow> TftpSend s;
            Some (if len < ucast (TftpBlkSize s) then tftp_complete s else s)
          })"

definition tftp_data :: "nptr \<Rightarrow> u32 \<Rightarrow> u32 \<Rightarrow> 'x net_tftp_scheme \<Rightarrow> 'x net_tftp_scheme option" where
  "tftp_data pkt src len s =
    (if len < 2 then Some s
     else
       let len = len - 2;
           s = update_block_number (s\<lparr>TftpBlock := ucast (ntohs (ld16 (nmem s) pkt))\<rparr>)
       in if TftpState s = STATE_SEND_RRQ \<or> TftpState s = STATE_OACK \<or> TftpState s = STATE_RECV_WRQ then
            let s = new_transfer (s\<lparr>TftpState := STATE_DATA, TftpRemotePort := sint src\<rparr>) in
            if TftpBlock s \<noteq> 1 then Some s else tftp_accept pkt len s
          else tftp_accept pkt len s)"

definition TftpHandler :: "nptr \<Rightarrow> u32 \<Rightarrow> u32 \<Rightarrow> u32 \<Rightarrow> u32 \<Rightarrow> 'x net_tftp_scheme \<Rightarrow> 'x net_tftp_scheme option" where
  "TftpHandler pkt dest sip src len s =
    (if dest \<noteq> as_unsigned (TftpOurPort s) then Some s
     else if TftpState s \<noteq> STATE_SEND_RRQ \<and> src \<noteq> as_unsigned (TftpRemotePort s) \<and>
       TftpState s \<noteq> STATE_RECV_WRQ \<and> TftpState s \<noteq> STATE_SEND_WRQ then Some s
     else if len < 2 then Some s
     else
       let len = len - 2; proto = ld16 (nmem s) pkt; pkt = padd pkt 2 in
       if ntohs proto = TFTP_OACK then
         let s = s\<lparr>TftpState := STATE_OACK, TftpRemotePort := sint src\<rparr> in
         do {
           blksize \<leftarrow> oack_options (nmem s) pkt len 0 (TftpBlkSize s);
           TftpSend (s\<lparr>TftpBlkSize := blksize\<rparr>)
         }
       else if ntohs proto = TFTP_DATA then tftp_data pkt src len s
       else if ntohs proto = TFTP_ERROR then
         (let err = ntohs (ld16 (nmem s) pkt) in
          Some (if err = TFTP_ERR_FILE_NOT_FOUND \<or> err = TFTP_ERR_ACCESS_DENIED then net_set_state NETLOOP_FAIL s else s))
       else Some s)"

definition TftpTimeout :: "'x net_tftp_scheme \<Rightarrow> 'x net_tftp_scheme option" where
  "TftpTimeout s =
    (let s = s\<lparr>TftpTimeoutCount := TftpTimeoutCount s + 1\<rparr> in
     if TftpTimeoutCountMax s < TftpTimeoutCount s then Some (tftp_restart s)
     else
       let s = NetSetTimeout (TftpTimeoutMSecs s) (Some TftpTimeout_f) s in
       if TftpState s \<noteq> STATE_RECV_WRQ then TftpSend s else Some s)"

text \<open>The file name and server of a transfer, from BootFile: name, or server:name, or the default.\<close>

definition tftp_set_filename :: "'x net_tftp_scheme \<Rightarrow> 'x net_tftp_scheme option" where
  "tftp_set_filename s =
    (let ip = NetOurIP s in
     if nmem s BootFile = 0 then
       do {
         (m, _) \<leftarrow> sprintf no_double (nmem s) default_filename ''%02X%02X%02X%02X.img''
           [Int32 (ip AND 0xFF), Int32 (drop_bit 8 ip AND 0xFF), Int32 (drop_bit 16 ip AND 0xFF),
            Int32 (drop_bit 24 ip AND 0xFF)];
         let m = strncpy m tftp_filename default_filename MAX_LEN;
         Some (s\<lparr>nmem := st8 m (padd tftp_filename (MAX_LEN - 1)) 0\<rparr>)
       }
     else
       do {
         p \<leftarrow> strchr (nmem s) BootFile (of_char CHR '':'');
         (case p of
            None \<Rightarrow>
              let m = strncpy (nmem s) tftp_filename BootFile MAX_LEN
              in Some (s\<lparr>nmem := st8 m (padd tftp_filename (MAX_LEN - 1)) 0\<rparr>)
          | Some p \<Rightarrow>
              do {
                ip \<leftarrow> string_to_ip (Some (view (nmem s) BootFile));
                let m = strncpy (nmem s) tftp_filename (padd p 1) MAX_LEN;
                Some (s\<lparr>TftpRemoteIP := ip, nmem := st8 m (padd tftp_filename (MAX_LEN - 1)) 0\<rparr>)
              })
       })"

definition TftpStart :: "proto_t \<Rightarrow> 'x net_tftp_scheme \<Rightarrow> 'x net_tftp_scheme option" where
  "TftpStart protocol s =
    do {
      s \<leftarrow> tftp_set_filename (s\<lparr>TftpRemoteIP := NetServerIP s\<rparr>);
      let s = s\<lparr>TftpState := STATE_SEND_RRQ\<rparr>;
      let (t, s) = net_get_timer 0 s;
      let s = s\<lparr>time_start := t, TftpTimeoutCountMax := TftpRRQTimeoutCountMax s\<rparr>;
      let s = NetSetTimeout (TftpTimeoutMSecs s) (Some TftpTimeout_f) s;
      let s = net_set_udp_handler (Some TftpHandler_f) s;
      let s = s\<lparr>TftpRemotePort := WELL_KNOWN_PORT, TftpTimeoutCount := 0\<rparr>;
      let (t, s) = net_get_timer 0 s;
      let s = s\<lparr>TftpOurPort := sint (1024 + t mod 3072), TftpBlock := 0\<rparr>;
      let s = s\<lparr>nmem := memset (nmem s) NetServerEther 0 6, TftpBlkSize := TFTP_BLOCK_SIZE\<rparr>;
      TftpSend s
    }"

section \<open>What a transmission leaves alone\<close>

lemma tx_only_nmem:
  assumes "tx_only (s\<lparr>nmem := m\<rparr>) s'" "\<And>b i. b \<noteq> PktBuf \<Longrightarrow> m (b, i) = nmem s (b, i)"
  shows "tx_only s s'"
proof -
  have "s'\<lparr>NetIPID := NetIPID s, NetArpWaitPacketIP := NetArpWaitPacketIP s,
      NetArpWaitReplyIP := NetArpWaitReplyIP s, NetArpWaitPacketMAC := NetArpWaitPacketMAC s,
      NetArpWaitTxPacketSize := NetArpWaitTxPacketSize s, NetArpWaitTimerStart := NetArpWaitTimerStart s,
      NetArpWaitTry := NetArpWaitTry s, clock := clock s, sent := sent s, nmem := m\<rparr> = s\<lparr>nmem := m\<rparr>"
    using assms(1) by (simp add: tx_only_def)
  from arg_cong [OF this, where f = "nmem_update (\<lambda>_. nmem s)"] show ?thesis
    using assms by (auto simp: tx_only_def)
qed

lemma strcpy_from_outside:
  assumes "strcpy_from m d v i = Some m'"
  shows "\<forall>q. fst q \<noteq> fst d \<longrightarrow> m' q = m q"
proof (rule strcpy_from.raw_induct [of "\<lambda>m d v i m'. \<forall>q. fst q \<noteq> fst d \<longrightarrow> m' q = m q", OF _ assms])
  fix rec :: "'b mem \<Rightarrow> 'b ptr \<Rightarrow> cview \<Rightarrow> nat \<Rightarrow> 'b mem option" and m d v i m'
  assume IH: "\<And>m d v i m'. rec m d v i = Some m' \<Longrightarrow> \<forall>q. fst q \<noteq> fst d \<longrightarrow> m' q = m q"
    and r: "(let m' = st8 m d (v i) in if v i = 0 then Some m' else rec m' (padd d 1) v (Suc i)) = Some m'"
  show "\<forall>q. fst q \<noteq> fst d \<longrightarrow> m' q = m q"
  proof (cases "v i = 0")
    case False
    then have "rec (st8 m d (v i)) (padd d 1) v (Suc i) = Some m'" using r by (simp add: Let_def)
    from IH [OF this] show ?thesis by (auto simp: st8_apply)
  qed (use r in \<open>auto simp: Let_def st8_apply\<close>)
qed

lemma strcpy_outside: "strcpy m d v = Some m' \<Longrightarrow> fst q \<noteq> fst d \<Longrightarrow> m' q = m q"
  unfolding strcpy_def using strcpy_from_outside by blast

lemma sprintf_outside:
  assumes "sprintf dt m d fmt args = Some (m', n)" "fst q \<noteq> fst d"
  shows "m' q = m q"
proof -
  obtain out where "emit_buffer m d INT_MAX out = (m', n)"
    using assms(1) by (auto simp: sprintf_def split: bind_splits)
  then have "m' = fst (emit_buffer m d INT_MAX out)" by simp
  then show ?thesis
    using assms(2) by (auto simp: emit_buffer_def Let_def st8_apply st_list_other padd_def split: if_splits)
qed

text \<open>The packet builders write the transmit buffer only, and a length that is not negative.\<close>

lemma tftp_rrq_outside:
  assumes "tftp_rrq xp s = Some (m, len)"
  shows "0 \<le> len" "fst q \<noteq> fst xp \<Longrightarrow> m q = nmem s q"
proof -
  obtain m1 m2 m3 m4 m5 n1 n2 n3 n4 where
    a: "strcpy (st16 (nmem s) xp (htons TFTP_RRQ)) (padd xp 2) (view (st16 (nmem s) xp (htons TFTP_RRQ)) tftp_filename) = Some m1"
    and b: "strcpy m1 (padd xp (2 + (n1 + 1))) (lit ''octet'') = Some m2"
    and c: "strcpy m2 (padd xp (2 + (n1 + 1) + 6)) (lit ''timeout'') = Some m3"
    and d: "sprintf no_double m3 (padd xp (2 + (n1 + 1) + 6 + 8)) ''%lu'' [Int32 (TftpTimeoutMSecs s div 1000)] = Some (m4, n2)"
    and e: "sprintf no_double m4 (padd xp (2 + (n1 + 1) + 6 + 8 + (n3 + 1))) ''blksize%c%d%c''
      [Int32 0, Int32 (ucast (TftpBlkSizeOption s)), Int32 0] = Some (m, n4)"
    and l: "len = int (snd (padd xp (2 + (n1 + 1) + 6 + 8 + (n3 + 1) + n4))) - int (snd xp)"
    using assms by (auto simp: tftp_rrq_def Let_def split: bind_splits)
  show "0 \<le> len" by (simp add: l)
  show "m q = nmem s q" if "fst q \<noteq> fst xp"
    using that strcpy_outside [OF a, of q] strcpy_outside [OF b, of q] strcpy_outside [OF c, of q]
      sprintf_outside [OF d, of q] sprintf_outside [OF e, of q] by (auto simp: st16_apply)
qed

lemma tftp_packet_outside:
  assumes "tftp_packet pkt s = Some (m, len)"
  shows "0 \<le> len" "fst q \<noteq> fst pkt \<Longrightarrow> m q = nmem s q"
proof -
  have "0 \<le> len \<and> (fst q \<noteq> fst pkt \<longrightarrow> m q = nmem s q)"
    using assms tftp_rrq_outside(1) [of pkt s m len] tftp_rrq_outside(2) [of pkt s m len q]
    by (auto simp: tftp_packet_def Let_def st16_apply dest!: strcpy_outside [where q = q] split: if_splits bind_splits)
  then show "0 \<le> len" "fst q \<noteq> fst pkt \<Longrightarrow> m q = nmem s q" by blast+
qed

lemma TftpSend_tx_only:
  assumes "arp_buffers_ok s" "TftpSend s = Some s'"
  shows "tx_only s s'"
proof -
  obtain m len where p: "tftp_packet (padd (NetTxPacket s) (NetEthHdrSize s + IP_UDP_HDR_SIZE)) s = Some (m, len)"
    and s': "s' = snd (NetSendUDPPacket NetServerEther (TftpRemoteIP s) (TftpRemotePort s) (TftpOurPort s) len (s\<lparr>nmem := m\<rparr>))"
    using assms(2) by (auto simp: TftpSend_def split: bind_splits)
  note o = tftp_packet_outside [OF p]
  have tx: "fst (NetTxPacket s) = PktBuf" using assms(1) by (simp add: arp_buffers_ok_def)
  have ok: "arp_buffers_ok (s\<lparr>nmem := m\<rparr>)" using assms(1) by simp
  have e: "fst NetServerEther \<noteq> PktBuf" by (simp add: object_defs)
  have n: "int (nat len) = len" using o(1) by simp
  have t: "tx_only (s\<lparr>nmem := m\<rparr>) s'"
    using NetSendUDPPacket_tx_only [OF ok e, of "TftpRemoteIP s" "TftpRemotePort s" "TftpOurPort s" "nat len"]
    unfolding s' n .
  have "m (b, i) = nmem s (b, i)" if "b \<noteq> PktBuf" for b i
    using o(2) [of "(b, i)"] that tx by simp
  then show ?thesis by (rule tx_only_nmem [OF t])
qed

text \<open>In the states of a running transfer there is always a packet to send: the acknowledgement.\<close>

lemma TftpSend_ack:
  assumes "TftpState s = STATE_DATA \<or> TftpState s = STATE_OACK"
  shows "\<exists>s'. TftpSend s = Some s'"
  using assms by (auto simp: TftpSend_def tftp_packet_def Let_def tftp_consts)

lemma tx_only_cases:
  assumes "tx_only s s'"
  obtains i p r mac sz start tr clk snt m where
    "s' = s\<lparr>NetIPID := i, NetArpWaitPacketIP := p, NetArpWaitReplyIP := r, NetArpWaitPacketMAC := mac,
      NetArpWaitTxPacketSize := sz, NetArpWaitTimerStart := start, NetArpWaitTry := tr, clock := clk,
      sent := snt, nmem := m\<rparr>"
    "\<And>b i. b \<noteq> PktBuf \<Longrightarrow> b \<noteq> NetArpPacketBuf \<Longrightarrow> m (b, i) = nmem s (b, i)" "\<exists>fr. snt = sent s @ [fr]"
proof -
  have "s'\<lparr>NetIPID := NetIPID s, NetArpWaitPacketIP := NetArpWaitPacketIP s,
      NetArpWaitReplyIP := NetArpWaitReplyIP s, NetArpWaitPacketMAC := NetArpWaitPacketMAC s,
      NetArpWaitTxPacketSize := NetArpWaitTxPacketSize s, NetArpWaitTimerStart := NetArpWaitTimerStart s,
      NetArpWaitTry := NetArpWaitTry s, clock := clock s, sent := sent s, nmem := nmem s\<rparr> = s"
    using assms by (simp add: tx_only_def)
  from arg_cong [OF this, where f = "\<lambda>t. t\<lparr>NetIPID := NetIPID s', NetArpWaitPacketIP := NetArpWaitPacketIP s',
      NetArpWaitReplyIP := NetArpWaitReplyIP s', NetArpWaitPacketMAC := NetArpWaitPacketMAC s',
      NetArpWaitTxPacketSize := NetArpWaitTxPacketSize s', NetArpWaitTimerStart := NetArpWaitTimerStart s',
      NetArpWaitTry := NetArpWaitTry s', clock := clock s', sent := sent s', nmem := nmem s'\<rparr>"]
  have e: "s' = s\<lparr>NetIPID := NetIPID s', NetArpWaitPacketIP := NetArpWaitPacketIP s',
      NetArpWaitReplyIP := NetArpWaitReplyIP s', NetArpWaitPacketMAC := NetArpWaitPacketMAC s',
      NetArpWaitTxPacketSize := NetArpWaitTxPacketSize s', NetArpWaitTimerStart := NetArpWaitTimerStart s',
      NetArpWaitTry := NetArpWaitTry s', clock := clock s', sent := sent s', nmem := nmem s'\<rparr>"
    by simp
  show thesis
    by (rule that [OF e]) (use assms in \<open>auto simp: tx_only_def\<close>)
qed

section \<open>Storing blocks\<close>

lemma unat_of_nat32: "n < 2 ^ 32 \<Longrightarrow> unat (of_nat n :: u32) = n"
  by (simp add: unat_of_nat take_bit_nat_eq_self)

lemma store_block_append:
  assumes "fst src \<noteq> Ram" "bytes (nmem s) src (length d) = d"
    "word_of_int (block * uint (TftpBlkSize s)) + TftpBlockWrapOffset s = of_nat k"
    "unat (load_addr s) + k + length d < 2 ^ 32" "bytes (nmem s) (ram (load_addr s)) k = X"
    "NetBootFileXferSize s = of_nat k"
  shows "\<exists>m. store_block block src (of_nat (length d)) s = s\<lparr>nmem := m, NetBootFileXferSize := of_nat (k + length d)\<rparr> \<and>
    bytes m (ram (load_addr s)) (k + length d) = X @ d \<and> (\<forall>b i. b = Ram \<or> m (b, i) = nmem s (b, i))"
proof -
  let ?a = "ram (load_addr s)"
  have ld: "unat (of_nat (length d) :: u32) = length d" "unat (of_nat k :: u32) = k"
    using assms(4) by (simp_all add: unat_of_nat32)
  have dst: "ram (load_addr s + of_nat k) = padd ?a k"
    using assms(4) ld by (simp add: ram_def padd_def unat_word_ariths)
  have f: "forward_safe (padd ?a k) src (length d)" using assms(1) by (simp add: ram_def)
  define m where "m = memcpy (nmem s) (padd ?a k) src (length d)"
  have new: "(of_nat k + of_nat (length d) :: u32) = of_nat (k + length d)" by simp
  have "store_block block src (of_nat (length d)) s =
      (if (of_nat k :: u32) < of_nat (k + length d) then s\<lparr>nmem := m, NetBootFileXferSize := of_nat (k + length d)\<rparr>
       else s\<lparr>nmem := m\<rparr>)"
    unfolding store_block_def assms(3) Let_def ld new dst m_def by (simp add: assms(6))
  also have "\<dots> = s\<lparr>nmem := m, NetBootFileXferSize := of_nat (k + length d)\<rparr>"
  proof (cases "d = []")
    case True
    then show ?thesis using assms(6) [symmetric] by simp
  next
    case False
    have "unat (of_nat (k + length d) :: u32) = k + length d" using assms(4) by (simp only: unat_of_nat32)
    then have "(of_nat k :: u32) < of_nat (k + length d)"
      using False ld(2) by (simp only: word_less_nat_alt) simp
    then show ?thesis by simp
  qed
  finally have r: "store_block block src (of_nat (length d)) s = s\<lparr>nmem := m, NetBootFileXferSize := of_nat (k + length d)\<rparr>" .
  have "bytes m ?a k = bytes (nmem s) ?a k"
    unfolding m_def by (rule bytes_cong) (use memcpy.copy_apply [OF f] in \<open>simp add: padd_def ram_def\<close>)
  moreover have "bytes m (padd ?a k) (length d) = d"
    unfolding m_def memcpy.copy_read [OF f] by (rule assms(2))
  ultimately have "bytes m ?a (k + length d) = X @ d"
    by (simp add: bytes_add assms(5))
  moreover have "\<forall>b i. b = Ram \<or> m (b, i) = nmem s (b, i)"
  proof (intro allI)
    fix b i
    show "b = Ram \<or> m (b, i) = nmem s (b, i)"
      unfolding m_def using memcpy.copy_elsewhere [OF f, of "(b, i)" "nmem s"] by (auto simp: ram_def)
  qed
  ultimately show ?thesis using r by blast
qed

section \<open>A running transfer\<close>

text \<open>
  The state of a transfer in which the blocks ds have been stored: they are the file so far, they
  stand in the RAM from load_addr on, and the block counters agree with their number.  Only the last
  block may be short, and the transfer has succeeded exactly when it is.
\<close>

definition tftp_stored :: "'x net_tftp_scheme \<Rightarrow> u8 list list \<Rightarrow> bool" where
  "tftp_stored s ds \<longleftrightarrow> arp_buffers_ok s \<and>
    (\<forall>d \<in> set ds. length d \<le> unat (TftpBlkSize s)) \<and>
    (\<forall>d \<in> set (butlast ds). length d = unat (TftpBlkSize s)) \<and>
    unat (load_addr s) + length (concat ds) < 2 ^ 32 \<and>
    bytes (nmem s) (ram (load_addr s)) (length (concat ds)) = concat ds \<and>
    NetBootFileXferSize s = of_nat (length (concat ds)) \<and>
    net_state s = (if ds \<noteq> [] \<and> length (last ds) < unat (TftpBlkSize s) then NETLOOP_SUCCESS else NETLOOP_CONTINUE)"

definition tftp_counters :: "'x net_tftp_scheme \<Rightarrow> nat \<Rightarrow> bool" where
  "tftp_counters s n \<longleftrightarrow>
    (if n = 0 then TftpState s = STATE_SEND_RRQ \<or> TftpState s = STATE_OACK
     else TftpState s = STATE_DATA \<and> TftpLastBlock s = of_nat (n mod 65536) \<and>
       TftpBlockWrapOffset s = of_nat (n div 65536 * 65536 * unat (TftpBlkSize s)))"

definition tftp_running :: "'x net_tftp_scheme \<Rightarrow> u8 list list \<Rightarrow> bool" where
  "tftp_running s ds \<longleftrightarrow> tftp_stored s ds \<and> tftp_counters s (length ds)"

lemmas tftp_running_defs = tftp_running_def tftp_stored_def tftp_counters_def

lemma tftp_running_ok: "tftp_running s ds \<Longrightarrow> arp_buffers_ok s"
  by (simp add: tftp_running_defs)

text \<open>A transmission and the timer do not touch it.\<close>

lemma tftp_running_tx:
  assumes "tx_only s s'" "tftp_running s ds"
  shows "tftp_running s' ds" "TftpBlkSize s' = TftpBlkSize s" "load_addr s' = load_addr s"
    "TftpOurPort s' = TftpOurPort s" "TftpRemotePort s' = TftpRemotePort s" "TftpState s' = TftpState s"
    "TftpBlock s' = TftpBlock s"
proof -
  obtain i p r mac sz start tr clk snt m where
    s': "s' = s\<lparr>NetIPID := i, NetArpWaitPacketIP := p, NetArpWaitReplyIP := r, NetArpWaitPacketMAC := mac,
      NetArpWaitTxPacketSize := sz, NetArpWaitTimerStart := start, NetArpWaitTry := tr, clock := clk,
      sent := snt, nmem := m\<rparr>"
    and m: "\<And>b i. b \<noteq> PktBuf \<Longrightarrow> b \<noteq> NetArpPacketBuf \<Longrightarrow> m (b, i) = nmem s (b, i)"
    by (rule tx_only_cases [OF assms(1)]) blast
  have "bytes m (ram (load_addr s)) n = bytes (nmem s) (ram (load_addr s)) n" for n
    by (rule bytes_cong) (simp add: ram_def m)
  then show "tftp_running s' ds"
    using assms(2) tx_only_ok [OF assms(1)] unfolding tftp_running_defs by (auto simp: s')
qed (rule tx_only_cases [OF assms(1)], simp)+

definition timer_only :: "'x net_core_scheme \<Rightarrow> 'x net_core_scheme \<Rightarrow> bool" where
  "timer_only s s' \<longleftrightarrow> (\<exists>th t0 dt clk. s' = s\<lparr>timeHandler := th, timeStart := t0, timeDelta := dt, clock := clk\<rparr>)"

lemma NetSetTimeout_timer_only:
  fixes s :: "'x net_core_scheme"
  shows "timer_only s (NetSetTimeout iv f s)"
proof (cases "iv = 0")
  case True
  have "NetSetTimeout iv f s =
      s\<lparr>timeHandler := None, timeStart := timeStart s, timeDelta := timeDelta s, clock := clock s\<rparr>"
    using True by (simp add: NetSetTimeout_def)
  then show ?thesis
    unfolding timer_only_def by blast
next
  case False
  obtain t c where t: "get_timer 0 (clock s) = (t, c)" by fastforce
  have "NetSetTimeout iv f s = s\<lparr>timeHandler := f, timeStart := t,
      timeDelta := iv * ucast (CONFIG_SYS_HZ (plat c)) div 1000, clock := c\<rparr>"
    using False by (simp add: NetSetTimeout_def net_get_timer_def t Let_def)
  then show ?thesis
    unfolding timer_only_def by blast
qed

lemma tftp_running_timer: "timer_only s s' \<Longrightarrow> tftp_running s' ds = tftp_running s ds"
  unfolding timer_only_def by (elim exE) (simp add: tftp_running_defs arp_buffers_ok_def our_vlanid_def)

text \<open>The offset arithmetic of store_block across block number wraps.\<close>

lemma block_offset:
  fixes B :: u16
  assumes "b = (of_nat (Suc n mod 65536) :: u32)"
  shows "word_of_int (sint (b - 1) * uint B) + of_nat (Suc n div 65536 * 65536 * unat B) = (of_nat (n * unat B) :: u32)"
proof -
  have w: "word_of_int (sint (b - 1) * uint B) = (b - 1) * (of_nat (unat B) :: u32)"
    unfolding of_int_mult of_int_sint by simp
  have "(of_nat (Suc n mod 65536) :: u32) + of_nat (Suc n div 65536 * 65536) = of_nat (Suc n)"
    by (metis of_nat_add add.commute div_mult_mod_eq)
  then have "b - 1 + of_nat (Suc n div 65536 * 65536) = (of_nat n :: u32)"
    using assms by (simp add: algebra_simps)
  then have "(b - 1) * of_nat (unat B) + of_nat (Suc n div 65536 * 65536) * of_nat (unat B) = (of_nat n * of_nat (unat B) :: u32)"
    by (metis distrib_right)
  then show ?thesis unfolding w by simp
qed

lemma concat_full: "(\<And>d. d \<in> set ds \<Longrightarrow> length d = B) \<Longrightarrow> length (concat ds) = length ds * B"
  by (induction ds) auto

lemma mod_Suc_neq: "(of_nat (Suc n mod 65536) :: u32) \<noteq> of_nat (n mod 65536)"
proof
  have u: "unat (of_nat (k mod 65536) :: u32) = k mod 65536" for k
    by (rule unat_of_nat32) (rule order_less_trans [OF mod_less_divisor], simp_all)
  assume "(of_nat (Suc n mod 65536) :: u32) = of_nat (n mod 65536)"
  then have "unat (of_nat (Suc n mod 65536) :: u32) = unat (of_nat (n mod 65536) :: u32)"
    by (rule arg_cong)
  then have "Suc n mod 65536 = n mod 65536" unfolding u .
  then show False by (simp add: mod_Suc split: if_splits)
qed

text \<open>What the acceptance of a block leaves as it is, apart from the stored data.\<close>

definition tftp_stays :: "'x net_tftp_scheme \<Rightarrow> 'x net_tftp_scheme \<Rightarrow> bool" where
  "tftp_stays s s' \<longleftrightarrow> NetOurIP s' = NetOurIP s \<and> udp_packet_handler s' = udp_packet_handler s \<and>
    (timeHandler s' = None \<or> timeHandler s' = Some TftpTimeout_f) \<and>
    (\<forall>b i. b = Ram \<or> b = PktBuf \<or> b = NetArpPacketBuf \<or> nmem s' (b, i) = nmem s (b, i))"

text \<open>The acceptance of block n+1.\<close>

lemma tftp_accept_next:
  fixes s :: "'x net_tftp_scheme" and ds :: "u8 list list"
  assumes st: "tftp_stored s ds" and full: "ds \<noteq> [] \<Longrightarrow> length (last ds) = unat (TftpBlkSize s)"
    and state: "TftpState s = STATE_DATA" and block: "TftpBlock s = of_nat (Suc (length ds) mod 65536)"
    and new: "TftpBlock s \<noteq> TftpLastBlock s"
    and wrap: "TftpBlockWrapOffset s = of_nat (Suc (length ds) div 65536 * 65536 * unat (TftpBlkSize s))"
    and pkt: "fst pkt \<noteq> Ram" "bytes (nmem s) (padd pkt 2) (length d) = d"
    and d: "length d \<le> unat (TftpBlkSize s)" "unat (load_addr s) + length (concat (ds @ [d])) < 2 ^ 32"
  shows "\<exists>s'. tftp_accept pkt (of_nat (length d)) s = Some s' \<and> tftp_running s' (ds @ [d]) \<and>
    TftpBlkSize s' = TftpBlkSize s \<and> load_addr s' = load_addr s \<and> TftpOurPort s' = TftpOurPort s \<and>
    TftpRemotePort s' = TftpRemotePort s \<and> tftp_stays s s'"
proof -
  define k where "k = length (concat ds)"
  define s1 where "s1 = NetSetTimeout (TftpTimeoutMSecs s) (Some TftpTimeout_f)
    (s\<lparr>TftpLastBlock := TftpBlock s, TftpTimeoutCountMax := TIMEOUT_COUNT\<rparr>)"
  have "timer_only (s\<lparr>TftpLastBlock := TftpBlock s, TftpTimeoutCountMax := TIMEOUT_COUNT\<rparr>) s1"
    unfolding s1_def by (rule NetSetTimeout_timer_only)
  then obtain th t0 dt clk where s1: "s1 = s\<lparr>TftpLastBlock := TftpBlock s, TftpTimeoutCountMax := TIMEOUT_COUNT,
      timeHandler := th, timeStart := t0, timeDelta := dt, clock := clk\<rparr>"
    unfolding timer_only_def by blast
  have "length x = unat (TftpBlkSize s)" if "x \<in> set ds" for x
    using st full that by (cases ds rule: rev_cases) (auto simp: tftp_stored_def)
  then have k: "k = length ds * unat (TftpBlkSize s)" unfolding k_def by (rule concat_full)
  have off: "word_of_int (sint (TftpBlock s1 - 1) * uint (TftpBlkSize s1)) + TftpBlockWrapOffset s1 = of_nat k"
    using block_offset [OF block, of "TftpBlkSize s"] by (simp add: s1 wrap k)
  have b: "bytes (nmem s1) (padd pkt 2) (length d) = d" "unat (load_addr s1) + k + length d < 2 ^ 32"
    "bytes (nmem s1) (ram (load_addr s1)) k = concat ds" "NetBootFileXferSize s1 = of_nat k"
    using st pkt d by (simp_all add: s1 k_def tftp_stored_def)
  obtain m where m: "store_block (sint (TftpBlock s1 - 1)) (padd pkt 2) (of_nat (length d)) s1 =
      s1\<lparr>nmem := m, NetBootFileXferSize := of_nat (k + length d)\<rparr>"
    "bytes m (ram (load_addr s1)) (k + length d) = concat ds @ d" "\<forall>b i. b = Ram \<or> m (b, i) = nmem s1 (b, i)"
    using store_block_append [where src = "padd pkt 2", OF _ b(1) off b(2-4)] pkt(1) by auto
  define s2 where "s2 = s1\<lparr>nmem := m, NetBootFileXferSize := of_nat (k + length d)\<rparr>"
  have sb: "store_block (sint (TftpBlock s1 - 1)) (padd pkt 2) (of_nat (length d)) s1 = s2"
    unfolding s2_def by (rule m(1))
  obtain s3 where s3: "TftpSend s2 = Some s3"
    using TftpSend_ack [of s2] state by (auto simp: s2_def s1)
  have "arp_buffers_ok s2"
    using st by (simp add: tftp_stored_def s2_def s1 arp_buffers_ok_def our_vlanid_def)
  note tx = TftpSend_tx_only [OF this s3]
  obtain i p r mac sz start tr clk' snt m' where
    s3': "s3 = s2\<lparr>NetIPID := i, NetArpWaitPacketIP := p, NetArpWaitReplyIP := r, NetArpWaitPacketMAC := mac,
      NetArpWaitTxPacketSize := sz, NetArpWaitTimerStart := start, NetArpWaitTry := tr, clock := clk',
      sent := snt, nmem := m'\<rparr>"
    and m': "\<And>b i. b \<noteq> PktBuf \<Longrightarrow> b \<noteq> NetArpPacketBuf \<Longrightarrow> m' (b, i) = nmem s2 (b, i)"
    by (rule tx_only_cases [OF tx]) blast
  have ram: "bytes m' (ram (load_addr s)) (length (concat (ds @ [d]))) = concat (ds @ [d])"
  proof -
    have "bytes m' (ram (load_addr s)) j = bytes m (ram (load_addr s)) j" for j
      by (rule bytes_cong) (simp add: ram_def m' s2_def)
    then show ?thesis using m(2) by (simp add: k_def s1)
  qed
  define s4 where "s4 = (if of_nat (length d) < (ucast (TftpBlkSize s3) :: u32) then tftp_complete s3 else s3)"
  have short: "of_nat (length d) < (ucast (TftpBlkSize s) :: u32) \<longleftrightarrow> length d < unat (TftpBlkSize s)"
    using d(2) by (simp add: word_less_nat_alt unat_of_nat32)
  have acc: "tftp_accept pkt (of_nat (length d)) s = Some s4"
    using new s3 by (simp add: tftp_accept_def Let_def sb s4_def flip: s1_def)
  have bok: "arp_buffers_ok s3"
    by (rule tx_only_ok [OF tx]) fact
  have blk: "TftpBlkSize s3 = TftpBlkSize s" "net_state s3 = NETLOOP_CONTINUE"
    using st full by (auto simp: s3' s2_def s1 tftp_stored_def)
  have "\<exists>t c. s4 = s3\<lparr>clock := c, time_start := t,
      net_state := (if length d < unat (TftpBlkSize s) then NETLOOP_SUCCESS else NETLOOP_CONTINUE)\<rparr>"
  proof (cases "length d < unat (TftpBlkSize s)")
    case True
    obtain t c where "get_timer (time_start s3) (clock s3) = (t, c)" by fastforce
    then have "s4 = s3\<lparr>clock := c, time_start := t, net_state := NETLOOP_SUCCESS\<rparr>"
      using True short by (simp add: s4_def blk tftp_complete_def net_get_timer_def net_set_state_def Let_def)
    then show ?thesis using True by auto
  next
    case False
    have "s3 = s3\<lparr>clock := clock s3, time_start := time_start s3, net_state := NETLOOP_CONTINUE\<rparr>"
      using blk(2) by simp
    moreover have "s4 = s3" using False short by (simp add: s4_def blk)
    ultimately have "s4 = s3\<lparr>clock := clock s3, time_start := time_start s3,
        net_state := (if length d < unat (TftpBlkSize s) then NETLOOP_SUCCESS else NETLOOP_CONTINUE)\<rparr>"
      using False by simp
    then show ?thesis by blast
  qed
  then obtain t c where s4: "s4 = s3\<lparr>clock := c, time_start := t,
      net_state := (if length d < unat (TftpBlkSize s) then NETLOOP_SUCCESS else NETLOOP_CONTINUE)\<rparr>"
    by blast
  have same: "TftpBlkSize s4 = TftpBlkSize s" "load_addr s4 = load_addr s"
    "TftpOurPort s4 = TftpOurPort s" "TftpRemotePort s4 = TftpRemotePort s" "NetOurIP s4 = NetOurIP s"
    "udp_packet_handler s4 = udp_packet_handler s" "timeHandler s4 = timeHandler s1" "TftpState s4 = STATE_DATA" "TftpLastBlock s4 = TftpBlock s" "TftpBlockWrapOffset s4 = TftpBlockWrapOffset s"
    "NetBootFileXferSize s4 = of_nat (k + length d)" "nmem s4 = m'"
    "net_state s4 = (if length d < unat (TftpBlkSize s) then NETLOOP_SUCCESS else NETLOOP_CONTINUE)"
    using state by (simp_all add: s4 s3' s2_def s1)
  have "arp_buffers_ok s4" using bok by (simp add: s4 arp_buffers_ok_def our_vlanid_def)
  moreover have "\<forall>d \<in> set ds. length d = unat (TftpBlkSize s)"
    using st full by (cases ds rule: rev_cases) (auto simp: tftp_stored_def)
  ultimately have "tftp_stored s4 (ds @ [d])"
    using ram d by (simp add: tftp_stored_def same k_def)
  moreover have "tftp_counters s4 (length (ds @ [d]))"
    using block wrap by (simp add: tftp_counters_def same)
  ultimately have run: "tftp_running s4 (ds @ [d])" by (simp add: tftp_running_def)
  have "timeHandler s1 = None \<or> timeHandler s1 = Some TftpTimeout_f"
    by (simp add: s1_def NetSetTimeout_def net_get_timer_def Let_def split: prod.splits)
  moreover have "\<forall>b i. b = Ram \<or> b = PktBuf \<or> b = NetArpPacketBuf \<or> nmem s4 (b, i) = nmem s (b, i)"
    using m(3) m' by (auto simp: same s2_def s1)
  ultimately have "tftp_stays s s4" by (simp add: tftp_stays_def same)
  then show ?thesis
    using acc run same(1-4) by blast
qed

lemma unat_u16_of_nat: "unat (of_nat n :: u16) = n mod 65536"
  by (simp add: unat_of_nat take_bit_eq_mod)

lemma unat_of_mod: "unat (of_nat (k mod 65536) :: u32) = k mod 65536"
  by (rule unat_of_nat32) (rule order_less_trans [OF mod_less_divisor], simp_all)

lemma ucast_u16_of_nat: "(ucast (of_nat n :: u16) :: u32) = of_nat (n mod 65536)"
  unfolding word_eq_iff_unat unat_of_mod by (simp add: unat_u16_of_nat)

text \<open>The DATA case for block n+1 of a transfer.\<close>

lemma tftp_data_next:
  fixes s :: "'x net_tftp_scheme" and ds :: "u8 list list"
  assumes run: "tftp_running s ds" and more: "net_state s = NETLOOP_CONTINUE"
    and pkt: "ntohs (ld16 (nmem s) pkt) = of_nat (Suc (length ds))" "bytes (nmem s) (padd pkt 2) (length d) = d" "fst pkt \<noteq> Ram"
    and d: "length d \<le> unat (TftpBlkSize s)" "unat (load_addr s) + length (concat (ds @ [d])) < 2 ^ 32"
  shows "\<exists>s'. tftp_data pkt src (of_nat (length d) + 2) s = Some s' \<and> tftp_running s' (ds @ [d]) \<and>
    TftpBlkSize s' = TftpBlkSize s \<and> load_addr s' = load_addr s \<and> TftpOurPort s' = TftpOurPort s \<and>
    TftpRemotePort s' = (if ds = [] then sint src else TftpRemotePort s) \<and> tftp_stays s s'"
proof -
  let ?len = "of_nat (length d) + 2 :: u32"
  define b where "b = (of_nat (Suc (length ds) mod 65536) :: u32)"
  have b: "ucast (ntohs (ld16 (nmem s) pkt)) = b" unfolding pkt(1) ucast_u16_of_nat b_def ..
  have dl: "length d < 65536" using d(1) unat_lt_pow(2) [of "TftpBlkSize s"] by linarith
  have "unat ?len = length d + 2"
    using dl by (simp add: unat_word_ariths unat_of_nat32)
  then have len: "\<not> ?len < 2" "?len - 2 = of_nat (length d)" by (simp_all add: word_less_nat_alt)
  have st: "tftp_stored s ds" using run by (simp add: tftp_running_def)
  have full: "length (last ds) = unat (TftpBlkSize s)" if "ds \<noteq> []"
  proof -
    have "length (last ds) \<le> unat (TftpBlkSize s)" using st last_in_set [OF that] by (simp add: tftp_stored_def)
    moreover have "\<not> length (last ds) < unat (TftpBlkSize s)"
      using st more that by (auto simp: tftp_stored_def)
    ultimately show ?thesis by simp
  qed
  have b0: "b = 0 \<longleftrightarrow> Suc (length ds) mod 65536 = 0"
    unfolding word_eq_iff_unat b_def unat_of_mod by simp
  define s1 where "s1 = update_block_number (s\<lparr>TftpBlock := b\<rparr>)"
  show ?thesis
  proof (cases "ds = []")
    case True
    have s1: "s1 = s\<lparr>TftpBlock := 1\<rparr>" and b1: "b = 1" using True by (simp_all add: s1_def b_def update_block_number_def)
    define s2 where "s2 = new_transfer (s1\<lparr>TftpState := STATE_DATA, TftpRemotePort := sint src\<rparr>)"
    have r: "tftp_data pkt src ?len s = tftp_accept pkt (of_nat (length d)) s2"
    proof -
      have "TftpState s1 = STATE_SEND_RRQ \<or> TftpState s1 = STATE_OACK \<or> TftpState s1 = STATE_RECV_WRQ"
        using run True by (simp add: s1 tftp_running_def tftp_counters_def) blast
      moreover have "TftpBlock s2 = 1" by (simp add: s2_def s1 new_transfer_def)
      ultimately show ?thesis
        using len(1) unfolding tftp_data_def b len(2) by (simp add: Let_def flip: s1_def s2_def)
    qed
    have s2: "s2 = s\<lparr>TftpBlock := 1, TftpState := STATE_DATA, TftpRemotePort := sint src, TftpLastBlock := 0,
        TftpBlockWrap := 0, TftpBlockWrapOffset := 0\<rparr>"
      by (simp add: s2_def s1 new_transfer_def)
    have "tftp_stored s2 ds"
      using st by (simp add: s2 tftp_stored_def arp_buffers_ok_def our_vlanid_def)
    from tftp_accept_next [OF this, of pkt d] show ?thesis
      using True pkt d unfolding r by (simp add: s2 tftp_stays_def)
  next
    case False
    have c: "TftpState s = STATE_DATA" "TftpLastBlock s = of_nat (length ds mod 65536)"
      "TftpBlockWrapOffset s = of_nat (length ds div 65536 * 65536 * unat (TftpBlkSize s))"
      using run False by (simp_all add: tftp_running_def tftp_counters_def)
    have r: "tftp_data pkt src ?len s = tftp_accept pkt (of_nat (length d)) s1"
      using c(1) len(1) unfolding tftp_data_def b len(2)
      by (simp add: Let_def update_block_number_def tftp_consts s1_def)
    have f: "tftp_stored s1 ds" "TftpState s1 = STATE_DATA" "TftpBlock s1 = b" "TftpLastBlock s1 = TftpLastBlock s"
      "TftpBlkSize s1 = TftpBlkSize s" "nmem s1 = nmem s" "load_addr s1 = load_addr s"
      "TftpOurPort s1 = TftpOurPort s" "TftpRemotePort s1 = TftpRemotePort s" "NetOurIP s1 = NetOurIP s"
      "udp_packet_handler s1 = udp_packet_handler s"
      using st c(1) by (simp_all add: s1_def update_block_number_def tftp_stored_def arp_buffers_ok_def our_vlanid_def)
    have w: "TftpBlockWrapOffset s1 = of_nat (Suc (length ds) div 65536 * 65536 * unat (TftpBlkSize s1))"
    proof (cases "Suc (length ds) mod 65536 = 0")
      case True
      then have "Suc (length ds) div 65536 = Suc (length ds div 65536)" "b = 0" by (simp_all add: div_Suc b_def)
      then show ?thesis
        by (simp add: s1_def update_block_number_def c(3) TFTP_SEQUENCE_SIZE_def push_bit_eq_mult algebra_simps)
    next
      case 2: False
      then have "b \<noteq> 0" "Suc (length ds) div 65536 = length ds div 65536"
        using b0 by (simp_all add: div_Suc)
      then show ?thesis by (simp add: s1_def update_block_number_def c(3))
    qed
    have n: "TftpBlock s1 \<noteq> TftpLastBlock s1" unfolding f b_def c(2) by (rule mod_Suc_neq)
    from tftp_accept_next [OF f(1) _ f(2) _ n w, of pkt d] show ?thesis
      using False full pkt d unfolding r f b_def by (simp add: tftp_stays_def f)
  qed
qed

text \<open>A DATA packet in memory, and the peer of the transfer.\<close>

definition data_packet :: "blk mem \<Rightarrow> nptr \<Rightarrow> nat \<Rightarrow> u8 list \<Rightarrow> bool" where
  "data_packet m pkt n d \<longleftrightarrow> fst pkt \<noteq> Ram \<and> ntohs (ld16 m pkt) = TFTP_DATA \<and>
    ntohs (ld16 m (padd pkt 2)) = of_nat n \<and> bytes m (padd pkt 4) (length d) = d"

definition from_peer :: "'x net_tftp_scheme \<Rightarrow> u32 \<Rightarrow> u32 \<Rightarrow> bool" where
  "from_peer s dest src \<longleftrightarrow> dest = as_unsigned (TftpOurPort s) \<and>
    (TftpState s = STATE_SEND_RRQ \<or> src = as_unsigned (TftpRemotePort s))"

lemma TftpHandler_stray:
  "\<not> from_peer s dest src \<Longrightarrow> TftpState s \<noteq> STATE_RECV_WRQ \<Longrightarrow> TftpState s \<noteq> STATE_SEND_WRQ \<Longrightarrow>
    TftpHandler pkt dest sip src len s = Some s"
  by (auto simp: TftpHandler_def from_peer_def)

lemma tftp_running_state:
  assumes "tftp_running s ds"
  shows "TftpState s = STATE_SEND_RRQ \<or> TftpState s = STATE_OACK \<or> TftpState s = STATE_DATA"
    "TftpState s \<noteq> STATE_RECV_WRQ" "TftpState s \<noteq> STATE_SEND_WRQ"
  using assms by (auto simp: tftp_running_def tftp_counters_def tftp_consts split: if_splits)

lemma TftpHandler_data:
  assumes "from_peer s dest src" "ntohs (ld16 (nmem s) pkt) = TFTP_DATA" "n < 2 ^ 32 - 2"
  shows "TftpHandler pkt dest sip src (of_nat (n + 2)) s = tftp_data (padd pkt 2) src (of_nat n) s"
proof -
  have "unat (of_nat (n + 2) :: u32) = n + 2" using assms(3) by (intro unat_of_nat32) simp
  then have "\<not> (of_nat (n + 2) :: u32) < 2" "(of_nat (n + 2) :: u32) - 2 = of_nat n"
    by (simp_all only: word_less_nat_alt) simp_all
  then show ?thesis
    using assms(1,2) by (auto simp: TftpHandler_def from_peer_def tftp_consts Let_def)
qed

lemma TftpHandler_next:
  fixes s :: "'x net_tftp_scheme" and ds :: "u8 list list"
  assumes run: "tftp_running s ds" and more: "net_state s = NETLOOP_CONTINUE" and peer: "from_peer s dest src"
    and pkt: "data_packet (nmem s) pkt (Suc (length ds)) d"
    and d: "length d \<le> unat (TftpBlkSize s)" "unat (load_addr s) + length (concat (ds @ [d])) < 2 ^ 32"
  shows "\<exists>s'. TftpHandler pkt dest sip src (of_nat (length d + 4)) s = Some s' \<and> tftp_running s' (ds @ [d]) \<and>
    TftpBlkSize s' = TftpBlkSize s \<and> load_addr s' = load_addr s \<and> TftpOurPort s' = TftpOurPort s \<and>
    TftpRemotePort s' = (if ds = [] then sint src else TftpRemotePort s) \<and> tftp_stays s s'"
proof -
  have "length d < 65536" using d(1) unat_lt_pow(2) [of "TftpBlkSize s"] by linarith
  then have h: "TftpHandler pkt dest sip src (of_nat (length d + 4)) s = tftp_data (padd pkt 2) src (of_nat (length d) + 2) s"
    using TftpHandler_data [OF peer, of pkt "length d + 2" sip] pkt by (simp add: data_packet_def add.commute)
  show ?thesis
    unfolding h by (rule tftp_data_next [OF run more _ _ _ d]) (use pkt in \<open>simp_all add: data_packet_def\<close>)
qed

text \<open>A block that repeats the last one is not stored again.\<close>

lemma TftpHandler_repeat:
  fixes s :: "'x net_tftp_scheme" and ds :: "u8 list list"
  assumes run: "tftp_running s ds" and peer: "from_peer s dest src"
    and pkt: "data_packet (nmem s) pkt (length ds) d" and n: "length ds mod 65536 \<noteq> 0"
    and d: "length d < 65536"
  shows "TftpHandler pkt dest sip src (of_nat (length d + 4)) s = Some (s\<lparr>TftpBlock := of_nat (length ds mod 65536)\<rparr>)"
proof -
  have ne: "ds \<noteq> []" using n by auto
  let ?len = "of_nat (length d + 2) :: u32"
  have h: "TftpHandler pkt dest sip src (of_nat (length d + 4)) s = tftp_data (padd pkt 2) src ?len s"
    using TftpHandler_data [OF peer, of pkt "length d + 2" sip] pkt d by (simp add: data_packet_def add.commute)
  have "unat ?len = length d + 2" using d by (intro unat_of_nat32) simp
  then have len: "\<not> ?len < 2" by (simp only: word_less_nat_alt) simp
  have c: "TftpState s = STATE_DATA" "TftpLastBlock s = of_nat (length ds mod 65536)"
    using run ne by (simp_all add: tftp_running_def tftp_counters_def)
  have b: "ucast (ntohs (ld16 (nmem s) (padd pkt 2))) = (of_nat (length ds mod 65536) :: u32)"
    using pkt by (simp add: data_packet_def ucast_u16_of_nat)
  have "(of_nat (length ds mod 65536) :: u32) \<noteq> 0"
    using n unfolding word_eq_iff_unat unat_of_mod by simp
  then show ?thesis
    using len c unfolding h tftp_data_def b
    by (simp add: Let_def update_block_number_def tftp_accept_def tftp_consts)
qed

lemma tftp_running_block: "tftp_running s ds \<Longrightarrow> tftp_running (s\<lparr>TftpBlock := b\<rparr>) ds"
  by (simp add: tftp_running_defs arp_buffers_ok_def our_vlanid_def)

lemma TftpTimeout_running:
  assumes "tftp_running s ds" "TftpTimeout s = Some s'"
  shows "tftp_running s' ds" "load_addr s' = load_addr s" "TftpBlkSize s' = TftpBlkSize s"
proof -
  let ?s1 = "s\<lparr>TftpTimeoutCount := TftpTimeoutCount s + 1\<rparr>"
  define s2 where "s2 = NetSetTimeout (TftpTimeoutMSecs s) (Some TftpTimeout_f) ?s1"
  have r1: "tftp_running ?s1 ds" using assms(1) by (simp add: tftp_running_defs arp_buffers_ok_def our_vlanid_def)
  have t: "timer_only ?s1 s2" unfolding s2_def by (rule NetSetTimeout_timer_only)
  then have r2: "tftp_running s2 ds" using tftp_running_timer r1 by blast
  have k: "load_addr s2 = load_addr s" "TftpBlkSize s2 = TftpBlkSize s"
    using t by (auto simp: timer_only_def)
  have "s' = ?s1 \<or> s' = s2 \<or> TftpSend s2 = Some s'"
    using assms(2) by (auto simp: TftpTimeout_def tftp_restart_def Let_def split: if_splits simp flip: s2_def)
  then have "tftp_running s' ds \<and> load_addr s' = load_addr s \<and> TftpBlkSize s' = TftpBlkSize s"
  proof (elim disjE)
    assume "TftpSend s2 = Some s'"
    from tftp_running_tx [OF TftpSend_tx_only [OF tftp_running_ok [OF r2] this] r2] show ?thesis
      using k by simp
  qed (use r1 r2 k in simp_all)
  then show "tftp_running s' ds" "load_addr s' = load_addr s" "TftpBlkSize s' = TftpBlkSize s" by blast+
qed


text \<open>
  The life of a transfer, as the main loop sees it: the driver receives something, the handler gets
  the next block, the last block again, a packet that is not for the transfer, or the option
  acknowledgement before the first block, or the timer fires.
\<close>

inductive tftp_step :: "'x net_tftp_scheme \<Rightarrow> u8 list list \<Rightarrow> 'x net_tftp_scheme \<Rightarrow> u8 list list \<Rightarrow> bool" where
  driver: "\<forall>i. m (Ram, i) = nmem s (Ram, i) \<Longrightarrow> tftp_step s ds (s\<lparr>nmem := m\<rparr>) ds"
| next_block: "net_state s = NETLOOP_CONTINUE \<Longrightarrow> from_peer s dest src \<Longrightarrow>
    data_packet (nmem s) pkt (Suc (length ds)) d \<Longrightarrow> length d \<le> unat (TftpBlkSize s) \<Longrightarrow>
    unat (load_addr s) + length (concat (ds @ [d])) < 2 ^ 32 \<Longrightarrow>
    TftpHandler pkt dest sip src (of_nat (length d + 4)) s = Some s' \<Longrightarrow> tftp_step s ds s' (ds @ [d])"
| last_again: "from_peer s dest src \<Longrightarrow> data_packet (nmem s) pkt (length ds) d \<Longrightarrow> length ds mod 65536 \<noteq> 0 \<Longrightarrow>
    length d < 65536 \<Longrightarrow> TftpHandler pkt dest sip src (of_nat (length d + 4)) s = Some s' \<Longrightarrow> tftp_step s ds s' ds"
| stray: "\<not> from_peer s dest src \<Longrightarrow> TftpHandler pkt dest sip src len s = Some s' \<Longrightarrow> tftp_step s ds s' ds"
| option_ack: "ds = [] \<Longrightarrow> from_peer s dest src \<Longrightarrow> ntohs (ld16 (nmem s) pkt) = TFTP_OACK \<Longrightarrow> \<not> len < 2 \<Longrightarrow>
    TftpHandler pkt dest sip src len s = Some s' \<Longrightarrow> tftp_step s ds s' ds"
| timer: "TftpTimeout s = Some s' \<Longrightarrow> tftp_step s ds s' ds"

inductive_cases tftp_step_next: "tftp_step s ds s' (ds @ [d])"

lemma TftpHandler_oack_running:
  fixes s :: "'x net_tftp_scheme"
  assumes run: "tftp_running s []" and peer: "from_peer s dest src" and op: "ntohs (ld16 (nmem s) pkt) = TFTP_OACK"
    and len: "\<not> len < 2" and h: "TftpHandler pkt dest sip src len s = Some s'"
  shows "tftp_running s' []" "load_addr s' = load_addr s"
proof -
  obtain blk where s': "TftpSend (s\<lparr>TftpState := STATE_OACK, TftpRemotePort := sint src, TftpBlkSize := blk\<rparr>) = Some s'"
    using peer op len h by (auto simp: TftpHandler_def from_peer_def Let_def split: bind_splits)
  let ?s = "s\<lparr>TftpState := STATE_OACK, TftpRemotePort := sint src, TftpBlkSize := blk\<rparr>"
  have r: "tftp_running ?s []"
    using run by (simp add: tftp_running_defs arp_buffers_ok_def our_vlanid_def)
  show "tftp_running s' []" "load_addr s' = load_addr s"
    using tftp_running_tx [OF TftpSend_tx_only [OF tftp_running_ok [OF r] s'] r] by simp_all
qed

lemma tftp_step_running:
  fixes s :: "'x net_tftp_scheme" and ds :: "u8 list list"
  assumes "tftp_step s ds s' ds'" "tftp_running s ds"
  shows "tftp_running s' ds' \<and> load_addr s' = load_addr s"
  using assms
proof (induction rule: tftp_step.induct)
  case (driver m s ds)
  then have "bytes m (ram (load_addr s)) n = bytes (nmem s) (ram (load_addr s)) n" for n
    by (intro bytes_cong) (simp add: ram_def)
  then show ?case
    using driver by (simp add: tftp_running_defs arp_buffers_ok_def our_vlanid_def)
next
  case (next_block s dest src pkt ds d sip s')
  obtain s2 where "TftpHandler pkt dest sip src (of_nat (length d + 4)) s = Some s2" "tftp_running s2 (ds @ [d])"
    "load_addr s2 = load_addr s"
    using TftpHandler_next [OF next_block(7,1-5)] by blast
  then show ?case using next_block(6) by simp
next
  case (last_again s dest src pkt ds d sip s')
  have "s' = s\<lparr>TftpBlock := of_nat (length ds mod 65536)\<rparr>"
    using TftpHandler_repeat [OF last_again(6,1-4), of sip] last_again(5) by simp
  then show ?case using last_again(6) tftp_running_block by simp
next
  case (stray s dest src pkt sip len s' ds)
  note st = tftp_running_state(2,3) [OF stray(3)]
  have "s' = s" using TftpHandler_stray [OF stray(1) st, of pkt sip len] stray(2) by simp
  then show ?case using stray(3) by simp
next
  case (option_ack ds s dest src pkt len sip s')
  then show ?case using TftpHandler_oack_running [OF _ option_ack(2-5)] by simp
next
  case (timer s s' ds)
  then show ?case using TftpTimeout_running by blast
qed

section \<open>The read request\<close>

text \<open>The request for a file, with its options; the last zero byte is one more than the options need.\<close>

definition rrq_packet :: "u8 list \<Rightarrow> nat \<Rightarrow> nat \<Rightarrow> u8 list" where
  "rrq_packet name timeout blksize = [0, 1] @ name @ [0] @ str_bytes ''octet'' @ [0] @ str_bytes ''timeout'' @ [0] @
    dec_nat timeout @ [0] @ str_bytes ''blksize'' @ [0] @ dec_nat blksize @ [0, 0]"

lemma bytes_st_list_extend:
  assumes "bytes m p k = xs" "j \<le> length ys"
  shows "bytes (st_list m (padd p k) ys) p (k + j) = xs @ take j ys"
proof -
  have "bytes (st_list m (padd p k) ys) p k = bytes m p k"
  proof (rule bytes_cong)
    fix i assume "i < k"
    then show "st_list m (padd p k) ys (padd p i) = m (padd p i)"
      using st_list_apply [of m "padd p k" ys "snd p + i"] by (simp add: padd_def)
  qed
  moreover have "bytes (st_list m (padd p k) ys) (padd p k) j = take j ys"
    by (rule nth_equalityI) (use assms(2) in \<open>auto simp: st_list_padd simp del: padd_simps(2)\<close>)
  ultimately show ?thesis using assms(1) by (simp add: bytes_add)
qed

lemma dec_nat_nonzero: "0 \<notin> set (dec_nat n)"
  by (simp add: dec_nat_string dec_string_not_0)

lemma tftp_rrq_packet:
  fixes s :: "'x net_tftp_scheme"
  assumes name: "cstr (view (nmem s) tftp_filename) name" and xp: "fst xp \<noteq> tftp_filename_b"
  defines "rrq \<equiv> rrq_packet name (unat (TftpTimeoutMSecs s div 1000)) (unat (TftpBlkSizeOption s))"
  shows "\<exists>m. tftp_rrq xp s = Some (m, int (length rrq)) \<and> bytes m xp (length rrq) = rrq"
proof -
  define t where "t = dec_nat (unat (TftpTimeoutMSecs s div 1000))"
  define b where "b = dec_nat (unat (TftpBlkSizeOption s))"
  define m0 where "m0 = st16 (nmem s) xp (htons TFTP_RRQ)"
  define m1 where "m1 = st_list m0 (padd xp 2) (name @ [0])"
  define k1 where "k1 = 2 + (length name + 1)"
  define m2 where "m2 = st_list m1 (padd xp k1) (str_bytes ''octet'' @ [0])"
  define m3 where "m3 = st_list m2 (padd xp (k1 + (5 + 1))) (str_bytes ''timeout'' @ [0])"
  define m4 where "m4 = st_list m3 (padd xp (k1 + (5 + 1) + (7 + 1))) (t @ [0, 0])"
  define k2 where "k2 = k1 + (5 + 1) + (7 + 1) + (length t + 1)"
  define m5 where "m5 = st_list m4 (padd xp k2) (str_bytes ''blksize'' @ [0] @ b @ [0, 0, 0])"
  have fn: "fst xp \<noteq> fst tftp_filename" using xp by (simp add: tftp_filename_def)
  have n0: "cstr (view m0 tftp_filename) name"
  proof -
    have "m0 (padd tftp_filename i) = nmem s (padd tftp_filename i)" for i
      unfolding m0_def by (rule st16_outside) (use fn in \<open>auto simp: prod_eq_iff\<close>)
    then show ?thesis using name by (simp add: cstr_def)
  qed
  have n1: "cstr (view m1 tftp_filename) name"
    using n0 fn cstr_view_elsewhere [of "padd xp 2" tftp_filename m0 "name @ [0]"] by (simp add: m1_def)
  have l: "cstr (lit ''octet'') (str_bytes ''octet'')" "cstr (lit ''timeout'') (str_bytes ''timeout'')"
    by (rule cstr_lit, simp add: str_bytes_def)+
  have t0: "cstr (view m4 (padd xp (k1 + (5 + 1) + (7 + 1)))) t"
    unfolding m4_def t_def cstr_def
    using dec_nat_nonzero [of "unat (TftpTimeoutMSecs s div 1000)"]
    by (auto simp: st_list_padd nth_append in_set_conv_nth simp del: padd_simps(2))
  have e: "strcpy m0 (padd xp 2) (view m0 tftp_filename) = Some m1" "strlen m1 tftp_filename = Some (length name)"
    "strcpy m1 (padd xp k1) (lit ''octet'') = Some m2" "strcpy m2 (padd xp (k1 + (5 + 1))) (lit ''timeout'') = Some m3"
    "sprintf no_double m3 (padd xp (k1 + (5 + 1) + (7 + 1))) ''%lu'' [Int32 (TftpTimeoutMSecs s div 1000)] =
      Some (m4, length t + 1)"
    "strlen m4 (padd xp (k1 + (5 + 1) + (7 + 1))) = Some (length t)"
    "sprintf no_double m4 (padd xp k2) ''blksize%c%d%c'' [Int32 0, Int32 (ucast (TftpBlkSizeOption s)), Int32 0] =
      Some (m5, length b + 10)"
    unfolding m1_def m2_def m3_def m5_def b_def
         apply (rule strcpy_cstr [OF n0])
        apply (rule strlen_cstr [OF n1 [unfolded m1_def]])
       apply (rule strcpy_cstr [OF l(1)])
      apply (rule strcpy_cstr [OF l(2)])
     apply (simp only: sprintf_lu m4_def m3_def m2_def m1_def t_def)
    apply (rule strlen_cstr [OF t0])
    apply (simp only: sprintf_blksize)
    done
  have r: "tftp_rrq xp s = Some (m5, int (snd (padd xp (k2 + (length b + 10)))) - int (snd xp))"
    unfolding tftp_rrq_def Let_def m0_def [symmetric]
    by (simp only: e k1_def [symmetric] k2_def [symmetric] Option.bind.simps prod.case padd_simps(2))
  have b0: "bytes m0 xp 2 = [0, 1]"
    unfolding m0_def TFTP_RRQ_def bytes_def by (simp add: upt_rec st16_htons_bytes [unfolded One_nat_def])
  have b1: "bytes m1 xp k1 = [0, 1] @ name @ [0]"
    unfolding m1_def k1_def using bytes_st_list_extend [OF b0, of "length name + 1" "name @ [0]"] by simp
  have b2: "bytes m2 xp (k1 + (5 + 1)) = ([0, 1] @ name @ [0]) @ str_bytes ''octet'' @ [0]"
    unfolding m2_def using bytes_st_list_extend [OF b1, of "5 + 1" "str_bytes ''octet'' @ [0]"]
    by (simp add: str_bytes_def)
  have b3: "bytes m3 xp (k1 + (5 + 1) + (7 + 1)) = (([0, 1] @ name @ [0]) @ str_bytes ''octet'' @ [0]) @ str_bytes ''timeout'' @ [0]"
    unfolding m3_def using bytes_st_list_extend [OF b2, of "7 + 1" "str_bytes ''timeout'' @ [0]"]
    by (simp add: str_bytes_def)
  have b4: "bytes m4 xp k2 = ((([0, 1] @ name @ [0]) @ str_bytes ''octet'' @ [0]) @ str_bytes ''timeout'' @ [0]) @ t @ [0]"
    unfolding m4_def k2_def using bytes_st_list_extend [OF b3, of "length t + 1" "t @ [0, 0]"] by simp
  define o5 where "o5 = str_bytes ''blksize'' @ [0] @ b @ [0, 0]"
  have o5: "str_bytes ''blksize'' @ [0] @ b @ [0, 0, 0] = o5 @ [0]" "length b + 10 = length o5"
    by (simp_all add: o5_def str_bytes_def)
  have "take (length o5) (o5 @ [0]) = o5" by simp
  then have "bytes m5 xp (k2 + (length b + 10)) =
      (((([0, 1] @ name @ [0]) @ str_bytes ''octet'' @ [0]) @ str_bytes ''timeout'' @ [0]) @ t @ [0]) @ o5"
    using bytes_st_list_extend [OF b4, of "length o5" "o5 @ [0]"] unfolding m5_def o5 by simp
  then have b5: "bytes m5 xp (k2 + (length b + 10)) = rrq"
    by (simp add: rrq_def rrq_packet_def t_def b_def o5_def)
  have "length rrq = k2 + (length b + 10)" using b5 length_bytes by metis
  then show ?thesis using r b5 by simp
qed

lemma cstr_padded:
  assumes "cstr v t" "length t < n"
  shows "cstr (view (st8 (st_list m d (padded t n)) (padd d (n - 1)) 0) d) t"
  using assms by (auto simp: cstr_def st8_apply st_list_padd nth_padded)

text \<open>The file name of a transfer from a boot file name without and with a server.\<close>

lemma tftp_set_filename_plain:
  fixes s :: "'x net_tftp_scheme"
  assumes name: "cstr (view (nmem s) BootFile) name" "name \<noteq> []" "58 \<notin> set name" "length name < 128"
  shows "\<exists>m. tftp_set_filename s = Some (s\<lparr>nmem := m\<rparr>) \<and> cstr (view m tftp_filename) name \<and>
    (\<forall>q. fst q \<noteq> tftp_filename_b \<longrightarrow> m q = nmem s q)"
proof -
  have ne: "nmem s BootFile \<noteq> 0" using name(1,2) by (cases name) (auto simp: cstr_def)
  have c: "strchr (nmem s) BootFile 58 = Some None"
    by (rule strchr_absent [OF name(1)]) (use name(3) in simp_all)
  have f: "fst tftp_filename \<noteq> fst BootFile" by (simp add: object_defs)
  note p = strncpy_padded [OF f name(1), of 128]
  let ?m = "st8 (st_list (nmem s) tftp_filename (padded name 128)) (padd tftp_filename 127) 0"
  have "tftp_set_filename s = Some (s\<lparr>nmem := ?m\<rparr>)"
    using ne c p by (simp add: tftp_set_filename_def MAX_LEN_def Let_def)
  moreover have "cstr (view ?m tftp_filename) name"
    using cstr_padded [OF name(1) name(4), of "nmem s" tftp_filename] by simp
  moreover have "?m q = nmem s q" if "fst q \<noteq> tftp_filename_b" for q
    using that by (auto simp: st8_apply st_list_other tftp_filename_def)
  ultimately show ?thesis by blast
qed

lemma tftp_set_filename_server:
  fixes s :: "'x net_tftp_scheme"
  assumes boot: "cstr (view (nmem s) BootFile) (srv @ 58 # name)" "58 \<notin> set srv" "length name < 128"
    and ip: "string_to_ip (Some (view (nmem s) BootFile)) = Some ip"
  shows "\<exists>m. tftp_set_filename s = Some (s\<lparr>TftpRemoteIP := ip, nmem := m\<rparr>) \<and> cstr (view m tftp_filename) name \<and>
    (\<forall>q. fst q \<noteq> tftp_filename_b \<longrightarrow> m q = nmem s q)"
proof -
  have ne: "nmem s BootFile \<noteq> 0" using boot(1) by (cases srv) (auto simp: cstr_def)
  have c: "strchr (nmem s) BootFile 58 = Some (Some (padd BootFile (length srv)))"
    by (rule strchr_found [OF boot(1)]) (use boot(2) in \<open>auto simp: first_at_def nth_append in_set_conv_nth\<close>)
  have f: "fst tftp_filename \<noteq> fst (padd BootFile (length srv + 1))" by (simp add: object_defs)
  have n: "cstr (view (nmem s) (padd BootFile (length srv + 1))) name"
    using cstr_drop [OF boot(1), of "length srv + 1"] by (simp add: cstr_def)
  note p = strncpy_padded [OF f n, of 128]
  let ?m = "st8 (st_list (nmem s) tftp_filename (padded name 128)) (padd tftp_filename 127) 0"
  have "tftp_set_filename s = Some (s\<lparr>TftpRemoteIP := ip, nmem := ?m\<rparr>)"
    using ne c p ip by (simp add: tftp_set_filename_def MAX_LEN_def Let_def)
  moreover have "cstr (view ?m tftp_filename) name"
    using cstr_padded [OF n boot(3), of "nmem s" tftp_filename] by simp
  moreover have "?m q = nmem s q" if "fst q \<noteq> tftp_filename_b" for q
    using that by (auto simp: st8_apply st_list_other tftp_filename_def)
  ultimately show ?thesis by blast
qed


text \<open>
  The start of a transfer: whatever way the file name was found, the read request for it is handed
  to the transmit path, and the transfer is running with no block yet.
\<close>

lemma TftpStart_sends:
  fixes s :: "'x net_tftp_scheme"
  assumes ok: "arp_buffers_ok s" and timeout: "TftpTimeoutMSecs s \<noteq> 0"
    and fn: "tftp_set_filename (s\<lparr>TftpRemoteIP := NetServerIP s\<rparr>) = Some (s\<lparr>TftpRemoteIP := ip, nmem := m\<rparr>)"
    and m: "cstr (view m tftp_filename) name" "\<forall>q. fst q \<noteq> tftp_filename_b \<longrightarrow> m q = nmem s q"
  defines "rrq \<equiv> rrq_packet name (unat (TftpTimeoutMSecs s div 1000)) (unat (TftpBlkSizeOption s))"
  shows "\<exists>s0 port. TftpStart p s = Some (snd (NetSendUDPPacket NetServerEther ip 69 port (int (length rrq)) s0)) \<and>
    1024 \<le> port \<and> port < 4096 \<and> bytes (nmem s0) (padd (NetTxPacket s) 42) (length rrq) = rrq \<and>
    bytes (nmem s0) NetServerEther 6 = replicate 6 0 \<and>
    (\<forall>b i. b \<notin> {tftp_filename_b, NetServerEther_b, PktBuf} \<longrightarrow> nmem s0 (b, i) = nmem s (b, i)) \<and>
    arp_buffers_ok s0 \<and> NetOurIP s0 = NetOurIP s \<and> NetOurSubnetMask s0 = NetOurSubnetMask s \<and>
    NetOurGatewayIP s0 = NetOurGatewayIP s \<and> NetTxPacket s0 = NetTxPacket s \<and> sent s0 = sent s \<and>
    TftpState s0 = STATE_SEND_RRQ \<and> TftpOurPort s0 = port \<and> TftpRemoteIP s0 = ip \<and> TftpRemotePort s0 = 69 \<and>
    TftpBlkSize s0 = 512 \<and> TftpTimeoutCount s0 = 0 \<and> TftpTimeoutCountMax s0 = TftpRRQTimeoutCountMax s \<and>
    load_addr s0 = load_addr s \<and> NetBootFileXferSize s0 = NetBootFileXferSize s \<and> net_state s0 = net_state s \<and>
    udp_packet_handler s0 = TftpHandler_f \<and> timeHandler s0 = Some TftpTimeout_f \<and> cstr (view (nmem s0) tftp_filename) name"
proof -
  have h: "NetEthHdrSize s = 14" and tx: "fst (NetTxPacket s) = PktBuf"
    using ok by (auto simp: arp_buffers_ok_def NetEthHdrSize_def ETHER_HDR_SIZE_def)
  obtain t1 c1 where t1: "get_timer 0 (clock s) = (t1, c1)" by fastforce
  obtain t2 c2 where t2: "get_timer 0 c1 = (t2, c2)" by fastforce
  obtain t3 c3 where t3: "get_timer 0 c2 = (t3, c3)" by fastforce
  define port where "port = sint (1024 + t3 mod 3072)"
  define m1 where "m1 = memset m NetServerEther 0 6"
  define s1 where "s1 = s\<lparr>TftpRemoteIP := ip, TftpState := STATE_SEND_RRQ, time_start := t1,
    TftpTimeoutCountMax := TftpRRQTimeoutCountMax s, timeHandler := Some TftpTimeout_f, timeStart := t2,
    timeDelta := TftpTimeoutMSecs s * ucast (CONFIG_SYS_HZ (plat c2)) div 1000,
    udp_packet_handler := TftpHandler_f, TftpRemotePort := 69, TftpTimeoutCount := 0, clock := c3,
    TftpOurPort := port, TftpBlock := 0, nmem := m1, TftpBlkSize := 512\<rparr>"
  have st: "TftpStart p s = TftpSend s1"
    unfolding TftpStart_def fn
    using timeout by (simp add: Let_def net_get_timer_def t1 t2 t3 NetSetTimeout_def net_set_udp_handler_def
        WELL_KNOWN_PORT_def TFTP_BLOCK_SIZE_def s1_def m1_def port_def)
  have n1: "cstr (view m1 tftp_filename) name"
    using m(1) by (simp add: cstr_def m1_def memset_fill fill_ref_apply padd_def object_defs)
  obtain m2 where r: "tftp_rrq (padd (NetTxPacket s) 42) s1 = Some (m2, int (length rrq))"
    "bytes m2 (padd (NetTxPacket s) 42) (length rrq) = rrq"
    using tftp_rrq_packet [of s1 name "padd (NetTxPacket s) 42"] n1 tx by (auto simp: rrq_def s1_def)
  have m2: "m2 q = m1 q" if "fst q \<noteq> PktBuf" for q
    using tftp_rrq_outside(2) [OF r(1), of q] that tx by (simp add: s1_def)
  let ?s0 = "s1\<lparr>nmem := m2\<rparr>"
  have h1: "NetEthHdrSize s1 = 14" using h by (simp add: s1_def NetEthHdrSize_def our_vlanid_def)
  have snd: "TftpStart p s = Some (snd (NetSendUDPPacket NetServerEther ip 69 port (int (length rrq)) ?s0))"
  proof -
    have "tftp_packet (padd (NetTxPacket s1) (NetEthHdrSize s1 + IP_UDP_HDR_SIZE)) s1 = Some (m2, int (length rrq))"
    proof -
      have x: "NetTxPacket s1 = NetTxPacket s" "TftpState s1 = STATE_SEND_RRQ" by (simp_all add: s1_def)
      show ?thesis
        unfolding h1 tftp_packet_def Let_def x IP_UDP_HDR_SIZE_def using r(1) by simp
    qed
    then show ?thesis
      unfolding st TftpSend_def by simp (simp add: s1_def)
  qed
  have p: "1024 \<le> port" "port < 4096"
  proof -
    have "unat t3 mod 3072 < 3072" by simp
    then have u: "unat (1024 + t3 mod 3072) = 1024 + unat t3 mod 3072"
      by (simp add: unat_word_ariths)
    then show "1024 \<le> port" "port < 4096" by (simp_all add: port_def sint_cases u)
  qed
  have o: "m2 (b, i) = nmem s (b, i)" if "b \<notin> {tftp_filename_b, NetServerEther_b, PktBuf}" for b i
    using that m(2) by (simp add: m2 m1_def memset_fill fill_ref_apply object_defs)
  have e: "bytes m2 NetServerEther 6 = replicate 6 0"
    by (rule nth_equalityI) (simp_all add: m2 m1_def memset_fill fill_ref_apply object_defs)
  have n2: "cstr (view m2 tftp_filename) name" using n1 by (simp add: cstr_def m2 tftp_filename_def)
  have ok0: "arp_buffers_ok ?s0" using ok by (simp add: s1_def arp_buffers_ok_def our_vlanid_def)
  show ?thesis
    by (rule exI [of _ ?s0], rule exI [of _ port]) (use snd p o e ok0 r(2) n2 in \<open>simp add: s1_def\<close>)
qed

section \<open>A whole file\<close>

text \<open>The server's side: a file in blocks of B bytes, the last one short, each sent in a DATA packet.\<close>

function blocks_of :: "nat \<Rightarrow> u8 list \<Rightarrow> u8 list list" where
  "blocks_of B F = (if B = 0 \<or> length F < B then [F] else take B F # blocks_of B (drop B F))"
  by pat_completeness auto
termination by (relation "measure (\<lambda>(B, F). length F)") auto

declare blocks_of.simps [simp del]

definition data_bytes :: "nat \<Rightarrow> u8 list \<Rightarrow> u8 list" where
  "data_bytes n d = be16 TFTP_DATA @ be16 (of_nat n) @ d"

fun tftp_feed :: "nptr \<Rightarrow> u32 \<Rightarrow> u32 \<Rightarrow> nat \<Rightarrow> u8 list list \<Rightarrow> 'x net_tftp_scheme \<Rightarrow> 'x net_tftp_scheme option" where
  "tftp_feed pkt sip src n [] s = Some s"
| "tftp_feed pkt sip src n (d # ds) s =
    do {
      s \<leftarrow> TftpHandler pkt (as_unsigned (TftpOurPort s)) sip src (of_nat (length d + 4))
        (s\<lparr>nmem := st_list (nmem s) pkt (data_bytes (Suc n) d)\<rparr>);
      tftp_feed pkt sip src (Suc n) ds s
    }"

lemma blocks_of_facts:
  "concat (blocks_of B F) = F" "blocks_of B F \<noteq> []"
  "0 < B \<Longrightarrow> d \<in> set (butlast (blocks_of B F)) \<Longrightarrow> length d = B"
  "0 < B \<Longrightarrow> length (last (blocks_of B F)) < B"
proof (induction B F rule: blocks_of.induct)
  case (1 B F)
  { case 1 show ?case using "1.IH"(1) by (subst blocks_of.simps) auto }
  { case 2 show ?case by (subst blocks_of.simps) auto }
  { case 3 then show ?case using "1.IH"(2,3) by (subst (asm) blocks_of.simps) (auto split: if_splits) }
  { case 4 then show ?case using "1.IH"(2,4) by (subst blocks_of.simps) auto }
qed

lemma data_packet_received:
  assumes "fst pkt \<noteq> Ram"
  shows "data_packet (st_list m pkt (data_bytes n d)) pkt n d"
proof -
  let ?m = "st_list m pkt (data_bytes n d)"
  have l: "length (be16 v) = 2" for v by simp
  have "bytes ?m pkt (length (data_bytes n d)) = data_bytes n d" by simp
  then have b: "bytes ?m pkt (2 + (2 + length d)) = be16 TFTP_DATA @ be16 (of_nat n) @ d"
    by (simp add: data_bytes_def)
  then have "bytes ?m pkt 2 = be16 TFTP_DATA" "bytes ?m (padd pkt 2) 2 = be16 (of_nat n)" 
    "bytes ?m (padd pkt 4) (length d) = d"
    unfolding bytes_add by simp_all
  then show ?thesis
    using assms by (simp add: data_packet_def ld16_be16)
qed

lemma tftp_feed_running:
  fixes s :: "'x net_tftp_scheme"
  assumes "tftp_running s ds" "net_state s = NETLOOP_CONTINUE" "fst pkt \<notin> {Ram}"
    "TftpState s = STATE_SEND_RRQ \<or> src = as_unsigned (TftpRemotePort s)"
    "\<forall>d \<in> set (butlast es). length d = unat (TftpBlkSize s)" "es \<noteq> [] \<Longrightarrow> length (last es) < unat (TftpBlkSize s)"
    "unat (load_addr s) + length (concat (ds @ es)) < 2 ^ 32"
  shows "\<exists>s'. tftp_feed pkt sip src (length ds) es s = Some s' \<and> tftp_running s' (ds @ es) \<and>
    load_addr s' = load_addr s \<and> TftpBlkSize s' = TftpBlkSize s"
  using assms
proof (induction es arbitrary: ds s)
  case (Cons d es)
  let ?s = "s\<lparr>nmem := st_list (nmem s) pkt (data_bytes (Suc (length ds)) d)\<rparr>"
  have "bytes (nmem ?s) (ram (load_addr s)) n = bytes (nmem s) (ram (load_addr s)) n" for n
    using Cons.prems(3) by (auto intro!: bytes_cong st_list_other simp: ram_def)
  then have run: "tftp_running ?s ds"
    using Cons.prems(1) by (simp add: tftp_running_defs arp_buffers_ok_def our_vlanid_def)
  have d: "length d \<le> unat (TftpBlkSize ?s)"
    using Cons.prems(5,6) by (cases "es = []") auto
  have b: "unat (load_addr ?s) + length (concat (ds @ [d])) < 2 ^ 32" using Cons.prems(7) by simp
  have pk: "data_packet (nmem ?s) pkt (Suc (length ds)) d"
    using data_packet_received Cons.prems(3) by simp
  have peer: "from_peer ?s (as_unsigned (TftpOurPort s)) src"
    using Cons.prems(4) by (auto simp: from_peer_def)
  obtain s2 where s2: "TftpHandler pkt (as_unsigned (TftpOurPort s)) sip src (of_nat (length d + 4)) ?s = Some s2"
    "tftp_running s2 (ds @ [d])" "TftpBlkSize s2 = TftpBlkSize s" "load_addr s2 = load_addr s"
    "TftpRemotePort s2 = (if ds = [] then sint src else TftpRemotePort s)"
    using TftpHandler_next [OF run _ peer pk d b, of sip] Cons.prems(2) by auto
  show ?case
  proof (cases "es = []")
    case True
    then show ?thesis using s2 by simp
  next
    case False
    have full: "length d = unat (TftpBlkSize s)" using Cons.prems(5) False by simp
    have "net_state s2 = NETLOOP_CONTINUE"
      using s2(2,3) full by (simp add: tftp_running_def tftp_stored_def)
    moreover have "src = as_unsigned (TftpRemotePort s2)"
      using s2(5) Cons.prems(1,4) by (auto simp: as_unsigned_def tftp_running_def tftp_counters_def tftp_consts split: if_splits)
    ultimately obtain s' where "tftp_feed pkt sip src (length (ds @ [d])) es s2 = Some s'" "tftp_running s' ((ds @ [d]) @ es)"
      "load_addr s' = load_addr s2" "TftpBlkSize s' = TftpBlkSize s2"
      using Cons.IH [OF s2(2), of] Cons.prems(3,5-7) s2(3,4) False by auto
    then show ?thesis using s2 by simp
  qed
qed simp

section \<open>Properties\<close>

text \<open>C4: TftpStart with a plain boot file name asks for the server's address, and when a matching ARP reply
  arrives the read request goes out to the server: a UDP packet to port 69 from a port in 1024..4095 whose
  payload is the request for the file with the timeout and block size options.\<close>

theorem tftp_requests_file:
  fixes s :: "'x net_tftp_scheme" and et :: nptr
  assumes ok: "arp_buffers_ok s" and timeout: "TftpTimeoutMSecs s \<noteq> 0"
    and name: "cstr (view (nmem s) BootFile) name" "name \<noteq> []" "58 \<notin> set name" "length name < 128"
    and dest: "NetServerIP s \<noteq> 0" "NetServerIP s \<noteq> 0xFFFFFFFF"
    and null: "bytes (nmem s) NetEtherNullAddr 6 = replicate 6 0" and et: "fst et \<notin> {PktBuf, NetServerEther_b}"
  defines "rrq \<equiv> rrq_packet name (unat (TftpTimeoutMSecs s div 1000)) (unat (TftpBlkSizeOption s))"
  shows "\<exists>s1. TftpStart p s = Some s1 \<and> 1024 \<le> TftpOurPort s1 \<and> TftpOurPort s1 < 4096 \<and>
    (\<forall>m. (\<forall>b i. b = fst et \<or> m (b, i) = nmem s1 (b, i)) \<and> arp_for_us m (NetOurIP s) (padd et 14) len \<and>
      ntohs (ld16 m (padd et 20)) = 2 \<and> ld32 m (padd et 28) = next_hop (s\<lparr>NetArpWaitPacketIP := NetServerIP s\<rparr>) \<longrightarrow>
      (\<exists>req fr. sent (ArpReceive et (padd et 14) len (s1\<lparr>nmem := m\<rparr>)) = sent s @ [req, fr] \<and>
        take 6 fr = bytes m (padd et 22) 6 \<and>
        udp_frame fr 14 (NetOurIP s) (NetServerIP s) (word_of_int (TftpOurPort s1)) 69 rrq))"
proof -
  let ?s = "s\<lparr>TftpRemoteIP := NetServerIP s\<rparr>"
  obtain m0 where m0: "tftp_set_filename ?s = Some (s\<lparr>TftpRemoteIP := NetServerIP s, nmem := m0\<rparr>)"
    "cstr (view m0 tftp_filename) name" "\<forall>q. fst q \<noteq> tftp_filename_b \<longrightarrow> m0 q = nmem s q"
    using tftp_set_filename_plain [of ?s name] name by auto
  obtain s0 port where s0: "TftpStart p s = Some (snd (NetSendUDPPacket NetServerEther (NetServerIP s) 69 port (int (length rrq)) s0))"
    "1024 \<le> port" "port < 4096" "bytes (nmem s0) (padd (NetTxPacket s) 42) (length rrq) = rrq"
    "bytes (nmem s0) NetServerEther 6 = replicate 6 0"
    "\<forall>b i. b \<notin> {tftp_filename_b, NetServerEther_b, PktBuf} \<longrightarrow> nmem s0 (b, i) = nmem s (b, i)"
    "arp_buffers_ok s0" "NetOurIP s0 = NetOurIP s" "NetOurSubnetMask s0 = NetOurSubnetMask s"
    "NetOurGatewayIP s0 = NetOurGatewayIP s" "NetTxPacket s0 = NetTxPacket s" "sent s0 = sent s" "TftpOurPort s0 = port"
    using TftpStart_sends [OF ok timeout m0, of p] unfolding rrq_def by blast
  define s1 where "s1 = snd (NetSendUDPPacket NetServerEther (NetServerIP s) 69 port (int (length rrq)) s0)"
  have e: "fst NetServerEther \<notin> {Null, PktBuf, NetArpPacketBuf}" "fst et \<notin> {PktBuf, fst NetServerEther}"
    using et by (simp_all add: object_defs)
  have n: "bytes (nmem s0) NetServerEther 6 = bytes (nmem s0) NetEtherNullAddr 6"
  proof -
    have "bytes (nmem s0) NetEtherNullAddr 6 = bytes (nmem s) NetEtherNullAddr 6"
      by (rule bytes_cong) (use s0(6) in \<open>simp add: object_defs\<close>)
    then show ?thesis using s0(5) null by simp
  qed
  have hop: "next_hop (s0\<lparr>NetArpWaitPacketIP := NetServerIP s\<rparr>) = next_hop (s\<lparr>NetArpWaitPacketIP := NetServerIP s\<rparr>)"
    by (simp add: next_hop_def s0)
  have "tx_only s0 s1"
    unfolding s1_def by (rule NetSendUDPPacket_tx_only [OF s0(7)]) (simp add: object_defs)
  then have port: "TftpOurPort s1 = port"
    using s0(13) by (auto elim!: tx_only_cases)
  note r = resolve_and_send [OF s0(7) e dest n s1_def, where m = m for m, unfolded s0(8,11,12) hop s0(4)]
  show ?thesis
    using s0(1-3) port r by (intro exI [of _ s1]) (auto simp: s1_def [symmetric], blast)
qed

text \<open>A machine about to load the file boot.\<close>

definition sample_tftp :: net_tftp where
  "sample_tftp = net_ping.extend ((sample_ping [])\<lparr>nmem := st_list sample_mem BootFile (str_bytes ''boot'')\<rparr>)
     (net_tftp.fields 5000 10 0 10 0 0 0 0 0 0 0 0 0 512 1468 0x1000)"

lemmas sample_tftp_simps = sample_tftp_def sample_ping_simps net_tftp.defs

lemma sample_tftp_ok: "arp_buffers_ok sample_tftp"
  using sample_arp_ok by (simp add: arp_buffers_ok_def our_vlanid_def sample_tftp_simps)

lemma sample_tftp_sel: "sent sample_tftp = []" "NetServerIP sample_tftp = 0x8000000A" "NetOurIP sample_tftp = 0xB300000A"
  "TftpTimeoutMSecs sample_tftp = 5000" "TftpBlkSizeOption sample_tftp = 1468" "load_addr sample_tftp = 0x1000"
  "nmem sample_tftp = st_list sample_mem BootFile (str_bytes ''boot'')" "net_state sample_tftp = NETLOOP_CONTINUE"
  "TftpBlkSize sample_tftp = 512" "NetBootFileXferSize sample_tftp = 0"
  "next_hop (sample_tftp\<lparr>NetArpWaitPacketIP := 0x8000000A\<rparr>) = 0x8000000A"
  by (simp_all add: sample_tftp_simps next_hop_def)

theorem tftp_requests_file_witness:
  "\<exists>s1 req fr. TftpStart TFTPGET sample_tftp = Some s1 \<and>
     (let m = received (arp_frame (replicate 6 2) [1, 2, 3, 4, 5, 6] 2 [1, 2, 3, 4, 5, 6] 0x8000000A (replicate 6 2)
         0xB300000A) (nmem s1)
      in sent (ArpReceive (Driver 0, 0) (Driver 0, 14) 28 (s1\<lparr>nmem := m\<rparr>)) = [req, fr]) \<and>
     take 6 fr = [1, 2, 3, 4, 5, 6] \<and>
     udp_frame fr 14 0xB300000A 0x8000000A (word_of_int (TftpOurPort s1)) 69
       ([0, 1] @ str_bytes ''boot'' @ [0] @ str_bytes ''octet'' @ [0] @ str_bytes ''timeout'' @ [0] @ dec_nat 5 @ [0] @
        str_bytes ''blksize'' @ [0] @ dec_nat 1468 @ [0, 0])"
proof -
  have b: "bytes sample_mem p n = replicate n (case fst p of NetOurEther_b \<Rightarrow> 2 | NetBcastAddr_b \<Rightarrow> 255 | _ \<Rightarrow> 0)" for p n
    by (rule nth_equalityI) (auto simp: sample_mem_def split: blk.splits)
  have name: "cstr (view (nmem sample_tftp) BootFile) (str_bytes ''boot'')"
    by (auto simp: cstr_def sample_tftp_sel st_list_padd sample_mem_def object_defs str_bytes_def nth_Cons st8_apply split: nat.splits)
  have name': "str_bytes ''boot'' \<noteq> []" "58 \<notin> set (str_bytes ''boot'')" "length (str_bytes ''boot'') < 128"
    by (simp_all add: str_bytes_def)
  have null: "bytes (nmem sample_tftp) NetEtherNullAddr 6 = replicate 6 0"
    by (rule nth_equalityI) (simp_all add: sample_tftp_sel st_list_other object_defs sample_mem_def)
  have et: "fst (Driver 0, 0 :: nat) \<notin> {PktBuf, NetServerEther_b}" by simp
  have l: "length (replicate 6 (2 :: u8)) = 6" "length [1, 2, 3, 4, 5, 6 :: u8] = 6" and ip: "(0xB300000A :: u32) \<noteq> 0"
    by simp_all
  have t: "TftpTimeoutMSecs sample_tftp \<noteq> 0" "NetServerIP sample_tftp \<noteq> 0" "NetServerIP sample_tftp \<noteq> 0xFFFFFFFF"
    by (simp_all add: sample_tftp_sel)
  obtain s1 where s1: "TftpStart TFTPGET sample_tftp = Some s1"
    "\<forall>m. (\<forall>b i. b = Driver 0 \<or> m (b, i) = nmem s1 (b, i)) \<and> arp_for_us m 0xB300000A (Driver 0, 14) 28 \<and>
      ntohs (ld16 m (Driver 0, 20)) = 2 \<and> ld32 m (Driver 0, 28) = 0x8000000A \<longrightarrow>
      (\<exists>req fr. sent (ArpReceive (Driver 0, 0) (Driver 0, 14) 28 (s1\<lparr>nmem := m\<rparr>)) = [] @ [req, fr] \<and>
        take 6 fr = bytes m (Driver 0, 22) 6 \<and>
        udp_frame fr 14 0xB300000A 0x8000000A (word_of_int (TftpOurPort s1)) 69
          (rrq_packet (str_bytes ''boot'') (unat (5000 div 1000 :: u32)) (unat (1468 :: u16))))"
    using tftp_requests_file [OF sample_tftp_ok t(1) name name' t(2,3) null et, of TFTPGET 28]
    unfolding sample_tftp_sel padd_simps fst_conv by auto
  note r = received_arp [OF l(1,2,2,1), where op = 2 and spa = "0x8000000A" and tpa = "0xB300000A" and m = "nmem s1"]
  let ?m = "received (arp_frame (replicate 6 2) [1, 2, 3, 4, 5, 6] 2 [1, 2, 3, 4, 5, 6] 0x8000000A (replicate 6 2)
         0xB300000A) (nmem s1)"
  have "\<forall>b i. b = Driver 0 \<or> ?m (b, i) = nmem s1 (b, i)"
    using received_other [of "(b, i)" for b i] by (metis fst_conv)
  then have x: "(\<forall>b i. b = Driver 0 \<or> ?m (b, i) = nmem s1 (b, i)) \<and> arp_for_us ?m 0xB300000A (Driver 0, 14) 28 \<and>
      ntohs (ld16 ?m (Driver 0, 20)) = 2 \<and> ld32 ?m (Driver 0, 28) = 0x8000000A"
    using r(2,5) r(6) [OF ip] by (intro conjI)
  obtain req fr where "sent (ArpReceive (Driver 0, 0) (Driver 0, 14) 28 (s1\<lparr>nmem := ?m\<rparr>)) = [req, fr]"
    "take 6 fr = [1, 2, 3, 4, 5, 6]" "udp_frame fr 14 0xB300000A 0x8000000A (word_of_int (TftpOurPort s1)) 69
          (rrq_packet (str_bytes ''boot'') (unat (5000 div 1000 :: u32)) (unat (1468 :: u16)))"
    using s1(2) [THEN spec, THEN mp, OF x] unfolding r(4) append_Nil by blast
  then show ?thesis
    using s1(1) by (intro exI [of _ s1] exI [of _ req] exI [of _ fr]) (simp add: rrq_packet_def)
qed


text \<open>C3: For every file and every negotiated block size, feeding its blocks in order to the handler of a
  transfer ends with the file at load_addr, its length as the size, and success.\<close>

theorem tftp_receives_file:
  fixes s :: "'x net_tftp_scheme"
  assumes "arp_buffers_ok s" "TftpState s = STATE_SEND_RRQ" "NetBootFileXferSize s = 0" "net_state s = NETLOOP_CONTINUE"
    "TftpBlkSize s \<noteq> 0" "unat (load_addr s) + length F < 2 ^ 32" "fst pkt \<noteq> Ram"
  shows "\<exists>s'. tftp_feed pkt sip src 0 (blocks_of (unat (TftpBlkSize s)) F) s = Some s' \<and>
    bytes (nmem s') (ram (load_addr s)) (length F) = F \<and> NetBootFileXferSize s' = of_nat (length F) \<and>
    net_state s' = NETLOOP_SUCCESS"
proof -
  let ?ds = "blocks_of (unat (TftpBlkSize s)) F"
  have B: "0 < unat (TftpBlkSize s)" using assms(5) by (simp add: unat_gt_0)
  note f = blocks_of_facts(1,2) [of "unat (TftpBlkSize s)" F] blocks_of_facts(3,4) [OF B, where F = F]
  have "tftp_running s []"
    using assms(1-4) unat_lt_pow(3) [of "load_addr s"]
    by (simp add: tftp_running_def tftp_stored_def tftp_counters_def bytes_def)
  from tftp_feed_running [OF this assms(4), of pkt src ?ds sip] obtain s' where
    "tftp_feed pkt sip src 0 ?ds s = Some s'" "tftp_running s' ?ds" "load_addr s' = load_addr s" "TftpBlkSize s' = TftpBlkSize s"
    using assms(2,6,7) f by auto
  then show ?thesis
    using f by (auto simp: tftp_running_def tftp_stored_def)
qed


text \<open>A small file in the first packet of a transfer.\<close>

definition sample_running :: net_tftp where
  "sample_running = sample_tftp\<lparr>TftpState := STATE_SEND_RRQ, TftpOurPort := 1030\<rparr>"

lemma sample_running_sel: "arp_buffers_ok sample_running" "TftpState sample_running = STATE_SEND_RRQ"
  "NetBootFileXferSize sample_running = 0" "net_state sample_running = NETLOOP_CONTINUE" "TftpBlkSize sample_running = 512"
  "load_addr sample_running = 0x1000"
  using sample_tftp_ok by (simp_all add: sample_running_def arp_buffers_ok_def our_vlanid_def sample_tftp_sel)

theorem tftp_receives_file_witness:
  "\<exists>s'. tftp_feed (Driver 0, 42) 0x8000000A 4000 0 (blocks_of 512 (replicate 1000 7)) sample_running = Some s' \<and>
     bytes (nmem s') (Ram, 0x1000) 1000 = replicate 1000 7 \<and> NetBootFileXferSize s' = 1000 \<and> net_state s' = NETLOOP_SUCCESS"
  using tftp_receives_file [OF sample_running_sel(1-4), where F = "replicate 1000 7" and pkt = "(Driver 0, 42)" and
      src = 4000 and sip = "0x8000000A"] sample_running_sel(5,6)
  by (simp add: ram_def)


end
