(* ===== verification/NetRx.thy ===== *)
theory NetRx
  imports Tftp
begin

unbundle bit_operations_syntax

text \<open>
  The receive path of net/net_core.c: the checks of NetReceive on the Ethernet, VLAN and IP headers,
  and the delivery to ARP, to ICMP and to the installed UDP handler.  Built without IP fragment
  reassembly and without the UDP checksum test, as the configuration has it.
\<close>

section \<open>Operations\<close>

definition NetDefragment :: "blk mem \<Rightarrow> nptr \<Rightarrow> nptr option" where
  "NetDefragment m ip =
    (if ntohs (ld16 m (ip_off ip)) AND (IP_OFFS OR IP_FLAGS_MFRAG) = 0 then Some ip else None)"

text \<open>receive_icmp: a host redirect is only printed; everything else goes to the ping code.\<close>

definition receive_icmp :: "nptr \<Rightarrow> int \<Rightarrow> u32 \<Rightarrow> nptr \<Rightarrow> 'x net_ping_scheme \<Rightarrow> 'x net_ping_scheme" where
  "receive_icmp ip len src_ip et s =
    (if nmem s (icmp_type (udp_src ip)) = ICMP_REDIRECT then s else ping_receive et ip len s)"

text \<open>The call through udp_packet_handler.\<close>

definition call_udp_handler :: "nptr \<Rightarrow> u32 \<Rightarrow> u32 \<Rightarrow> u32 \<Rightarrow> u32 \<Rightarrow> 'x net_tftp_scheme \<Rightarrow> 'x net_tftp_scheme option" where
  "call_udp_handler pkt dport sip sport len s =
    (case udp_packet_handler s of
       dummy_handler \<Rightarrow> Some s
     | TftpHandler_f \<Rightarrow> TftpHandler pkt dport sip sport len s)"

text \<open>
  The Ethernet part of NetReceive: the protocol, where its packet starts and how long that is, or
  nothing when the frame is dropped.  The sizes are size_t, so comparing them makes len unsigned.
\<close>

definition rx_ether :: "nptr \<Rightarrow> int \<Rightarrow> 'x net_core_scheme \<Rightarrow> (u32 \<times> nptr \<times> int) option" where
  "rx_ether inpkt len s =
    (let m = nmem s; et = inpkt in
     if as_unsigned len < of_nat ETHER_HDR_SIZE then None
     else
       let myvlanid = our_vlanid s;
           mynvlanid = (if ntohs (NetOurNativeVLAN s) = 0xffff then VLAN_NONE else ntohs (NetOurNativeVLAN s));
           eth_proto = ntohs (ld16 m (et_protlen et))
       in do {
            (eth_proto, ip, len, vlanid) \<leftarrow>
              (if eth_proto < 1514 then
                 Some (ntohs (ld16 m (et_prot et)), padd inpkt E802_HDR_SIZE, len - int E802_HDR_SIZE, VLAN_NONE)
               else if ucast eth_proto \<noteq> PROT_VLAN then
                 Some (eth_proto, padd inpkt ETHER_HDR_SIZE, len - int ETHER_HDR_SIZE, VLAN_NONE)
               else if as_unsigned len < of_nat VLAN_ETHER_HDR_SIZE then None
               else if ntohs (NetOurVLAN s) AND VLAN_IDMASK = VLAN_NONE then None
               else
                 let cti = ntohs (ld16 m (vet_tag et)) in
                 Some (ntohs (ld16 m (vet_type et)), padd inpkt VLAN_ETHER_HDR_SIZE, len - int VLAN_ETHER_HDR_SIZE,
                   cti AND VLAN_IDMASK));
            if myvlanid AND VLAN_IDMASK \<noteq> VLAN_NONE then
              let vlanid = (if vlanid = VLAN_NONE then mynvlanid AND VLAN_IDMASK else vlanid) in
              if vlanid \<noteq> myvlanid AND VLAN_IDMASK then None else Some (ucast eth_proto, ip, len)
            else Some (ucast eth_proto, ip, len)
          })"

text \<open>The PROT_IP case.\<close>

definition rx_ip :: "nptr \<Rightarrow> nptr \<Rightarrow> int \<Rightarrow> 'x net_tftp_scheme \<Rightarrow> 'x net_tftp_scheme option" where
  "rx_ip et ip len s =
    (let m = nmem s in
     if as_unsigned len < of_nat IP_UDP_HDR_SIZE then Some s
     else if len < uint (ntohs (ld16 m (ip_len ip))) then Some s
     else
       let len = uint (ntohs (ld16 m (ip_len ip))) in
       if m (ip_hl_v ip) AND 0xf0 \<noteq> 0x40 then Some s
       else if 0x05 < m (ip_hl_v ip) AND 0x0f then Some s
       else if \<not> NetCksumOk m ip (int (IP_HDR_SIZE div 2)) then Some s
       else
         let dst_ip = NetReadIP m (ip_dst ip) in
         if NetOurIP s \<noteq> 0 \<and> dst_ip \<noteq> NetOurIP s \<and> dst_ip \<noteq> 0xFFFFFFFF then Some s
         else
           let src_ip = NetReadIP m (ip_src ip) in
           case NetDefragment m ip of
             None \<Rightarrow> Some s
           | Some ip \<Rightarrow>
               if m (ip_p ip) = IPPROTO_ICMP then Some (receive_icmp ip len src_ip et s)
               else if m (ip_p ip) \<noteq> IPPROTO_UDP then Some s
               else
                 call_udp_handler (padd ip IP_UDP_HDR_SIZE) (ucast (ntohs (ld16 m (udp_dst ip)))) src_ip
                   (ucast (ntohs (ld16 m (udp_src ip))))
                   (ucast (ntohs (ld16 m (udp_len ip))) - of_nat UDP_HDR_SIZE) s)"

definition NetReceive :: "nptr \<Rightarrow> int \<Rightarrow> 'x net_tftp_scheme \<Rightarrow> 'x net_tftp_scheme option" where
  "NetReceive inpkt len s =
    (let s = s\<lparr>NetRxPacket := inpkt, NetRxPacketLen := len\<rparr> in
     case rx_ether inpkt len s of
       None \<Rightarrow> Some s
     | Some (eth_proto, ip, len) \<Rightarrow>
         if eth_proto = PROT_ARP then Some (ArpReceive inpkt ip len s)
         else if eth_proto = PROT_IP then rx_ip inpkt ip len s
         else Some s)"

section \<open>Well-formed frames\<close>

text \<open>An untagged Ethernet frame of the given type.\<close>

definition ether_frame :: "blk mem \<Rightarrow> nptr \<Rightarrow> int \<Rightarrow> u16 \<Rightarrow> bool" where
  "ether_frame m p len ty \<longleftrightarrow> ld16 m (padd p 12) = htons ty \<and> 1514 \<le> ty \<and> ucast ty \<noteq> PROT_VLAN \<and>
    14 \<le> len \<and> len < 2 ^ 31"

lemma rx_ether_untagged:
  assumes "ether_frame (nmem s) p len ty" "our_vlanid s AND VLAN_IDMASK = VLAN_NONE"
  shows "rx_ether p len s = Some (ucast ty, padd p 14, len - 14)"
proof -
  have "\<not> as_unsigned len < 14"
    using assms(1) by (simp add: ether_frame_def as_unsigned_def word_less_def uint_word_of_int)
  then show ?thesis
    using assms by (auto simp: rx_ether_def ether_frame_def hdr_defs Let_def PROT_VLAN_def VLAN_NONE_def VLAN_IDMASK_def)
qed

abbreviation rx_note :: "nptr \<Rightarrow> int \<Rightarrow> 'x net_tftp_scheme \<Rightarrow> 'x net_tftp_scheme" where
  "rx_note p len s \<equiv> s\<lparr>NetRxPacket := p, NetRxPacketLen := len\<rparr>"

lemma NetReceive_ether:
  assumes "ether_frame (nmem s) p len ty" "our_vlanid s AND VLAN_IDMASK = VLAN_NONE"
  shows "NetReceive p len s =
    (if ucast ty = PROT_ARP then Some (ArpReceive p (padd p 14) (len - 14) (rx_note p len s))
     else if ucast ty = PROT_IP then rx_ip p (padd p 14) (len - 14) (rx_note p len s)
     else Some (rx_note p len s))"
proof -
  have "rx_ether p len (rx_note p len s) = Some (ucast ty, padd p 14, len - 14)"
    by (rule rx_ether_untagged) (use assms in \<open>simp_all add: our_vlanid_def\<close>)
  then show ?thesis by (simp add: NetReceive_def Let_def)
qed

lemma as_unsigned_le: "0 \<le> i \<Longrightarrow> i < 2 ^ 32 \<Longrightarrow> as_unsigned i < of_nat n \<longleftrightarrow> i < int n" if "n < 2 ^ 32"
  using that by (simp add: as_unsigned_def word_less_def uint_word_of_int unsigned_of_nat take_bit_int_eq_self take_bit_nat_eq_self)

lemma ntohs_of_htons_nat: "n < 65536 \<Longrightarrow> ld16 m p = htons (of_nat n) \<Longrightarrow> uint (ntohs (ld16 m p)) = int n"
  by (simp add: unsigned_of_nat take_bit_nat_eq_self)

text \<open>What an IP packet must be to get past the checks.\<close>

definition ip_acceptable :: "blk mem \<Rightarrow> nptr \<Rightarrow> int \<Rightarrow> u32 \<Rightarrow> bool" where
  "ip_acceptable m ip len ours \<longleftrightarrow> 28 \<le> len \<and> uint (ntohs (ld16 m (ip_len ip))) \<le> len \<and>
    m (ip_hl_v ip) AND 0xf0 = 0x40 \<and> m (ip_hl_v ip) AND 0x0f \<le> 5 \<and> NetCksumOk m ip 10 \<and>
    (ours = 0 \<or> ld32 m (ip_dst ip) = ours \<or> ld32 m (ip_dst ip) = 0xFFFFFFFF) \<and>
    ntohs (ld16 m (ip_off ip)) AND (IP_OFFS OR IP_FLAGS_MFRAG) = 0"

lemma rx_ip_cases:
  fixes s :: "'x net_tftp_scheme"
  assumes "0 \<le> len" "len < 2 ^ 31"
  shows "rx_ip et ip len s =
    (if \<not> ip_acceptable (nmem s) ip len (NetOurIP s) then Some s
     else if nmem s (ip_p ip) = IPPROTO_ICMP then
       Some (receive_icmp ip (uint (ntohs (ld16 (nmem s) (ip_len ip)))) (ld32 (nmem s) (ip_src ip)) et s)
     else if nmem s (ip_p ip) \<noteq> IPPROTO_UDP then Some s
     else call_udp_handler (padd ip 28) (ucast (ntohs (ld16 (nmem s) (udp_dst ip)))) (ld32 (nmem s) (ip_src ip))
       (ucast (ntohs (ld16 (nmem s) (udp_src ip)))) (ucast (ntohs (ld16 (nmem s) (udp_len ip))) - 8) s)"
proof -
  have c: "as_unsigned len < of_nat 28 \<longleftrightarrow> len < int 28"
    by (rule as_unsigned_le) (use assms in simp_all)
  have k: "int (IP_HDR_SIZE div 2) = 10" "(of_nat UDP_HDR_SIZE :: u32) = 8" "IP_UDP_HDR_SIZE = 28"
    by (simp_all add: IP_HDR_SIZE_def UDP_HDR_SIZE_def IP_UDP_HDR_SIZE_def)
  show ?thesis
    unfolding rx_ip_def Let_def k c ip_acceptable_def NetReadIP_def NetDefragment_def by (auto simp: not_less not_le)
qed

text \<open>A UDP packet for us, in an untagged frame, is handed to the UDP handler with its payload.\<close>

lemma NetReceive_udp:
  fixes s :: "'x net_tftp_scheme"
  assumes e: "ether_frame (nmem s) p len 0x0800" "our_vlanid s AND VLAN_IDMASK = VLAN_NONE"
    and u: "udp_packet_at (nmem s) (padd p 14) src dst sport dport payload"
    and l: "42 + length payload \<le> nat len" "28 + length payload < 65536"
    and d: "NetOurIP s = 0 \<or> dst = NetOurIP s \<or> dst = 0xFFFFFFFF"
  shows "NetReceive p len s =
    call_udp_handler (padd p 42) (ucast dport) src (ucast sport) (of_nat (length payload)) (rx_note p len s)"
proof -
  have len: "0 \<le> len - 14" "len - 14 < 2 ^ 31" "28 \<le> len - 14" "int (28 + length payload) \<le> len - 14"
    using e(1) l(1) by (auto simp: ether_frame_def)
  note u' = u [unfolded udp_packet_at_def]
  have il: "uint (ntohs (ld16 (nmem s) (ip_len (padd p 14)))) = int (28 + length payload)"
    by (rule ntohs_of_htons_nat) (use u' l in simp_all)
  have "ucast (of_nat (8 + length payload) :: u16) = (of_nat (8 + length payload) :: u32)"
    unfolding ucast_u16_of_nat using l(2) by simp
  then have ul: "ucast (ntohs (ld16 (nmem s) (udp_len (padd p 14)))) - 8 = (of_nat (length payload) :: u32)"
    using u' by simp
  have "ntohs (ld16 (nmem s) (ip_off (padd p 14))) = 0x4000" "ntohs (ld16 (nmem s) (udp_dst (padd p 14))) = dport"
    "ntohs (ld16 (nmem s) (udp_src (padd p 14))) = sport"
    using u' by simp_all
  note n = this
  have "ip_acceptable (nmem s) (padd p 14) (len - 14) (NetOurIP s)"
    unfolding ip_acceptable_def il n using u' d len(3,4) by (auto simp: IP_OFFS_def IP_FLAGS_MFRAG_def)
  moreover have "nmem s (ip_p (padd p 14)) = 17" "ld32 (nmem s) (ip_src (padd p 14)) = src"
    using u' by (simp_all add: IPPROTO_UDP_def)
  moreover note rx_ip_cases [OF len(1,2), of p "padd p 14" "rx_note p len s"]
  ultimately have "rx_ip p (padd p 14) (len - 14) (rx_note p len s) =
      call_udp_handler (padd p 42) (ucast dport) src (ucast sport) (of_nat (length payload)) (rx_note p len s)"
    by (simp add: IPPROTO_ICMP_def IPPROTO_UDP_def ul n(2,3))
  then show ?thesis
    unfolding NetReceive_ether [OF e] by (simp add: PROT_ARP_def PROT_IP_def)
qed

text \<open>A DATA frame for a running transfer, received from the wire.\<close>

lemma NetReceive_data:
  fixes s :: "'x net_tftp_scheme"
  assumes run: "tftp_running s ds" "net_state s = NETLOOP_CONTINUE" "udp_packet_handler s = TftpHandler_f"
    and e: "ether_frame (nmem s) p len 0x0800" "fst p \<noteq> Ram"
    and u: "udp_packet_at (nmem s) (padd p 14) src dst sport dport (data_bytes (Suc (length ds)) d)"
    and l: "46 + length d \<le> nat len" "length d \<le> unat (TftpBlkSize s)" "length d < 65504"
    and d: "NetOurIP s = 0 \<or> dst = NetOurIP s \<or> dst = 0xFFFFFFFF"
    and peer: "from_peer s (ucast dport) (ucast sport)"
    and room: "unat (load_addr s) + length (concat (ds @ [d])) < 2 ^ 32"
  shows "\<exists>s'. NetReceive p len s = Some s' \<and> tftp_running s' (ds @ [d]) \<and> TftpBlkSize s' = TftpBlkSize s \<and>
    load_addr s' = load_addr s \<and> TftpOurPort s' = TftpOurPort s \<and>
    TftpRemotePort s' = (if ds = [] then sint (ucast sport :: u32) else TftpRemotePort s) \<and> tftp_stays s s'"
proof -
  let ?s = "rx_note p len s" and ?b = "data_bytes (Suc (length ds)) d"
  have vlan: "our_vlanid s AND VLAN_IDMASK = VLAN_NONE"
    using run(1) by (simp add: tftp_running_def tftp_stored_def arp_buffers_ok_def)
  have lb: "length ?b = length d + 4" by (simp add: data_bytes_def)
  have r: "NetReceive p len s = TftpHandler (padd p 42) (ucast dport) src (ucast sport) (of_nat (length d + 4)) ?s"
    using NetReceive_udp [OF e(1) vlan u _ _ d] l run(3) by (simp add: lb call_udp_handler_def)
  have run': "tftp_running ?s ds" "net_state ?s = NETLOOP_CONTINUE" "from_peer ?s (ucast dport) (ucast sport)"
    using run(1,2) peer by (simp_all add: tftp_running_defs arp_buffers_ok_def our_vlanid_def from_peer_def)
  have "bytes (nmem s) (padd p 42) (length ?b) = ?b"
    using u by (simp add: udp_packet_at_def)
  then have "bytes (nmem s) (padd p 42) (2 + (2 + length d)) = be16 TFTP_DATA @ be16 (of_nat (Suc (length ds))) @ d"
    by (simp add: data_bytes_def)
  then have "data_packet (nmem ?s) (padd p 42) (Suc (length ds)) d"
    unfolding bytes_add using e(2) by (simp add: data_packet_def ld16_be16)
  from TftpHandler_next [OF run' this, of src] l room show ?thesis
    unfolding r by (cases "ds = []") (simp_all add: tftp_stays_def)
qed

section \<open>Properties\<close>




text \<open>C5: What NetSendUDPPacket sends on one machine, NetReceive hands over on another: the receiver's UDP handler
  is called with the payload, the ports and the sender's address.\<close>

theorem NetReceive_gets_what_is_sent:
  fixes a :: "'x net_arp_scheme" and s :: "'y net_tftp_scheme" and ether p :: nptr and dport sport :: int and n :: nat
  assumes a: "fst (NetTxPacket a) = PktBuf" "fst ether \<noteq> PktBuf" "eth_current a \<noteq> None"
    "bytes (nmem a) ether 6 \<noteq> bytes (nmem a) NetEtherNullAddr 6" "our_vlanid a AND VLAN_IDMASK = VLAN_NONE"
    and s: "our_vlanid s AND VLAN_IDMASK = VLAN_NONE" "NetOurIP s \<noteq> 0" "NetOurIP s \<noteq> 0xFFFFFFFF" and n: "n < 65508"
    and fr: "fr = last (sent (snd (NetSendUDPPacket ether (NetOurIP s) dport sport (int n) a)))"
      "bytes (nmem s) p (length fr) = fr"
  shows "NetReceive p (int (length fr)) s =
      call_udp_handler (padd p 42) (ucast (word_of_int dport :: u16)) (NetOurIP a) (ucast (word_of_int sport :: u16))
        (of_nat n) (s\<lparr>NetRxPacket := p, NetRxPacketLen := int (length fr)\<rparr>) \<and>
    bytes (nmem s) (padd p 42) n = bytes (nmem a) (padd (NetTxPacket a) 42) n"
proof -
  have h: "NetEthHdrSize a = 14" using a(5) by (simp add: NetEthHdrSize_def ETHER_HDR_SIZE_def)
  define m where "m = udp_tx_mem ether (NetOurIP s) dport sport (int n) a"
  let ?pay = "bytes (nmem a) (padd (NetTxPacket a) 42) n"
  note k = NetSendUDPPacket_known [OF a(1-3) s(2,3) a(4), of dport sport n, unfolded h, folded m_def]
  have f: "fr = bytes m (NetTxPacket a) (max 64 (14 + 28 + n))" using fr(1) k(1) by simp
  have u: "udp_packet_at (nmem s) (padd p 14) (NetOurIP a) (NetOurIP s) (word_of_int sport) (word_of_int dport) ?pay"
    using udp_frame_at [OF k(2) [folded f] fr(2)] by simp
  have x: "fst (NetTxPacket a) \<notin> {fst ether, NetOurEther_b}" using a(1,2) by auto
  have "ld16 m (padd (NetTxPacket a) 12) = htons 0x0800"
    using udp_tx_mem_facts(3) [OF x, where dest = "NetOurIP s" and dport = dport and sport = sport and n = n]
    by (simp add: h m_def PROT_IP_def)
  moreover have "ld16 (nmem s) (padd p 12) = ld16 m (padd (NetTxPacket a) 12)"
    by (rule ld_bytes_eq(1) [OF fr(2) [unfolded f length_bytes]]) simp
  ultimately have e: "ether_frame (nmem s) p (int (length fr)) 0x0800"
    using n by (simp add: ether_frame_def f PROT_VLAN_def)
  have "NetReceive p (int (length fr)) s =
      call_udp_handler (padd p 42) (ucast (word_of_int dport :: u16)) (NetOurIP a) (ucast (word_of_int sport :: u16))
        (of_nat n) (rx_note p (int (length fr)) s)"
    using NetReceive_udp [OF e s(1) u] n by (simp add: f)
  moreover have "bytes (nmem s) (padd p 42) n = ?pay" using u by (simp add: udp_packet_at_def)
  ultimately show ?thesis by simp
qed


theorem NetReceive_gets_what_is_sent_witness:
  "let fr = last (sent (snd (NetSendUDPPacket NetBcastAddr 0x8000000A 69 1024 (int 3) sample_arp)));
       s = sample_tftp\<lparr>NetOurIP := 0x8000000A, nmem := received fr sample_mem\<rparr>
   in NetReceive (Driver 0, 0) (int (length fr)) s =
        Some (s\<lparr>NetRxPacket := (Driver 0, 0), NetRxPacketLen := int (length fr)\<rparr>) \<and>
      bytes (nmem s) (Driver 0, 42) 3 = [0, 0, 0]"
proof -
  define fr where "fr = last (sent (snd (NetSendUDPPacket NetBcastAddr 0x8000000A 69 1024 (int 3) sample_arp)))"
  let ?s = "sample_tftp\<lparr>NetOurIP := 0x8000000A, nmem := received fr sample_mem\<rparr>"
  have a: "fst (NetTxPacket sample_arp) = PktBuf" "fst NetBcastAddr \<noteq> PktBuf" "eth_current sample_arp \<noteq> None"
    by (simp_all add: sample_arp_def object_defs)
  have nm: "nmem sample_arp = sample_mem" "NetTxPacket sample_arp = (PktBuf, 0)" by (simp_all add: sample_arp_def)
  have b: "bytes (nmem sample_arp) NetBcastAddr 6 \<noteq> bytes (nmem sample_arp) NetEtherNullAddr 6"
    unfolding nm sample_bytes by (simp add: object_defs)
  have v: "our_vlanid sample_arp AND VLAN_IDMASK = VLAN_NONE" "our_vlanid ?s AND VLAN_IDMASK = VLAN_NONE"
    using sample_arp_ok sample_tftp_ok by (simp_all add: arp_buffers_ok_def our_vlanid_def)
  have ip: "NetOurIP ?s \<noteq> 0" "NetOurIP ?s \<noteq> 0xFFFFFFFF" and n: "(3 :: nat) < 65508" by simp_all
  have fr: "fr = last (sent (snd (NetSendUDPPacket NetBcastAddr (NetOurIP ?s) 69 1024 (int 3) sample_arp)))"
    by (simp add: fr_def)
  have rd: "bytes (nmem ?s) (Driver 0, 0) (length fr) = fr" by (simp add: bytes_received)
  have z: "bytes sample_mem (PktBuf, 42) 3 = [0, 0, 0]"
    by (simp add: bytes_def sample_mem_def numeral_3_eq_3)
  have "udp_packet_handler ?s = dummy_handler" by (simp add: sample_tftp_simps)
  then show ?thesis
    unfolding fr_def [symmetric] Let_def
    using NetReceive_gets_what_is_sent [OF a b v ip n fr rd] z by (simp add: nm call_udp_handler_def)
qed

end
