(* ===== verification/NetUtils.thy ===== *)
theory NetUtils
  imports NetCore Printf
begin

unbundle bit_operations_syntax

text \<open>
  net/net_utils.c: string_to_ip reads back what the dotted decimal notation of an address is, also
  when more text follows, as in the boot file name server:file.
\<close>

section \<open>Dotted addresses\<close>

definition dotted :: "nat \<Rightarrow> nat \<Rightarrow> nat \<Rightarrow> nat \<Rightarrow> u8 list" where
  "dotted a b c d = dec_nat a @ [46] @ dec_nat b @ [46] @ dec_nat c @ [46] @ dec_nat d"

text \<open>The address whose bytes in memory are a, b, c, d.\<close>

definition ip_of :: "nat \<Rightarrow> nat \<Rightarrow> nat \<Rightarrow> nat \<Rightarrow> u32" where
  "ip_of a b c d = of_nat a OR push_bit 8 (of_nat b) OR push_bit 16 (of_nat c) OR push_bit 24 (of_nat d)"

lemma run_at:
  assumes "cstr v (xs @ dec_nat n @ ys)" "ys = [] \<or> \<not> isdigit (hd ys)"
  shows "run_of isdigit (\<lambda>j. v (length xs + j)) 0 (dec_nat n)"
proof -
  have "v (length xs + i) = dec_nat n ! i" if "i < length (dec_nat n)" for i
    using assms(1) that by (auto simp: cstr_def nth_append)
  moreover have "v (length xs + length (dec_nat n)) = (if ys = [] then 0 else hd ys)"
    using assms(1) by (cases ys) (auto simp: cstr_def nth_append)
  moreover have "isdigit (dec_nat n ! i)" if "i < length (dec_nat n)" for i
    using dec_nat_digits(1) [of n] nth_mem [OF that] by blast
  moreover have "\<not> isdigit 0" by (simp add: isdigit_iff)
  ultimately show ?thesis
    using assms(2) by (auto simp: run_of_def)
qed

lemma string_to_ip_step:
  assumes "cstr v (xs @ dec_nat n @ ys)" "ys = [] \<or> \<not> isdigit (hd ys)"
  shows "string_to_ip_loop (Suc k) v (length xs) addr =
    string_to_ip_loop k v (length xs + length (dec_nat n) + (if ys = [] then 0 else 1))
      (push_bit 8 addr OR (of_nat n AND 0xFF))"
proof -
  have "0 \<notin> set (xs @ dec_nat n @ ys)" using assms(1) unfolding cstr_def in_set_conv_nth by metis
  moreover have "v (length xs + length (dec_nat n)) = (if ys = [] then 0 else hd ys)"
    using assms(1) by (cases ys) (auto simp: cstr_def nth_append)
  ultimately have e: "v (length xs + length (dec_nat n)) \<noteq> 0 \<longleftrightarrow> ys \<noteq> []"
    by (cases ys) auto
  have s: "strtoul (Some (\<lambda>j. v (length xs + j))) 10 = Some (of_nat n, Some (length (dec_nat n)))"
    using strtoul_10 [OF run_at [OF assms]] by (simp only: dec_nat_digits(2))
  show ?thesis
    unfolding string_to_ip_loop.simps(2) s Option.bind.simps prod.case e by (cases "ys = []") (simp_all only: simp_thms if_True if_False add_0_right)
qed

lemma ip_word:
  assumes "a < 256" "b < 256" "c < 256" "d < 256"
  shows "htonl (push_bit 8 (push_bit 8 (push_bit 8 (push_bit 8 0 OR (of_nat a AND 0xFF)) OR (of_nat b AND 0xFF))
    OR (of_nat c AND 0xFF)) OR (of_nat d AND 0xFF)) = ip_of a b c d"
proof -
  have m: "(of_nat x :: u32) AND 0xFF = of_nat x" and b: "bit (of_nat x :: u32) n \<Longrightarrow> n < 8" if "x < 256" for x n
  proof -
    have t: "take_bit 8 (of_nat x :: u32) = of_nat x"
      using that by (simp add: take_bit_of_nat take_bit_nat_eq_self)
    then show "(of_nat x :: u32) AND 0xFF = of_nat x" by (simp add: take_bit_eq_mask mask_eq_exp_minus_1)
    show "bit (of_nat x :: u32) n \<Longrightarrow> n < 8" by (metis t bit_take_bit_iff)
  qed
  have nb: "8 \<le> k \<Longrightarrow> \<not> bit (of_nat x :: u32) k" if "x < 256" for x k
    using b [OF that, of k] by linarith
  note nb = nb [OF assms(1)] nb [OF assms(2)] nb [OF assms(3)] nb [OF assms(4)]
  have "swab32 (push_bit 24 (of_nat a) OR push_bit 16 (of_nat b) OR push_bit 8 (of_nat c) OR of_nat d) = ip_of a b c d"
  proof (rule bit_word_eqI)
    fix n assume "n < LENGTH(32)"
    then consider "n < 8" | "8 \<le> n" "n < 16" | "16 \<le> n" "n < 24" | "24 \<le> n" "n < 32" by fastforce
    then show "bit (swab32 (push_bit 24 (of_nat a) OR push_bit 16 (of_nat b) OR push_bit 8 (of_nat c) OR of_nat d)) n =
        bit (ip_of a b c d) n"
      by cases (auto simp: bit_swab32 ip_of_def bit_or_iff bit_push_bit_iff nb)
  qed
  then show ?thesis
    unfolding m [OF assms(1)] m [OF assms(2)] m [OF assms(3)] m [OF assms(4)] htonl_def
    by (simp only: push_bit_or push_bit_push_bit push_bit_of_0 or.left_neutral or.assoc) simp
qed

lemma string_to_ip_dotted:
  assumes "cstr v (dotted a b c d @ ys)" "ys = [] \<or> \<not> isdigit (hd ys)" "a < 256" "b < 256" "c < 256" "d < 256"
  shows "string_to_ip (Some v) = Some (ip_of a b c d)"
proof -
  let ?A = "dec_nat a" and ?B = "dec_nat b" and ?C = "dec_nat c" and ?D = "dec_nat d"
  have c: "cstr v ([] @ ?A @ ([46] @ ?B @ [46] @ ?C @ [46] @ ?D @ ys))"
    "cstr v ((?A @ [46]) @ ?B @ ([46] @ ?C @ [46] @ ?D @ ys))"
    "cstr v ((?A @ [46] @ ?B @ [46]) @ ?C @ ([46] @ ?D @ ys))"
    "cstr v ((?A @ [46] @ ?B @ [46] @ ?C @ [46]) @ ?D @ ys)"
    using assms(1) by (simp_all add: dotted_def)
  have n: "\<not> isdigit 46" by (simp add: isdigit_iff)
  let ?f = string_to_ip_loop and ?g = "\<lambda>x n. push_bit 8 x OR (of_nat n AND 0xFF) :: u32"
  have "?f (Suc 3) v 0 0 = ?f 3 v (length (?A @ [46])) (?g 0 a)"
    using string_to_ip_step [OF c(1), of 3 0] n by (simp del: string_to_ip_loop.simps)
  moreover have "?f (Suc 2) v (length (?A @ [46])) x = ?f 2 v (length (?A @ [46] @ ?B @ [46])) (?g x b)" for x
    using string_to_ip_step [OF c(2), of 2 x] n by (simp del: string_to_ip_loop.simps)
  moreover have "?f (Suc 1) v (length (?A @ [46] @ ?B @ [46])) x =
      ?f 1 v (length (?A @ [46] @ ?B @ [46] @ ?C @ [46])) (?g x c)" for x
    using string_to_ip_step [OF c(3), of 1 x] n by (simp add: add.assoc del: string_to_ip_loop.simps)
  moreover have "?f (Suc 0) v (length (?A @ [46] @ ?B @ [46] @ ?C @ [46])) x = Some (?g x d)" for x
    using string_to_ip_step [OF c(4) assms(2), of 0 x] by (simp only: string_to_ip_loop.simps(1))
  moreover have "(4 :: nat) = Suc 3" "(3 :: nat) = Suc 2" "(2 :: nat) = Suc 1" "(1 :: nat) = Suc 0" by simp_all
  ultimately have "?f 4 v 0 0 = Some (?g (?g (?g (?g 0 a) b) c) d)" by (simp only:)
  then show ?thesis
    using ip_word [OF assms(3-6)] by (simp only: string_to_ip_def option.case Option.bind.simps)
qed

section \<open>Properties\<close>

text \<open>string_to_ip reads the dotted notation of every address, whatever follows it, as the address whose
  bytes in memory are the four numbers.\<close>

theorem string_to_ip_reads:
  assumes "cstr v (dotted a b c d @ ys)" "ys = [] \<or> \<not> isdigit (hd ys)" "a < 256" "b < 256" "c < 256" "d < 256"
  shows "\<exists>ip. string_to_ip (Some v) = Some ip \<and> ip_bytes ip = [of_nat a, of_nat b, of_nat c, of_nat d]"
proof -
  have nb: "8 \<le> k \<Longrightarrow> \<not> bit x k" if "x < 256" for x k :: nat
  proof -
    have "take_bit 8 x = x" using that by (simp add: take_bit_nat_eq_self)
    then show "8 \<le> k \<Longrightarrow> \<not> bit x k" by (metis bit_take_bit_iff not_le)
  qed
  note nb = nb [OF assms(3)] nb [OF assms(4)] nb [OF assms(5)] nb [OF assms(6)]
  have "ip_bytes (ip_of a b c d) = [of_nat a, of_nat b, of_nat c, of_nat d]"
    unfolding ip_bytes_def ip_of_def list.inject
    by (intro conjI bit_word_eqI) (auto simp: bit_simps nb)
  then show ?thesis using string_to_ip_dotted [OF assms] by blast
qed

theorem string_to_ip_reads_witness:
  "\<exists>ip. string_to_ip (Some (lit ''10.0.0.128:zImage'')) = Some ip \<and> ip_bytes ip = [10, 0, 0, 128]"
proof -
  have d: "dec_nat 10 = [49, 48]" "dec_nat 0 = [48]" "dec_nat 128 = [49, 50, 56]"
    by (simp_all add: dec_nat_def dec_rev_def digits.simps dec_digit_def lit_def)
  have "cstr (lit ''10.0.0.128:zImage'') (dotted 10 0 0 128 @ str_bytes '':zImage'')"
    by (auto simp: cstr_def lit_def dotted_def d str_bytes_def less_Suc_eq)
  then show ?thesis
    using string_to_ip_reads [of "lit ''10.0.0.128:zImage''" 10 0 0 128 "str_bytes '':zImage''"]
    by (simp add: str_bytes_def isdigit_iff)
qed

end
