(* ===== verification/NetLoop.thy ===== *)
theory NetLoop
  imports NetRx NetUtils
begin

unbundle bit_operations_syntax

text \<open>
  The main loop of net/net_core.c and the device registration of net/eth.c.

  The MAC driver is not part of the repository: its recv routine, which hands received frames to
  NetReceive, is a parameter.  The loop reads its inputs from a list: for every round what recv does
  and the character ftuart_kbhit returns; when the list is used up, the loop has not returned yet.
\<close>

section \<open>Devices\<close>

definition eth_register :: "eth_device \<Rightarrow> 'x net_core_scheme \<Rightarrow> int \<times> 'x net_core_scheme" where
  "eth_register dev s =
    (let dev' = dev\<lparr>eth_state := ETH_STATE_INIT\<rparr> in
     (0, if eth_current s = None then s\<lparr>eth_current := Some dev'\<rparr> else s))"

definition eth_unregister :: "eth_device \<Rightarrow> 'x net_core_scheme \<Rightarrow> int" where
  "eth_unregister dev s = (if eth_current s = None then -1 else 0)"

text \<open>board_eth_init is the board's, when there is one: it registers a device or fails.\<close>

definition eth_initialize ::
  "('x net_core_scheme \<Rightarrow> int \<times> 'x net_core_scheme) option \<Rightarrow> cview option \<Rightarrow> 'x net_core_scheme \<Rightarrow>
   int \<times> 'x net_core_scheme" where
  "eth_initialize board_eth_init filename s =
    (let num_devices = 0;
         s = eth_env_init filename (s\<lparr>eth_current := None\<rparr>)
     in case board_eth_init of
          None \<Rightarrow> (num_devices, s)
        | Some f \<Rightarrow> (case f s of (r, s) \<Rightarrow> (if r < 0 then num_devices else num_devices + 1, s)))"

definition eth_rx :: "('x net_core_scheme \<Rightarrow> 'x net_core_scheme option) \<Rightarrow> 'x net_core_scheme \<Rightarrow> 'x net_core_scheme option" where
  "eth_rx recv s = (case eth_current s of None \<Rightarrow> Some s | Some dev \<Rightarrow> recv s)"

section \<open>The loop\<close>

definition NetInitLoop :: "'x net_core_scheme \<Rightarrow> 'x net_core_scheme option" where
  "NetInitLoop s =
    do {
      ip \<leftarrow> string_to_ip (Some (lit ''10.0.0.179''));
      gw \<leftarrow> string_to_ip (Some (lit ''10.0.0.254''));
      subnet \<leftarrow> string_to_ip (Some (lit ''255.255.255.0''));
      server \<leftarrow> string_to_ip (Some (lit ''10.0.0.128''));
      Some (s\<lparr>NetOurIP := ip, NetOurGatewayIP := gw, NetOurSubnetMask := subnet, NetServerIP := server,
        nmem := memcpy (nmem s) NetOurEther enetaddr 6\<rparr>)
    }"

definition net_init :: "'x net_arp_scheme \<Rightarrow> 'x net_arp_scheme option" where
  "net_init s =
    (let s =
      (if net_first_call s then
         let tx = align_down (PktBuf, PKTALIGN - 1);
             s = s\<lparr>NetTxPacket := tx, NetRxPackets := map (\<lambda>i. padd tx ((i + 1) * PKTSIZE_ALIGN)) [0..<PKTBUFSRX]\<rparr>;
             s = net_clear_handlers (ArpInit s)
         in s\<lparr>net_first_call := False\<rparr>
       else s)
     in NetInitLoop s)"

definition net_check_prereq :: "proto_t \<Rightarrow> 'x net_ping_scheme \<Rightarrow> int" where
  "net_check_prereq protocol s =
    (let common = (if NetOurIP s = 0 then 1
                   else if memcmp (nmem s) NetOurEther (\<lambda>_. 0) NetOurEther 6 = 0 then 2 else 0)
     in case protocol of
          PING \<Rightarrow> if NetPingIP s = 0 then 1 else common
        | TFTPGET \<Rightarrow> if NetServerIP s = 0 then 1 else common
        | TFTPPUT \<Rightarrow> if NetServerIP s = 0 then 1 else common
        | _ \<Rightarrow> 0)"

text \<open>From the label restart to the loop: Inl for the early return.\<close>

definition netloop_start :: "proto_t \<Rightarrow> 'x net_tftp_scheme \<Rightarrow> (int \<times> 'x net_tftp_scheme + 'x net_tftp_scheme) option" where
  "netloop_start protocol s =
    do {
      s \<leftarrow> NetInitLoop (net_set_state NETLOOP_CONTINUE s);
      if net_check_prereq protocol s \<noteq> 0 then Some (Inl (-1, s))
      else
        let s = s\<lparr>NetDevExists := 1, NetBootFileXferSize := 0\<rparr> in
        (case protocol of
           TFTPGET \<Rightarrow> do { s \<leftarrow> TftpStart protocol s; Some (Inr s) }
         | PING \<Rightarrow> Some (Inr (ping_start s))
         | _ \<Rightarrow> Some (Inr s))
    }"

text \<open>The timeout handlers, and the test for one that is due.\<close>

definition call_thand :: "thand \<Rightarrow> 'x net_tftp_scheme \<Rightarrow> 'x net_tftp_scheme option" where
  "call_thand x s = (case x of TftpTimeout_f \<Rightarrow> TftpTimeout s | ping_timeout_f \<Rightarrow> Some (ping_timeout s))"

definition net_check_timeout :: "'x net_tftp_scheme \<Rightarrow> 'x net_tftp_scheme option" where
  "net_check_timeout s =
    (case timeHandler s of
       None \<Rightarrow> Some s
     | Some x \<Rightarrow>
         let (t, s) = net_get_timer 0 s in
         if timeDelta s < t - timeStart s then call_thand x (s\<lparr>timeHandler := None\<rparr>) else Some s)"

text \<open>The loop: the result with the return value, or None with the state when the inputs are used up.\<close>

type_synonym 'x loop_input = "('x net_tftp_scheme \<Rightarrow> 'x net_tftp_scheme option) \<times> u8"

fun netloop_main :: "proto_t \<Rightarrow> 'x loop_input list \<Rightarrow> 'x net_tftp_scheme \<Rightarrow> (int option \<times> 'x net_tftp_scheme) option" where
  "netloop_main protocol [] s = Some (None, s)"
| "netloop_main protocol ((recv, key) # inputs) s =
    do {
      s \<leftarrow> eth_rx recv s;
      if key = of_char CHR ''q'' then Some (Some (-1), net_cleanup_loop (s\<lparr>NetArpWaitPacketIP := 0\<rparr>))
      else do {
        s \<leftarrow> net_check_timeout (ArpTimeoutCheck s);
        (case net_state s of
           NETLOOP_RESTART \<Rightarrow>
             do {
               r \<leftarrow> netloop_start protocol (s\<lparr>NetRestarted := 1\<rparr>);
               (case r of Inl (ret, s) \<Rightarrow> Some (Some ret, s) | Inr s \<Rightarrow> netloop_main protocol inputs s)
             }
         | NETLOOP_SUCCESS \<Rightarrow> Some (Some (sint (NetBootFileXferSize s)), net_cleanup_loop s)
         | NETLOOP_FAIL \<Rightarrow> Some (Some (-1), net_cleanup_loop s)
         | NETLOOP_CONTINUE \<Rightarrow> netloop_main protocol inputs s)
      }
    }"

definition NetLoop :: "proto_t \<Rightarrow> 'x loop_input list \<Rightarrow> 'x net_tftp_scheme \<Rightarrow> (int option \<times> 'x net_tftp_scheme) option" where
  "NetLoop protocol inputs s =
    do {
      s \<leftarrow> net_init (s\<lparr>NetRestarted := 0, NetDevExists := 0, NetTryCount := 1\<rparr>);
      r \<leftarrow> netloop_start protocol s;
      (case r of Inl (ret, s) \<Rightarrow> Some (Some ret, s) | Inr s \<Rightarrow> netloop_main protocol inputs s)
    }"

section \<open>What the periodic work leaves alone\<close>

text \<open>
  The state of a transfer that is installed in the loop, and what the ARP and timer work of a round
  keeps of it.
\<close>

definition tftp_ready :: "'x net_tftp_scheme \<Rightarrow> u8 list list \<Rightarrow> u8 list \<Rightarrow> bool" where
  "tftp_ready s ds name \<longleftrightarrow> tftp_running s ds \<and> udp_packet_handler s = TftpHandler_f \<and>
    (timeHandler s = None \<or> timeHandler s = Some TftpTimeout_f) \<and> cstr (view (nmem s) tftp_filename) name"

definition outside_tx :: "blk mem \<Rightarrow> blk mem \<Rightarrow> bool" where
  "outside_tx m m' \<longleftrightarrow> (\<forall>q. fst q \<noteq> PktBuf \<and> fst q \<noteq> NetArpPacketBuf \<longrightarrow> m' q = m q)"

lemma outside_txI: "(\<And>q. fst q \<noteq> PktBuf \<Longrightarrow> fst q \<noteq> NetArpPacketBuf \<Longrightarrow> m' q = m q) \<Longrightarrow> outside_tx m m'"
  unfolding outside_tx_def by blast

lemma outside_tx_refl [simp]: "outside_tx m m"
  unfolding outside_tx_def by blast

lemma outside_tx_trans: "outside_tx m m' \<Longrightarrow> outside_tx m' m'' \<Longrightarrow> outside_tx m m''"
  unfolding outside_tx_def by metis

definition keeps :: "'x net_tftp_scheme \<Rightarrow> 'x net_tftp_scheme \<Rightarrow> bool" where
  "keeps s s' \<longleftrightarrow> NetOurIP s' = NetOurIP s \<and> udp_packet_handler s' = udp_packet_handler s \<and> net_state s' = net_state s \<and>
    NetBootFileXferSize s' = NetBootFileXferSize s \<and> load_addr s' = load_addr s \<and> TftpBlkSize s' = TftpBlkSize s \<and>
    TftpState s' = TftpState s \<and> TftpLastBlock s' = TftpLastBlock s \<and> TftpBlockWrapOffset s' = TftpBlockWrapOffset s \<and>
    TftpOurPort s' = TftpOurPort s \<and> TftpRemotePort s' = TftpRemotePort s \<and> NetTxPacket s' = NetTxPacket s \<and>
    NetArpTxPacket s' = NetArpTxPacket s \<and> eth_current s' = eth_current s \<and> NetOurVLAN s' = NetOurVLAN s \<and>
    timeHandler s' \<in> {timeHandler s, None, Some TftpTimeout_f} \<and>
    outside_tx (nmem s) (nmem s')"

lemma keeps_refl [simp]: "keeps s s"
  by (simp add: keeps_def)

lemma keeps_trans: "keeps s s' \<Longrightarrow> keeps s' s'' \<Longrightarrow> keeps s s''"
  by (auto simp: keeps_def intro: outside_tx_trans)

lemma keeps_update [simp]:
  "keeps s (s\<lparr>clock := c\<rparr>)" "keeps s (s\<lparr>timeHandler := None\<rparr>)"
  "keeps s (s\<lparr>TftpTimeoutCount := n\<rparr>)"
  by (simp_all add: keeps_def)

lemma keeps_mem: "keeps s s' \<Longrightarrow> fst q \<noteq> PktBuf \<Longrightarrow> fst q \<noteq> NetArpPacketBuf \<Longrightarrow> nmem s' q = nmem s q"
  unfolding keeps_def outside_tx_def by blast

lemma keeps_ready:
  assumes "tftp_ready s ds name" "keeps s s'"
  shows "tftp_ready s' ds name"
proof -
  have "bytes (nmem s') (ram a) n = bytes (nmem s) (ram a) n" for a n
    by (rule bytes_cong) (simp add: keeps_mem [OF assms(2)] ram_def)
  moreover have "cstr (view (nmem s') tftp_filename) name"
    using assms by (simp add: tftp_ready_def cstr_def keeps_mem [OF assms(2)] tftp_filename_def)
  ultimately show ?thesis
    using assms by (auto simp: tftp_ready_def tftp_running_defs arp_buffers_ok_def our_vlanid_def keeps_def)
qed

lemma tftp_ready_ok: "tftp_ready s ds name \<Longrightarrow> arp_buffers_ok s"
  using tftp_running_ok unfolding tftp_ready_def by blast

lemma tx_only_keeps:
  assumes "tx_only s s'"
  shows "keeps s s'"
  by (rule tx_only_cases [OF assms], simp add: keeps_def, rule outside_txI, auto)

lemma NetSetTimeout_keeps: "keeps s (NetSetTimeout iv (Some TftpTimeout_f) s)"
  by (auto simp: keeps_def NetSetTimeout_def net_get_timer_def Let_def split: prod.splits)

lemma ArpTimeoutCheck_keeps:
  fixes s :: "'x net_tftp_scheme"
  assumes "arp_buffers_ok s"
  shows "keeps s (ArpTimeoutCheck s)"
proof -
  have r: "keeps s (ArpRequest (s\<lparr>clock := c, NetArpWaitTry := n, NetArpWaitTimerStart := t\<rparr>))" for c n t
  proof -
    let ?s = "s\<lparr>clock := c, NetArpWaitTry := n, NetArpWaitTimerStart := t\<rparr>"
    have ok: "arp_buffers_ok ?s" using assms by simp
    have "arp_request_mem ?s q = nmem s q" if "fst q \<noteq> NetArpPacketBuf" for q
      using arp_request_frame(2) [OF ok that] by simp
    then have "outside_tx (nmem s) (arp_request_mem ?s)" by (rule outside_txI)
    then show ?thesis unfolding ArpRequest_shape [OF ok] by (simp add: keeps_def)
  qed
  have "keeps s (s\<lparr>clock := c, NetArpWaitTry := n\<rparr>)" for c n by (simp add: keeps_def)
  moreover obtain t c where "get_timer 0 (clock s) = (t, c)" by fastforce
  ultimately show ?thesis
    using r by (simp add: ArpTimeoutCheck_def net_get_timer_def Let_def)
qed

lemma TftpSend_ready:
  fixes s :: "'x net_tftp_scheme"
  assumes "tftp_ready s ds name"
  shows "\<exists>s'. TftpSend s = Some s' \<and> keeps s s'"
proof -
  have tx: "fst (padd (NetTxPacket s) (NetEthHdrSize s + IP_UDP_HDR_SIZE)) \<noteq> tftp_filename_b"
    using tftp_ready_ok [OF assms] by (simp add: arp_buffers_ok_def)
  have n: "cstr (view (nmem s) tftp_filename) name" using assms by (simp add: tftp_ready_def)
  have "\<exists>s'. TftpSend s = Some s'"
  proof (cases "TftpState s = STATE_SEND_RRQ")
    case True
    then show ?thesis using tftp_rrq_packet [OF n tx] by (auto simp: TftpSend_def tftp_packet_def Let_def)
  next
    case False
    then show ?thesis
      using assms TftpSend_ack tftp_running_state(1) unfolding tftp_ready_def by blast
  qed
  then show ?thesis
    using TftpSend_tx_only [OF tftp_ready_ok [OF assms]] tx_only_keeps by blast
qed

lemma TftpTimeout_ready:
  fixes s :: "'x net_tftp_scheme"
  assumes "tftp_ready s ds name"
  shows "\<exists>s'. TftpTimeout s = Some s' \<and> keeps s s'"
proof -
  let ?s1 = "s\<lparr>TftpTimeoutCount := TftpTimeoutCount s + 1\<rparr>"
  define s2 where "s2 = NetSetTimeout (TftpTimeoutMSecs s) (Some TftpTimeout_f) ?s1"
  have k: "keeps s s2"
    unfolding s2_def by (rule keeps_trans [OF _ NetSetTimeout_keeps]) simp
  obtain s3 where "TftpSend s2 = Some s3" "keeps s2 s3"
    using TftpSend_ready [OF keeps_ready [OF assms k]] by blast
  then show ?thesis
    using k keeps_trans [OF k, of s3] by (simp add: TftpTimeout_def tftp_restart_def Let_def flip: s2_def)
qed

lemma net_check_timeout_ready:
  fixes s :: "'x net_tftp_scheme"
  assumes "tftp_ready s ds name"
  shows "\<exists>s'. net_check_timeout s = Some s' \<and> keeps s s'"
proof (cases "timeHandler s")
  case None
  then show ?thesis by (simp add: net_check_timeout_def)
next
  case (Some h)
  then have h: "timeHandler s = Some TftpTimeout_f" using assms by (auto simp: tftp_ready_def)
  obtain t c where t: "get_timer 0 (clock s) = (t, c)" by fastforce
  let ?s1 = "s\<lparr>clock := c, timeHandler := None\<rparr>"
  have k: "keeps s ?s1" by (simp add: keeps_def)
  obtain s' where "TftpTimeout ?s1 = Some s'" "keeps ?s1 s'"
    using TftpTimeout_ready [OF keeps_ready [OF assms k]] by blast
  then show ?thesis
    using h keeps_trans [OF k, of s'] by (simp add: net_check_timeout_def net_get_timer_def t call_thand_def)
qed

section \<open>Loading a file through the loop\<close>

text \<open>
  A driver that has received one frame, or none, in this round, and the frame in which a server
  sends one block.
\<close>

definition driver_recv :: "u8 list option \<Rightarrow> 'x net_tftp_scheme \<Rightarrow> 'x net_tftp_scheme option" where
  "driver_recv f s =
    (case f of None \<Rightarrow> Some s
     | Some fr \<Rightarrow> NetReceive (Driver 0, 0) (int (length fr)) (s\<lparr>nmem := received fr (nmem s)\<rparr>))"

definition data_frame :: "u8 list \<Rightarrow> u32 \<Rightarrow> u32 \<Rightarrow> u16 \<Rightarrow> u16 \<Rightarrow> nat \<Rightarrow> u8 list \<Rightarrow> bool" where
  "data_frame fr src dst sport dport n d \<longleftrightarrow> take 2 (drop 12 fr) = be16 0x0800 \<and> length d < 65504 \<and>
    46 + length d \<le> length fr \<and> length fr < 2 ^ 31 \<and> udp_frame fr 14 src dst sport dport (data_bytes n d)"

lemma driver_recv_data:
  fixes s :: "'x net_tftp_scheme"
  assumes rdy: "tftp_ready s ds name" "net_state s = NETLOOP_CONTINUE"
    and fr: "data_frame fr src (NetOurIP s) sport dport (Suc (length ds)) d"
    and d: "length d \<le> unat (TftpBlkSize s)" "unat (load_addr s) + length (concat (ds @ [d])) < 2 ^ 32"
    and peer: "from_peer s (ucast dport) (ucast sport)"
  shows "\<exists>s'. driver_recv (Some fr) s = Some s' \<and> tftp_ready s' (ds @ [d]) name \<and> TftpBlkSize s' = TftpBlkSize s \<and>
    load_addr s' = load_addr s \<and> TftpOurPort s' = TftpOurPort s \<and> NetOurIP s' = NetOurIP s \<and>
    TftpRemotePort s' = (if ds = [] then sint (ucast sport :: u32) else TftpRemotePort s)"
proof -
  let ?s = "s\<lparr>nmem := received fr (nmem s)\<rparr>"
  have o: "received fr (nmem s) q = nmem s q" if "fst q \<noteq> Driver 0" for q
    using that by (rule received_other)
  have "bytes (received fr (nmem s)) (ram a) n = bytes (nmem s) (ram a) n" for a n
    by (rule bytes_cong) (simp add: o ram_def)
  then have run: "tftp_running ?s ds" "net_state ?s = NETLOOP_CONTINUE" "udp_packet_handler ?s = TftpHandler_f"
    using rdy by (simp_all add: tftp_ready_def tftp_running_defs arp_buffers_ok_def our_vlanid_def)
  have b: "bytes (nmem ?s) (Driver 0, 0) (length fr) = fr" by (simp add: bytes_received)
  have "bytes (nmem ?s) (Driver 0, 12) 2 = be16 0x0800"
    using fr by (simp add: data_frame_def bytes_received)
  then have "ld16 (nmem ?s) (padd (Driver 0, 0) 12) = htons 0x0800"
    unfolding padd_simps plus_nat.add_0 by (rule ld16_be16)
  then have e: "ether_frame (nmem ?s) (Driver 0, 0) (int (length fr)) 0x0800" "fst (Driver 0, 0 :: nat) \<noteq> Ram"
    using fr by (simp_all add: ether_frame_def PROT_VLAN_def data_frame_def)
  have u: "udp_packet_at (nmem ?s) (padd (Driver 0, 0) 14) src (NetOurIP s) sport dport (data_bytes (Suc (length ds)) d)"
    by (rule udp_frame_at [OF _ b]) (use fr in \<open>simp add: data_frame_def\<close>)
  have l: "46 + length d \<le> nat (int (length fr))" "length d \<le> unat (TftpBlkSize ?s)" "length d < 65504"
    "NetOurIP ?s = 0 \<or> NetOurIP s = NetOurIP ?s \<or> NetOurIP s = 0xFFFFFFFF"
    "from_peer ?s (ucast dport) (ucast sport)" "unat (load_addr ?s) + length (concat (ds @ [d])) < 2 ^ 32"
    using fr d peer by (simp_all add: data_frame_def from_peer_def)
  obtain s' where s': "NetReceive (Driver 0, 0) (int (length fr)) ?s = Some s'" "tftp_running s' (ds @ [d])"
    "TftpBlkSize s' = TftpBlkSize s" "load_addr s' = load_addr s" "TftpOurPort s' = TftpOurPort s"
    "TftpRemotePort s' = (if ds = [] then sint (ucast sport :: u32) else TftpRemotePort s)" "tftp_stays ?s s'"
    using NetReceive_data [OF run e u l] by auto
  have "nmem s' (padd tftp_filename i) = nmem s (padd tftp_filename i)" for i
    using s'(7) o [of "padd tftp_filename i"]
    by (auto simp: tftp_stays_def tftp_filename_def dest!: spec [of _ tftp_filename_b])
  then have "tftp_ready s' (ds @ [d]) name"
    using rdy(1) s'(2,7) by (simp add: tftp_ready_def tftp_stays_def cstr_def)
  then show ?thesis
    using s' by (simp add: driver_recv_def tftp_stays_def)
qed

text \<open>One round without a key pressed.\<close>

lemma netloop_round:
  fixes s :: "'x net_tftp_scheme"
  assumes "tftp_ready s ds name" "recv s = Some s1" "tftp_ready s1 ds1 name" "key \<noteq> of_char CHR ''q''"
  shows "\<exists>s2. keeps s1 s2 \<and> netloop_main p ((recv, key) # inputs) s =
    (case net_state s1 of
       NETLOOP_SUCCESS \<Rightarrow> Some (Some (sint (NetBootFileXferSize s1)), net_cleanup_loop s2)
     | NETLOOP_CONTINUE \<Rightarrow> netloop_main p inputs s2
     | NETLOOP_FAIL \<Rightarrow> Some (Some (-1), net_cleanup_loop s2)
     | NETLOOP_RESTART \<Rightarrow> netloop_main p ((recv, key) # inputs) s)"
proof -
  note k = ArpTimeoutCheck_keeps [OF tftp_ready_ok [OF assms(3)]]
  obtain s2 where s2: "net_check_timeout (ArpTimeoutCheck s1) = Some s2" "keeps (ArpTimeoutCheck s1) s2"
    using net_check_timeout_ready [OF keeps_ready [OF assms(3) k]] by blast
  have kk: "keeps s1 s2" by (rule keeps_trans [OF k s2(2)])
  have e: "net_state s2 = net_state s1" "NetBootFileXferSize s2 = NetBootFileXferSize s1"
    using kk by (simp_all add: keeps_def)
  have "eth_current s \<noteq> None" using tftp_ready_ok [OF assms(1)] by (simp add: arp_buffers_ok_def)
  then have rx: "eth_rx recv s = Some s1" using assms(2) by (auto simp: eth_rx_def)
  have "net_state s1 \<noteq> NETLOOP_RESTART"
    using assms(3) by (auto simp: tftp_ready_def tftp_running_def tftp_stored_def)
  then show ?thesis
    using kk assms(4) by (intro exI [of _ s2]) (simp add: rx s2(1) e split: net_loop_state.splits)
qed

definition inputs_of :: "u8 list option list \<Rightarrow> 'x loop_input list" where
  "inputs_of fs = map (\<lambda>f. (driver_recv f, 0)) fs"

fun frames_carry :: "u32 \<Rightarrow> u32 \<Rightarrow> u16 \<Rightarrow> u16 \<Rightarrow> nat \<Rightarrow> u8 list option list \<Rightarrow> u8 list list \<Rightarrow> bool" where
  "frames_carry src dst sport dport n [] es \<longleftrightarrow> es = []"
| "frames_carry src dst sport dport n (None # fs) es \<longleftrightarrow> frames_carry src dst sport dport n fs es"
| "frames_carry src dst sport dport n (Some fr # fs) es \<longleftrightarrow>
    es \<noteq> [] \<and> data_frame fr src dst sport dport (Suc n) (hd es) \<and> frames_carry src dst sport dport (Suc n) fs (tl es)"

lemma netloop_loads:
  fixes s :: "'x net_tftp_scheme"
  assumes "tftp_ready s ds name" "net_state s = NETLOOP_CONTINUE" "es \<noteq> []"
    "frames_carry src (NetOurIP s) sport dport (length ds) fs es"
    "ucast dport = as_unsigned (TftpOurPort s)" "TftpState s = STATE_SEND_RRQ \<or> ucast sport = as_unsigned (TftpRemotePort s)"
    "\<forall>d \<in> set (butlast es). length d = unat (TftpBlkSize s)" "length (last es) < unat (TftpBlkSize s)"
    "unat (load_addr s) + length (concat (ds @ es)) < 2 ^ 32"
  shows "\<exists>s'. netloop_main p (inputs_of fs) s = Some (Some (sint (of_nat (length (concat (ds @ es))) :: u32)), net_cleanup_loop s') \<and>
    tftp_ready s' (ds @ es) name \<and> load_addr s' = load_addr s"
  using assms
proof (induction fs arbitrary: s ds es)
  case Nil
  then show ?case by simp
next
  case (Cons f fs)
  have i: "inputs_of (f # fs) = (driver_recv f, 0) # inputs_of fs" by (simp add: inputs_of_def)
  have key: "(0 :: u8) \<noteq> of_char CHR ''q''" by simp
  show ?case
  proof (cases f)
    case None
    have r: "driver_recv f s = Some s" by (simp add: None driver_recv_def)
    obtain s2 where s2: "keeps s s2" "netloop_main p (inputs_of (f # fs)) s = netloop_main p (inputs_of fs) s2"
      using netloop_round [where recv = "driver_recv f", OF Cons.prems(1) r Cons.prems(1) key, of p "inputs_of fs"] Cons.prems(2)
      unfolding i by auto
    have k: "net_state s2 = net_state s" "NetOurIP s2 = NetOurIP s" "TftpOurPort s2 = TftpOurPort s" "TftpState s2 = TftpState s"
      "TftpRemotePort s2 = TftpRemotePort s" "TftpBlkSize s2 = TftpBlkSize s" "load_addr s2 = load_addr s"
      using s2(1) by (simp_all add: keeps_def)
    show ?thesis
      using Cons.IH [OF keeps_ready [OF Cons.prems(1) s2(1)], of es] Cons.prems(2-) None unfolding s2(2) by (simp add: k)
  next
    case (Some fr)
    obtain d es' where es: "es = d # es'" using Cons.prems(3) by (cases es) auto
    have fr: "data_frame fr src (NetOurIP s) sport dport (Suc (length ds)) d"
      "frames_carry src (NetOurIP s) sport dport (Suc (length ds)) fs es'"
      using Cons.prems(4) by (simp_all add: Some es)
    have peer: "from_peer s (ucast dport) (ucast sport)" using Cons.prems(5,6) by (simp add: from_peer_def)
    have d: "length d \<le> unat (TftpBlkSize s)" using Cons.prems(7,8) by (cases "es' = []") (auto simp: es)
    have room: "unat (load_addr s) + length (concat (ds @ [d])) < 2 ^ 32" using Cons.prems(9) by (simp add: es)
    obtain s1 where s1: "driver_recv f s = Some s1" "tftp_ready s1 (ds @ [d]) name" "TftpBlkSize s1 = TftpBlkSize s"
      "load_addr s1 = load_addr s" "TftpOurPort s1 = TftpOurPort s" "NetOurIP s1 = NetOurIP s"
      "TftpRemotePort s1 = (if ds = [] then sint (ucast sport :: u32) else TftpRemotePort s)"
      using driver_recv_data [OF Cons.prems(1,2) fr(1) d room peer] Some by blast
    obtain s2 where s2: "keeps s1 s2" "netloop_main p (inputs_of (f # fs)) s =
      (case net_state s1 of
         NETLOOP_SUCCESS \<Rightarrow> Some (Some (sint (NetBootFileXferSize s1)), net_cleanup_loop s2)
       | NETLOOP_CONTINUE \<Rightarrow> netloop_main p (inputs_of fs) s2
       | NETLOOP_FAIL \<Rightarrow> Some (Some (-1), net_cleanup_loop s2)
       | NETLOOP_RESTART \<Rightarrow> netloop_main p ((driver_recv f, 0) # inputs_of fs) s)"
      using netloop_round [where recv = "driver_recv f", OF Cons.prems(1) s1(1,2) key, of p "inputs_of fs"] unfolding i by auto
    note rdy2 = keeps_ready [OF s1(2) s2(1)]
    have k: "net_state s2 = net_state s1" "NetOurIP s2 = NetOurIP s" "TftpOurPort s2 = TftpOurPort s"
      "TftpRemotePort s2 = TftpRemotePort s1" "TftpBlkSize s2 = TftpBlkSize s" "load_addr s2 = load_addr s"
      using s2(1) s1(3-6) by (simp_all add: keeps_def)
    have st: "tftp_stored s1 (ds @ [d])" using s1(2) by (simp add: tftp_ready_def tftp_running_def)
    show ?thesis
    proof (cases "es' = []")
      case True
      then have "net_state s1 = NETLOOP_SUCCESS" "NetBootFileXferSize s1 = of_nat (length (concat (ds @ es)))"
        using st Cons.prems(8) by (simp_all add: tftp_stored_def es s1(3))
      then show ?thesis
        using s2(2) rdy2 k(6) True by (auto simp: es)
    next
      case False
      have c: "net_state s1 = NETLOOP_CONTINUE"
        using st Cons.prems(7) False by (simp add: tftp_stored_def es s1(3))
      have rp: "ucast sport = as_unsigned (TftpRemotePort s2)"
        using Cons.prems(1,6) s1(7) k(4) by (auto simp: as_unsigned_def tftp_ready_def tftp_running_def tftp_counters_def tftp_consts split: if_splits)
      have "\<exists>s'. netloop_main p (inputs_of fs) s2 = Some (Some (sint (of_nat (length (concat ((ds @ [d]) @ es'))) :: u32)), net_cleanup_loop s') \<and>
        tftp_ready s' ((ds @ [d]) @ es') name \<and> load_addr s' = load_addr s2"
        using Cons.IH [OF rdy2, of es'] fr(2) Cons.prems(5,7-9) False rp c by (simp add: k es)
      then show ?thesis using s2(2) c k(6) by (simp add: es)
    qed
  qed
qed

lemma NetInitLoop_addresses:
  "NetInitLoop s = Some (s\<lparr>NetOurIP := 0xB300000A, NetOurGatewayIP := 0xFE00000A, NetOurSubnetMask := 0x00FFFFFF,
    NetServerIP := 0x8000000A, nmem := memcpy (nmem s) NetOurEther enetaddr 6\<rparr>)"
proof -
  have d: "dec_nat 10 = [49, 48]" "dec_nat 0 = [48]" "dec_nat 128 = [49, 50, 56]" "dec_nat 179 = [49, 55, 57]"
    "dec_nat 254 = [50, 53, 52]" "dec_nat 255 = [50, 53, 53]"
    by (simp_all add: dec_nat_def dec_rev_def digits.simps dec_digit_def lit_def)
  have c: "cstr (lit ''10.0.0.179'') (dotted 10 0 0 179 @ [])" "cstr (lit ''10.0.0.254'') (dotted 10 0 0 254 @ [])"
    "cstr (lit ''255.255.255.0'') (dotted 255 255 255 0 @ [])" "cstr (lit ''10.0.0.128'') (dotted 10 0 0 128 @ [])"
    by (auto simp: cstr_def lit_def dotted_def d less_Suc_eq)
  note i = c [THEN string_to_ip_dotted]
  have "string_to_ip (Some (lit ''10.0.0.179'')) = Some 0xB300000A" "string_to_ip (Some (lit ''10.0.0.254'')) = Some 0xFE00000A"
    "string_to_ip (Some (lit ''255.255.255.0'')) = Some 0x00FFFFFF" "string_to_ip (Some (lit ''10.0.0.128'')) = Some 0x8000000A"
    using i by (simp_all add: ip_of_def push_bit_eq_mult)
  then show ?thesis by (simp add: NetInitLoop_def)
qed

text \<open>The first call of net_init, and the start of a TFTP transfer.\<close>

lemma net_init_first:
  fixes s :: "'x net_tftp_scheme"
  assumes "net_first_call s"
  shows "\<exists>s'. net_init s = Some s' \<and> fst (NetTxPacket s') = PktBuf \<and> fst (NetArpTxPacket s') = NetArpPacketBuf \<and>
    eth_current s' = eth_current s \<and> NetOurVLAN s' = NetOurVLAN s \<and> TftpTimeoutMSecs s' = TftpTimeoutMSecs s \<and>
    load_addr s' = load_addr s \<and> (\<forall>q. fst q \<noteq> NetOurEther_b \<longrightarrow> nmem s' q = nmem s q)"
proof -
  let ?m = "memcpy (nmem s) NetOurEther enetaddr 6"
  have "?m q = nmem s q" if "fst q \<noteq> NetOurEther_b" for q
    using that memcpy.copy_elsewhere [of NetOurEther enetaddr 6 q "nmem s"] by (simp add: object_defs)
  then show ?thesis
    using assms
    by (simp add: net_init_def Let_def NetInitLoop_addresses align_down_def net_clear_handlers_def NetSetTimeout_def
        net_set_arp_handler_def net_set_udp_handler_def ArpInit_def)
qed

lemma netloop_start_tftp:
  fixes s :: "'x net_tftp_scheme"
  assumes bufs: "fst (NetTxPacket s) = PktBuf" "fst (NetArpTxPacket s) = NetArpPacketBuf" "eth_current s \<noteq> None" "NetOurVLAN s = 0xFFFF"
    and eth: "bytes (nmem s) enetaddr 6 \<noteq> replicate 6 0" and timeout: "TftpTimeoutMSecs s \<noteq> 0"
    and name: "cstr (view (nmem s) BootFile) name" "name \<noteq> []" "58 \<notin> set name" "length name < 128"
  shows "\<exists>s1. netloop_start TFTPGET s = Some (Inr s1) \<and> tftp_ready s1 [] name \<and> net_state s1 = NETLOOP_CONTINUE \<and>
    TftpState s1 = STATE_SEND_RRQ \<and> TftpBlkSize s1 = 512 \<and> load_addr s1 = load_addr s \<and>
    NetOurIP s1 = 0xB300000A \<and> 1024 \<le> TftpOurPort s1 \<and> TftpOurPort s1 < 4096"
proof -
  let ?m = "memcpy (nmem s) NetOurEther enetaddr 6"
  define sa where "sa = s\<lparr>net_state := NETLOOP_CONTINUE, NetOurIP := 0xB300000A, NetOurGatewayIP := 0xFE00000A,
    NetOurSubnetMask := 0x00FFFFFF, NetServerIP := 0x8000000A, nmem := ?m\<rparr>"
  define sb where "sb = sa\<lparr>NetDevExists := 1, NetBootFileXferSize := 0\<rparr>"
  have m: "?m q = nmem s q" if "fst q \<noteq> NetOurEther_b" for q
    using that memcpy.copy_elsewhere [of NetOurEther enetaddr 6 q "nmem s"] by (simp add: object_defs)
  have a: "NetInitLoop (net_set_state NETLOOP_CONTINUE s) = Some sa"
    by (simp add: NetInitLoop_addresses net_set_state_def sa_def)
  have "bytes ?m NetOurEther 6 = bytes (nmem s) enetaddr 6"
    by (rule memcpy.copy_read) (simp add: object_defs)
  moreover have "bytes (\<lambda>_. 0) NetOurEther 6 = replicate 6 (0 :: u8)"
    by (rule nth_equalityI) simp_all
  ultimately have "net_check_prereq TFTPGET sa = 0"
    using eth by (simp add: net_check_prereq_def sa_def memcmp_0_iff Let_def)
  then have st: "netloop_start TFTPGET s = do { s \<leftarrow> TftpStart TFTPGET sb; Some (Inr s) }"
    by (simp add: netloop_start_def a sb_def Let_def)
  have ok: "arp_buffers_ok sb"
    using bufs by (simp add: arp_buffers_ok_def our_vlanid_def sb_def sa_def ntohs_def swab16_def VLAN_NONE_def VLAN_IDMASK_def)
  have to: "TftpTimeoutMSecs sb \<noteq> 0" using timeout by (simp add: sb_def sa_def)
  have nb: "cstr (view (nmem sb) BootFile) name"
    using name(1) by (simp add: cstr_def sb_def sa_def m BootFile_def)
  let ?sb = "sb\<lparr>TftpRemoteIP := NetServerIP sb\<rparr>"
  obtain m0 where m0: "tftp_set_filename ?sb = Some (?sb\<lparr>nmem := m0\<rparr>)"
    "cstr (view m0 tftp_filename) name" "\<forall>q. fst q \<noteq> tftp_filename_b \<longrightarrow> m0 q = nmem ?sb q"
    using tftp_set_filename_plain [of ?sb name] name(2-4) nb by auto
  have m0': "tftp_set_filename ?sb = Some (sb\<lparr>TftpRemoteIP := NetServerIP sb, nmem := m0\<rparr>)"
    "\<forall>q. fst q \<noteq> tftp_filename_b \<longrightarrow> m0 q = nmem sb q"
    using m0 by simp_all
  obtain s0 port n where s0: "TftpStart TFTPGET sb = Some (snd (NetSendUDPPacket NetServerEther (NetServerIP sb) 69 port (int n) s0))"
    "1024 \<le> port" "port < 4096" "arp_buffers_ok s0" "NetOurIP s0 = NetOurIP sb" "TftpState s0 = STATE_SEND_RRQ"
    "TftpOurPort s0 = port" "TftpBlkSize s0 = 512" "load_addr s0 = load_addr sb" "NetBootFileXferSize s0 = NetBootFileXferSize sb"
    "net_state s0 = net_state sb" "udp_packet_handler s0 = TftpHandler_f" "timeHandler s0 = Some TftpTimeout_f"
    "cstr (view (nmem s0) tftp_filename) name"
    using TftpStart_sends [OF ok to m0'(1) m0(2) m0'(2), of TFTPGET] by blast
  define s1 where "s1 = snd (NetSendUDPPacket NetServerEther (NetServerIP sb) 69 port (int n) s0)"
  have "tx_only s0 s1"
    unfolding s1_def by (rule NetSendUDPPacket_tx_only [OF s0(4)]) (simp add: object_defs)
  then have k: "keeps s0 s1" by (rule tx_only_keeps)
  have "tftp_ready s0 [] name"
    using s0(4,6,10-14) unat_lt_pow(3) [of "load_addr s0"]
    by (simp add: tftp_ready_def tftp_running_def tftp_stored_def tftp_counters_def bytes_def) (simp add: sb_def sa_def)
  then have "tftp_ready s1 [] name" by (rule keeps_ready [OF _ k])
  moreover have "netloop_start TFTPGET s = Some (Inr s1)" by (simp add: st s0(1) s1_def)
  moreover have "net_state s1 = NETLOOP_CONTINUE" "TftpState s1 = STATE_SEND_RRQ" "TftpBlkSize s1 = 512"
    "load_addr s1 = load_addr s" "NetOurIP s1 = 0xB300000A" "1024 \<le> TftpOurPort s1" "TftpOurPort s1 < 4096"
    using k s0 by (simp_all add: keeps_def) (simp_all add: sb_def sa_def)
  ultimately show ?thesis by blast
qed

lemma netloop_loads_file:
  fixes s :: "'x net_tftp_scheme"
  assumes dev: "net_first_call s" "eth_current s \<noteq> None" "NetOurVLAN s = 0xFFFF"
      "bytes (nmem s) enetaddr 6 \<noteq> replicate 6 0" "TftpTimeoutMSecs s \<noteq> 0"
    and name: "cstr (view (nmem s) BootFile) name" "name \<noteq> []" "58 \<notin> set name" "length name < 128"
    and room: "unat (load_addr s) + length F < 2 ^ 32" "length F < 2 ^ 31"
  shows "\<exists>port. 1024 \<le> port \<and> port < 4096 \<and>
    (\<forall>src sport fs. frames_carry src 0xB300000A sport (word_of_int port) 0 fs (blocks_of 512 F) \<longrightarrow>
      (\<exists>s'. NetLoop TFTPGET (inputs_of fs) s = Some (Some (int (length F)), s') \<and>
        bytes (nmem s') (ram (load_addr s)) (length F) = F \<and>
        timeHandler s' = None \<and> udp_packet_handler s' = dummy_handler \<and> load_addr s' = load_addr s))"
proof -
  let ?s = "s\<lparr>NetRestarted := 0, NetDevExists := 0, NetTryCount := 1\<rparr>"
  obtain sa where sa: "net_init ?s = Some sa" "fst (NetTxPacket sa) = PktBuf" "fst (NetArpTxPacket sa) = NetArpPacketBuf"
    "eth_current sa \<noteq> None" "NetOurVLAN sa = 0xFFFF" "TftpTimeoutMSecs sa \<noteq> 0" "load_addr sa = load_addr s"
    "\<forall>q. fst q \<noteq> NetOurEther_b \<longrightarrow> nmem sa q = nmem s q"
    using net_init_first [of ?s] dev by auto
  have na: "cstr (view (nmem sa) BootFile) name" using name(1) sa(8) by (simp add: cstr_def BootFile_def)
  have "bytes (nmem sa) enetaddr 6 = bytes (nmem s) enetaddr 6"
    by (rule bytes_cong) (use sa(8) in \<open>simp add: enetaddr_def\<close>)
  then have ea: "bytes (nmem sa) enetaddr 6 \<noteq> replicate 6 0" using dev(4) by simp
  obtain s1 where s1: "netloop_start TFTPGET sa = Some (Inr s1)" "tftp_ready s1 [] name" "net_state s1 = NETLOOP_CONTINUE"
    "TftpState s1 = STATE_SEND_RRQ" "TftpBlkSize s1 = 512" "load_addr s1 = load_addr s" "NetOurIP s1 = 0xB300000A"
    "1024 \<le> TftpOurPort s1" "TftpOurPort s1 < 4096"
    using netloop_start_tftp [OF sa(2-5) ea sa(6) na name(2-4)] sa(7) by auto
  obtain k where "TftpOurPort s1 = int k" "k < 4096"
    using s1(8,9) by (metis nonneg_int_cases of_nat_less_numeral_iff order_trans zero_le_numeral)
  then have port: "(ucast (word_of_int (TftpOurPort s1) :: u16) :: u32) = as_unsigned (TftpOurPort s1)"
    by (simp add: as_unsigned_def ucast_u16_of_nat)
  have B: "0 < unat (TftpBlkSize s1)" by (simp add: s1(5))
  note bl = blocks_of_facts(1,2) [of 512 F] blocks_of_facts(3,4) [where B = 512 and F = F]
  have "\<exists>s'. NetLoop TFTPGET (inputs_of fs) s = Some (Some (int (length F)), s') \<and>
        bytes (nmem s') (ram (load_addr s)) (length F) = F \<and> timeHandler s' = None \<and> udp_packet_handler s' = dummy_handler \<and> load_addr s' = load_addr s"
    if fr: "frames_carry src 0xB300000A sport (word_of_int (TftpOurPort s1)) 0 fs (blocks_of 512 F)" for src sport fs
  proof -
    obtain s' where s': "netloop_main TFTPGET (inputs_of fs) s1 =
        Some (Some (sint (of_nat (length (concat ([] @ blocks_of 512 F))) :: u32)), net_cleanup_loop s')"
      "tftp_ready s' ([] @ blocks_of 512 F) name" "load_addr s' = load_addr s1"
      using netloop_loads [OF s1(2,3) bl(2), where src = src and sport = sport and dport = "word_of_int (TftpOurPort s1)" and fs = fs and p = TFTPGET] fr port s1(4-7) bl room
      by auto
    have "sint (of_nat (length F) :: u32) = int (length F)"
      using room(2) by (simp add: sint_cases unat_of_nat32)
    then have r: "NetLoop TFTPGET (inputs_of fs) s = Some (Some (int (length F)), net_cleanup_loop s')"
      using s'(1) by (simp add: NetLoop_def sa(1) s1(1) bl(1))
    have "bytes (nmem s') (ram (load_addr s)) (length F) = F"
      using s'(2,3) s1(6) by (simp add: tftp_ready_def tftp_running_def tftp_stored_def bl(1))
    then show ?thesis
      by (intro exI [of _ "net_cleanup_loop s'"])
        (simp add: r s'(3) s1(6) net_cleanup_loop_def net_clear_handlers_def NetSetTimeout_def net_set_arp_handler_def net_set_udp_handler_def)
  qed
  then show ?thesis using s1(8,9) by blast
qed

section \<open>Properties\<close>


text \<open>Such frames exist: they are what the transmit path of a server on the same code sends.\<close>

lemma data_frame_exists:
  assumes "length d < 65504"
  shows "\<exists>fr. data_frame fr src dst sport dport n d"
proof -
  define b where "b = data_bytes n d"
  define a where "a = sample_arp\<lparr>NetOurIP := src, nmem := st_list sample_mem (PktBuf, 42) b\<rparr>"
  have lb: "length b = length d + 4" by (simp add: b_def data_bytes_def)
  define m where "m = udp_tx_mem NetBcastAddr dst (uint dport) (uint sport) (int (length b)) a"
  have ok: "arp_buffers_ok a" using sample_arp_ok by (simp add: a_def arp_buffers_ok_def our_vlanid_def)
  then have h: "NetEthHdrSize a = 14" by (simp add: arp_buffers_ok_def NetEthHdrSize_def ETHER_HDR_SIZE_def)
  have t: "NetTxPacket a = (PktBuf, 0)" by (simp add: a_def sample_arp_def)
  have x: "fst (NetTxPacket a) \<notin> {fst NetBcastAddr, NetOurEther_b}" by (simp add: t object_defs)
  note f = udp_tx_mem_facts [OF x, where dest = dst and dport = "uint dport" and sport = "uint sport" and n = "length b",
      folded m_def, unfolded h t padd_simps]
  have pay: "bytes (nmem a) (PktBuf, 0 + (14 + 28)) (length b) = b" by (simp add: a_def)
  define fr where "fr = bytes m (PktBuf, 0) (42 + length b)"
  have "udp_frame fr 14 src dst sport dport b"
    unfolding fr_def using f(4) by (intro udp_frame_bytes) (simp_all add: pay [simplified], simp add: a_def)
  moreover have "bytes m (PktBuf, 12) 2 = be16 0x0800"
    by (rule bytes_be16) (use f(3) in \<open>simp add: PROT_IP_def\<close>)
  then have "take 2 (drop 12 fr) = be16 0x0800"
    using bytes_add [of m "(PktBuf, 0)" 12 "2 + (28 + length b)"] bytes_add [of m "(PktBuf, 12)" 2 "28 + length b"]
    by (simp add: fr_def)
  ultimately have "data_frame fr src dst sport dport n d"
    using assms by (simp add: data_frame_def fr_def b_def [symmetric] lb)
  then show ?thesis ..
qed

definition sample_fresh :: net_tftp where
  "sample_fresh = sample_tftp\<lparr>net_first_call := True,
     nmem := st_list (nmem sample_tftp) enetaddr [2, 0, 0, 0, 0, 1]\<rparr>"


text \<open>Pressing q ends the loop in any state: it returns -1, the pending address resolution is forgotten, the
  handlers and the timeout are cleared, and nothing is sent after the round's reception.\<close>

theorem NetLoop_abort:
  fixes s :: "'x net_tftp_scheme"
  assumes "eth_rx recv s = Some s1"
  shows "\<exists>s'. netloop_main p ((recv, of_char CHR ''q'') # inputs) s = Some (Some (-1), s') \<and>
    NetArpWaitPacketIP s' = 0 \<and> timeHandler s' = None \<and> udp_packet_handler s' = dummy_handler \<and>
    sent s' = sent s1 \<and> nmem s' = nmem s1"
  using assms
  by (simp add: net_cleanup_loop_def net_clear_handlers_def NetSetTimeout_def net_set_arp_handler_def net_set_udp_handler_def)

theorem NetLoop_abort_witness:
  "\<exists>s'. netloop_main TFTPGET [(driver_recv None, 113)] sample_running = Some (Some (-1), s') \<and> timeHandler s' = None"
proof -
  have "eth_rx (driver_recv None) sample_running = Some sample_running"
    by (simp add: eth_rx_def driver_recv_def split: option.splits)
  from NetLoop_abort [OF this, of TFTPGET "[]"] show ?thesis by auto
qed

end
