(* ===== verification/Irq.thy ===== *)
theory Irq
  imports Prelude
begin

unbundle bit_operations_syntax

text \<open>
  drivers/interrupt/ftintc010.c and the interrupt table of lib/traps.c: the registers of the
  FTINTC010 controller the driver touches, the table IRQ_HANDLER, the I and F bits of cpsr, and the
  operations on them.  A handler is a value of the type 'h; what it does when do_irq calls it is the
  argument exec of do_irq, a function on the whole machine, so that timers and applications can
  extend the record.  Interrupt numbers are naturals: no caller passes a negative one.
\<close>

datatype 'h handler = default_isr | Isr 'h

record 'h irqs =
  int_enable :: u32          \<comment> \<open>intr_reg_base + 0x4\<close>
  int_clear :: u32           \<comment> \<open>+ 0x8, the last value written\<close>
  int_mode :: u32            \<comment> \<open>+ 0xC\<close>
  int_level :: u32           \<comment> \<open>+ 0x10\<close>
  int_status :: u32          \<comment> \<open>+ 0x14, read only\<close>
  IRQ_HANDLER :: "('h handler \<times> u32) list"
  cpsr :: u32

definition NR_IRQS :: nat where "NR_IRQS = 32"

definition IRQ_TYPE_EDGE_RISING :: u32 where "IRQ_TYPE_EDGE_RISING = 1"
definition IRQ_TYPE_EDGE_FALLING :: u32 where "IRQ_TYPE_EDGE_FALLING = 2"
definition IRQ_TYPE_LEVEL_HIGH :: u32 where "IRQ_TYPE_LEVEL_HIGH = 4"
definition IRQ_TYPE_LEVEL_LOW :: u32 where "IRQ_TYPE_LEVEL_LOW = 8"

lemmas irq_types = IRQ_TYPE_EDGE_RISING_def IRQ_TYPE_EDGE_FALLING_def IRQ_TYPE_LEVEL_HIGH_def
  IRQ_TYPE_LEVEL_LOW_def

definition irq_bit :: "nat \<Rightarrow> u32" where
  "irq_bit irq = push_bit irq 1"

definition irq_edge_clear :: "nat \<Rightarrow> ('h, 'x) irqs_scheme \<Rightarrow> ('h, 'x) irqs_scheme" where
  "irq_edge_clear irq s = s\<lparr>int_clear := irq_bit irq\<rparr>"

definition irq_set_enable :: "nat \<Rightarrow> ('h, 'x) irqs_scheme \<Rightarrow> ('h, 'x) irqs_scheme" where
  "irq_set_enable irq s = s\<lparr>int_enable := int_enable s OR irq_bit irq\<rparr>"

definition irq_set_disable :: "nat \<Rightarrow> ('h, 'x) irqs_scheme \<Rightarrow> ('h, 'x) irqs_scheme" where
  "irq_set_disable irq s = s\<lparr>int_enable := int_enable s AND NOT (irq_bit irq)\<rparr>"

text \<open>The falling-through switch: the levels of the two active-low types, the mode of the two edges.\<close>

definition irq_set_type :: "nat \<Rightarrow> u32 \<Rightarrow> ('h, 'x) irqs_scheme \<Rightarrow> int \<times> ('h, 'x) irqs_scheme" where
  "irq_set_type irq type s =
    (if NR_IRQS \<le> irq then (-1, s)
     else
       let mode = int_mode s; level = int_level s in
       if type = IRQ_TYPE_LEVEL_LOW then (0, s\<lparr>int_mode := mode, int_level := level OR irq_bit irq\<rparr>)
       else if type = IRQ_TYPE_LEVEL_HIGH then (0, s\<lparr>int_mode := mode, int_level := level\<rparr>)
       else if type = IRQ_TYPE_EDGE_FALLING then
         (0, s\<lparr>int_mode := mode OR irq_bit irq, int_level := level OR irq_bit irq\<rparr>)
       else if type = IRQ_TYPE_EDGE_RISING then
         (0, s\<lparr>int_mode := mode OR irq_bit irq, int_level := level\<rparr>)
       else (-1, s))"

definition interrupt_hw_init :: "('h, 'x) irqs_scheme \<Rightarrow> ('h, 'x) irqs_scheme" where
  "interrupt_hw_init s = s\<lparr>int_enable := 0, int_clear := NOT 0, int_mode := 0, int_level := 0\<rparr>"

text \<open>A NULL handler is None.\<close>

definition irq_install_handler ::
  "nat \<Rightarrow> 'h handler option \<Rightarrow> u32 \<Rightarrow> ('h, 'x) irqs_scheme \<Rightarrow> ('h, 'x) irqs_scheme" where
  "irq_install_handler irq handle_irq data s =
    (case handle_irq of
       None \<Rightarrow> s
     | Some h \<Rightarrow> if NR_IRQS \<le> irq then s else s\<lparr>IRQ_HANDLER := (IRQ_HANDLER s)[irq := (h, data)]\<rparr>)"

definition interrupt_init :: "('h, 'x) irqs_scheme \<Rightarrow> ('h, 'x) irqs_scheme" where
  "interrupt_init s =
    interrupt_hw_init (fold (\<lambda>i. irq_install_handler i (Some default_isr) (of_nat i)) [0..<NR_IRQS] s)"

definition PSR_I_BIT :: u32 where "PSR_I_BIT = 0x80"

definition enable_interrupts :: "('h, 'x) irqs_scheme \<Rightarrow> ('h, 'x) irqs_scheme" where
  "enable_interrupts s = s\<lparr>cpsr := cpsr s AND NOT 0x80\<rparr>"

definition disable_interrupts :: "('h, 'x) irqs_scheme \<Rightarrow> bool \<times> ('h, 'x) irqs_scheme" where
  "disable_interrupts s = (cpsr s AND 0x80 = 0, s\<lparr>cpsr := cpsr s OR 0xc0\<rparr>)"

text \<open>
  do_irq: walk the status word from bit 0, calling the handler of each set bit.  The loop ends
  because every round clears the bit it looked at; the measure counts the rounds left.
\<close>

function do_irq_loop ::
  "('h handler \<Rightarrow> u32 \<Rightarrow> ('h, 'x) irqs_scheme \<Rightarrow> ('h, 'x) irqs_scheme) \<Rightarrow> nat \<Rightarrow> u32 \<Rightarrow>
   ('h, 'x) irqs_scheme \<Rightarrow> ('h, 'x) irqs_scheme" where
  "do_irq_loop exec irq vintc_is s =
    (if vintc_is = 0 \<or> 32 \<le> irq then s
     else
       let tmp = irq_bit irq;
           s = (if vintc_is AND tmp \<noteq> 0
                then (case IRQ_HANDLER s ! irq of (m_func, m_data) \<Rightarrow> exec m_func m_data s) else s)
       in do_irq_loop exec (irq + 1) (vintc_is AND NOT tmp) s)"
  by pat_completeness auto
termination
  by (relation "measure (\<lambda>(exec, irq, vintc_is, s). 32 - irq)") auto

declare do_irq_loop.simps [simp del]

definition do_irq ::
  "('h handler \<Rightarrow> u32 \<Rightarrow> ('h, 'x) irqs_scheme \<Rightarrow> ('h, 'x) irqs_scheme) \<Rightarrow> ('h, 'x) irqs_scheme \<Rightarrow>
   ('h, 'x) irqs_scheme" where
  "do_irq exec s =
    (let s = snd (disable_interrupts s)
     in enable_interrupts (do_irq_loop exec 0 (int_status s) s))"

lemma irq_bit_bit: "bit (irq_bit i) n \<longleftrightarrow> n = i \<and> i < 32"
  by (auto simp: irq_bit_def bit_simps)

lemma and_irq_bit: "i < 32 \<Longrightarrow> (w AND irq_bit i \<noteq> 0) = bit w i"
  using and_exp_eq_0_iff_not_bit [of w i] by (simp add: irq_bit_def push_bit_eq_mult)

text \<open>What do_irq does, without the loop: the handlers of the set bits, lowest first.\<close>

definition dispatch ::
  "('h handler \<Rightarrow> u32 \<Rightarrow> ('h, 'x) irqs_scheme \<Rightarrow> ('h, 'x) irqs_scheme) \<Rightarrow> nat list \<Rightarrow>
   ('h, 'x) irqs_scheme \<Rightarrow> ('h, 'x) irqs_scheme" where
  "dispatch exec is s = fold (\<lambda>i s. exec (fst (IRQ_HANDLER s ! i)) (snd (IRQ_HANDLER s ! i)) s) is s"

lemma do_irq_loop_dispatch:
  "irq \<le> 32 \<Longrightarrow> (\<And>i. i < irq \<Longrightarrow> \<not> bit w i) \<Longrightarrow>
   do_irq_loop exec irq w s = dispatch exec (filter (bit w) [irq..<32]) s"
proof (induction exec irq w s rule: do_irq_loop.induct)
  case (1 exec irq w s)
  show ?case
  proof (cases "w = 0 \<or> 32 \<le> irq")
    case True
    then show ?thesis
      by (subst do_irq_loop.simps) (auto simp: dispatch_def)
  next
    case False
    then have irq: "irq < 32" and n: "\<not> (w = 0 \<or> 32 \<le> irq)" by simp_all
    let ?w = "w AND NOT (irq_bit irq)"
    let ?s = "if w AND irq_bit irq \<noteq> 0
      then (case IRQ_HANDLER s ! irq of (m_func, m_data) \<Rightarrow> exec m_func m_data s) else s"
    have w: "bit ?w i = (bit w i \<and> i \<noteq> irq)" for i
      using irq bit_imp_le_length [of w i] by (auto simp: bit_simps irq_bit_bit)
    have lo: "\<not> bit ?w i" if "i < irq + 1" for i
      using that 1(3) w by (cases "i = irq") auto
    have f: "filter (bit ?w) [irq + 1..<32] = filter (bit w) [irq + 1..<32]"
      by (rule filter_cong) (auto simp: w)
    have "do_irq_loop exec irq w s = do_irq_loop exec (irq + 1) ?w ?s"
      using n by (subst do_irq_loop.simps) (simp add: Let_def)
    also have "\<dots> = dispatch exec (filter (bit w) [irq + 1..<32]) ?s"
      using "1.IH" [OF n refl refl] lo irq f by simp
    also have "\<dots> = dispatch exec (filter (bit w) [irq..<32]) s"
      using irq and_irq_bit [OF irq, of w] by (simp add: upt_rec [of irq 32] dispatch_def case_prod_beta)
    finally show ?thesis .
  qed
qed

lemma do_irq_dispatch:
  "do_irq exec s = enable_interrupts (dispatch exec (filter (bit (int_status s)) [0..<32]) (s\<lparr>cpsr := cpsr s OR 0xc0\<rparr>))"
  by (simp add: do_irq_def disable_interrupts_def do_irq_loop_dispatch)

text \<open>The table of 32 handlers: its size is invariant.\<close>

definition irqs_wf :: "('h, 'x) irqs_scheme \<Rightarrow> bool" where
  "irqs_wf s \<longleftrightarrow> length (IRQ_HANDLER s) = NR_IRQS"

lemma irqs_wf_ops [simp]:
  "irqs_wf (irq_edge_clear i s) = irqs_wf s" "irqs_wf (irq_set_enable i s) = irqs_wf s"
  "irqs_wf (irq_set_disable i s) = irqs_wf s" "irqs_wf (snd (irq_set_type i t s)) = irqs_wf s"
  "irqs_wf (interrupt_hw_init s) = irqs_wf s" "irqs_wf (irq_install_handler i h d s) = irqs_wf s"
  "irqs_wf (enable_interrupts s) = irqs_wf s" "irqs_wf (snd (disable_interrupts s)) = irqs_wf s"
  by (auto simp: irqs_wf_def irq_edge_clear_def irq_set_enable_def irq_set_disable_def irq_set_type_def
      interrupt_hw_init_def irq_install_handler_def enable_interrupts_def disable_interrupts_def Let_def
      split: option.split)

lemma install_all:
  "n \<le> length (IRQ_HANDLER s) \<Longrightarrow> n \<le> NR_IRQS \<Longrightarrow>
   IRQ_HANDLER (fold (\<lambda>i. irq_install_handler i (Some h) (of_nat i)) [0..<n] s) =
   map (\<lambda>i. (h, of_nat i)) [0..<n] @ drop n (IRQ_HANDLER s)"
proof (induction n)
  case (Suc n)
  then show ?case
    by (simp add: irq_install_handler_def list_update_append upd_conv_take_nth_drop Cons_nth_drop_Suc [symmetric])
qed simp

section \<open>Properties\<close>

text \<open>do_irq calls exactly the handlers of the interrupts pending when it reads the status register,
  each once and lowest number first, with the I and F bits set, and clears the I bit at the end.\<close>

theorem do_irq_serves:
  "do_irq exec s =
    enable_interrupts (dispatch exec (filter (bit (int_status s)) [0..<32]) (s\<lparr>cpsr := cpsr s OR 0xc0\<rparr>))"
  by (rule do_irq_dispatch)



end
