(* ===== verification/Commands.thy ===== *)
theory Commands
  imports Cli Cpu NetLoop Irq
begin

unbundle bit_operations_syntax

text \<open>
  The commands of lib/cli.c, the table main_cmd_tbl and the shell, with do_irqinfo of lib/traps.c.  The
  machine the commands work on is the console output so far, the network state, whose object Ram is the
  memory the program's own objects are not part of, coprocessor 15 and the interrupt table, where a
  handler is the address of its routine.  What a command prints is recorded; the progress messages of the
  network code are not.  The rounds the network loop sees, the board's registration of a MAC driver, the
  program that is booted and the two commands whose code is elsewhere are parameters.
\<close>

record machine = console +
  net :: net_tftp
  cpu :: "blk cp15"
  table :: "u32 irqs"

definition puts :: "string \<Rightarrow> 'z console_scheme \<Rightarrow> 'z console_scheme" where
  "puts str s = s\<lparr>con := con s @ concat (map (\<lambda>c. if c = 10 then [13, 10] else [c]) (str_bytes str))\<rparr>"

definition word_at :: "u32 \<Rightarrow> 'z machine_scheme \<Rightarrow> u32" where
  "word_at a s = ld32 (nmem (net s)) (ram a)"

definition set_mem :: "blk mem \<Rightarrow> 'z machine_scheme \<Rightarrow> 'z machine_scheme" where
  "set_mem m s = s\<lparr>net := (net s)\<lparr>nmem := m\<rparr>\<rparr>"

text \<open>The printing loop of do_rd32 and do_wr32: k words to go, the j-th of the line next.\<close>

fun dump :: "nat \<Rightarrow> nat \<Rightarrow> u32 \<Rightarrow> 'z machine_scheme \<Rightarrow> 'z machine_scheme option" where
  "dump 0 j pd s = Some s"
| "dump (Suc k) j pd s =
    do {
      s \<leftarrow> (if j = 0 then prints ''%08X: '' [Int32 pd] s else Some s);
      s \<leftarrow> prints ''%08X '' [Int32 (word_at pd s)] s;
      let j = j + 1;
      if j = 4 then do { s \<leftarrow> (if 0 < k then prints [CHR 0x0A] [] s else Some s); dump k 0 (pd + 4) s }
      else dump k j (pd + 4) s
    }"

definition argument :: "u8 list list \<Rightarrow> nat \<Rightarrow> u32 option" where
  "argument argv i = map_option fst (strtol (Some (clist (argv ! i))) 0)"

definition do_rd32 :: "u8 list list \<Rightarrow> 'z machine_scheme \<Rightarrow> (int \<times> 'z machine_scheme) option" where
  "do_rd32 argv s =
    (let argc = length argv in
     if argc < 2 \<or> 3 < argc then Some (1, s)
     else do {
       addr \<leftarrow> argument argv 1;
       num \<leftarrow> (if argc = 3 then argument argv 2 else Some 4);
       s \<leftarrow> dump (nat (sint num)) 0 addr s;
       Some (0, s)
     })"

fun store_words :: "nat \<Rightarrow> u32 \<Rightarrow> u32 \<Rightarrow> u32 \<Rightarrow> blk mem \<Rightarrow> blk mem" where
  "store_words 0 pd data datainc m = m"
| "store_words (Suc k) pd data datainc m = store_words k (pd + 4) (data + datainc) datainc (st32 m (ram pd) data)"

definition do_wr32 :: "u8 list list \<Rightarrow> 'z machine_scheme \<Rightarrow> (int \<times> 'z machine_scheme) option" where
  "do_wr32 argv s =
    (let argc = length argv in
     if argc < 3 \<or> 5 < argc then Some (1, s)
     else do {
       addr \<leftarrow> argument argv 1;
       data \<leftarrow> argument argv 2;
       (num, datainc) \<leftarrow>
         (if 4 \<le> argc then do {
            num \<leftarrow> argument argv 3;
            datainc \<leftarrow> (if argc = 5 then argument argv 4 else Some 0);
            Some (num, datainc)
          }
          else Some (1, 0));
       let s = set_mem (store_words (nat (sint num)) addr data datainc (nmem (net s))) s;
       s \<leftarrow> dump (nat (sint num)) 0 addr s;
       Some (0, s)
     })"

definition CONFIG_MACH_TYPE :: int where "CONFIG_MACH_TYPE = 758"

text \<open>kernel_entry(0, CONFIG_MACH_TYPE, 0) at load_addr; should it return, so does the command.  A loop that
  has not returned when its rounds are used up gives no result.\<close>

definition do_tftpboot ::
  "unit loop_input list \<Rightarrow> (net_tftp \<Rightarrow> int \<times> net_tftp) option \<Rightarrow>
   (u32 \<Rightarrow> int \<Rightarrow> int \<Rightarrow> u32 \<Rightarrow> 'z machine_scheme \<Rightarrow> 'z machine_scheme option) \<Rightarrow>
   u8 list list \<Rightarrow> 'z machine_scheme \<Rightarrow> (int \<times> 'z machine_scheme) option" where
  "do_tftpboot rounds board_eth_init kernel_entry argv s =
    (let argc = length argv in
     if argc < 2 then Some (1, s)
     else do {
       s \<leftarrow> (if argc = 3
             then do { (a, e) \<leftarrow> strtoul (Some (clist (argv ! 2))) 16; Some (s\<lparr>net := (net s)\<lparr>load_addr := a\<rparr>\<rparr>) }
             else Some s);
       s \<leftarrow> (if argc = 4
             then do { ip \<leftarrow> string_to_ip (Some (clist (argv ! 3))); Some (s\<lparr>net := (net s)\<lparr>NetServerIP := ip\<rparr>\<rparr>) }
             else Some s);
       let (n, nt) = eth_initialize board_eth_init (Some (clist (argv ! 1))) (net s);
       let s = s\<lparr>net := nt\<rparr>;
       if n = 0 then Some (0, s)
       else do {
         (rc, nt) \<leftarrow> NetLoop TFTPGET rounds (net s);
         rc \<leftarrow> rc;
         let s = s\<lparr>net := nt\<rparr>;
         if rc < 0 then map_option (Pair 0) (prints (''Download error'' @ [CHR 0x0A]) [] s)
         else do {
           let s = s\<lparr>cpu := snd (disable_d_cache (cpu s))\<rparr>;
           map_option (Pair 0) (kernel_entry (load_addr (net s)) 0 CONFIG_MACH_TYPE 0 s)
         }
       }
     })"

definition do_ping ::
  "unit loop_input list \<Rightarrow> (net_tftp \<Rightarrow> int \<times> net_tftp) option \<Rightarrow>
   u8 list list \<Rightarrow> 'z machine_scheme \<Rightarrow> (int \<times> 'z machine_scheme) option" where
  "do_ping rounds board_eth_init argv s =
    (if length argv < 2 then Some (-1, s)
     else
       let (n, nt) = eth_initialize board_eth_init None (net s); s = s\<lparr>net := nt\<rparr> in
       if n = 0 then Some (0, s)
       else do {
         ip \<leftarrow> string_to_ip (Some (clist (argv ! 1)));
         let s = s\<lparr>net := (net s)\<lparr>NetPingIP := ip\<rparr>\<rparr>;
         if ip = 0 then Some (1, s)
         else do {
           (rc, nt) \<leftarrow> NetLoop PING rounds (net s);
           rc \<leftarrow> rc;
           let s = s\<lparr>net := nt\<rparr>;
           if rc < 0
           then map_option (Pair 1) (prints (''ping failed; host %s is not alive'' @ [CHR 0x0A]) [Str (Some (argv ! 1))] s)
           else map_option (Pair 0) (prints (''host %s is alive'' @ [CHR 0x0A]) [Str (Some (argv ! 1))] s)
         }
       })"

text \<open>The lines for the handlers from number i on.\<close>

fun irq_lines :: "nat \<Rightarrow> (u32 handler \<times> u32) list \<Rightarrow> 'z console_scheme \<Rightarrow> 'z console_scheme option" where
  "irq_lines i [] s = Some s"
| "irq_lines i ((m_func, m_data) # hs) s =
    do {
      s \<leftarrow> (case m_func of
             default_isr \<Rightarrow> Some s
           | Isr a \<Rightarrow> prints (''%02d  %08x  %08x '' @ [CHR 0x0A]) [Int32 (of_nat i), Int32 a, Int32 m_data] s);
      irq_lines (Suc i) hs s
    }"

definition do_irqinfo :: "'z machine_scheme \<Rightarrow> (int \<times> 'z machine_scheme) option" where
  "do_irqinfo s =
    do {
      let s = puts ([CHR 0x0A] @ ''Interrupt-Information:'' @ [CHR 0x0A, CHR 0x0A] @ ''Nr  Routine   Arg   '' @ [CHR 0x0A] @
        ''--------------------'' @ [CHR 0x0A]) s;
      s \<leftarrow> irq_lines 0 (take NR_IRQS (IRQ_HANDLER (table s))) s;
      Some (0, puts [CHR 0x0A] s)
    }"

definition do_print_irqinfo :: "u8 list list \<Rightarrow> 'z machine_scheme \<Rightarrow> (int \<times> 'z machine_scheme) option" where
  "do_print_irqinfo argv s = do { (r, s) \<leftarrow> do_irqinfo s; Some (0, s) }"

text \<open>The table as config.mk sets it up; the caches are switched with the table at pg_tb.\<close>

definition main_cmd_tbl ::
  "unit loop_input list \<Rightarrow> (net_tftp \<Rightarrow> int \<times> net_tftp) option \<Rightarrow>
   (u32 \<Rightarrow> int \<Rightarrow> int \<Rightarrow> u32 \<Rightarrow> machine \<Rightarrow> machine option) \<Rightarrow> nptr \<Rightarrow>
   (u8 list list \<Rightarrow> machine \<Rightarrow> (int \<times> machine) option) \<Rightarrow>
   (u8 list list \<Rightarrow> machine \<Rightarrow> (int \<times> machine) option) \<Rightarrow> machine cmd list" where
  "main_cmd_tbl rounds board_eth_init kernel_entry pg_tb FTSATA100_main do_spi_bootmode_test =
    [\<lparr>cname = ''md'', usage = ''<addr> [num]'', func = Some do_rd32\<rparr>,
     \<lparr>cname = ''mw'', usage = ''<addr> <data> [num [inc]]'', func = Some do_wr32\<rparr>,
     \<lparr>cname = ''irq'', usage = ''Interrupt information'', func = Some do_print_irqinfo\<rparr>,
     \<lparr>cname = ''satah'', usage = ''FTSATA100 commands mode'', func = Some FTSATA100_main\<rparr>,
     \<lparr>cname = ''spt'', usage = ''Code on SPI flash test'', func = Some do_spi_bootmode_test\<rparr>,
     \<lparr>cname = ''en_cache'', usage = ''Enable D-cache and I-cache'', func = Some (\<lambda>argv s.
        let (r, m, c) = enable_d_cache pg_tb (nmem (net s)) (cpu s) in Some (r, (set_mem m s)\<lparr>cpu := c\<rparr>))\<rparr>,
     \<lparr>cname = ''dis_cache'', usage = ''Disable D-cache and I-cache'', func = Some (\<lambda>argv s.
        let (r, c) = disable_d_cache (cpu s) in Some (r, s\<lparr>cpu := c\<rparr>))\<rparr>,
     \<lparr>cname = ''tftpboot'', usage = ''<filename> [loadaddr] [serverip]'', func = Some (do_tftpboot rounds board_eth_init kernel_entry)\<rparr>,
     \<lparr>cname = ''ping'', usage = ''<ipaddr>'', func = Some (do_ping rounds board_eth_init)\<rparr>,
     \<lparr>cname = ''?'', usage = ''print all cmds'', func = None\<rparr>]"

text \<open>One turn of the shell's loop.  What the command printed goes out through ftuart_putc.\<close>

fun send_all :: "u8 list \<Rightarrow> 'z ftuart_scheme \<Rightarrow> 'z ftuart_scheme option" where
  "send_all [] u = Some u"
| "send_all (c # cs) u = do { u \<leftarrow> ftuart_putc c u; send_all cs u }"

definition prompt :: string where
  "prompt = [CHR 0x0A] @ ''root-t:> ''"

definition shell_turn ::
  "'b ptr \<Rightarrow> 'y console_scheme cmd list \<Rightarrow> 'b mem \<times> 'z ftuart_scheme \<times> 'y console_scheme \<Rightarrow>
   (cli_error + 'b mem \<times> 'z ftuart_scheme \<times> 'y console_scheme) option" where
  "shell_turn cmdstr cmds st =
    (case st of (m, u, s) \<Rightarrow>
       do {
         u \<leftarrow> ftuart_puts (lit prompt) u;
         (count, m, u) \<leftarrow> scan_string cmdstr m u;
         r \<leftarrow> cmd_exec m cmdstr cmds (s\<lparr>con := []\<rparr>);
         (case r of
            Inl e \<Rightarrow> Some (Inl e)
          | Inr (rc, m, s') \<Rightarrow>
              do { u \<leftarrow> send_all (con s') u; Some (Inr (m, u, s'\<lparr>con := con s @ con s'\<rparr>)) })
       })"

section \<open>What md prints\<close>

abbreviation hex8 :: "u32 \<Rightarrow> u8 list" where
  "hex8 w \<equiv> hex_word 0 w"

lemma console_plain: "10 \<notin> set out \<Longrightarrow> emit_console out = out @ [0]"
proof -
  have "10 \<notin> set out \<Longrightarrow> concat (map (\<lambda>c. if c = 10 then [13, 10] else [c]) out) = out" by (induction out) auto
  then show "10 \<notin> set out \<Longrightarrow> emit_console out = out @ [0]" by (simp add: emit_console_def)
qed

lemma prints_hex8:
  "prints ''%08X '' [Int32 w] s = Some (s\<lparr>con := con s @ hex8 w @ [32, 0]\<rparr>)"
  "prints ''%08X: '' [Int32 w] s = Some (s\<lparr>con := con s @ hex8 w @ [58, 32, 0]\<rparr>)"
proof -
  have c: "conversion d [] (str_bytes ''08X'' @ rest) [Int32 w] = Some (hex8 w, rest, [])" for d :: "unit \<Rightarrow> _" and rest
    using number_hex_word [of 0 "[]" w]
    by (simp add: conversion_def parse_width_def parse_precision_def parse_qualifier_def cur_def int_arg_def isdigit_def
      str_bytes_def flag_defs)
  have n: "10 \<notin> set (hex8 w)" using hex_chars_plain by blast
  show "prints ''%08X '' [Int32 w] s = Some (s\<lparr>con := con s @ hex8 w @ [32, 0]\<rparr>)"
    using c [of _ "[32]"] console_plain [of "hex8 w @ [32]"] n
    by (simp add: prints_def simple_printf_def str_bytes_def)
  show "prints ''%08X: '' [Int32 w] s = Some (s\<lparr>con := con s @ hex8 w @ [58, 32, 0]\<rparr>)"
    using c [of _ "[58, 32]"] console_plain [of "hex8 w @ [58, 32]"] n
    by (simp add: prints_def simple_printf_def str_bytes_def)
qed

lemma prints_newline: "prints [CHR 0x0A] [] s = Some (s\<lparr>con := con s @ [13, 10, 0]\<rparr>)"
  by (simp add: prints_def simple_printf_def str_bytes_def emit_console_def)

text \<open>The characters of a dump of the words ws from address a, the j-th of the line next.\<close>

fun dump_text :: "nat \<Rightarrow> u32 \<Rightarrow> u32 list \<Rightarrow> u8 list" where
  "dump_text j a [] = []"
| "dump_text j a (w # ws) =
    (if j = 0 then hex8 a @ [58, 32, 0] else []) @ hex8 w @ [32, 0] @
    (if j = 3 \<and> ws \<noteq> [] then [13, 10, 0] else []) @ dump_text (if j = 3 then 0 else j + 1) (a + 4) ws"

definition words_from :: "nat \<Rightarrow> u32 \<Rightarrow> 'z machine_scheme \<Rightarrow> u32 list" where
  "words_from k a s = map (\<lambda>i. word_at (a + 4 * of_nat i) s) [0..<k]"

lemma words_from_Suc: "words_from (Suc k) a s = word_at a s # words_from k (a + 4) s"
proof -
  have "[0..<Suc k] = 0 # map Suc [0..<k]" by (metis upt_conv_Cons zero_less_Suc map_Suc_upt)
  then show ?thesis by (simp add: words_from_def comp_def algebra_simps)
qed

lemma words_from_con [simp]: "words_from k a (s\<lparr>con := c\<rparr>) = words_from k a s" "word_at a (s\<lparr>con := c\<rparr>) = word_at a s"
  by (simp_all add: words_from_def word_at_def)

lemma dump_prints: "j < 4 \<Longrightarrow> dump k j a s = Some (s\<lparr>con := con s @ dump_text j a (words_from k a s)\<rparr>)"
proof (induction k arbitrary: j a s)
  case 0
  then show ?case by (simp add: words_from_def)
next
  case (Suc k)
  have e: "words_from k (a + 4) s = [] \<longleftrightarrow> k = 0" by (simp add: words_from_def)
  have "j = 3 \<or> j + 1 < 4" using Suc.prems by arith
  then show ?case
    using Suc.IH e by (auto simp: prints_hex8 prints_newline words_from_Suc Let_def)
qed

section \<open>What mw stores\<close>

lemma ram_add: "unat a + 4 * k < 2 ^ 32 \<Longrightarrow> ram (a + 4 * of_nat k) = padd (ram a) (4 * k)"
proof -
  assume a: "unat a + 4 * k < 2 ^ 32"
  then have "(of_nat (4 * k) :: u32) = 4 * of_nat k" "unat (of_nat (4 * k) :: u32) = 4 * k"
    by (simp, subst unat_of_nat32, simp_all)
  then have "unat (a + 4 * of_nat k) = unat a + 4 * k"
    using a unat_word_ariths(1) [of a "of_nat (4 * k)"] by simp
  then show ?thesis by (simp add: ram_def padd_def)
qed

lemma store_words_facts:
  assumes "unat a + 4 * n \<le> 2 ^ 32"
  shows "j < n \<Longrightarrow> ld32 (store_words n a d i m) (padd (ram a) (4 * j)) = d + of_nat j * i"
    and "fst q \<noteq> Ram \<or> snd q < unat a \<or> unat a + 4 * n \<le> snd q \<Longrightarrow> store_words n a d i m q = m q"
proof -
  have "(j < n \<longrightarrow> ld32 (store_words n a d i m) (padd (ram a) (4 * j)) = d + of_nat j * i) \<and>
    (fst q \<noteq> Ram \<or> snd q < unat a \<or> unat a + 4 * n \<le> snd q \<longrightarrow> store_words n a d i m q = m q)" for j q
    using assms
  proof (induction n arbitrary: a d m j q)
    case (Suc n)
    have f: "st32 m (ram a) d q = m q" if "fst q \<noteq> Ram \<or> snd q < unat a \<or> unat a + 4 \<le> snd q" for q
      using that by (cases q) (auto simp: st32_apply ram_def padd_def)
    show ?case
    proof (cases "n = 0")
      case True
      then show ?thesis using f by simp
    next
      case False
      have "ram (a + 4 * of_nat 1) = padd (ram a) (4 * 1)" by (rule ram_add) (use Suc.prems False in simp)
      then have r: "ram (a + 4) = padd (ram a) 4" by simp
      then have u: "unat (a + 4) = unat a + 4" by (simp add: ram_def padd_def)
      have IH: "(j < n \<longrightarrow> ld32 (store_words n (a + 4) (d + i) i M) (padd (ram (a + 4)) (4 * j)) = d + i + of_nat j * i) \<and>
        (fst q \<noteq> Ram \<or> snd q < unat (a + 4) \<or> unat (a + 4) + 4 * n \<le> snd q \<longrightarrow> store_words n (a + 4) (d + i) i M q = M q)" for j q M
        by (rule Suc.IH) (use Suc.prems u in simp)
      have first: "ld32 (store_words n (a + 4) (d + i) i (st32 m (ram a) d)) (padd (ram a) 0) = d"
      proof -
        have "store_words n (a + 4) (d + i) i (st32 m (ram a) d) (padd (ram a) k) = st32 m (ram a) d (padd (ram a) k)" if "k < 4" for k
          using IH [where j = 0 and q = "padd (ram a) k"] that u by (auto simp: ram_def padd_def)
        then have "ld32 (store_words n (a + 4) (d + i) i (st32 m (ram a) d)) (padd (ram a) 0) = ld32 (st32 m (ram a) d) (padd (ram a) 0)"
          by (intro ld32_cong) auto
        then show ?thesis by simp
      qed
      have rest: "ld32 (store_words n (a + 4) (d + i) i (st32 m (ram a) d)) (padd (ram a) (4 * Suc k)) = d + of_nat (Suc k) * i"
        if "k < n" for k
        using IH [where j = k] that r by (simp add: algebra_simps)
      show ?thesis
      proof (intro conjI impI)
        assume "j < Suc n"
        then show "ld32 (store_words (Suc n) a d i m) (padd (ram a) (4 * j)) = d + of_nat j * i"
          using first rest by (cases j) simp_all
      next
        assume "fst q \<noteq> Ram \<or> snd q < unat a \<or> unat a + 4 * Suc n \<le> snd q"
        then show "store_words (Suc n) a d i m q = m q"
          using IH [where j = 0 and q = q and M = "st32 m (ram a) d"] f [of q] u by auto
      qed
    qed
  qed simp
  then show "j < n \<Longrightarrow> ld32 (store_words n a d i m) (padd (ram a) (4 * j)) = d + of_nat j * i"
    and "fst q \<noteq> Ram \<or> snd q < unat a \<or> unat a + 4 * n \<le> snd q \<Longrightarrow> store_words n a d i m q = m q"
    by blast+
qed

lemma set_mem_sel [simp]: "nmem (net (set_mem m s)) = m" "con (set_mem m s) = con s"
  by (simp_all add: set_mem_def)

text \<open>C24: mw stores num words data, data + inc, ... from addr on and nothing else (num is 1 and inc is 0 when they
  are not given), prints them as md does, and md of the same range prints them again without a change to the
  memory.\<close>

theorem do_wr32_stores:
  fixes s :: "'z machine_scheme"
  assumes "3 \<le> length argv" "length argv \<le> 5" "argument argv 1 = Some a" "argument argv 2 = Some d"
    and "if 4 \<le> length argv then argument argv 3 = Some num else num = 1"
    and "if length argv = 5 then argument argv 4 = Some inc else inc = 0"
    and "unat a + 4 * nat (sint num) \<le> 2 ^ 32"
  shows "\<exists>m'. let n = nat (sint num); text = dump_text 0 a (map (\<lambda>k. d + of_nat k * inc) [0..<n]);
      s' = (set_mem m' s)\<lparr>con := con s @ text\<rparr> in
    do_wr32 argv s = Some (0, s') \<and>
    (\<forall>k < n. ld32 m' (ram (a + 4 * of_nat k)) = d + of_nat k * inc) \<and>
    (\<forall>q. fst q \<noteq> Ram \<or> snd q < unat a \<or> unat a + 4 * n \<le> snd q \<longrightarrow> m' q = nmem (net s) q) \<and>
    (\<forall>argv2. length argv2 = 3 \<and> argument argv2 1 = Some a \<and> argument argv2 2 = Some num \<longrightarrow>
      do_rd32 argv2 s' = Some (0, s'\<lparr>con := con s' @ text\<rparr>))"
proof -
  define n where "n = nat (sint num)"
  define m' where "m' = store_words n a d inc (nmem (net s))"
  have b: "unat a + 4 * n \<le> 2 ^ 32" using assms(7) by (simp add: n_def)
  have st: "ld32 m' (ram (a + 4 * of_nat k)) = d + of_nat k * inc" if "k < n" for k
    using store_words_facts(1) [OF b that] ram_add [of a k] b that by (simp add: m'_def)
  have w: "words_from n a t = map (\<lambda>k. d + of_nat k * inc) [0..<n]" if "nmem (net t) = m'" for t :: "'z machine_scheme"
    using st by (auto simp: words_from_def word_at_def that)
  let ?s = "(set_mem m' s)\<lparr>con := con s @ dump_text 0 a (map (\<lambda>k. d + of_nat k * inc) [0..<n])\<rparr>"
  have "do_wr32 argv s = Some (0, ?s)"
    using assms(1-6) w [of "set_mem m' s"]
    by (auto simp: do_wr32_def dump_prints Let_def m'_def n_def split: if_splits)
  moreover have "do_rd32 argv2 ?s = Some (0, ?s\<lparr>con := con ?s @ dump_text 0 a (map (\<lambda>k. d + of_nat k * inc) [0..<n])\<rparr>)"
    if "length argv2 = 3" "argument argv2 1 = Some a" "argument argv2 2 = Some num" for argv2
    using that w [of ?s] by (simp add: do_rd32_def dump_prints flip: n_def)
  moreover have "m' q = nmem (net s) q" if "fst q \<noteq> Ram \<or> snd q < unat a \<or> unat a + 4 * n \<le> snd q" for q
    using store_words_facts(2) [OF b that] by (simp add: m'_def)
  ultimately show ?thesis using st unfolding Let_def n_def [symmetric] by blast
qed

definition sample_machine :: machine where
  "sample_machine = \<lparr>con = [], net = sample_fresh, cpu = \<lparr>cntr = 0x1005, ttb = (Ram, 0), dacr = 0, maint = []\<rparr>,
     table = \<lparr>int_enable = 0, int_clear = 0, int_mode = 0, int_level = 0, int_status = 0, IRQ_HANDLER = [], cpsr = 0\<rparr>\<rparr>"

theorem do_wr32_stores_witness:
  "\<exists>s'. do_wr32 (map str_bytes [''mw'', ''0x1000'', ''7'', ''2'', ''3'']) sample_machine = Some (0, s') \<and>
     word_at 0x1000 s' = 7 \<and> word_at 0x1004 s' = 10"
proof -
  let ?a = "map str_bytes [''mw'', ''0x1000'', ''7'', ''2'', ''3'']"
  have a: "argument ?a 1 = Some 0x1000" "argument ?a 2 = Some 7" "argument ?a 3 = Some 2" "argument ?a 4 = Some 3"
    by (simp_all add: argument_def strtol_def strto_base_def clist_def str_bytes_def isdigit_def isxdigit_def isupper_def
      islower_def tolower_def strtoul_hex.simps strtoul_dec.simps)
  have l: "3 \<le> length ?a" "length ?a \<le> 5" "unat (0x1000 :: u32) + 4 * nat (sint (2 :: u32)) \<le> 2 ^ 32" by simp_all
  have i: "if 4 \<le> length ?a then argument ?a 3 = Some 2 else (2::u32) = 1"
    "if length ?a = 5 then argument ?a 4 = Some 3 else (3::u32) = 0" using a by simp_all
  from do_wr32_stores [OF l(1,2) a(1,2) i l(3), of sample_machine] obtain m' where
    m: "do_wr32 ?a sample_machine = Some (0, (set_mem m' sample_machine)\<lparr>con := con sample_machine @
          dump_text 0 0x1000 (map (\<lambda>k. 7 + of_nat k * 3) [0..<nat (sint (2 :: u32))])\<rparr>)"
      "\<forall>k < nat (sint (2 :: u32)). ld32 m' (ram (0x1000 + 4 * of_nat k)) = 7 + of_nat k * 3"
    unfolding Let_def by blast
  have "ld32 m' (ram 0x1000) = 7" "ld32 m' (ram 0x1004) = 10" using m(2) [rule_format, of 0] m(2) [rule_format, of 1] by simp_all
  then show ?thesis using m(1) by (intro exI conjI) (assumption, simp_all add: word_at_def)
qed

section \<open>A turn of the shell\<close>

lemma send_all_talks:
  "line_ready u \<Longrightarrow> \<exists>u'. send_all cs u = Some u' \<and> talked u (concat (map crlf cs)) 0 u'"
proof (induction cs arbitrary: u)
  case Nil
  then show ?case by (auto intro: talked_refl)
next
  case (Cons c cs)
  obtain u1 where u1: "ftuart_putc c u = Some u1" "talked u (crlf c) 0 u1" using putc_talks [OF Cons.prems] by blast
  then have "line_ready u1" using talked_ready Cons.prems by blast
  then obtain u2 where u2: "send_all cs u1 = Some u2" "talked u1 (concat (map crlf cs)) 0 u2" using Cons.IH by blast
  have "send_all (c # cs) u = Some u2" using u1(1) u2(1) by simp
  moreover have "talked u (concat (map crlf (c # cs))) 0 u2" using talked_trans [OF u1(2) u2(2)] by simp
  ultimately show ?case by blast
qed

definition prompt_echo :: "u8 list" where
  "prompt_echo = [13, 13, 10] @ str_bytes ''root-t:> ''"

lemma prompt_talks:
  assumes "line_ready u"
  shows "\<exists>u'. ftuart_puts (lit prompt) u = Some u' \<and> talked u prompt_echo 0 u'"
proof -
  have "cstr (lit prompt) (str_bytes prompt)" by (rule cstr_lit) (simp add: prompt_def str_bytes_def)
  from puts_talks [OF assms this] show ?thesis
    by (simp add: prompt_def str_bytes_def crlf_def prompt_echo_def)
qed

lemma edited_chars: "set (fold edit_key ks l) \<subseteq> set l \<union> {c. 0x1F < c \<and> c < 0x7F}"
proof (induction ks arbitrary: l)
  case (Cons c ks)
  have "set (edit_key c l) \<subseteq> set l \<union> {c. 0x1F < c \<and> c < 0x7F}"
    by (auto simp: edit_key_def dest: in_set_butlastD)
  then show ?case using Cons [of "edit_key c l"] by auto
qed simp


definition sample_cmds :: "machine cmd list" where
  "sample_cmds = main_cmd_tbl [] None (\<lambda>_ _ _ _ s. Some s) (Ram, 16384) (\<lambda>_ s. Some (0, s)) (\<lambda>_ s. Some (0, s))"

lemma sample_cmds_names: "c \<in> set sample_cmds \<Longrightarrow> 0 \<notin> set (str_bytes (cname c))"
  by (auto simp: sample_cmds_def main_cmd_tbl_def str_bytes_def)


section \<open>Booting a file\<close>

lemma copy_filename_loop_copies:
  "(\<forall>j < length f. src (i + j) = f ! j \<and> f ! j \<noteq> 0 \<and> f ! j \<noteq> 34) \<Longrightarrow> src (i + length f) = 0 \<Longrightarrow> length f \<le> n \<Longrightarrow>
   copy_filename_loop m dst src i n = st_list m dst (f @ [0])"
proof (induction f arbitrary: m dst i n)
  case Nil
  then show ?case by (cases n) simp_all
next
  case (Cons c f)
  then obtain n' where n: "n = Suc n'" by (cases n) simp_all
  have c: "src i = c" "c \<noteq> 0" "c \<noteq> 34" using Cons.prems(1) [rule_format, of 0] by simp_all
  have "\<forall>j < length f. src (Suc i + j) = f ! j \<and> f ! j \<noteq> 0 \<and> f ! j \<noteq> 34"
    using Cons.prems(1) by (metis Suc_less_eq add_Suc add_Suc_right length_Cons nth_Cons_Suc)
  then show ?case
    using Cons.IH [of "Suc i" n' "st8 m dst c" "padd dst 1"] Cons.prems(2,3) c by (simp add: n)
qed

lemma copy_filename_copies:
  assumes "0 \<notin> set f" "34 \<notin> set f" "length f < 128"
  shows "copy_filename m dst (clist f) 128 = st_list m dst (f @ [0])"
proof -
  have "f ! j \<noteq> 0 \<and> f ! j \<noteq> 34" if "j < length f" for j using nth_mem [OF that] assms by metis
  then have "copy_filename_loop m dst (clist f) 0 127 = st_list m dst (f @ [0])"
    using assms(3) by (intro copy_filename_loop_copies) (auto simp: clist_def)
  moreover have "clist f 0 \<noteq> 34" using nth_mem [of 0 f] assms(2) by (cases f) (auto simp: clist_def)
  ultimately show ?thesis by (simp add: copy_filename_def)
qed

lemma eth_initialize_registers:
  assumes "0 \<notin> set f" "34 \<notin> set f" "length f < 128" "eth_initialize (Some (eth_register dev)) (Some (clist f)) t = (n, t')"
  shows "n = 1" "\<exists>d m. t' = t\<lparr>eth_current := Some d, nmem := m\<rparr> \<and> cstr (view m BootFile) f \<and>
    (\<forall>q. fst q \<noteq> fst BootFile \<longrightarrow> m q = nmem t q)"
proof -
  let ?m = "st_list (nmem t) BootFile (f @ [0])"
  have "copy_filename (nmem t) BootFile (clist f) 128 = ?m" by (rule copy_filename_copies [OF assms(1-3)])
  then have e: "n = 1" "t' = t\<lparr>eth_current := Some (dev\<lparr>eth_state := ETH_STATE_INIT\<rparr>), nmem := ?m\<rparr>"
    using assms(4) by (auto simp: eth_initialize_def eth_env_init_def eth_register_def Let_def)
  show "n = 1" by (fact e(1))
  have "cstr (view ?m BootFile) f" using assms(1) by (intro cstr_st_list)
  then show "\<exists>d m. t' = t\<lparr>eth_current := Some d, nmem := m\<rparr> \<and> cstr (view m BootFile) f \<and>
      (\<forall>q. fst q \<noteq> fst BootFile \<longrightarrow> m q = nmem t q)"
    using e(2) st_list_other by metis
qed



end
