(* ===== verification/Fttmr010.thy ===== *)
theory Fttmr010
  imports Irq Ticks
begin

unbundle bit_operations_syntax

text \<open>
  drivers/timer/fttmr010.c: the registers of the FTTMR010, the set-up of its three timers and the
  interrupt routines of timers 2 and 3.
\<close>

section \<open>The FTTMR010\<close>

record fttmr010_config =
  timer_counter :: u32
  timer_load :: u32
  timer_match1 :: u32
  timer_match2 :: u32

datatype isr_tag = fttmr010_t2_isr | fttmr010_t3_isr | App_isr nat

text \<open>
  The machine the timer driver sees: the interrupt state, the clock with the load values, the
  callbacks (values of the type 'c, None is NULL) and the registers.
\<close>

record 'c timers = "isr_tag irqs" +
  clk :: clock
  timer_handler :: "'c option list"
  cfg :: "fttmr010_config list"
  cr :: u32
  interrupt_state :: u32
  interrupt_mask :: u32

definition FTTMR010_TM1_ENABLE :: u32 where "FTTMR010_TM1_ENABLE = 1"
definition FTTMR010_TM1_CLOCK :: u32 where "FTTMR010_TM1_CLOCK = 2"
definition FTTMR010_TM2_ENABLE :: u32 where "FTTMR010_TM2_ENABLE = push_bit 3 1"
definition FTTMR010_TM3_ENABLE :: u32 where "FTTMR010_TM3_ENABLE = push_bit 6 1"

definition FTTMR010_TM1_INTS :: u32 where
  "FTTMR010_TM1_INTS = push_bit 0 1 OR push_bit 1 1 OR push_bit 2 1"

lemmas fttmr010_bits = FTTMR010_TM1_ENABLE_def FTTMR010_TM1_CLOCK_def FTTMR010_TM2_ENABLE_def
  FTTMR010_TM3_ENABLE_def FTTMR010_TM1_INTS_def

text \<open>
  The interrupt routines of timers 2 and 3: stop the timer, clear the interrupt at the controller
  and at the timer, run the callback (call says what it does to the machine), put cr back.
\<close>

definition t2_isr ::
  "('c \<Rightarrow> ('c, 'x) timers_scheme \<Rightarrow> ('c, 'x) timers_scheme) \<Rightarrow> ('c, 'x) timers_scheme \<Rightarrow> ('c, 'x) timers_scheme" where
  "t2_isr call s =
    (let cr0 = cr s;
         s = s\<lparr>cr := cr s AND NOT FTTMR010_TM2_ENABLE\<rparr>;
         s = irq_edge_clear (TIMERC_IRQ2 (plat (clk s))) s;
         s = s\<lparr>interrupt_state := interrupt_state s AND 0x1C7\<rparr>;
         s = (case timer_handler s ! 1 of Some f \<Rightarrow> call f s | None \<Rightarrow> s)
     in s\<lparr>cr := cr0\<rparr>)"

definition t3_isr ::
  "('c \<Rightarrow> ('c, 'x) timers_scheme \<Rightarrow> ('c, 'x) timers_scheme) \<Rightarrow> ('c, 'x) timers_scheme \<Rightarrow> ('c, 'x) timers_scheme" where
  "t3_isr call s =
    (let cr0 = cr s;
         s = s\<lparr>cr := cr s AND NOT FTTMR010_TM3_ENABLE\<rparr>;
         s = irq_edge_clear (TIMERC_IRQ3 (plat (clk s))) s;
         s = s\<lparr>interrupt_state := interrupt_state s AND 0x3F\<rparr>;
         s = (case timer_handler s ! 2 of Some f \<Rightarrow> call f s | None \<Rightarrow> s)
     in s\<lparr>cr := cr0\<rparr>)"

definition disable_timer :: "int \<Rightarrow> ('c, 'x) timers_scheme \<Rightarrow> ('c, 'x) timers_scheme" where
  "disable_timer timer_index s =
    (if timer_index < 1 \<or> 3 < timer_index then s
     else
       let idx = nat (timer_index - 1);
           s = s\<lparr>cr := cr s AND NOT (push_bit (idx * 3) FTTMR010_TM1_ENABLE)\<rparr>
       in s\<lparr>cfg := (cfg s)[idx := (cfg s ! idx)\<lparr>timer_match1 := 0, timer_match2 := 0, timer_counter := 0,
            timer_load := 0\<rparr>]\<rparr>)"

definition init_timer ::
  "int \<Rightarrow> u32 \<Rightarrow> bool \<Rightarrow> 'c option \<Rightarrow> ('c, 'x) timers_scheme \<Rightarrow> int \<times> ('c, 'x) timers_scheme" where
  "init_timer timer_index load_val use_extclk timer_callback s =
    (if timer_index < 1 \<or> 3 < timer_index then (1, s)
     else
       let idx = nat (timer_index - 1);
           s = s\<lparr>clk := (clk s)\<lparr>timer_load_val := (timer_load_val (clk s))[idx := load_val]\<rparr>\<rparr>;
           s = s\<lparr>cfg := (cfg s)[idx := (cfg s ! idx)\<lparr>timer_counter := load_val, timer_load := load_val,
             timer_match1 := 0, timer_match2 := 0\<rparr>]\<rparr>;
           s = (case timer_callback of
                  Some f \<Rightarrow>
                    enable_interrupts
                      (s\<lparr>timer_handler := (timer_handler s)[idx := Some f],
                         interrupt_mask := interrupt_mask s AND NOT (push_bit (3 * idx) FTTMR010_TM1_INTS)\<rparr>)
                | None \<Rightarrow>
                    s\<lparr>interrupt_mask := interrupt_mask s OR push_bit (3 * idx) FTTMR010_TM1_INTS\<rparr>);
           cr1 = (if use_extclk then FTTMR010_TM1_ENABLE OR FTTMR010_TM1_CLOCK else FTTMR010_TM1_ENABLE)
       in (0, s\<lparr>cr := cr s OR push_bit (3 * idx) cr1\<rparr>))"

definition init_global_timer :: "u32 \<Rightarrow> bool \<Rightarrow> ('c, 'x) timers_scheme \<Rightarrow> ('c, 'x) timers_scheme" where
  "init_global_timer load_val use_extclk s =
    (let s = s\<lparr>interrupt_mask := 0, cr := 0\<rparr>;
         s = snd (init_timer 1 load_val use_extclk None s);
         irq2 = TIMERC_IRQ2 (plat (clk s));
         irq3 = TIMERC_IRQ3 (plat (clk s));
         s = snd (irq_set_type irq2 IRQ_TYPE_EDGE_RISING s);
         s = irq_install_handler irq2 (Some (Isr fttmr010_t2_isr)) 0 s;
         s = irq_set_enable irq2 s;
         s = snd (irq_set_type irq3 IRQ_TYPE_EDGE_RISING s);
         s = irq_install_handler irq3 (Some (Isr fttmr010_t3_isr)) 0 s
     in irq_set_enable irq3 s)"

text \<open>What do_irq runs for a handler of the table: the two timer routines are the driver's own.\<close>

definition run_isr ::
  "('c \<Rightarrow> ('c, 'x) timers_scheme \<Rightarrow> ('c, 'x) timers_scheme) \<Rightarrow>
   (nat \<Rightarrow> u32 \<Rightarrow> ('c, 'x) timers_scheme \<Rightarrow> ('c, 'x) timers_scheme) \<Rightarrow>
   isr_tag handler \<Rightarrow> u32 \<Rightarrow> ('c, 'x) timers_scheme \<Rightarrow> ('c, 'x) timers_scheme" where
  "run_isr call app h data s =
    (case h of
       default_isr \<Rightarrow> s
     | Isr fttmr010_t2_isr \<Rightarrow> t2_isr call s
     | Isr fttmr010_t3_isr \<Rightarrow> t3_isr call s
     | Isr (App_isr n) \<Rightarrow> app n data s)"

lemma isr_cr [simp]: "cr (t2_isr call s) = cr s" "cr (t3_isr call s) = cr s"
  by (simp_all add: t2_isr_def t3_isr_def Let_def)

lemma irq_ops_timers [frame_simps]:
  "clk (irq_edge_clear i s) = clk s" "cr (irq_edge_clear i s) = cr s"
  "timer_handler (irq_edge_clear i s) = timer_handler s" "interrupt_state (irq_edge_clear i s) = interrupt_state s"
  "clk (irq_set_enable i s) = clk s" "clk (irq_install_handler i h d s) = clk s"
  "clk (snd (irq_set_type i t s)) = clk s" "clk (enable_interrupts s) = clk s"
  "cr (enable_interrupts s) = cr s" "cfg (enable_interrupts s) = cfg s"
  "interrupt_mask (enable_interrupts s) = interrupt_mask s" "timer_handler (enable_interrupts s) = timer_handler s"
  "int_enable (enable_interrupts s) = int_enable s" "IRQ_HANDLER (enable_interrupts s) = IRQ_HANDLER s"
  by (auto simp: irq_edge_clear_def irq_set_enable_def irq_install_handler_def irq_set_type_def
      enable_interrupts_def Let_def split: option.split)

text \<open>A timer's three control bits; init_timer touches those of its own timer only.\<close>

lemma bit_shifted_mask: "bit (push_bit (3 * k) (mask j :: u32)) n \<Longrightarrow> j \<le> 3 \<Longrightarrow> n div 3 = k"
proof -
  assume b: "bit (push_bit (3 * k) (mask j :: u32)) n" and j: "j \<le> 3"
  then have "3 * k \<le> n" "n - 3 * k < j"
    by (simp_all only: bit_push_bit_iff bit_mask_iff)
  with j obtain r where "n = 3 * k + r" "r < 3"
    by (metis le_add_diff_inverse order_less_le_trans)
  then show "n div 3 = k" by simp
qed

lemma timer_masks:
  "FTTMR010_TM1_INTS = mask 3" "FTTMR010_TM1_ENABLE = mask 1"
  "FTTMR010_TM1_ENABLE OR FTTMR010_TM1_CLOCK = mask 2"
  by (simp_all add: fttmr010_bits mask_eq_exp_minus_1)

lemma bit_clear_other: "\<not> bit b n \<Longrightarrow> bit (w AND NOT b :: u32) n = bit w n"
  using bit_imp_le_length [of w n] by (auto simp: bit_simps)

lemma bit_set_other: "\<not> bit b n \<Longrightarrow> bit (w OR b :: u32) n = bit w n"
  by (simp add: bit_simps)

lemma init_timer_bits:
  assumes "1 \<le> i" "i \<le> 3" "n div 3 \<noteq> nat (i - 1)"
  shows "bit (cr (snd (init_timer i v ext cb s))) n = bit (cr s) n"
    "bit (interrupt_mask (snd (init_timer i v ext cb s))) n = bit (interrupt_mask s) n"
proof -
  have ints: "\<not> bit (push_bit (3 * nat (i - 1)) FTTMR010_TM1_INTS) n"
    using assms(3) bit_shifted_mask [of "nat (i - 1)" 3 n] unfolding timer_masks by blast
  have en: "\<not> bit (push_bit (3 * nat (i - 1)) (if ext then FTTMR010_TM1_ENABLE OR FTTMR010_TM1_CLOCK else FTTMR010_TM1_ENABLE)) n"
    using assms(3) bit_shifted_mask [of "nat (i - 1)" 2 n] bit_shifted_mask [of "nat (i - 1)" 1 n]
    unfolding timer_masks(2,3) [symmetric] by (cases ext) (simp_all only: if_True if_False, auto)
  show "bit (cr (snd (init_timer i v ext cb s))) n = bit (cr s) n"
    using assms(1,2) bit_set_other [OF en, of "cr s"]
    by (cases ext; cases cb) (simp_all add: init_timer_def Let_def frame_simps or.assoc)
  show "bit (interrupt_mask (snd (init_timer i v ext cb s))) n = bit (interrupt_mask s) n"
    using assms(1,2) bit_set_other [OF ints, of "interrupt_mask s"] bit_clear_other [OF ints, of "interrupt_mask s"]
    by (simp add: init_timer_def Let_def frame_simps split: option.split)
qed

lemma config_overwritten:
  "(r :: fttmr010_config)\<lparr>timer_counter := a, timer_load := b, timer_match1 := c, timer_match2 := d\<rparr> =
   \<lparr>timer_counter = a, timer_load = b, timer_match1 = c, timer_match2 = d\<rparr>"
  by (cases r) simp

section \<open>Properties\<close>

text \<open>init_timer accepts timers 1 to 3 only, loads its counter and reload registers, enables it, and
  leaves the control bits, the interrupt mask bits and the registers of the other timers as they were.\<close>

theorem init_timer_isolated:
  fixes s :: "('c, 'x) timers_scheme" and i :: int and v :: u32 and ext :: bool and cb :: "'c option"
  assumes "1 \<le> i" "i \<le> 3" "length (cfg s) = 3"
  defines "s' \<equiv> snd (init_timer i v ext cb s)" and "idx \<equiv> nat (i - 1)"
  shows "fst (init_timer i v ext cb s) = 0 \<and>
    cfg s' ! idx = \<lparr>timer_counter = v, timer_load = v, timer_match1 = 0, timer_match2 = 0\<rparr> \<and>
    bit (cr s') (3 * idx) \<and>
    (\<forall>n. n div 3 = idx \<or> (bit (cr s') n = bit (cr s) n \<and> bit (interrupt_mask s') n = bit (interrupt_mask s) n)) \<and>
    (\<forall>j. j = idx \<or> cfg s' ! j = cfg s ! j)"
proof (intro conjI allI)
  have idx: "idx < 3" "\<not> (i < 1 \<or> 3 < i)" using assms(1,2) by (auto simp: idx_def)
  show "fst (init_timer i v ext cb s) = 0"
    using idx(2) by (simp add: init_timer_def Let_def)
  have c: "cfg s' = (cfg s)[idx := \<lparr>timer_counter = v, timer_load = v, timer_match1 = 0, timer_match2 = 0\<rparr>]"
    using idx(2) by (cases cb) (simp_all add: s'_def idx_def init_timer_def Let_def frame_simps config_overwritten)
  then show "cfg s' ! idx = \<lparr>timer_counter = v, timer_load = v, timer_match1 = 0, timer_match2 = 0\<rparr>"
    using idx assms(3) by simp
  show "j = idx \<or> cfg s' ! j = cfg s ! j" for j
    by (cases "j = idx") (simp_all add: c)
  have "\<exists>w. cr s' = w OR push_bit (3 * idx) (if ext then FTTMR010_TM1_ENABLE OR FTTMR010_TM1_CLOCK else FTTMR010_TM1_ENABLE)"
    using idx(2) by (cases cb) (auto simp: s'_def idx_def init_timer_def Let_def frame_simps)
  then show "bit (cr s') (3 * idx)"
    using idx(1) by (auto simp: bit_simps fttmr010_bits)
  show "n div 3 = idx \<or> (bit (cr s') n = bit (cr s) n \<and> bit (interrupt_mask s') n = bit (interrupt_mask s) n)" for n
    using init_timer_bits [OF assms(1,2), of n v ext cb s] by (auto simp: s'_def idx_def)
qed

definition sample_timers :: "nat timers" where
  "sample_timers = \<lparr>int_enable = 0, int_clear = 0, int_mode = 0, int_level = 0, int_status = 0,
     IRQ_HANDLER = replicate 32 (default_isr, 0), cpsr = 0x80, clk = sample_clock,
     timer_handler = [None, None, None], cfg = replicate 3 \<lparr>timer_counter = 1, timer_load = 2,
       timer_match1 = 3, timer_match2 = 4\<rparr>, cr = 1, interrupt_state = 0, interrupt_mask = 0xFFF\<rparr>"

theorem init_timer_isolated_witness:
  "cfg (snd (init_timer 2 1000 False (Some 7) sample_timers)) ! 1 =
     \<lparr>timer_counter = 1000, timer_load = 1000, timer_match1 = 0, timer_match2 = 0\<rparr> \<and>
   bit (cr (snd (init_timer 2 1000 False (Some 7) sample_timers))) 3 \<and>
   bit (cr (snd (init_timer 2 1000 False (Some 7) sample_timers))) 0"
proof -
  have "length (cfg sample_timers) = 3" "cr sample_timers = 1" by (simp_all add: sample_timers_def)
  then show ?thesis
    using init_timer_isolated [of 2 sample_timers 1000 False "Some 7"]
    by (auto dest: spec [where x = 0])
qed

end
