(* ===== verification/Sort.thy ===== *)
theory Sort
  imports CStr "HOL-Library.Multiset"
begin

unbundle bit_operations_syntax

text \<open>
  lib/mylibc/stdlib/qsort.c (a shell sort) and bsearch.c.  The comparison function is the caller's:
  a parameter that reads the memory at two pointers.  The loops of qsort are partial functions, so
  that their termination is part of what is proved.  Offsets are byte offsets into the array, as in
  the code; an array fits in the address space, so size_t arithmetic on them does not wrap.

  The byte-level sort refines a shell sort on the list of elements, which is where permutation and
  order are proved.
\<close>

section \<open>qsort\<close>

function qsort_gap :: "nat \<Rightarrow> nat \<Rightarrow> nat" where
  "qsort_gap wgap nel =
    (let wgap = 3 * wgap + 1 in if wgap < (nel - 1) div 3 then qsort_gap wgap nel else wgap)"
  by pat_completeness auto
termination by (relation "measure (\<lambda>(wgap, nel). nel - wgap)") (auto simp: Let_def)

declare qsort_gap.simps [simp del]

text \<open>The exchange of two elements, byte by byte: do ... while (--k), k being positive.\<close>

fun swap_bytes :: "'b mem \<Rightarrow> 'b ptr \<Rightarrow> 'b ptr \<Rightarrow> nat \<Rightarrow> 'b mem" where
  "swap_bytes m a b 0 = m"
| "swap_bytes m a b (Suc k) = swap_bytes (st8 (st8 m a (m b)) b (m a)) (padd a 1) (padd b 1) k"

type_synonym 'b compar = "'b mem \<Rightarrow> 'b ptr \<Rightarrow> 'b ptr \<Rightarrow> int"

partial_function (option) qsort_inner ::
  "'b compar \<Rightarrow> 'b ptr \<Rightarrow> nat \<Rightarrow> nat \<Rightarrow> 'b mem \<Rightarrow> nat \<Rightarrow> 'b mem option" where
  "qsort_inner cmp base width wgap m j =
    (let j = j - wgap; a = padd base j; b = padd a wgap in
     if cmp m a b \<le> 0 then Some m
     else
       let m = swap_bytes m a b width in
       if wgap \<le> j then qsort_inner cmp base width wgap m j else Some m)"

partial_function (option) qsort_pass ::
  "'b compar \<Rightarrow> 'b ptr \<Rightarrow> nat \<Rightarrow> nat \<Rightarrow> nat \<Rightarrow> 'b mem \<Rightarrow> nat \<Rightarrow> 'b mem option" where
  "qsort_pass cmp base width wgap nel m i =
    do {
      m \<leftarrow> qsort_inner cmp base width wgap m i;
      let i = i + width;
      if i < nel then qsort_pass cmp base width wgap nel m i else Some m
    }"

partial_function (option) qsort_gaps ::
  "'b compar \<Rightarrow> 'b ptr \<Rightarrow> nat \<Rightarrow> nat \<Rightarrow> 'b mem \<Rightarrow> nat \<Rightarrow> 'b mem option" where
  "qsort_gaps cmp base width nel m wgap =
    do {
      m \<leftarrow> qsort_pass cmp base width wgap nel m wgap;
      let wgap = (wgap - width) div 3;
      if wgap \<noteq> 0 then qsort_gaps cmp base width nel m wgap else Some m
    }"

definition qsort :: "'b mem \<Rightarrow> 'b ptr \<Rightarrow> nat \<Rightarrow> nat \<Rightarrow> 'b compar \<Rightarrow> 'b mem option" where
  "qsort m base nel width cmp =
    (if 1 < nel \<and> 0 < width then
       let wgap = qsort_gap 0 nel in qsort_gaps cmp base width (nel * width) m (wgap * width)
     else Some m)"

section \<open>bsearch\<close>

function bsearch_loop :: "(nat \<Rightarrow> int) \<Rightarrow> nat \<Rightarrow> nat \<Rightarrow> nat option" where
  "bsearch_loop r low high =
    (if low < high then
       let mid = low + (high - low) div 2 in
       if 0 < r mid then bsearch_loop r (mid + 1) high
       else if r mid < 0 then bsearch_loop r low mid
       else Some mid
     else None)"
  by pat_completeness auto
termination by (relation "measure (\<lambda>(r, low, high). high - low)") auto

declare bsearch_loop.simps [simp del]

definition bsearch :: "'b mem \<Rightarrow> 'b ptr \<Rightarrow> 'b ptr \<Rightarrow> nat \<Rightarrow> nat \<Rightarrow> 'b compar \<Rightarrow> 'b ptr option" where
  "bsearch m key base high sz compar =
    (if 0 < sz then
       map_option (\<lambda>mid. padd base (mid * sz)) (bsearch_loop (\<lambda>mid. compar m key (padd base (mid * sz))) 0 high)
     else None)"

section \<open>The shell sort of a list\<close>

text \<open>The elements of an array, and the same loops on their list, by element index.\<close>

definition elems :: "'b mem \<Rightarrow> 'b ptr \<Rightarrow> nat \<Rightarrow> nat \<Rightarrow> u8 list list" where
  "elems m base width n = map (\<lambda>i. bytes m (padd base (i * width)) width) [0..<n]"

function ins_gap :: "('a \<Rightarrow> 'a \<Rightarrow> int) \<Rightarrow> nat \<Rightarrow> 'a list \<Rightarrow> nat \<Rightarrow> 'a list" where
  "ins_gap c g xs j =
    (if g = 0 \<or> j < g then xs
     else
       let i = j - g in
       if c (xs ! i) (xs ! j) \<le> 0 then xs else ins_gap c g (xs[i := xs ! j, j := xs ! i]) i)"
  by pat_completeness auto
termination by (relation "measure (\<lambda>(c, g, xs, j). j)") auto

declare ins_gap.simps [simp del]

fun sort_pass :: "('a \<Rightarrow> 'a \<Rightarrow> int) \<Rightarrow> nat \<Rightarrow> 'a list \<Rightarrow> nat \<Rightarrow> nat \<Rightarrow> 'a list" where
  "sort_pass c g xs i 0 = xs"
| "sort_pass c g xs i (Suc k) = sort_pass c g (ins_gap c g xs i) (Suc i) k"

function sort_gaps :: "('a \<Rightarrow> 'a \<Rightarrow> int) \<Rightarrow> 'a list \<Rightarrow> nat \<Rightarrow> 'a list" where
  "sort_gaps c xs g =
    (let xs = sort_pass c g xs g (length xs - g); g' = (g - 1) div 3 in
     if g' = 0 then xs else sort_gaps c xs g')"
  by pat_completeness auto
termination by (relation "measure (\<lambda>(c, xs, g). g)") (auto simp: Let_def)

declare sort_gaps.simps [simp del]

lemma length_ins_gap [simp]: "length (ins_gap c g xs j) = length xs"
  by (induction c g xs j rule: ins_gap.induct) (subst ins_gap.simps, simp add: Let_def)

lemma length_sort_pass [simp]: "length (sort_pass c g xs i k) = length xs"
  by (induction c g xs i k rule: sort_pass.induct) simp_all

lemma mset_ins_gap: "j < length xs \<Longrightarrow> mset (ins_gap c g xs j) = mset xs"
proof (induction c g xs j rule: ins_gap.induct)
  case (1 c g xs j)
  then show ?case
    by (subst ins_gap.simps) (auto simp: Let_def mset_swap)
qed

lemma mset_sort_pass: "i + k \<le> length xs \<Longrightarrow> mset (sort_pass c g xs i k) = mset xs"
  by (induction c g xs i k rule: sort_pass.induct) (simp_all add: mset_ins_gap)

lemma mset_sort_gaps: "g \<le> length xs \<Longrightarrow> mset (sort_gaps c xs g) = mset xs"
proof (induction c xs g rule: sort_gaps.induct)
  case (1 c xs g)
  then show ?case
    by (subst sort_gaps.simps) (auto simp: Let_def mset_sort_pass)
qed

section \<open>Order\<close>

text \<open>What a comparison function must be on the elements: a total preorder.\<close>

locale comparison =
  fixes c :: "'a \<Rightarrow> 'a \<Rightarrow> int" and A :: "'a set"
  assumes total: "x \<in> A \<Longrightarrow> y \<in> A \<Longrightarrow> c x y \<le> 0 \<or> c y x \<le> 0"
    and trans: "x \<in> A \<Longrightarrow> y \<in> A \<Longrightarrow> z \<in> A \<Longrightarrow> c x y \<le> 0 \<Longrightarrow> c y z \<le> 0 \<Longrightarrow> c x z \<le> 0"
begin

text \<open>Insertion with gap 1: all but position j is in order up to i, and what follows j is not below it.\<close>

lemma ins_1_sorted:
  assumes "set xs \<subseteq> A" "j \<le> i" "i < length xs"
    "\<And>a b. a < b \<Longrightarrow> b \<le> i \<Longrightarrow> a \<noteq> j \<Longrightarrow> b \<noteq> j \<Longrightarrow> c (xs ! a) (xs ! b) \<le> 0"
    "\<And>k. j < k \<Longrightarrow> k \<le> i \<Longrightarrow> c (xs ! j) (xs ! k) \<le> 0" "a < b" "b \<le> i"
  shows "c (ins_gap c 1 xs j ! a) (ins_gap c 1 xs j ! b) \<le> 0"
  using assms
proof (induction j arbitrary: xs)
  case 0
  then have "ins_gap c 1 xs 0 = xs" by (subst ins_gap.simps) simp
  then show ?case using 0 by (cases "a = 0") auto
next
  case (Suc j)
  have el: "xs ! k \<in> A" if "k \<le> i" for k
    using Suc.prems(1,3) that by (meson le_less_trans nth_mem subsetD)
  show ?case
  proof (cases "c (xs ! j) (xs ! Suc j) \<le> 0")
    case True
    then have r: "ins_gap c 1 xs (Suc j) = xs" by (subst ins_gap.simps) (simp add: Let_def)
    have "c (xs ! a) (xs ! Suc j) \<le> 0" if "b = Suc j"
    proof (cases "a = j")
      case False
      then have "c (xs ! a) (xs ! j) \<le> 0" using Suc.prems(2,4,6) that by simp
      then show ?thesis using True el trans [of "xs ! a" "xs ! j" "xs ! Suc j"] Suc.prems(2,6) that by simp
    qed (use True in simp)
    then show ?thesis
      using Suc.prems(4) [of a b] Suc.prems(5) [of b] Suc.prems(6,7) unfolding r by (cases "a = Suc j"; cases "b = Suc j") auto
  next
    case False
    let ?ys = "xs[j := xs ! Suc j, Suc j := xs ! j]"
    have r: "ins_gap c 1 xs (Suc j) = ins_gap c 1 ?ys j" using False by (subst ins_gap.simps) (simp add: Let_def)
    have n: "?ys ! k = (if k = j then xs ! Suc j else if k = Suc j then xs ! j else xs ! k)" if "k \<le> i" for k
      using that Suc.prems(2,3) by (simp add: nth_list_update)
    have "set ?ys = set xs" using Suc.prems(2,3) by (metis Suc_le_lessD less_imp_le_nat mset_eq_setD mset_swap order.strict_trans1 order_le_less_trans)
    moreover have "c (?ys ! x) (?ys ! y) \<le> 0" if "x < y" "y \<le> i" "x \<noteq> j" "y \<noteq> j" for x y
      using that Suc.prems(4) [of j y] Suc.prems(4) [of x j] Suc.prems(4) [of x y] n [of x] n [of y] Suc.prems(2)
      by (auto split: if_splits)
    moreover have "c (?ys ! j) (?ys ! k) \<le> 0" if "j < k" "k \<le> i" for k
      using that Suc.prems(5) [of k] total [OF el [of j] el [of "Suc j"]] False n [of j] n [of k] Suc.prems(2) by auto
    ultimately show ?thesis
      unfolding r using Suc.prems(1-3,6,7) by (intro Suc.IH) auto
  qed
qed

lemma pass_1_sorted:
  assumes "set xs \<subseteq> A" "i + k = length xs" "sorted_wrt (\<lambda>x y. c x y \<le> 0) (take i xs)"
  shows "sorted_wrt (\<lambda>x y. c x y \<le> 0) (sort_pass c 1 xs i k)"
  using assms
proof (induction k arbitrary: xs i)
  case (Suc k)
  let ?ys = "ins_gap c 1 xs i"
  have i: "i < length xs" using Suc.prems(2) by simp
  have "set ?ys = set xs" using mset_ins_gap [OF i] by (metis mset_eq_setD)
  moreover have "sorted_wrt (\<lambda>x y. c x y \<le> 0) (take (Suc i) ?ys)"
    unfolding sorted_wrt_iff_nth_less
    using ins_1_sorted [of xs i i] Suc.prems(1,3) i by (auto simp: sorted_wrt_iff_nth_less)
  ultimately show ?case using Suc.IH [of ?ys "Suc i"] Suc.prems by simp
qed simp

end

text \<open>The gap sequence 1, 4, 13, ... ends with 1, so the list ends up in order.\<close>

fun gap :: "nat \<Rightarrow> nat" where
  "gap 0 = 1"
| "gap (Suc k) = 3 * gap k + 1"

lemma gap_pos: "0 < gap k"
  by (cases k) simp_all

lemma qsort_gap_chain: "g = 0 \<or> (\<exists>k. g = gap k) \<Longrightarrow> \<exists>k. qsort_gap g n = gap k"
proof (induction g n rule: qsort_gap.induct)
  case (1 g n)
  have "\<exists>k. 3 * g + 1 = gap k" using 1(2) gap.simps by (metis add_0 mult_0_right)
  then show ?case using 1(1) by (subst qsort_gap.simps) (auto simp: Let_def)
qed

lemma qsort_gap_below: "g = 0 \<and> 1 < n \<or> g < (n - 1) div 3 \<Longrightarrow> qsort_gap g n < n"
proof (induction g n rule: qsort_gap.induct)
  case (1 g n)
  then show ?case by (subst qsort_gap.simps) (auto simp: Let_def)
qed

context comparison
begin

lemma sort_gaps_sorted:
  "set xs \<subseteq> A \<Longrightarrow> gap k \<le> length xs \<Longrightarrow> sorted_wrt (\<lambda>x y. c x y \<le> 0) (sort_gaps c xs (gap k))"
proof (induction k arbitrary: xs)
  case 0
  have "sorted_wrt (\<lambda>x y. c x y \<le> 0) (sort_pass c 1 xs 1 (length xs - 1))"
    by (rule pass_1_sorted) (use 0 in \<open>auto simp: sorted_wrt_iff_nth_less\<close>)
  then show ?case by (subst sort_gaps.simps) (simp add: Let_def)
next
  case (Suc k)
  let ?ys = "sort_pass c (gap (Suc k)) xs (gap (Suc k)) (length xs - gap (Suc k))"
  have "set ?ys = set xs" using mset_sort_pass [of "gap (Suc k)" "length xs - gap (Suc k)" xs] Suc.prems(2) by (metis le_add_diff_inverse mset_eq_setD order_refl)
  then have "sorted_wrt (\<lambda>x y. c x y \<le> 0) (sort_gaps c ?ys (gap k))"
    using Suc.IH [of ?ys] Suc.prems by simp
  moreover have "(gap (Suc k) - 1) div 3 = gap k" by simp
  ultimately show ?case using gap_pos [of k] by (subst sort_gaps.simps) (simp add: Let_def)
qed

end

section \<open>The byte-level sort implements it\<close>

lemma swap_bytes_apply:
  "fst a \<noteq> fst b \<or> snd a + k \<le> snd b \<or> snd b + k \<le> snd a \<Longrightarrow> swap_bytes m a b k (o', i) =
    (if o' = fst a \<and> snd a \<le> i \<and> i < snd a + k then m (padd b (i - snd a))
     else if o' = fst b \<and> snd b \<le> i \<and> i < snd b + k then m (padd a (i - snd b)) else m (o', i))"
proof (induction k arbitrary: m a b)
  case 0
  then show ?case by auto
next
  case (Suc k)
  obtain oa ia where a: "a = (oa, ia)" by fastforce
  obtain ob ib where b: "b = (ob, ib)" by fastforce
  have d: "oa \<noteq> ob \<or> Suc ia + k \<le> ib \<or> Suc ib + k \<le> ia" using Suc.prems by (simp add: a b)
  have IH: "swap_bytes m (oa, Suc ia) (ob, Suc ib) k (o', i) =
    (if o' = oa \<and> Suc ia \<le> i \<and> i < Suc ia + k then m (ob, Suc ib + (i - Suc ia))
     else if o' = ob \<and> Suc ib \<le> i \<and> i < Suc ib + k then m (oa, Suc ia + (i - Suc ib)) else m (o', i))" for m
    using Suc.IH [of "(oa, Suc ia)" "(ob, Suc ib)" m] d by auto
  define m1 where "m1 = st8 (st8 m (oa, ia) (m (ob, ib))) (ob, ib) (m (oa, ia))"
  have m1: "m1 (oa, ia) = m (ob, ib)" "m1 (ob, ib) = m (oa, ia)"
    "\<And>q. q \<noteq> (oa, ia) \<Longrightarrow> q \<noteq> (ob, ib) \<Longrightarrow> m1 q = m q"
    using d by (auto simp: m1_def st8_apply)
  have r: "swap_bytes m a b (Suc k) (o', i) = swap_bytes m1 (oa, Suc ia) (ob, Suc ib) k (o', i)"
    by (simp add: a b m1_def)
  consider "o' = oa" "i = ia" | "o' = ob" "i = ib" | "o' = oa" "Suc ia \<le> i" "i < Suc ia + k"
    | "o' = ob" "Suc ib \<le> i" "i < Suc ib + k"
    | "\<not> (o' = oa \<and> ia \<le> i \<and> i < ia + Suc k)" "\<not> (o' = ob \<and> ib \<le> i \<and> i < ib + Suc k)"
    by linarith
  then show ?case
  proof cases
    case 1
    then show ?thesis using d m1(1) unfolding r IH by (auto simp: a b)
  next
    case 2
    then show ?thesis using d m1(2) unfolding r IH by (auto simp: a b)
  next
    case 3
    have "m1 (ob, Suc ib + (i - Suc ia)) = m (ob, Suc ib + (i - Suc ia))" using d 3 by (intro m1(3)) auto
    moreover have "Suc ib + (i - Suc ia) = ib + (i - ia)" using 3 by simp
    ultimately show ?thesis using d 3 unfolding r IH by (auto simp: a b)
  next
    case 4
    have "m1 (oa, Suc ia + (i - Suc ib)) = m (oa, Suc ia + (i - Suc ib))" using d 4 by (intro m1(3)) auto
    moreover have "Suc ia + (i - Suc ib) = ia + (i - ib)" using 4 by simp
    ultimately show ?thesis using d 4 unfolding r IH by (auto simp: a b)
  next
    case 5
    then have "m1 (o', i) = m (o', i)" by (intro m1(3)) auto
    then show ?thesis using 5 unfolding r IH by (auto simp: a b)
  qed
qed

lemma swap_bytes_bytes:
  assumes "i \<noteq> j"
  shows "bytes (swap_bytes m (padd p (i * w)) (padd p (j * w)) w) (padd p (k * w)) w =
    bytes m (padd p ((if k = i then j else if k = j then i else k) * w)) w"
proof (rule bytes_cong)
  fix x assume x: "x < w"
  have far: "a * w + w \<le> b * w" if "a < b" for a b :: nat
    using that by (metis Suc_leI add.commute mult_Suc mult_le_mono1)
  have d: "fst (padd p (i * w)) \<noteq> fst (padd p (j * w)) \<or> snd (padd p (i * w)) + w \<le> snd (padd p (j * w)) \<or>
      snd (padd p (j * w)) + w \<le> snd (padd p (i * w))"
    using assms far [of i j] far [of j i] by (cases "i < j") (auto simp: not_less)
  have out: "\<not> (a * w \<le> k * w + x \<and> k * w + x < a * w + w)" if "a \<noteq> k" for a
    using that far [of a k] far [of k a] x by (cases "a < k") auto
  show "swap_bytes m (padd p (i * w)) (padd p (j * w)) w (padd (padd p (k * w)) x) =
      m (padd (padd p ((if k = i then j else if k = j then i else k) * w)) x)"
    using swap_bytes_apply [OF d, of m "fst p" "snd p + k * w + x"] out [of i] out [of j] x assms
    by (auto simp: padd_def add.assoc split: if_splits)
qed

lemma swap_bytes_outside:
  assumes "i < n" "j < n" "i \<noteq> j" "fst q \<noteq> fst p \<or> snd q < snd p \<or> snd p + n * w \<le> snd q"
  shows "swap_bytes m (padd p (i * w)) (padd p (j * w)) w q = m q"
proof -
  have far: "a * w + w \<le> b * w" if "a < b" for a b :: nat
    using that by (metis Suc_leI add.commute mult_Suc mult_le_mono1)
  have d: "fst (padd p (i * w)) \<noteq> fst (padd p (j * w)) \<or> snd (padd p (i * w)) + w \<le> snd (padd p (j * w)) \<or>
      snd (padd p (j * w)) + w \<le> snd (padd p (i * w))"
    using assms(3) far [of i j] far [of j i] by (cases "i < j") (auto simp: not_less)
  show ?thesis
    using swap_bytes_apply [OF d, of m "fst q" "snd q"] far [OF assms(1)] far [OF assms(2)] assms(4) by auto
qed

lemma length_elems [simp]: "length (elems m p w n) = n"
  by (simp add: elems_def)

lemma nth_elems [simp]: "i < n \<Longrightarrow> elems m p w n ! i = bytes m (padd p (i * w)) w"
  by (simp add: elems_def)

lemma elems_swap:
  "i < n \<Longrightarrow> j < n \<Longrightarrow> i \<noteq> j \<Longrightarrow> elems (swap_bytes m (padd p (i * w)) (padd p (j * w)) w) p w n =
    (elems m p w n)[i := elems m p w n ! j, j := elems m p w n ! i]"
  by (rule nth_equalityI) (auto simp: swap_bytes_bytes nth_list_update)

text \<open>An array untouched outside its n elements of w bytes.\<close>

definition only_array :: "'b mem \<Rightarrow> 'b mem \<Rightarrow> 'b ptr \<Rightarrow> nat \<Rightarrow> bool" where
  "only_array m m' p len \<longleftrightarrow> (\<forall>q. fst q \<noteq> fst p \<or> snd q < snd p \<or> snd p + len \<le> snd q \<longrightarrow> m' q = m q)"

lemma only_array_refl [simp]: "only_array m m p len"
  by (simp add: only_array_def)

lemma only_array_trans: "only_array m m' p len \<Longrightarrow> only_array m' m'' p len \<Longrightarrow> only_array m m'' p len"
  unfolding only_array_def by metis

lemma only_array_swap:
  "i < n \<Longrightarrow> j < n \<Longrightarrow> i \<noteq> j \<Longrightarrow> only_array m (swap_bytes m (padd p (i * w)) (padd p (j * w)) w) p (n * w)"
  unfolding only_array_def using swap_bytes_outside by blast

text \<open>A comparison function that compares the bytes of the elements.\<close>

definition compares :: "'b compar \<Rightarrow> (u8 list \<Rightarrow> u8 list \<Rightarrow> int) \<Rightarrow> nat \<Rightarrow> bool" where
  "compares cmp c w \<longleftrightarrow> (\<forall>m a b. cmp m a b = c (bytes m a w) (bytes m b w))"

lemma qsort_inner_ref:
  assumes cmp: "compares cmp c w" and "0 < w" "0 < g" "g \<le> j" "j < n"
  shows "\<exists>m'. qsort_inner cmp p w (g * w) m (j * w) = Some m' \<and> elems m' p w n = ins_gap c g (elems m p w n) j \<and>
    only_array m m' p (n * w)"
  using assms(3-5)
proof (induction j arbitrary: m rule: less_induct)
  case (less j)
  let ?i = "j - g"
  have i: "?i < n" "?i \<noteq> j" "j < n" "?i < j" using less.prems by auto
  have off: "j * w - g * w = ?i * w" by (simp add: diff_mult_distrib)
  have b: "padd (padd p (?i * w)) (g * w) = padd p (j * w)"
    using less.prems by (simp add: diff_mult_distrib)
  have c: "cmp m (padd p (?i * w)) (padd p (j * w)) = c (elems m p w n ! ?i) (elems m p w n ! j)"
    using cmp unfolding compares_def nth_elems [OF i(1)] nth_elems [OF i(3)] by blast
  let ?m = "swap_bytes m (padd p (?i * w)) (padd p (j * w)) w"
  have le: "g * w \<le> ?i * w \<longleftrightarrow> g \<le> ?i" using assms(2) by simp
  have st: "qsort_inner cmp p w (g * w) m (j * w) =
      (if c (elems m p w n ! ?i) (elems m p w n ! j) \<le> 0 then Some m
       else if g \<le> ?i then qsort_inner cmp p w (g * w) ?m (?i * w) else Some ?m)"
    by (subst qsort_inner.simps) (simp only: Let_def off b c le)
  have sp: "ins_gap c g (elems m p w n) j =
      (if c (elems m p w n ! ?i) (elems m p w n ! j) \<le> 0 then elems m p w n else ins_gap c g (elems ?m p w n) ?i)"
    using less.prems i by (subst ins_gap.simps) (simp only: Let_def elems_swap [OF i(1,3,2)], simp)
  show ?case
  proof (cases "c (elems m p w n ! ?i) (elems m p w n ! j) \<le> 0")
    case True
    then show ?thesis using st sp by simp
  next
    case False
    note oa = only_array_swap [OF i(1,3,2), of m p w]
    show ?thesis
    proof (cases "g \<le> ?i")
      case True
      then show ?thesis
        using less.IH [OF i(4) less.prems(1) True i(1), of ?m] False st sp only_array_trans [OF oa] by auto
    next
      case 2: False
      have "ins_gap c g (elems ?m p w n) ?i = elems ?m p w n" using 2 by (subst ins_gap.simps) simp
      then show ?thesis using False 2 st sp oa by simp
    qed
  qed
qed

lemma qsort_pass_ref:
  assumes cmp: "compares cmp c w" and "0 < w" "0 < g" "g \<le> i" "i + Suc k = n"
  shows "\<exists>m'. qsort_pass cmp p w (g * w) (n * w) m (i * w) = Some m' \<and>
    elems m' p w n = sort_pass c g (elems m p w n) i (Suc k) \<and> only_array m m' p (n * w)"
  using assms(4,5)
proof (induction k arbitrary: i m)
  case (0 i m)
  obtain m' where m': "qsort_inner cmp p w (g * w) m (i * w) = Some m'" "elems m' p w n = ins_gap c g (elems m p w n) i"
    "only_array m m' p (n * w)"
    using qsort_inner_ref [OF cmp assms(2,3), of i n p m] 0 by auto
  have "\<not> i * w + w < n * w" using 0 by auto
  then show ?case using m' by (subst qsort_pass.simps) simp
next
  case (Suc k i m)
  obtain m' where m': "qsort_inner cmp p w (g * w) m (i * w) = Some m'" "elems m' p w n = ins_gap c g (elems m p w n) i"
    "only_array m m' p (n * w)"
    using qsort_inner_ref [OF cmp assms(2,3), of i n p m] Suc.prems by auto
  have n: "i * w + w = Suc i * w" "i * w + w < n * w" using Suc.prems assms(2) by (auto simp: algebra_simps)
  obtain m2 where "qsort_pass cmp p w (g * w) (n * w) m' (Suc i * w) = Some m2"
    "elems m2 p w n = sort_pass c g (elems m' p w n) (Suc i) (Suc k)" "only_array m' m2 p (n * w)"
    using Suc.IH [of "Suc i" m'] Suc.prems by auto
  then show ?case
    using m' n only_array_trans [OF m'(3)] by (subst qsort_pass.simps) (simp add: add.commute)
qed

lemma qsort_gaps_ref:
  assumes cmp: "compares cmp c w" and "0 < w" "gap k < n"
  shows "\<exists>m'. qsort_gaps cmp p w (n * w) m (gap k * w) = Some m' \<and>
    elems m' p w n = sort_gaps c (elems m p w n) (gap k) \<and> only_array m m' p (n * w)"
  using assms(3)
proof (induction k arbitrary: m)
  case 0
  have n: "1 + Suc (n - 2) = n" using 0 by simp
  obtain m' where "qsort_pass cmp p w (1 * w) (n * w) m (1 * w) = Some m'"
    "elems m' p w n = sort_pass c 1 (elems m p w n) 1 (Suc (n - 2))" "only_array m m' p (n * w)"
    using qsort_pass_ref [OF cmp assms(2) _ _ n, of 1 p m] by auto
  moreover have "n - Suc 0 = Suc (n - 2)" using 0 by simp
  ultimately show ?case by (subst qsort_gaps.simps, subst sort_gaps.simps) (simp add: Let_def)
next
  case (Suc k)
  let ?g = "gap (Suc k)"
  have n: "?g + Suc (n - ?g - 1) = n" using Suc.prems by simp
  obtain m' where m': "qsort_pass cmp p w (?g * w) (n * w) m (?g * w) = Some m'"
    "elems m' p w n = sort_pass c ?g (elems m p w n) ?g (Suc (n - ?g - 1))" "only_array m m' p (n * w)"
    using qsort_pass_ref [OF cmp assms(2) gap_pos [of "Suc k"] order_refl n, of p m] by blast
  have "Suc (n - ?g - 1) = n - ?g" using Suc.prems by simp
  then have e: "elems m' p w n = sort_pass c ?g (elems m p w n) ?g (n - ?g)" using m'(2) by metis
  have g: "(?g * w - w) div 3 = gap k * w" "gap k * w \<noteq> 0" "(?g - 1) div 3 = gap k" "gap k \<noteq> 0"
    using gap_pos [of k] assms(2) by (simp_all add: algebra_simps)
  obtain m2 where "qsort_gaps cmp p w (n * w) m' (gap k * w) = Some m2" "elems m2 p w n = sort_gaps c (elems m' p w n) (gap k)"
    "only_array m' m2 p (n * w)"
    using Suc.IH [of m'] Suc.prems by auto
  then show ?case
    using m'(1,3) e g only_array_trans [OF m'(3)]
    by (subst qsort_gaps.simps, subst sort_gaps.simps) (simp add: Let_def del: gap.simps sort_pass.simps)
qed

lemma qsort_ref:
  assumes "compares cmp c w" "0 < w" "1 < n"
  shows "\<exists>m' k. gap k \<le> n \<and> qsort m p n w cmp = Some m' \<and> elems m' p w n = sort_gaps c (elems m p w n) (gap k) \<and>
    only_array m m' p (n * w)"
proof -
  obtain k where k: "qsort_gap 0 n = gap k" using qsort_gap_chain [of 0 n] by blast
  have b: "gap k < n" using qsort_gap_below [of 0 n] assms(3) k by simp
  show ?thesis
    using qsort_gaps_ref [OF assms(1,2) b, of p m] assms(2,3) k b by (auto simp: qsort_def intro!: exI [of _ k])
qed

section \<open>Comparisons whose sign says which way round\<close>

text \<open>What the search needs beyond the sort: the comparison turned round has the opposite sign.\<close>

locale signed_comparison = comparison +
  assumes turn: "x \<in> A \<Longrightarrow> y \<in> A \<Longrightarrow> 0 < c x y \<longleftrightarrow> c y x < 0"
begin

lemma turn_zero: "x \<in> A \<Longrightarrow> y \<in> A \<Longrightarrow> c x y = 0 \<longleftrightarrow> c y x = 0"
  using turn [of x y] turn [of y x] by linarith

text \<open>In a sorted list the sign of the comparison with a key falls.\<close>

lemma sorted_signs:
  assumes "sorted_wrt (\<lambda>x y. c x y \<le> 0) xs" "set xs \<subseteq> A" "key \<in> A" "i \<le> j" "j < length xs"
  shows "0 < c key (xs ! j) \<Longrightarrow> 0 < c key (xs ! i)" "c key (xs ! i) < 0 \<Longrightarrow> c key (xs ! j) < 0"
proof -
  have el: "xs ! i \<in> A" "xs ! j \<in> A" using assms(2,4,5) by (meson le_less_trans nth_mem subsetD)+
  have ij: "i = j \<or> c (xs ! i) (xs ! j) \<le> 0"
    using assms(4,5) sorted_wrt_nth_less [OF assms(1), of i j] by (cases "i = j") simp_all
  show "0 < c key (xs ! i)" if p: "0 < c key (xs ! j)"
  proof (rule ccontr)
    assume "\<not> 0 < c key (xs ! i)"
    then have "c key (xs ! j) \<le> 0" using ij trans [OF assms(3) el] by (cases "i = j") auto
    then show False using p by simp
  qed
  show "c key (xs ! j) < 0" if p: "c key (xs ! i) < 0"
  proof (rule ccontr)
    assume n: "\<not> c key (xs ! j) < 0"
    then have "c (xs ! j) key \<le> 0" using turn [OF el(2) assms(3)] by linarith
    then have "c (xs ! i) key \<le> 0" using ij trans [OF el assms(3)] by (cases "i = j") auto
    then show False using turn [OF el(1) assms(3)] p by simp
  qed
qed

end

lemma bsearch_loop_finds:
  assumes "\<And>i j. i \<le> j \<Longrightarrow> j < n \<Longrightarrow> 0 < r j \<Longrightarrow> 0 < r i" "\<And>i j. i \<le> j \<Longrightarrow> j < n \<Longrightarrow> r i < 0 \<Longrightarrow> r j < (0::int)"
  shows "high \<le> n \<Longrightarrow> case bsearch_loop r low high of None \<Rightarrow> \<forall>i. low \<le> i \<and> i < high \<longrightarrow> r i \<noteq> 0
    | Some i \<Rightarrow> low \<le> i \<and> i < high \<and> r i = 0"
proof (induction "high - low" arbitrary: low high rule: less_induct)
  case less
  let ?mid = "low + (high - low) div 2"
  show ?case
  proof (cases "low < high")
    case True
    have m: "low \<le> ?mid" "?mid < high" "?mid < n" using True less.prems by auto
    have u: "bsearch_loop r low high =
        (if 0 < r ?mid then bsearch_loop r (?mid + 1) high else if r ?mid < 0 then bsearch_loop r low ?mid else Some ?mid)"
      using True by (subst bsearch_loop.simps) (simp add: Let_def)
    consider "0 < r ?mid" | "r ?mid < 0" | "r ?mid = 0" by linarith
    then show ?thesis
    proof cases
      case 1
      have "case bsearch_loop r (?mid + 1) high of None \<Rightarrow> \<forall>i. ?mid + 1 \<le> i \<and> i < high \<longrightarrow> r i \<noteq> 0
          | Some i \<Rightarrow> ?mid + 1 \<le> i \<and> i < high \<and> r i = 0"
        using m less.prems by (intro less.hyps) auto
      moreover have "r i \<noteq> 0" if "i \<le> ?mid" for i using assms(1) [OF that m(3) 1] by simp
      ultimately show ?thesis using 1 m unfolding u
        by (cases "bsearch_loop r (?mid + 1) high") (simp_all, metis not_less_eq_eq)
    next
      case 2
      have "case bsearch_loop r low ?mid of None \<Rightarrow> \<forall>i. low \<le> i \<and> i < ?mid \<longrightarrow> r i \<noteq> 0
          | Some i \<Rightarrow> low \<le> i \<and> i < ?mid \<and> r i = 0"
        using m less.prems by (intro less.hyps) auto
      moreover have "r i \<noteq> 0" if "?mid \<le> i" "i < high" for i using assms(2) [OF that(1) _ 2] that(2) less.prems by fastforce
      ultimately show ?thesis using 2 m unfolding u
        by (cases "bsearch_loop r low ?mid") (simp_all, metis not_le_imp_less)
    next
      case 3
      then show ?thesis using m unfolding u by simp
    qed
  next
    case False
    then show ?thesis by (subst bsearch_loop.simps) simp
  qed
qed

lemma diff_ref_self [simp]: "diff_ref xs xs = 0"
  by (induction xs) simp_all

lemma diff_ref_turn: "length xs = length ys \<Longrightarrow> diff_ref xs ys = - diff_ref ys xs"
  by (induction xs ys rule: list_induct2) auto

lemma diff_ref_trans:
  "length xs = length ys \<Longrightarrow> length ys = length zs \<Longrightarrow> diff_ref xs ys \<le> 0 \<Longrightarrow> diff_ref ys zs \<le> 0 \<Longrightarrow> diff_ref xs zs \<le> 0"
  by (induction xs ys zs rule: list_induct3) (auto simp: word_uint_eq_iff split: if_splits)

interpretation bytewise: signed_comparison diff_ref "{xs. length xs = w}" for w
proof unfold_locales
  fix x y :: "u8 list"
  assume "x \<in> {xs. length xs = w}" "y \<in> {xs. length xs = w}"
  then have "diff_ref x y = - diff_ref y x" by (intro diff_ref_turn) simp
  then show "diff_ref x y \<le> 0 \<or> diff_ref y x \<le> 0" "0 < diff_ref x y \<longleftrightarrow> diff_ref y x < 0" by linarith+
next
  fix x y z :: "u8 list"
  assume "x \<in> {xs. length xs = w}" "y \<in> {xs. length xs = w}" "z \<in> {xs. length xs = w}" "diff_ref x y \<le> 0" "diff_ref y z \<le> 0"
  then show "diff_ref x z \<le> 0" by (intro diff_ref_trans [of x y z]) simp_all
qed

lemma elems_lengths: "set (elems m p w n) \<subseteq> {xs. length xs = w}"
  by (auto simp: elems_def)

section \<open>qsort sorts, bsearch finds\<close>

lemma qsort_sorts_elems:
  assumes "compares cmp c w" "comparison c {xs. length xs = w}" "0 < w"
  shows "\<exists>m'. qsort m p n w cmp = Some m' \<and> only_array m m' p (n * w) \<and>
    mset (elems m' p w n) = mset (elems m p w n) \<and> sorted_wrt (\<lambda>x y. c x y \<le> 0) (elems m' p w n)"
proof (cases "1 < n")
  case True
  from qsort_ref [OF assms(1,3) True, of m p] obtain m' k where
    m': "gap k \<le> n" "qsort m p n w cmp = Some m'" "elems m' p w n = sort_gaps c (elems m p w n) (gap k)"
      "only_array m m' p (n * w)" by blast
  then show ?thesis
    using mset_sort_gaps [of "gap k" "elems m p w n" c] comparison.sort_gaps_sorted [OF assms(2), of "elems m p w n" k] elems_lengths [of m p w n]
    by simp
next
  case False
  then consider "n = 0" | "n = 1" by linarith
  then show ?thesis by cases (simp_all add: qsort_def elems_def)
qed

text \<open>C20: qsort returns, whatever the array; it leaves a permutation of the elements, in the order
  of the comparison function, and touches no byte outside the array.  The comparison function may be
  any total preorder on the elements' bytes.\<close>

theorem qsort_sorts:
  assumes "compares cmp c w" "comparison c {xs. length xs = w}" "0 < w"
  shows "\<exists>m'. qsort m p n w cmp = Some m' \<and> only_array m m' p (n * w) \<and>
    mset (elems m' p w n) = mset (elems m p w n) \<and> sorted_wrt (\<lambda>x y. c x y \<le> 0) (elems m' p w n)"
  using assms by (rule qsort_sorts_elems)

text \<open>memcmp as the comparison function of fixed-width records.\<close>

definition memcmp_records :: "nat \<Rightarrow> 'b compar" where
  "memcmp_records w m a b = memcmp m a m b w"

lemma compares_memcmp: "compares (memcmp_records w) diff_ref w"
  by (simp add: compares_def memcmp_records_def memcmp_diff)

definition demo_mem :: "nat mem" where
  "demo_mem = (\<lambda>(b, i). of_nat ((7 * i + 3) mod 5))"

theorem qsort_sorts_witness:
  "\<exists>m'. qsort demo_mem (0, 8) 5 2 (memcmp_records 2) = Some m' \<and> only_array demo_mem m' (0, 8) (5 * 2) \<and>
    mset (elems m' (0, 8) 2 5) = mset (elems demo_mem (0, 8) 2 5) \<and> sorted_wrt (\<lambda>x y. diff_ref x y \<le> 0) (elems m' (0, 8) 2 5)"
  by (rule qsort_sorts [OF compares_memcmp bytewise.comparison_axioms]) simp

lemma bsearch_sorted:
  assumes "compares cmp c w" "signed_comparison c {xs. length xs = w}" "0 < w"
    "sorted_wrt (\<lambda>x y. c x y \<le> 0) (elems m p w n)"
  shows "case bsearch m key p n w cmp of None \<Rightarrow> \<forall>x \<in> set (elems m p w n). c (bytes m key w) x \<noteq> 0
    | Some q \<Rightarrow> \<exists>i < n. q = padd p (i * w) \<and> c (bytes m key w) (elems m p w n ! i) = 0"
proof -
  let ?r = "\<lambda>i. cmp m key (padd p (i * w))" and ?xs = "elems m p w n" and ?k = "bytes m key w"
  have r: "?r i = c ?k (?xs ! i)" if "i < n" for i
    using assms(1) nth_elems [OF that, of m p w] unfolding compares_def by metis
  have k: "?k \<in> {xs. length xs = w}" by simp
  note signs = signed_comparison.sorted_signs [OF assms(2,4) elems_lengths k]
  have "case bsearch_loop ?r 0 n of None \<Rightarrow> \<forall>i. 0 \<le> i \<and> i < n \<longrightarrow> ?r i \<noteq> 0 | Some i \<Rightarrow> 0 \<le> i \<and> i < n \<and> ?r i = 0"
  proof (rule bsearch_loop_finds)
    fix i j assume ij: "i \<le> j" "j < n"
    then have j: "j < length ?xs" and i: "i < n" by simp_all
    show "0 < ?r i" if "0 < ?r j" using signs(1) [OF ij(1) j] that unfolding r [OF ij(2)] r [OF i] .
    show "?r j < 0" if "?r i < 0" using signs(2) [OF ij(1) j] that unfolding r [OF ij(2)] r [OF i] .
  qed simp
  then show ?thesis
    using assms(3) r by (auto simp: bsearch_def in_set_conv_nth split: option.splits)
qed

text \<open>C21: a search in an array that qsort has sorted finds an element equal to the key exactly when
  the array held one before it was sorted; what it returns points at such an element.\<close>

theorem qsort_bsearch:
  assumes "compares cmp c w" "signed_comparison c {xs. length xs = w}" "0 < w" "fst key \<noteq> fst p"
  shows "\<exists>m'. qsort m p n w cmp = Some m' \<and>
    (case bsearch m' key p n w cmp of None \<Rightarrow> \<forall>x \<in> set (elems m p w n). c (bytes m key w) x \<noteq> 0
     | Some q \<Rightarrow> c (bytes m key w) (bytes m' q w) = 0 \<and> (\<exists>i < n. q = padd p (i * w)) \<and> bytes m' q w \<in> set (elems m p w n))"
proof -
  obtain m' where m': "qsort m p n w cmp = Some m'" "only_array m m' p (n * w)"
    "mset (elems m' p w n) = mset (elems m p w n)" "sorted_wrt (\<lambda>x y. c x y \<le> 0) (elems m' p w n)"
    using qsort_sorts_elems [OF assms(1) signed_comparison.axioms(1) [OF assms(2)] assms(3)] by blast
  have k: "bytes m' key w = bytes m key w"
    using m'(2) assms(4) unfolding only_array_def by (intro bytes_cong) (metis padd_simps(4))
  have s: "set (elems m' p w n) = set (elems m p w n)" using m'(3) by (rule mset_eq_setD)
  show ?thesis
    using bsearch_sorted [OF assms(1-3) m'(4), of key] m'(1) nth_mem [of _ "elems m' p w n"]
    unfolding k s by (fastforce split: option.splits)
qed

theorem qsort_bsearch_witness:
  "\<exists>m'. qsort demo_mem (0, 8) 5 2 (memcmp_records 2) = Some m' \<and>
    (case bsearch m' (1, 3) (0, 8) 5 2 (memcmp_records 2) of
       None \<Rightarrow> \<forall>x \<in> set (elems demo_mem (0, 8) 2 5). diff_ref (bytes demo_mem (1, 3) 2) x \<noteq> 0
     | Some q \<Rightarrow> diff_ref (bytes demo_mem (1, 3) 2) (bytes m' q 2) = 0 \<and> (\<exists>i < 5. q = padd (0, 8) (i * 2)) \<and>
         bytes m' q 2 \<in> set (elems demo_mem (0, 8) 2 5))"
  by (rule qsort_bsearch [OF compares_memcmp bytewise.signed_comparison_axioms]) simp_all

end
