(* ===== verification/ListHead.thy ===== *)
theory ListHead
  imports Prelude "HOL-Library.Multiset" "HOL-Library.AList"
begin

text \<open>
  include/linux/list.h: the doubly linked ring with its list_head anchors, and the hash list.  The
  heap is split by field: nxt and prv give the two fields of the struct list_head at an address.
  Concrete operations are the header's, store by store; the abstract state is a table from anchor
  addresses to the lists of entries behind them.
\<close>

section \<open>The ring\<close>

type_synonym addr = u32

record list_heap =
  nxt :: "addr \<Rightarrow> addr"
  prv :: "addr \<Rightarrow> addr"

definition LIST_POISON1 :: addr where "LIST_POISON1 = 0"
definition LIST_POISON2 :: addr where "LIST_POISON2 = 0"

text \<open>p->next = v and p->prev = v.\<close>

definition set_nxt :: "addr \<Rightarrow> addr \<Rightarrow> 'z list_heap_scheme \<Rightarrow> 'z list_heap_scheme" where
  "set_nxt p v s = s\<lparr>nxt := (nxt s)(p := v)\<rparr>"

definition set_prv :: "addr \<Rightarrow> addr \<Rightarrow> 'z list_heap_scheme \<Rightarrow> 'z list_heap_scheme" where
  "set_prv p v s = s\<lparr>prv := (prv s)(p := v)\<rparr>"

definition INIT_LIST_HEAD :: "addr \<Rightarrow> 'z list_heap_scheme \<Rightarrow> 'z list_heap_scheme" where
  "INIT_LIST_HEAD l s = (let s = set_nxt l l s in set_prv l l s)"

definition list_add_raw :: "addr \<Rightarrow> addr \<Rightarrow> addr \<Rightarrow> 'z list_heap_scheme \<Rightarrow> 'z list_heap_scheme" where
  "list_add_raw new prev next s =
    (let s = set_prv next new s;
         s = set_nxt new next s;
         s = set_prv new prev s
     in set_nxt prev new s)"

definition list_add :: "addr \<Rightarrow> addr \<Rightarrow> 'z list_heap_scheme \<Rightarrow> 'z list_heap_scheme" where
  "list_add new head s = list_add_raw new head (nxt s head) s"

definition list_add_tail :: "addr \<Rightarrow> addr \<Rightarrow> 'z list_heap_scheme \<Rightarrow> 'z list_heap_scheme" where
  "list_add_tail new head s = list_add_raw new (prv s head) head s"

definition list_del_raw :: "addr \<Rightarrow> addr \<Rightarrow> 'z list_heap_scheme \<Rightarrow> 'z list_heap_scheme" where
  "list_del_raw prev next s = (let s = set_prv next prev s in set_nxt prev next s)"

definition list_del :: "addr \<Rightarrow> 'z list_heap_scheme \<Rightarrow> 'z list_heap_scheme" where
  "list_del entry s =
    (let s = list_del_raw (prv s entry) (nxt s entry) s;
         s = set_nxt entry LIST_POISON1 s
     in set_prv entry LIST_POISON2 s)"

definition list_replace :: "addr \<Rightarrow> addr \<Rightarrow> 'z list_heap_scheme \<Rightarrow> 'z list_heap_scheme" where
  "list_replace old new s =
    (let s = set_nxt new (nxt s old) s;
         s = set_prv (nxt s new) new s;
         s = set_prv new (prv s old) s
     in set_nxt (prv s new) new s)"

definition list_replace_init :: "addr \<Rightarrow> addr \<Rightarrow> 'z list_heap_scheme \<Rightarrow> 'z list_heap_scheme" where
  "list_replace_init old new s = INIT_LIST_HEAD old (list_replace old new s)"

definition list_del_init :: "addr \<Rightarrow> 'z list_heap_scheme \<Rightarrow> 'z list_heap_scheme" where
  "list_del_init entry s = INIT_LIST_HEAD entry (list_del_raw (prv s entry) (nxt s entry) s)"

definition list_move :: "addr \<Rightarrow> addr \<Rightarrow> 'z list_heap_scheme \<Rightarrow> 'z list_heap_scheme" where
  "list_move l head s = list_add l head (list_del_raw (prv s l) (nxt s l) s)"

definition list_move_tail :: "addr \<Rightarrow> addr \<Rightarrow> 'z list_heap_scheme \<Rightarrow> 'z list_heap_scheme" where
  "list_move_tail l head s = list_add_tail l head (list_del_raw (prv s l) (nxt s l) s)"

definition list_is_last :: "'z list_heap_scheme \<Rightarrow> addr \<Rightarrow> addr \<Rightarrow> bool" where
  "list_is_last s l head \<longleftrightarrow> nxt s l = head"

definition list_empty :: "'z list_heap_scheme \<Rightarrow> addr \<Rightarrow> bool" where
  "list_empty s head \<longleftrightarrow> nxt s head = head"

definition list_empty_careful :: "'z list_heap_scheme \<Rightarrow> addr \<Rightarrow> bool" where
  "list_empty_careful s head \<longleftrightarrow> (let next = nxt s head in next = head \<and> next = prv s head)"

definition list_is_singular :: "'z list_heap_scheme \<Rightarrow> addr \<Rightarrow> bool" where
  "list_is_singular s head \<longleftrightarrow> \<not> list_empty s head \<and> nxt s head = prv s head"

definition list_cut_position_raw :: "addr \<Rightarrow> addr \<Rightarrow> addr \<Rightarrow> 'z list_heap_scheme \<Rightarrow> 'z list_heap_scheme" where
  "list_cut_position_raw l head entry s =
    (let new_first = nxt s entry;
         s = set_nxt l (nxt s head) s;
         s = set_prv (nxt s l) l s;
         s = set_prv l entry s;
         s = set_nxt entry l s;
         s = set_nxt head new_first s
     in set_prv new_first head s)"

definition list_cut_position :: "addr \<Rightarrow> addr \<Rightarrow> addr \<Rightarrow> 'z list_heap_scheme \<Rightarrow> 'z list_heap_scheme" where
  "list_cut_position l head entry s =
    (if list_empty s head then s
     else if list_is_singular s head \<and> (nxt s head \<noteq> entry \<and> head \<noteq> entry) then s
     else if entry = head then INIT_LIST_HEAD l s
     else list_cut_position_raw l head entry s)"

definition list_splice_raw :: "addr \<Rightarrow> addr \<Rightarrow> addr \<Rightarrow> 'z list_heap_scheme \<Rightarrow> 'z list_heap_scheme" where
  "list_splice_raw l prev next s =
    (let first = nxt s l; last = prv s l;
         s = set_prv first prev s;
         s = set_nxt prev first s;
         s = set_nxt last next s
     in set_prv next last s)"

definition list_splice :: "addr \<Rightarrow> addr \<Rightarrow> 'z list_heap_scheme \<Rightarrow> 'z list_heap_scheme" where
  "list_splice l head s = (if \<not> list_empty s l then list_splice_raw l head (nxt s head) s else s)"

definition list_splice_tail :: "addr \<Rightarrow> addr \<Rightarrow> 'z list_heap_scheme \<Rightarrow> 'z list_heap_scheme" where
  "list_splice_tail l head s = (if \<not> list_empty s l then list_splice_raw l (prv s head) head s else s)"

definition list_splice_init :: "addr \<Rightarrow> addr \<Rightarrow> 'z list_heap_scheme \<Rightarrow> 'z list_heap_scheme" where
  "list_splice_init l head s =
    (if \<not> list_empty s l then INIT_LIST_HEAD l (list_splice_raw l head (nxt s head) s) else s)"

definition list_splice_tail_init :: "addr \<Rightarrow> addr \<Rightarrow> 'z list_heap_scheme \<Rightarrow> 'z list_heap_scheme" where
  "list_splice_tail_init l head s =
    (if \<not> list_empty s l then INIT_LIST_HEAD l (list_splice_raw l (prv s head) head s) else s)"

section \<open>Chains\<close>

fun linked :: "'z list_heap_scheme \<Rightarrow> addr list \<Rightarrow> bool" where
  "linked s (a # b # as) \<longleftrightarrow> nxt s a = b \<and> prv s b = a \<and> linked s (b # as)"
| "linked s _ \<longleftrightarrow> True"

definition ring :: "'z list_heap_scheme \<Rightarrow> addr \<Rightarrow> addr list \<Rightarrow> bool" where
  "ring s h xs \<longleftrightarrow> distinct (h # xs) \<and> linked s (h # xs @ [h])"

lemma heap_update [simp]:
  "nxt (set_nxt p v s) = (nxt s)(p := v)" "prv (set_nxt p v s) = prv s"
  "prv (set_prv p v s) = (prv s)(p := v)" "nxt (set_prv p v s) = nxt s"
  by (simp_all add: set_nxt_def set_prv_def)

lemma linked_append: "linked s (as @ p # n # bs) \<longleftrightarrow> linked s (as @ [p]) \<and> nxt s p = n \<and> prv s n = p \<and> linked s (n # bs)"
proof (induction as)
  case (Cons a as)
  then show ?case by (cases as) auto
qed simp

lemma linked_cong:
  "(\<And>a. a \<in> set (butlast as) \<Longrightarrow> nxt s' a = nxt s a) \<Longrightarrow> (\<And>a. a \<in> set (tl as) \<Longrightarrow> prv s' a = prv s a) \<Longrightarrow>
   linked s' as = linked s as"
  by (induction as rule: linked.induct [of _ s]) auto

lemma linked_1 [simp]: "linked s [a]"
  by simp

text \<open>A ring is a chain from its anchor back to it; split between two neighbours.\<close>

lemma ring_split:
  "ring s h (us @ vs) \<longleftrightarrow> distinct (h # us @ vs) \<and> linked s (h # us) \<and>
    nxt s (last (h # us)) = hd (vs @ [h]) \<and> prv s (hd (vs @ [h])) = last (h # us) \<and> linked s (vs @ [h])"
proof -
  obtain us' p where p: "h # us = us' @ [p]" by (metis append_butlast_last_id list.distinct(1))
  obtain n vs' where n: "vs @ [h] = n # vs'" by (metis append_is_Nil_conv list.exhaust list.distinct(1))
  have e: "h # (us @ vs) @ [h] = us' @ p # n # vs'" using p n by (metis append.assoc append_Cons append_Nil)
  have l: "last (h # us) = p" "hd (vs @ [h]) = n" using p n by simp_all
  show ?thesis unfolding ring_def e l by (simp add: p n linked_append)
qed

lemma linked_app:
  assumes "as \<noteq> []" "bs \<noteq> []"
  shows "linked s (as @ bs) \<longleftrightarrow> linked s as \<and> nxt s (last as) = hd bs \<and> prv s (hd bs) = last as \<and> linked s bs"
proof -
  have "as @ bs = butlast as @ last as # hd bs # tl bs" using assms by simp
  then have "linked s (as @ bs) \<longleftrightarrow> linked s (butlast as @ last as # hd bs # tl bs)" by (simp only:)
  then show ?thesis unfolding linked_append using assms by simp
qed

lemma linked_frame: "linked s as \<Longrightarrow> (\<And>a. a \<in> set (butlast as) \<Longrightarrow> nxt s' a = nxt s a) \<Longrightarrow>
    (\<And>a. a \<in> set (tl as) \<Longrightarrow> prv s' a = prv s a) \<Longrightarrow> linked s' as"
  using linked_cong [of as s' s] by blast

lemma hd_notin_tl: "distinct xs \<Longrightarrow> xs \<noteq> [] \<Longrightarrow> hd xs \<notin> set (tl xs)"
  by (cases xs) auto

lemma last_notin_butlast: "distinct xs \<Longrightarrow> last xs \<notin> set (butlast xs)"
  by (induction xs) auto

lemma in_butlast: "a \<in> set (butlast xs) \<Longrightarrow> a \<in> set xs"
  by (rule in_set_butlastD)

lemma in_tl: "a \<in> set (tl xs) \<Longrightarrow> a \<in> set xs"
  by (cases xs) auto

lemma hd_in: "hd (vs @ [h]) \<in> insert h (set vs)"
  by (cases vs) auto

lemma last_in: "last (h # us) \<in> insert h (set us)"
  by (metis last_in_set list.distinct(1) list.simps(15))

text \<open>The two neighbours p and n of a split, and where they are not.\<close>

definition joint :: "addr \<Rightarrow> addr list \<Rightarrow> addr list \<Rightarrow> addr \<Rightarrow> addr \<Rightarrow> bool" where
  "joint h us vs p n \<longleftrightarrow> p = last (h # us) \<and> n = hd (vs @ [h])"

lemma jointI: "joint h us vs (last (h # us)) (hd (vs @ [h]))"
  by (simp add: joint_def)

lemma joint_ring:
  "joint h us vs p n \<Longrightarrow> ring s h (us @ vs) \<longleftrightarrow>
    distinct (h # us @ vs) \<and> linked s (h # us) \<and> nxt s p = n \<and> prv s n = p \<and> linked s (vs @ [h])"
  unfolding joint_def by (simp only: ring_split)

lemma joint_out:
  assumes "joint h us vs p n" "distinct (h # us @ vs)"
  shows "p \<notin> set (butlast (h # us))" "p \<notin> set vs" "n \<notin> set us" "n \<notin> set (tl (vs @ [h]))"
    "p \<in> insert h (set us)" "n \<in> insert h (set vs)"
proof -
  have d: "distinct (h # us)" "distinct (vs @ [h])" using assms(2) by auto
  show "p \<notin> set (butlast (h # us))" using last_notin_butlast [OF d(1)] assms(1) unfolding joint_def by metis
  show "n \<notin> set (tl (vs @ [h]))" using hd_notin_tl [OF d(2)] assms(1) unfolding joint_def by simp
  show i: "p \<in> insert h (set us)" "n \<in> insert h (set vs)"
    using assms(1) last_in [of h us] hd_in [of vs h] unfolding joint_def by metis+
  show "p \<notin> set vs" "n \<notin> set us" using assms(2) i by auto
qed

lemma ring_insert:
  assumes j: "joint h us vs p n" and "ring s h (us @ vs)" "x \<notin> set (h # us @ vs)"
  shows "ring (list_add_raw x p n s) h (us @ x # vs)" (is "ring ?s _ _")
proof -
  note r = assms(2) [unfolded joint_ring [OF j]]
  note e = joint_out [OF j conjunct1 [OF r]]
  have x: "x \<noteq> p" "x \<noteq> n" "x \<notin> set (butlast (h # us))" using assms(3) e(5,6) in_butlast [of x "h # us"] by auto
  have f: "nxt ?s = (nxt s)(x := n, p := x)" "prv ?s = (prv s)(n := x, x := p)"
    by (simp_all add: list_add_raw_def)
  have "linked ?s (h # us)"
    by (rule linked_frame [of s]) (use r assms(3) e x in \<open>auto simp: f simp del: butlast.simps\<close>)
  moreover have "linked ?s (vs @ [h])"
    by (rule linked_frame [of s]) (use r assms(3) e in \<open>auto simp: f dest: in_tl\<close>)
  moreover have "hd (vs @ [h]) = n" using j by (simp add: joint_def)
  then have "linked ?s ([x] @ (vs @ [h])) \<longleftrightarrow> linked ?s (vs @ [h])"
    using x by (subst linked_app) (auto simp: f)
  moreover have "joint h us (x # vs) p x" using j by (simp add: joint_def)
  ultimately show ?thesis
    using r x assms(3) by (auto simp: joint_ring [of h us "x # vs" p x] f)
qed

lemma ring_neighbours:
  assumes "ring s h (us @ x # vs)"
  shows "joint h us vs (prv s x) (nxt s x)" "linked s (h # us)" "linked s (vs @ [h])" "distinct (h # us @ vs)"
    "x \<notin> set (h # us @ vs)"
  using assms ring_split [of s h us "x # vs"] linked_app [of "[x]" "vs @ [h]" s] by (auto simp: joint_def)

lemma ring_remove:
  assumes "ring s h (us @ x # vs)"
  shows "ring (list_del_raw (prv s x) (nxt s x) s) h (us @ vs)" (is "ring ?s _ _")
proof -
  note nb = ring_neighbours [OF assms]
  note e = joint_out [OF nb(1,4)]
  have f: "nxt ?s = (nxt s)(prv s x := nxt s x)" "prv ?s = (prv s)(nxt s x := prv s x)"
    by (simp_all add: list_del_raw_def)
  have "linked ?s (h # us)" by (rule linked_frame [OF nb(2)]) (use e in \<open>auto simp: f simp del: butlast.simps\<close>)
  moreover have "linked ?s (vs @ [h])" by (rule linked_frame [OF nb(3)]) (use e in \<open>auto simp: f simp del: butlast.simps\<close>)
  ultimately show ?thesis using nb(4) by (simp add: joint_ring [OF nb(1)] f)
qed

lemma ring_frame:
  "(\<And>a. a \<in> set (h # xs) \<Longrightarrow> nxt s' a = nxt s a \<and> prv s' a = prv s a) \<Longrightarrow> ring s' h xs = ring s h xs"
  unfolding ring_def by (intro arg_cong2 [where f = "(\<and>)"] refl linked_cong) (auto dest: in_butlast in_tl)

lemma ring_ends: "ring s h xs \<Longrightarrow> nxt s h = hd (xs @ [h]) \<and> prv s h = last (h # xs)"
  using ring_split [of s h "[]" xs] ring_split [of s h xs "[]"] by simp

lemma joint_front: "ring s h xs \<Longrightarrow> joint h [] xs h (nxt s h)"
  unfolding joint_def using ring_ends [of s h xs] by simp

lemma joint_back: "ring s h xs \<Longrightarrow> joint h xs [] (prv s h) h"
  unfolding joint_def using ring_ends [of s h xs] by simp

lemma ring_linked: "ring s h xs \<Longrightarrow> xs \<noteq> [] \<Longrightarrow> linked s xs"
  using linked_app [of "[h]" "xs @ [h]" s] linked_app [of xs "[h]" s] by (simp add: ring_def)

lemma ring_splice:
  assumes j: "joint h us vs p n" and l: "ring s l ys" "ys \<noteq> []" and "ring s h (us @ vs)" "set (l # ys) \<inter> set (h # us @ vs) = {}"
  shows "ring (list_splice_raw l p n s) h (us @ ys @ vs)" (is "ring ?s _ _")
proof -
  note r = assms(4) [unfolded joint_ring [OF j]]
  note e = joint_out [OF j conjunct1 [OF r]]
  have d: "distinct ys" using l by (simp add: ring_def)
  have y: "nxt s l = hd ys" "prv s l = last ys" using ring_ends [OF l(1)] l(2) by simp_all
  obtain f q where fq: "hd ys = f" "last ys = q" "f \<in> set ys" "q \<in> set ys" "f \<notin> set (tl ys)" "q \<notin> set (butlast ys)"
    using l(2) hd_notin_tl [OF d l(2)] last_notin_butlast [OF d] by simp
  have h: "nxt ?s = (nxt s)(p := f, q := n)" "prv ?s = (prv s)(f := p, n := q)"
    using y fq by (simp_all add: list_splice_raw_def Let_def)
  have out: "p \<notin> set ys" "n \<notin> set ys" "q \<notin> set (h # us @ vs)" "f \<notin> set (h # us @ vs)" "p \<noteq> q" "n \<noteq> f"
    "q \<notin> set (butlast (h # us))"
    using assms(5) e(5,6) fq in_butlast [of q "h # us"] by auto
  have "linked ?s (h # us)"
    by (rule linked_frame [of s]) (use r e out in \<open>auto simp: h simp del: butlast.simps\<close>)
  moreover have "linked ?s (vs @ [h])"
    by (rule linked_frame [of s]) (use r e out in \<open>auto simp: h dest: in_tl\<close>)
  moreover have "linked ?s ys"
    by (rule linked_frame [OF ring_linked [OF l]]) (use out fq in \<open>auto simp: h dest: in_butlast in_tl\<close>)
  moreover have hd: "hd (vs @ [h]) = n" using j by (simp add: joint_def)
  then have "linked ?s (ys @ (vs @ [h])) \<longleftrightarrow> linked ?s ys \<and> linked ?s (vs @ [h])"
    using l(2) out fq by (subst linked_app) (auto simp: h)
  moreover have "joint h us (ys @ vs) p f" using j l(2) fq by (simp add: joint_def)
  ultimately show ?thesis
    using r out d assms(5) by (auto simp: joint_ring [of h us "ys @ vs" p f] h)
qed

lemma ring_cut:
  assumes "ring s h (ys @ vs)" "ys \<noteq> []" "last ys = e" "l \<notin> set (h # ys @ vs)"
  shows "ring (list_cut_position_raw l h e s) l ys" "ring (list_cut_position_raw l h e s) h vs" (is "ring ?s _ _")
proof -
  obtain f where f: "hd ys = f" "f \<in> set ys" by (use assms(2) in simp)
  define n where "n = hd (vs @ [h])"
  have j: "joint h ys vs e n" using assms(2,3) by (simp add: joint_def n_def)
  note r = assms(1) [unfolded joint_ring [OF j]]
  note o = joint_out [OF j conjunct1 [OF r]]
  have d: "distinct ys" "distinct (vs @ [h])" using r by auto
  have b: "e \<notin> set (butlast ys)" "f \<notin> set (tl ys)" "e \<in> set ys" "h \<noteq> e"
    using last_notin_butlast [OF d(1)] hd_notin_tl [OF d(1) assms(2)] f assms(2,3) r by auto
  have nh: "nxt s h = f" "nxt s e = n" using ring_ends [OF assms(1)] assms(2) f r by simp_all
  have h: "nxt ?s = (nxt s)(l := f, e := l, h := n)" "prv ?s = (prv s)(f := l, l := e, n := h)"
    using nh assms(4) by (auto simp: list_cut_position_raw_def Let_def)
  have out: "n \<noteq> l" "n \<noteq> f" "f \<noteq> h" "l \<noteq> h" "e \<noteq> l" "f \<noteq> l" using assms(4) o f b r by auto
  have ft: "f \<notin> set (tl (vs @ [h]))" "l \<notin> set (tl (vs @ [h]))"
    using in_tl [of _ "vs @ [h]"] f out r assms(4) by auto
  have ly: "linked s ys" using r linked_app [of "[h]" ys s] assms(2) by simp
  have "linked ?s ys"
    by (rule linked_frame [OF ly]) (use b out o r assms(4) in \<open>auto simp: h dest: in_butlast in_tl\<close>)
  moreover have "linked ?s ([l] @ ys @ [l]) \<longleftrightarrow> linked ?s ys"
    using assms(2,3) f b out by (subst linked_app, simp, simp, subst linked_app) (auto simp: h)
  ultimately show "ring ?s l ys" using d assms(4) by (simp add: ring_def)
  have "linked ?s (vs @ [h])"
    by (rule linked_frame [of s]) (use b out o r ft assms(4) in \<open>auto simp: h\<close>)
  moreover have "linked ?s ([h] @ (vs @ [h])) \<longleftrightarrow> linked ?s (vs @ [h])"
    using out by (subst linked_app) (auto simp: h n_def)
  ultimately show "ring ?s h vs" using r by (simp add: ring_def)
qed

lemma list_replace_entry:
  assumes "ring s h (us @ old # vs)" "x \<notin> set (h # us @ old # vs)"
  shows "list_replace old x s = list_add_raw x (prv s old) (nxt s old) (list_del_raw (prv s old) (nxt s old) s)"
proof -
  note nb = ring_neighbours [OF assms(1)]
  have "nxt s old \<noteq> old" "prv s old \<noteq> old" "x \<noteq> old"
    using joint_out(5,6) [OF nb(1,4)] nb(5) assms(2) by auto
  then show ?thesis
    by (simp add: list_replace_def list_add_raw_def list_del_raw_def Let_def set_nxt_def set_prv_def fun_upd_twist)
qed

lemma ring_replace:
  assumes "ring s h (us @ old # vs)" "x \<notin> set (h # us @ old # vs)"
  shows "ring (list_replace old x s) h (us @ x # vs)"
  unfolding list_replace_entry [OF assms]
  by (rule ring_insert [OF ring_neighbours(1) [OF assms(1)] ring_remove [OF assms(1)]]) (use assms(2) in auto)

lemma ring_replace_head:
  assumes "ring s old xs" "x \<notin> set (old # xs)"
  shows "ring (list_replace old x s) x xs" (is "ring ?s _ _")
proof (cases "xs = []")
  case True
  then have "nxt s old = old" using ring_ends [OF assms(1)] by simp
  then show ?thesis using True assms(2) by (simp add: ring_def list_replace_def Let_def)
next
  case False
  obtain f q where fq: "hd xs = f" "last xs = q" "f \<in> set xs" "q \<in> set xs" using False by simp
  have d: "distinct xs" using assms(1) by (simp add: ring_def)
  have b: "q \<notin> set (butlast xs)" "f \<notin> set (tl xs)" using hd_notin_tl [OF d False] last_notin_butlast [OF d] fq by simp_all
  have e: "nxt s old = f" "prv s old = q" using ring_ends [OF assms(1)] False fq by simp_all
  have o: "f \<noteq> old" "q \<noteq> old" "f \<noteq> x" "q \<noteq> x" using fq assms by (auto simp: ring_def)
  have h: "nxt ?s = (nxt s)(x := f, q := x)" "prv ?s = (prv s)(f := x, x := q)"
    using e o by (simp_all add: list_replace_def Let_def)
  have "linked ?s xs"
    by (rule linked_frame [OF ring_linked [OF assms(1) False]]) (use b assms(2) in \<open>auto simp: h dest: in_butlast in_tl\<close>)
  moreover have "linked ?s ([x] @ xs @ [x]) \<longleftrightarrow> linked ?s xs"
    using False fq o by (subst linked_app, simp, simp, subst linked_app) (auto simp: h)
  ultimately show ?thesis using d assms(2) by (simp add: ring_def)
qed

lemma ring_init: "ring (INIT_LIST_HEAD h s) h []"
  by (simp add: ring_def INIT_LIST_HEAD_def)

section \<open>Tables of lists\<close>

type_synonym table = "(addr \<times> addr list) list"

definition nodes :: "table \<Rightarrow> addr list" where
  "nodes T = concat (map (\<lambda>(h, xs). h # xs) T)"

definition rep :: "'z list_heap_scheme \<Rightarrow> table \<Rightarrow> bool" where
  "rep s T \<longleftrightarrow> distinct (nodes T) \<and> (\<forall>(h, xs) \<in> set T. ring s h xs)"

definition changes_only :: "'z list_heap_scheme \<Rightarrow> 'z list_heap_scheme \<Rightarrow> addr set \<Rightarrow> bool" where
  "changes_only s s' A \<longleftrightarrow> (\<forall>a. a \<notin> A \<longrightarrow> nxt s' a = nxt s a \<and> prv s' a = prv s a)"

lemma nodes_simps [simp]: "nodes [] = []" "nodes ((h, xs) # T) = h # xs @ nodes T"
  by (simp_all add: nodes_def)

lemma rep_Nil [simp]: "rep s []"
  by (simp add: rep_def)

lemma rep_Cons: "rep s ((h, xs) # T) \<longleftrightarrow> ring s h xs \<and> set (h # xs) \<inter> set (nodes T) = {} \<and> rep s T"
  by (auto simp: rep_def ring_def)

lemma mset_nodes: "mset (nodes T) = \<Sum>\<^sub># (image_mset (\<lambda>(h, xs). mset (h # xs)) (mset T))"
  by (induction T) auto

lemma rep_perm: "mset T = mset T' \<Longrightarrow> rep s T = rep s T'"
  unfolding rep_def using mset_nodes mset_eq_imp_distinct_iff mset_eq_setD by metis

lemma set_nodes: "set (nodes T) = (\<Union>(h, xs) \<in> set T. insert h (set xs))"
  by (induction T) auto

lemma rep_frame:
  assumes "rep s T" "changes_only s s' A" "A \<inter> set (nodes T) = {}"
  shows "rep s' T"
  unfolding rep_def
proof (intro conjI ballI, goal_cases)
  case (2 e)
  obtain h xs where e: "e = (h, xs)" by (cases e)
  have "set (h # xs) \<subseteq> set (nodes T)" using 2 by (auto simp: set_nodes e)
  then have "ring s' h xs = ring s h xs"
    using assms(2,3) by (intro ring_frame) (auto simp: changes_only_def)
  then show ?case using assms(1) 2 by (auto simp: rep_def e)
qed (use assms(1) in \<open>simp add: rep_def\<close>)

text \<open>One list of the table taken out, and put back changed.\<close>

lemma distinct_keys: "distinct (nodes T) \<Longrightarrow> distinct (map fst T)"
  by (induction T) (auto simp: set_nodes)

lemma table_split:
  "distinct (map fst T) \<Longrightarrow> map_of T h = Some xs \<Longrightarrow>
   \<exists>R. mset T = mset ((h, xs) # R) \<and> (\<forall>ys. mset (AList.update h ys T) = mset ((h, ys) # R)) \<and>
     mset (AList.delete h T) = mset R"
proof (induction T)
  case (Cons e T)
  obtain k zs where e: "e = (k, zs)" by (cases e)
  show ?case
  proof (cases "k = h")
    case True
    have "AList.delete h T = T" using Cons.prems(1) True e by (simp add: delete_id dom_map_of_conv_image_fst)
    then show ?thesis using True Cons.prems e by (intro exI [of _ T]) auto
  next
    case False
    then obtain R where "mset T = mset ((h, xs) # R)" "\<forall>ys. mset (AList.update h ys T) = mset ((h, ys) # R)"
      "mset (AList.delete h T) = mset R"
      using Cons e by auto
    then show ?thesis using False e by (intro exI [of _ "e # R"]) auto
  qed
qed simp

lemma rep_take:
  assumes "rep s T" "map_of T h = Some xs"
  obtains R where "rep s ((h, xs) # R)" "\<And>s' :: 'z list_heap_scheme. \<And>ys. rep s' (AList.update h ys T) = rep s' ((h, ys) # R)"
    "\<And>s' :: 'z list_heap_scheme. rep s' (AList.delete h T) = rep s' R" "set (nodes T) = set (nodes ((h, xs) # R))"
    "\<And>ys. set (nodes (AList.update h ys T)) = set (nodes ((h, ys) # R))" "set (nodes (AList.delete h T)) = set (nodes R)"
    "\<And>k. k \<noteq> h \<Longrightarrow> map_of R k = map_of T k"
proof -
  have d: "distinct (map fst T)" using assms(1) distinct_keys by (auto simp: rep_def)
  obtain R where R: "mset T = mset ((h, xs) # R)" "\<And>ys. mset (AList.update h ys T) = mset ((h, ys) # R)"
     "mset (AList.delete h T) = mset R"
    using table_split [OF d assms(2)] by blast
  have dR: "distinct (map fst ((h, xs) # R))" using d R(1) by (metis mset_eq_imp_distinct_iff mset_map)
  have "map_of R k = map_of T k" if "k \<noteq> h" for k
    using map_of_eqI [of T "(h, xs) # R"] that d dR R(1) by (metis (no_types, lifting) map_of_Cons_code(2) mset_eq_setD map_of_inject_set)
  then show ?thesis
    using that [of R] R assms(1) rep_perm [OF R(1)] rep_perm [OF R(2)] rep_perm [OF R(3)] mset_nodes mset_eq_setD by metis
qed

lemma changes_raw:
  "changes_only s (list_add_raw x p n s) {x, p, n}" "changes_only s (list_del_raw p n s) {p, n}"
  "changes_only s (INIT_LIST_HEAD l s) {l}" "changes_only s (set_nxt a v s) {a}" "changes_only s (set_prv a v s) {a}"
  "changes_only s (list_splice_raw l p n s) {p, n, nxt s l, prv s l}"
  "changes_only s (list_cut_position_raw l h e s) {l, h, e, nxt s e, nxt (set_nxt l (nxt s h) s) l}"
  "changes_only s (list_replace old x s) {x, nxt (set_nxt x (nxt s old) s) x, prv (list_replace old x s) x}"
  by (auto simp: changes_only_def list_add_raw_def list_del_raw_def INIT_LIST_HEAD_def list_splice_raw_def
      list_cut_position_raw_def list_replace_def Let_def)

lemma rep_put:
  assumes "rep s ((h, xs) # R)" "ring s' h ys" "changes_only s s' A" "A \<inter> set (nodes R) = {}" "set ys \<inter> set (nodes R) = {}"
  shows "rep s' ((h, ys) # R)"
  using assms rep_frame [of s R s' A] by (auto simp: rep_Cons)

lemma rep_ring: "rep s T \<Longrightarrow> map_of T h = Some xs \<Longrightarrow> ring s h xs"
  by (auto simp: rep_def dest: map_of_SomeD)

lemma rep_nodes: "map_of T h = Some xs \<Longrightarrow> set (h # xs) \<subseteq> set (nodes T)"
  by (auto simp: set_nodes dest!: map_of_SomeD)

lemma rep_fresh: "rep s T \<Longrightarrow> x \<notin> set (nodes T) \<Longrightarrow> rep (INIT_LIST_HEAD x s) ((x, []) # T)"
  using rep_frame [OF _ changes_raw(3)] ring_init by (auto simp: rep_Cons)

lemma rep_add:
  assumes "rep s T" "map_of T h = Some (us @ vs)" "joint h us vs p n" "x \<notin> set (nodes T)"
  shows "rep (list_add_raw x p n s) (AList.update h (us @ x # vs) T)"
proof -
  from rep_take [OF assms(1,2)] obtain R where R: "rep s ((h, us @ vs) # R)"
    "\<And>s' :: 'a list_heap_scheme. \<And>ys. rep s' (AList.update h ys T) = rep s' ((h, ys) # R)"
    "set (nodes T) = set (nodes ((h, us @ vs) # R))" by metis
  have r: "ring s h (us @ vs)" using R(1) by (simp add: rep_Cons)
  then have "distinct (h # us @ vs)" by (simp add: ring_def)
  note o = joint_out(5,6) [OF assms(3) this]
  show ?thesis
    unfolding R(2)
  proof (rule rep_put [OF R(1) ring_insert [OF assms(3) r] changes_raw(1)])
    show "x \<notin> set (h # us @ vs)" using assms(4) R(3) by simp
    show "{x, p, n} \<inter> set (nodes R) = {}" "set (us @ x # vs) \<inter> set (nodes R) = {}"
      using o assms(4) R(1,3) by (auto simp: rep_Cons)
  qed
qed

lemma rep_del:
  assumes "rep s T" "map_of T h = Some (us @ x # vs)"
  shows "rep (list_del_raw (prv s x) (nxt s x) s) (AList.update h (us @ vs) T)"
    "set (nodes (AList.update h (us @ vs) T)) = set (nodes T) - {x}"
proof -
  have d: "distinct (map fst T)" using assms(1) distinct_keys by (auto simp: rep_def)
  from rep_take [OF assms] obtain R where R: "rep s ((h, us @ x # vs) # R)"
    "\<And>s' :: 'a list_heap_scheme. \<And>ys. rep s' (AList.update h ys T) = rep s' ((h, ys) # R)"
    "set (nodes T) = set (nodes ((h, us @ x # vs) # R))" by metis
  have r: "ring s h (us @ x # vs)" using R(1) by (simp add: rep_Cons)
  note nb = ring_neighbours [OF r]
  note o = joint_out(5,6) [OF nb(1,4)]
  show "rep (list_del_raw (prv s x) (nxt s x) s) (AList.update h (us @ vs) T)"
    unfolding R(2)
    by (rule rep_put [OF R(1) ring_remove [OF r] changes_raw(2)]) (use o R(1) in \<open>auto simp: rep_Cons\<close>)
  obtain R' where "mset T = mset ((h, us @ x # vs) # R')" "\<And>ys. mset (AList.update h ys T) = mset ((h, ys) # R')"
    using table_split [OF d assms(2)] by blast
  then have m: "mset (nodes T) = mset (nodes ((h, us @ x # vs) # R'))"
    "mset (nodes (AList.update h (us @ vs) T)) = mset (nodes ((h, us @ vs) # R'))"
    unfolding mset_nodes by metis+
  have "distinct (nodes ((h, us @ x # vs) # R'))" using assms(1) m(1) mset_eq_imp_distinct_iff unfolding rep_def by metis
  then show "set (nodes (AList.update h (us @ vs) T)) = set (nodes T) - {x}"
    unfolding mset_eq_setD [OF m(1)] mset_eq_setD [OF m(2)] by auto
qed

lemma rep_untouched: "rep s T \<Longrightarrow> changes_only s s' {x} \<Longrightarrow> x \<notin> set (nodes T) \<Longrightarrow> rep s' T"
  by (rule rep_frame) auto

section \<open>The abstract operations\<close>

datatype list_op =
    Init addr
  | Add addr addr
  | AddTail addr addr
  | Del addr addr
  | DelInit addr addr
  | Replace addr addr addr
  | ReplaceInit addr addr addr
  | ReplaceHead addr addr
  | ReplaceHeadInit addr addr
  | Move addr addr addr
  | MoveTail addr addr addr
  | Splice addr addr
  | SpliceTail addr addr
  | SpliceInit addr addr
  | SpliceTailInit addr addr
  | Cut addr addr addr

text \<open>The call each one stands for.  Del, DelInit, Replace and Move also name the list the entry is
  in, which the code does not need.\<close>

fun run_op :: "list_op \<Rightarrow> 'z list_heap_scheme \<Rightarrow> 'z list_heap_scheme" where
  "run_op (Init h) s = INIT_LIST_HEAD h s"
| "run_op (Add x h) s = list_add x h s"
| "run_op (AddTail x h) s = list_add_tail x h s"
| "run_op (Del h x) s = list_del x s"
| "run_op (DelInit h x) s = list_del_init x s"
| "run_op (Replace h old new) s = list_replace old new s"
| "run_op (ReplaceInit h old new) s = list_replace_init old new s"
| "run_op (ReplaceHead old new) s = list_replace old new s"
| "run_op (ReplaceHeadInit old new) s = list_replace_init old new s"
| "run_op (Move h x h') s = list_move x h' s"
| "run_op (MoveTail h x h') s = list_move_tail x h' s"
| "run_op (Splice l h) s = list_splice l h s"
| "run_op (SpliceTail l h) s = list_splice_tail l h s"
| "run_op (SpliceInit l h) s = list_splice_init l h s"
| "run_op (SpliceTailInit l h) s = list_splice_tail_init l h s"
| "run_op (Cut l h e) s = list_cut_position l h e s"

definition spec_add :: "bool \<Rightarrow> addr \<Rightarrow> addr \<Rightarrow> table \<Rightarrow> table option" where
  "spec_add tail x h T =
    (if x \<in> set (nodes T) then None
     else map_option (\<lambda>xs. AList.update h (if tail then xs @ [x] else x # xs) T) (map_of T h))"

definition spec_del :: "addr \<Rightarrow> addr \<Rightarrow> table \<Rightarrow> table option" where
  "spec_del h x T =
    (case map_of T h of
       None \<Rightarrow> None
     | Some xs \<Rightarrow> if x \<in> set xs then Some (AList.update h (remove1 x xs) T) else None)"

definition spec_replace :: "addr \<Rightarrow> addr \<Rightarrow> addr \<Rightarrow> table \<Rightarrow> table option" where
  "spec_replace h old new T =
    (case map_of T h of
       None \<Rightarrow> None
     | Some xs \<Rightarrow>
         if old \<in> set xs \<and> new \<notin> set (nodes T)
         then Some (AList.update h (map (\<lambda>y. if y = old then new else y) xs) T) else None)"

definition spec_head :: "addr \<Rightarrow> addr \<Rightarrow> table \<Rightarrow> table option" where
  "spec_head old new T =
    (if new \<in> set (nodes T) then None
     else map_option (\<lambda>xs. (new, xs) # AList.delete old T) (map_of T old))"

text \<open>list_splice leaves the header of a list it has joined to another in no state at all; the
  init variants leave it empty.\<close>

definition spec_splice :: "bool \<Rightarrow> bool \<Rightarrow> addr \<Rightarrow> addr \<Rightarrow> table \<Rightarrow> table option" where
  "spec_splice tail init l h T =
    (case (map_of T l, map_of T h) of
       (Some ys, Some xs) \<Rightarrow>
         if l = h then None
         else if ys = [] then Some T
         else Some (AList.update h (if tail then xs @ ys else ys @ xs)
           (if init then AList.update l [] T else AList.delete l T))
     | _ \<Rightarrow> None)"

definition spec_cut :: "addr \<Rightarrow> addr \<Rightarrow> addr \<Rightarrow> table \<Rightarrow> table option" where
  "spec_cut l h e T =
    (case (map_of T l, map_of T h) of
       (Some zs, Some xs) \<Rightarrow>
         if l = h \<or> e \<notin> insert h (set xs) then None
         else if xs = [] then Some T
         else if e = h then Some (AList.update l [] T)
         else Some (AList.update l (takeWhile (\<lambda>y. y \<noteq> e) xs @ [e]) (AList.update h (tl (dropWhile (\<lambda>y. y \<noteq> e) xs)) T))
     | _ \<Rightarrow> None)"

fun spec_op :: "list_op \<Rightarrow> table \<Rightarrow> table option" where
  "spec_op (Init h) T = (if h \<in> set (nodes T) then None else Some ((h, []) # T))"
| "spec_op (Add x h) T = spec_add False x h T"
| "spec_op (AddTail x h) T = spec_add True x h T"
| "spec_op (Del h x) T = spec_del h x T"
| "spec_op (DelInit h x) T = map_option ((#) (x, [])) (spec_del h x T)"
| "spec_op (Replace h old new) T = spec_replace h old new T"
| "spec_op (ReplaceInit h old new) T = map_option ((#) (old, [])) (spec_replace h old new T)"
| "spec_op (ReplaceHead old new) T = spec_head old new T"
| "spec_op (ReplaceHeadInit old new) T = map_option ((#) (old, [])) (spec_head old new T)"
| "spec_op (Move h x h') T = Option.bind (spec_del h x T) (spec_add False x h')"
| "spec_op (MoveTail h x h') T = Option.bind (spec_del h x T) (spec_add True x h')"
| "spec_op (Splice l h) T = spec_splice False False l h T"
| "spec_op (SpliceTail l h) T = spec_splice True False l h T"
| "spec_op (SpliceInit l h) T = spec_splice False True l h T"
| "spec_op (SpliceTailInit l h) T = spec_splice True True l h T"
| "spec_op (Cut l h e) T = spec_cut l h e T"

section \<open>Each operation implements its specification\<close>

lemma add_implements:
  assumes "rep s T" "spec_add tail x h T = Some T'"
  shows "rep (if tail then list_add_tail x h s else list_add x h s) T'"
proof -
  obtain xs where xs: "map_of T h = Some xs" "x \<notin> set (nodes T)" "T' = AList.update h (if tail then xs @ [x] else x # xs) T"
    using assms(2) by (auto simp: spec_add_def split: if_splits)
  note r = rep_ring [OF assms(1) xs(1)]
  show ?thesis
    using rep_add [OF assms(1), of h xs "[]"] rep_add [OF assms(1), of h "[]" xs] joint_front [OF r] joint_back [OF r] xs
    by (auto simp: list_add_def list_add_tail_def)
qed

lemma del_implements:
  assumes "rep s T" "spec_del h x T = Some T'"
  shows "rep (list_del_raw (prv s x) (nxt s x) s) T'" "x \<notin> set (nodes T')" "set (nodes T') \<subseteq> set (nodes T)"
proof -
  obtain xs where xs: "map_of T h = Some xs" "x \<in> set xs" "T' = AList.update h (remove1 x xs) T"
    using assms(2) by (auto simp: spec_del_def split: option.splits if_splits)
  then obtain us vs where uv: "xs = us @ x # vs" "x \<notin> set us" by (meson split_list_first)
  have "remove1 x xs = us @ vs" using uv by (simp add: remove1_append)
  then show "rep (list_del_raw (prv s x) (nxt s x) s) T'" "x \<notin> set (nodes T')" "set (nodes T') \<subseteq> set (nodes T)"
    using rep_del [OF assms(1), of h us x vs] xs uv by auto
qed

lemma replace_implements:
  assumes "rep s T" "spec_replace h old new T = Some T'"
  shows "rep (list_replace old new s) T'" "old \<notin> set (nodes T')"
proof -
  obtain xs where xs: "map_of T h = Some xs" "old \<in> set xs" "new \<notin> set (nodes T)"
    "T' = AList.update h (map (\<lambda>y. if y = old then new else y) xs) T"
    using assms(2) by (auto simp: spec_replace_def split: option.splits if_splits)
  obtain us vs where uv: "xs = us @ old # vs" using split_list [OF xs(2)] by blast
  note r = rep_ring [OF assms(1) xs(1), unfolded uv]
  note nb = ring_neighbours [OF r]
  have x: "new \<notin> set (h # us @ old # vs)" using xs(3) rep_nodes [OF xs(1)] uv by auto
  have e: "map (\<lambda>y. if y = old then new else y) xs = us @ new # vs"
  proof -
    have "map (\<lambda>y. if y = old then new else y) zs = zs" if "old \<notin> set zs" for zs
      by (rule map_idI) (use that in auto)
    then show ?thesis using nb(5) by (simp add: uv)
  qed
  note d = rep_del [OF assms(1) xs(1) [unfolded uv]]
  have "rep (list_replace old new s) (AList.update h (us @ new # vs) (AList.update h (us @ vs) T))"
    unfolding list_replace_entry [OF r x] by (rule rep_add [OF d(1) _ nb(1)]) (simp_all add: d(2) xs(3) update_Some_unfold)
  then show "rep (list_replace old new s) T'" by (simp add: xs(4) e update_last)
  from rep_take [OF assms(1) xs(1)] obtain R where
    R: "\<And>ys. set (nodes (AList.update h ys T)) = set (nodes ((h, ys) # R))" by metis
  have "old \<notin> set (nodes (AList.update h (us @ vs) T))" unfolding d(2) by simp
  then show "old \<notin> set (nodes T')" using x unfolding xs(4) e R by auto
qed

lemma head_implements:
  assumes "rep s T" "spec_head old new T = Some T'"
  shows "rep (list_replace old new s) T'" "old \<notin> set (nodes T')"
proof -
  obtain xs where xs: "map_of T old = Some xs" "new \<notin> set (nodes T)" "T' = (new, xs) # AList.delete old T"
    using assms(2) by (auto simp: spec_head_def split: if_splits)
  from rep_take [OF assms(1) xs(1)] obtain R where R: "rep s ((old, xs) # R)"
    "\<And>s' :: 'a list_heap_scheme. rep s' (AList.delete old T) = rep s' R" "set (nodes T) = set (nodes ((old, xs) # R))"
    "set (nodes (AList.delete old T)) = set (nodes R)" by metis
  have r: "ring s old xs" "set (old # xs) \<inter> set (nodes R) = {}" "rep s R" using R(1) by (simp_all add: rep_Cons)
  have x: "new \<notin> set (old # xs)" using xs(2) R(3) by simp
  have i: "nxt s old \<in> insert old (set xs)" "prv s old \<in> insert old (set xs)"
    using ring_ends [OF r(1)] hd_in [of xs old] last_in [of old xs] by metis+
  have i': "nxt s old \<notin> set (nodes R)" "prv s old \<notin> set (nodes R)" "new \<notin> set (nodes R)"
    using i r(2) xs(2) R(3) by auto
  have "prv (list_replace old new s) new \<in> {new, prv s old}" by (auto simp: list_replace_def Let_def)
  moreover have "nxt (set_nxt new (nxt s old) s) new = nxt s old" by simp
  ultimately have "rep (list_replace old new s) R"
    using rep_frame [OF r(3) changes_raw(8), of new old] i' by auto
  then show "rep (list_replace old new s) T'"
    using ring_replace_head [OF r(1) x] r(2) xs(2) R(2-4) by (auto simp: xs(3) rep_Cons)
  show "old \<notin> set (nodes T')" using R(4) r x by (auto simp: xs(3) ring_def)
qed

lemma splice_raw_implements:
  assumes "rep s T" "map_of T l = Some ys" "ys \<noteq> []" "map_of T h = Some (us @ vs)" "l \<noteq> h" "joint h us vs p n"
  shows "rep (list_splice_raw l p n s) (AList.update h (us @ ys @ vs) (AList.delete l T))"
    "l \<notin> set (nodes (AList.update h (us @ ys @ vs) (AList.delete l T)))"
proof -
  let ?s = "list_splice_raw l p n s"
  from rep_take [OF assms(1,2)] obtain R where R: "rep s ((l, ys) # R)"
    "\<And>s' :: 'a list_heap_scheme. rep s' (AList.delete l T) = rep s' R"
    "set (nodes (AList.delete l T)) = set (nodes R)" "\<And>k. k \<noteq> l \<Longrightarrow> map_of R k = map_of T k" by metis
  have y: "ring s l ys" "set (l # ys) \<inter> set (nodes R) = {}" "rep s R" using R(1) by (simp_all add: rep_Cons)
  have m: "map_of (AList.delete l T) h = Some (us @ vs)" using assms(4,5) by (simp add: delete_conv')
  have rd: "rep s (AList.delete l T)" using y(3) R(2) by simp
  from rep_take [OF rd m] obtain Q where Q: "rep s ((h, us @ vs) # Q)"
    "\<And>s' :: 'a list_heap_scheme. \<And>ys. rep s' (AList.update h ys (AList.delete l T)) = rep s' ((h, ys) # Q)"
    "set (nodes (AList.delete l T)) = set (nodes ((h, us @ vs) # Q))"
    "\<And>ys. set (nodes (AList.update h ys (AList.delete l T))) = set (nodes ((h, ys) # Q))" by metis
  have z: "set (l # ys) \<inter> set (h # us @ vs) = {}" "set (l # ys) \<inter> set (nodes Q) = {}" using y(2) R(3) Q(3) by auto
  have h: "ring s h (us @ vs)" "set (h # us @ vs) \<inter> set (nodes Q) = {}" using Q(1) by (auto simp: rep_Cons)
  note o = joint_out(5,6) [OF assms(6)]
  have d: "distinct (h # us @ vs)" using h(1) by (simp add: ring_def)
  have e: "nxt s l \<in> set ys" "prv s l \<in> set ys" using ring_ends [OF y(1)] assms(3) by auto
  show "rep ?s (AList.update h (us @ ys @ vs) (AList.delete l T))"
    unfolding Q(2)
    by (rule rep_put [OF Q(1) ring_splice [OF assms(6) y(1) assms(3) h(1) z(1)] changes_raw(6)])
      (use o [OF d] h(2) z(2) e in auto)
  show "l \<notin> set (nodes (AList.update h (us @ ys @ vs) (AList.delete l T)))"
    using z y(1) unfolding Q(4) by (auto simp: ring_def)
qed

lemma table_split2:
  fixes T :: table
  assumes "distinct (map fst T)" "map_of T l = Some zs" "map_of T h = Some xs" "l \<noteq> h"
  shows "\<exists>Q. mset T = mset ((l, zs) # (h, xs) # Q) \<and>
    (\<forall>a b. mset (AList.update l a (AList.update h b T)) = mset ((l, a) # (h, b) # Q)) \<and>
    (\<forall>a b. mset (AList.update h b (AList.update l a T)) = mset ((l, a) # (h, b) # Q)) \<and>
    (\<forall>b. mset (AList.update h b (AList.delete l T)) = mset ((h, b) # Q))"
proof -
  have upd: "mset (AList.update k ys U) = mset U - {#(k, us)#} + {#(k, ys)#}"
    if "distinct (map fst U)" "map_of U k = Some us" for k us ys and U :: table
    using table_split [OF that] by auto
  have del: "mset (AList.delete k U) = mset U - {#(k, us)#}"
    if "distinct (map fst U)" "map_of U k = Some us" for k us and U :: table
    using table_split [OF that] by auto
  have 1: "mset (AList.update l a (AList.update h b T)) = mset (AList.update h b T) - {#(l, zs)#} + {#(l, a)#}" for a b
    using assms by (intro upd) (simp_all add: distinct_update update_conv')
  have 2: "mset (AList.update h b (AList.update l a T)) = mset (AList.update l a T) - {#(h, xs)#} + {#(h, b)#}" for a b
    using assms by (intro upd) (simp_all add: distinct_update update_conv')
  have 3: "mset (AList.update h b (AList.delete l T)) = mset (AList.delete l T) - {#(h, xs)#} + {#(h, b)#}" for b
    using assms by (intro upd) (simp_all add: distinct_delete delete_conv')
  obtain Q' where Q': "mset T = add_mset (l, zs) Q'" using assms(2) by (metis insert_DiffM map_of_SomeD set_mset_mset)
  have "(h, xs) \<in># mset T" using assms(3) map_of_SomeD by fastforce
  then obtain Q where Q: "Q' = add_mset (h, xs) Q" using Q' assms(4) by (auto dest: multi_member_split)
  obtain qs where qs: "mset qs = Q" using ex_mset by blast
  have "mset (AList.update l a (AList.update h b T)) = mset ((l, a) # (h, b) # qs)" for a b
    by (simp add: 1 upd [OF assms(1,3)] Q' Q qs)
  moreover have "mset (AList.update h b (AList.update l a T)) = mset ((l, a) # (h, b) # qs)" for a b
    using assms(4) by (simp add: 2 upd [OF assms(1,2)] Q' Q qs)
  moreover have "mset (AList.update h b (AList.delete l T)) = mset ((h, b) # qs)" for b
    by (simp add: 3 del [OF assms(1,2)] Q' Q qs)
  ultimately show ?thesis using Q' Q qs by (intro exI [of _ qs]) simp
qed

lemma ring_empty: "ring s h xs \<Longrightarrow> list_empty s h \<longleftrightarrow> xs = []"
proof -
  assume r: "ring s h xs"
  have "nxt s h = hd (xs @ [h])" using ring_ends [OF r] by blast
  moreover have "h \<notin> set xs" using r by (simp add: ring_def)
  ultimately show ?thesis by (cases xs) (simp_all add: list_empty_def eq_commute)
qed

lemma ring_singular:
  assumes r: "ring s h xs"
  shows "list_is_singular s h \<longleftrightarrow> (\<exists>x. xs = [x])"
proof (cases "xs = []")
  case True
  then show ?thesis using ring_empty [OF r] by (simp add: list_is_singular_def)
next
  case False
  then obtain x ys where xs: "xs = x # ys" by (cases xs) simp_all
  have "nxt s h = x" "prv s h = last (x # ys)" using ring_ends [OF r] by (simp_all add: xs)
  moreover have "x = last (x # ys) \<longleftrightarrow> ys = []"
  proof (cases ys)
    case (Cons y ws)
    have "last (x # ys) \<in> set ys" using Cons by simp
    then show ?thesis using r Cons by (auto simp: ring_def xs simp del: last.simps)
  qed simp
  ultimately show ?thesis using False ring_empty [OF r] by (simp add: list_is_singular_def xs)
qed

lemma ring_is_last:
  assumes "ring s h xs" "x \<in> set xs"
  shows "list_is_last s x h \<longleftrightarrow> x = last xs"
proof -
  obtain us vs where uv: "xs = us @ x # vs" using split_list [OF assms(2)] by blast
  have n: "nxt s x = hd (vs @ [h])" using ring_neighbours(1) [OF assms(1) [unfolded uv]] by (simp add: joint_def)
  have d: "distinct (h # us @ x # vs)" using assms(1) by (simp add: ring_def uv)
  show ?thesis
  proof (cases vs)
    case (Cons y ys)
    have "last vs \<in> set vs" "last xs = last vs" using Cons by (simp_all add: uv)
    moreover have "x \<notin> set vs" "nxt s x \<noteq> h" using d n by (auto simp: Cons)
    ultimately show ?thesis unfolding list_is_last_def by metis
  qed (use n in \<open>simp add: list_is_last_def uv\<close>)
qed

lemma splice_implements:
  assumes "rep s T" "spec_splice tail init l h T = Some T'"
  shows "rep (if tail then if init then list_splice_tail_init l h s else list_splice_tail l h s
    else if init then list_splice_init l h s else list_splice l h s) T'"
proof -
  obtain ys xs where m: "map_of T l = Some ys" "map_of T h = Some xs" "l \<noteq> h"
    "T' = (if ys = [] then T else AList.update h (if tail then xs @ ys else ys @ xs)
       (if init then AList.update l [] T else AList.delete l T))"
    using assms(2) by (auto simp: spec_splice_def split: option.splits if_splits)
  note r = rep_ring [OF assms(1) m(1)] and rh = rep_ring [OF assms(1) m(2)]
  note le = ring_empty [OF r]
  show ?thesis
  proof (cases "ys = []")
    case True
    then show ?thesis using le m(4) assms(1)
      by (simp add: list_splice_def list_splice_tail_def list_splice_init_def list_splice_tail_init_def)
  next
    case False
    define p where "p = (if tail then prv s h else h)"
    define n where "n = (if tail then h else nxt s h)"
    define zs where "zs = (if tail then xs @ ys else ys @ xs)"
    have "rep (list_splice_raw l p n s) (AList.update h zs (AList.delete l T)) \<and>
      l \<notin> set (nodes (AList.update h zs (AList.delete l T)))"
      using splice_raw_implements [OF assms(1) m(1) False _ m(3), of xs "[]" "prv s h" h]
        splice_raw_implements [OF assms(1) m(1) False _ m(3), of "[]" xs h "nxt s h"] joint_front [OF rh] joint_back [OF rh] m(2)
      by (cases tail) (simp_all add: p_def n_def zs_def)
    note sp = conjunct1 [OF this] conjunct2 [OF this]
    have dk: "distinct (map fst T)" using assms(1) distinct_keys by (auto simp: rep_def)
    obtain Q where "\<And>a b. mset (AList.update h b (AList.update l a T)) = mset ((l, a) # (h, b) # Q)"
      "\<And>b. mset (AList.update h b (AList.delete l T)) = mset ((h, b) # Q)"
      using table_split2 [OF dk m(1,2,3)] by blast
    then have "mset ((l, []) # AList.update h zs (AList.delete l T)) = mset (AList.update h zs (AList.update l [] T))" by simp
    note pm = rep_perm [OF this]
    have t: "T' = AList.update h zs (if init then AList.update l [] T else AList.delete l T)"
      using False m(4) by (simp add: zs_def)
    have "rep (INIT_LIST_HEAD l (list_splice_raw l p n s)) (AList.update h zs (AList.update l [] T))"
      using rep_fresh [OF sp] pm by blast
    then have "rep (if init then INIT_LIST_HEAD l (list_splice_raw l p n s) else list_splice_raw l p n s) T'"
      using sp(1) unfolding t by (cases init) simp_all
    then show ?thesis using le False
      by (auto simp: p_def n_def list_splice_def list_splice_tail_def list_splice_init_def list_splice_tail_init_def split: if_splits)
  qed
qed

lemma cut_implements:
  assumes "rep s T" "spec_cut l h e T = Some T'"
  shows "rep (list_cut_position l h e s) T'"
proof -
  obtain zs xs where m: "map_of T l = Some zs" "map_of T h = Some xs" "l \<noteq> h" "e \<in> insert h (set xs)"
    "T' = (if xs = [] then T else if e = h then AList.update l [] T
       else AList.update l (takeWhile (\<lambda>y. y \<noteq> e) xs @ [e]) (AList.update h (tl (dropWhile (\<lambda>y. y \<noteq> e) xs)) T))"
    using assms(2) by (auto simp: spec_cut_def split: option.splits if_splits)
  note r = rep_ring [OF assms(1) m(2)]
  have dk: "distinct (map fst T)" using assms(1) distinct_keys by (auto simp: rep_def)
  obtain Q where Q: "mset T = mset ((l, zs) # (h, xs) # Q)"
    "\<And>a b. mset (AList.update l a (AList.update h b T)) = mset ((l, a) # (h, b) # Q)"
    using table_split2 [OF dk m(1-3)] by blast
  have rq: "rep s ((l, zs) # (h, xs) # Q)" using assms(1) rep_perm [OF Q(1), of s] by blast
  consider "xs = []" | "xs \<noteq> []" "e = h" | "xs \<noteq> []" "e \<noteq> h" by blast
  then show ?thesis
  proof cases
    case 1
    then show ?thesis using ring_empty [OF r] m(5) assms(1) by (simp add: list_cut_position_def)
  next
    case 2
    from rep_take [OF assms(1) m(1)] obtain R where R: "rep s ((l, zs) # R)"
      "\<And>s' :: 'a list_heap_scheme. \<And>ys. rep s' (AList.update l ys T) = rep s' ((l, ys) # R)" by metis
    have "rep (INIT_LIST_HEAD l s) ((l, []) # R)"
      by (rule rep_put [OF R(1) ring_init changes_raw(3)]) (use R(1) in \<open>auto simp: rep_Cons\<close>)
    then show ?thesis using 2 ring_empty [OF r] m(5) R(2) by (simp add: list_cut_position_def)
  next
    case 3
    then obtain us vs where uv: "xs = us @ e # vs" "e \<notin> set us" using m(4) split_list_first [of e xs] by auto
    have tw: "takeWhile (\<lambda>y. y \<noteq> e) xs = us" "dropWhile (\<lambda>y. y \<noteq> e) xs = e # vs"
      using uv by (auto simp: takeWhile_append dropWhile_append)
    have lh: "l \<notin> set (h # (us @ [e]) @ vs)" using rq m(3) uv(1) by (auto simp: rep_Cons)
    have r': "ring s h ((us @ [e]) @ vs)" using r uv by simp
    let ?s = "list_cut_position_raw l h e s"
    have c: "ring ?s l (us @ [e])" "ring ?s h vs" using ring_cut [OF r' _ _ lh] by simp_all
    have nx: "nxt s h \<in> insert h (set xs)" "nxt s e \<in> insert h (set xs)"
      using ring_ends [OF r] hd_in [of xs h] joint_out(6) [OF ring_neighbours(1) [OF r [unfolded uv(1)]] ring_neighbours(4) [OF r [unfolded uv(1)]]] uv(1)
      by auto
    have "rep ?s Q"
      by (rule rep_frame [OF _ changes_raw(7)]) (use rq nx m(4) in \<open>auto simp: rep_Cons\<close>)
    then have "rep ?s ((l, us @ [e]) # (h, vs) # Q)" 
      using c rq uv(1) lh r by (auto simp: rep_Cons ring_def)
    moreover have "rep ?s (AList.update l (us @ [e]) (AList.update h vs T)) = rep ?s ((l, us @ [e]) # (h, vs) # Q)"
      by (rule rep_perm [OF Q(2)])
    ultimately have "rep ?s T'" using 3 m(5) tw by simp
    moreover have "\<not> (list_is_singular s h \<and> nxt s h \<noteq> e)"
      using ring_singular [OF r] ring_ends [OF r] m(4) 3 by auto
    ultimately show ?thesis using 3 ring_empty [OF r] by (auto simp: list_cut_position_def)
  qed
qed

lemma op_implements:
  assumes "rep s T" "spec_op o' T = Some T'"
  shows "rep (run_op o' s) T'"
proof (cases o')
  case (Init h)
  then show ?thesis using assms rep_fresh [OF assms(1)] by (auto split: if_splits)
next
  case (Add x h)
  then show ?thesis using assms(2) add_implements [OF assms(1), of False x h] by simp
next
  case (AddTail x h)
  then show ?thesis using assms(2) add_implements [OF assms(1), of True x h] by simp
next
  case (Del h x)
  then have sd: "spec_del h x T = Some T'" using assms(2) by simp
  note d = del_implements [OF assms(1) sd]
  show ?thesis
    unfolding Del run_op.simps list_del_def Let_def
    by (rule rep_untouched [OF rep_untouched [OF d(1) changes_raw(4) d(2)] changes_raw(5) d(2)])
next
  case (DelInit h x)
  then obtain U where U: "spec_del h x T = Some U" "T' = (x, []) # U" using assms(2) by auto
  note d = del_implements [OF assms(1) U(1)]
  show ?thesis unfolding DelInit U(2) run_op.simps list_del_init_def by (rule rep_fresh [OF d(1,2)])
next
  case (Replace h old new)
  then show ?thesis using assms(2) replace_implements(1) [OF assms(1), of h old new] by simp
next
  case (ReplaceInit h old new)
  then obtain U where U: "spec_replace h old new T = Some U" "T' = (old, []) # U" using assms(2) by auto
  note d = replace_implements [OF assms(1) U(1)]
  show ?thesis unfolding ReplaceInit U(2) run_op.simps list_replace_init_def by (rule rep_fresh [OF d])
next
  case (ReplaceHead old new)
  then show ?thesis using assms(2) head_implements(1) [OF assms(1), of old new] by simp
next
  case (ReplaceHeadInit old new)
  then obtain U where U: "spec_head old new T = Some U" "T' = (old, []) # U" using assms(2) by auto
  note d = head_implements [OF assms(1) U(1)]
  show ?thesis unfolding ReplaceHeadInit U(2) run_op.simps list_replace_init_def by (rule rep_fresh [OF d])
next
  case (Move h x h')
  then obtain U where U: "spec_del h x T = Some U" "spec_add False x h' U = Some T'"
    using assms(2) by (auto split: bind_splits)
  show ?thesis using add_implements [OF del_implements(1) [OF assms(1) U(1)] U(2)] by (simp add: Move list_move_def)
next
  case (MoveTail h x h')
  then obtain U where U: "spec_del h x T = Some U" "spec_add True x h' U = Some T'"
    using assms(2) by (auto split: bind_splits)
  show ?thesis using add_implements [OF del_implements(1) [OF assms(1) U(1)] U(2)] by (simp add: MoveTail list_move_tail_def)
next
  case (Splice l h)
  then show ?thesis using assms(2) splice_implements [OF assms(1), of False False l h] by simp
next
  case (SpliceTail l h)
  then show ?thesis using assms(2) splice_implements [OF assms(1), of True False l h] by simp
next
  case (SpliceInit l h)
  then show ?thesis using assms(2) splice_implements [OF assms(1), of False True l h] by simp
next
  case (SpliceTailInit l h)
  then show ?thesis using assms(2) splice_implements [OF assms(1), of True True l h] by simp
next
  case (Cut l h e)
  then show ?thesis using assms(2) cut_implements [OF assms(1), of l h e] by simp
qed

fun spec_ops :: "list_op list \<Rightarrow> table \<Rightarrow> table option" where
  "spec_ops [] T = Some T"
| "spec_ops (o' # ops) T = Option.bind (spec_op o' T) (spec_ops ops)"

section \<open>Iteration\<close>

text \<open>
  The iteration macros, with the loop body as a function of the cursor and the state.  A loop ends
  when the cursor is back at the anchor; one that never gets there is None.  move is the field the
  macro follows: nxt or prv.
\<close>

partial_function (option) walk ::
  "('z list_heap_scheme \<Rightarrow> addr \<Rightarrow> addr) \<Rightarrow> (addr \<Rightarrow> 'z list_heap_scheme \<Rightarrow> 'z list_heap_scheme) \<Rightarrow>
    addr \<Rightarrow> addr \<Rightarrow> 'z list_heap_scheme \<Rightarrow> 'z list_heap_scheme option" where
  "walk move body head pos s =
    (if pos = head then Some s
     else let s = body pos s in walk move body head (move s pos) s)"

partial_function (option) walk_safe ::
  "('z list_heap_scheme \<Rightarrow> addr \<Rightarrow> addr) \<Rightarrow> (addr \<Rightarrow> 'z list_heap_scheme \<Rightarrow> 'z list_heap_scheme) \<Rightarrow>
    addr \<Rightarrow> addr \<Rightarrow> addr \<Rightarrow> 'z list_heap_scheme \<Rightarrow> 'z list_heap_scheme option" where
  "walk_safe move body head pos n s =
    (if pos = head then Some s
     else let s = body pos s in walk_safe move body head n (move s n) s)"

definition list_for_each where
  "list_for_each body head s = walk nxt body head (nxt s head) s"

definition list_for_each_prev where
  "list_for_each_prev body head s = walk prv body head (prv s head) s"

definition list_for_each_safe where
  "list_for_each_safe body head s = (let pos = nxt s head in walk_safe nxt body head pos (nxt s pos) s)"

definition list_for_each_prev_safe where
  "list_for_each_prev_safe body head s = (let pos = prv s head in walk_safe prv body head pos (prv s pos) s)"

text \<open>list_entry: the object around a list_head at offset off; the entry loops hold object addresses.\<close>

definition list_entry :: "addr \<Rightarrow> addr \<Rightarrow> addr" where
  "list_entry ptr off = ptr - off"

definition list_first_entry :: "'z list_heap_scheme \<Rightarrow> addr \<Rightarrow> addr \<Rightarrow> addr" where
  "list_first_entry s ptr off = list_entry (nxt s ptr) off"

definition list_prepare_entry :: "addr \<Rightarrow> addr \<Rightarrow> addr \<Rightarrow> addr" where
  "list_prepare_entry pos head off = (if pos \<noteq> 0 then pos else list_entry head off)"

partial_function (option) walk_entry ::
  "('z list_heap_scheme \<Rightarrow> addr \<Rightarrow> addr) \<Rightarrow> (addr \<Rightarrow> 'z list_heap_scheme \<Rightarrow> 'z list_heap_scheme) \<Rightarrow>
    addr \<Rightarrow> addr \<Rightarrow> addr \<Rightarrow> 'z list_heap_scheme \<Rightarrow> 'z list_heap_scheme option" where
  "walk_entry move body head off pos s =
    (if pos + off = head then Some s
     else let s = body pos s in walk_entry move body head off (list_entry (move s (pos + off)) off) s)"

partial_function (option) walk_entry_safe ::
  "('z list_heap_scheme \<Rightarrow> addr \<Rightarrow> addr) \<Rightarrow> (addr \<Rightarrow> 'z list_heap_scheme \<Rightarrow> 'z list_heap_scheme) \<Rightarrow>
    addr \<Rightarrow> addr \<Rightarrow> addr \<Rightarrow> addr \<Rightarrow> 'z list_heap_scheme \<Rightarrow> 'z list_heap_scheme option" where
  "walk_entry_safe move body head off pos n s =
    (if pos + off = head then Some s
     else let s = body pos s in walk_entry_safe move body head off n (list_entry (move s (n + off)) off) s)"

definition list_for_each_entry where
  "list_for_each_entry body head off s = walk_entry nxt body head off (list_entry (nxt s head) off) s"

definition list_for_each_entry_reverse where
  "list_for_each_entry_reverse body head off s = walk_entry prv body head off (list_entry (prv s head) off) s"

definition list_for_each_entry_continue where
  "list_for_each_entry_continue body head off pos s =
    walk_entry nxt body head off (list_entry (nxt s (pos + off)) off) s"

definition list_for_each_entry_continue_reverse where
  "list_for_each_entry_continue_reverse body head off pos s =
    walk_entry prv body head off (list_entry (prv s (pos + off)) off) s"

definition list_for_each_entry_from where
  "list_for_each_entry_from body head off pos s = walk_entry nxt body head off pos s"

definition list_for_each_entry_safe where
  "list_for_each_entry_safe body head off s =
    (let pos = list_entry (nxt s head) off
     in walk_entry_safe nxt body head off pos (list_entry (nxt s (pos + off)) off) s)"

definition list_for_each_entry_safe_continue where
  "list_for_each_entry_safe_continue body head off pos s =
    (let pos = list_entry (nxt s (pos + off)) off
     in walk_entry_safe nxt body head off pos (list_entry (nxt s (pos + off)) off) s)"

definition list_for_each_entry_safe_from where
  "list_for_each_entry_safe_from body head off pos s =
    walk_entry_safe nxt body head off pos (list_entry (nxt s (pos + off)) off) s"

definition list_for_each_entry_safe_reverse where
  "list_for_each_entry_safe_reverse body head off s =
    (let pos = list_entry (prv s head) off
     in walk_entry_safe prv body head off pos (list_entry (prv s (pos + off)) off) s)"

text \<open>What a direction of travel must do: lead from the anchor through the entries in some order and
  back.  Following nxt and following prv both do, in opposite orders.\<close>

fun route :: "('z list_heap_scheme \<Rightarrow> addr \<Rightarrow> addr) \<Rightarrow> 'z list_heap_scheme \<Rightarrow> addr \<Rightarrow> addr list \<Rightarrow> addr \<Rightarrow> bool" where
  "route move s p [] h \<longleftrightarrow> p = h"
| "route move s p (x # xs) h \<longleftrightarrow> p = x \<and> x \<noteq> h \<and> route move s (move s x) xs h"

lemma route_cong: "(\<And>a. move s' a = move s a) \<Longrightarrow> route move s' p xs h = route move s p xs h"
  by (induction xs arbitrary: p) auto

lemma ring_list_del:
  assumes "ring s h (us @ x # vs)"
  shows "ring (list_del x s) h (us @ vs)"
  unfolding list_del_def Let_def
  by (rule iffD2 [OF ring_frame ring_remove [OF assms]]) (use ring_neighbours(5) [OF assms] in auto)

locale direction =
  fixes move :: "'z list_heap_scheme \<Rightarrow> addr \<Rightarrow> addr" and order :: "addr list \<Rightarrow> addr list"
  assumes route: "ring s h xs \<Longrightarrow> route move s (move s h) (order xs) h"
    and order_rest: "distinct xs \<Longrightarrow> order xs = x # ys \<Longrightarrow> order (remove1 x xs) = ys"
    and order_in: "order xs = x # ys \<Longrightarrow> x \<in> set xs"
    and order_Nil: "order xs = [] \<longleftrightarrow> xs = []"
begin

text \<open>A body that leaves the links alone sees every entry once.\<close>

lemma walk_route:
  assumes "\<And>p s a. move (body p s) a = move s a"
  shows "route move s p ys h \<Longrightarrow> walk move body h p s = Some (fold body ys s)"
proof (induction ys arbitrary: p s)
  case Nil
  then show ?case by (subst walk.simps) simp
next
  case (Cons y ys)
  have "route move (body y s) (move (body y s) y) ys h"
    using Cons.prems route_cong [of move "body y s" s] assms by simp
  then show ?case using Cons by (subst walk.simps) (simp add: Let_def)
qed

lemma walk_entry_route:
  assumes "\<And>p s a. move (body p s) a = move s a"
  shows "route move s p ys h \<Longrightarrow>
    walk_entry move body h off (list_entry p off) s = Some (fold (\<lambda>p. body (list_entry p off)) ys s)"
proof (induction ys arbitrary: p s)
  case Nil
  then show ?case by (subst walk_entry.simps) (simp add: list_entry_def)
next
  case (Cons y ys)
  let ?s = "body (list_entry y off) s"
  have "route move ?s (move ?s y) ys h"
    using Cons.prems route_cong [of move ?s s] assms by simp
  then show ?case using Cons by (subst walk_entry.simps) (simp add: Let_def list_entry_def)
qed

lemmas walk_ring = walk_route [OF _ route]

lemmas walk_entry_ring = walk_entry_route [OF _ route]

text \<open>The safe loop may unlink the entry it stands on.\<close>

lemma walk_safe_del:
  assumes "\<And>p s. nxt (body p s) = nxt s \<and> prv (body p s) = prv s"
  shows "ring s h xs \<Longrightarrow> walk_safe move (\<lambda>p s. list_del p (body p s)) h (move s h) (move s (move s h)) s =
      Some (fold (\<lambda>p s. list_del p (body p s)) (order xs) s) \<and>
    ring (fold (\<lambda>p s. list_del p (body p s)) (order xs) s) h []"
proof (induction "order xs" arbitrary: xs s)
  case Nil
  then have "move s h = h" "xs = []" using route [OF Nil(2)] order_Nil [of xs] by auto
  then show ?case using Nil by (subst walk_safe.simps) simp
next
  case (Cons x ys)
  let ?s = "list_del x (body x s)"
  have x: "move s h = x" "x \<noteq> h" "route move s (move s x) ys h" using route [OF Cons(3)] by (simp_all add: Cons(2) [symmetric])
  have d: "distinct xs" using Cons(3) by (simp add: ring_def)
  have ys: "ys = order (remove1 x xs)" using order_rest [OF d Cons(2) [symmetric]] ..
  have "x \<in> set xs" using order_in Cons(2) by metis
  then obtain us vs where uv: "xs = us @ x # vs" "x \<notin> set us" by (meson split_list_first)
  have rb: "ring (body x s) h (us @ x # vs)" using Cons(3) ring_frame [of h xs "body x s" s] assms uv(1) by simp
  have rr: "remove1 x xs = us @ vs" using uv by (simp add: remove1_append)
  have r: "ring ?s h (remove1 x xs)" using ring_list_del [OF rb] rr by simp
  have m: "move ?s h = move s x"
  proof (cases ys)
    case Nil
    then show ?thesis using x(3) route [OF r] ys by simp
  next
    case (Cons y zs)
    then show ?thesis using x(3) route [OF r] ys by simp
  qed
  show ?case
    using Cons(1) [OF ys r, folded ys] x(1,2) m
    by (subst walk_safe.simps) (simp add: Let_def Cons(2) [symmetric])
qed

end

lemma route_nxt: "linked s (p # xs @ [h]) \<Longrightarrow> h \<notin> set xs \<Longrightarrow> route nxt s (nxt s p) xs h"
  by (induction xs arbitrary: p) auto

lemma route_prv: "linked s (h # xs @ [p]) \<Longrightarrow> h \<notin> set xs \<Longrightarrow> route prv s (prv s p) (rev xs) h"
proof (induction xs arbitrary: p rule: rev_induct)
  case (snoc x xs)
  then show ?case using linked_app [of "h # xs @ [x]" "[p]" s] by auto
qed simp

interpretation forwards: direction nxt id
  by unfold_locales (auto simp: ring_def intro: route_nxt)

interpretation backwards: direction prv rev
proof unfold_locales
  fix xs ys :: "addr list" and x
  assume a: "distinct xs" "rev xs = x # ys"
  then have "xs = rev ys @ [x]" by (metis rev.simps(2) rev_swap)
  then show "rev (remove1 x xs) = ys" using a(1) by (simp add: remove1_append)
qed (auto simp: ring_def intro: route_prv)

section \<open>Hash lists\<close>

text \<open>A pprev pointer points at the first field of a head or at the next field of a node.  NULL is 0
  as a node address.\<close>

datatype hloc = Hnull | First_of addr | Next_of addr

record hlist_heap =
  hfirst :: "addr \<Rightarrow> addr"
  hnext :: "addr \<Rightarrow> addr"
  hpprev :: "addr \<Rightarrow> hloc"

fun load :: "'z hlist_heap_scheme \<Rightarrow> hloc \<Rightarrow> addr" where
  "load s (First_of h) = hfirst s h"
| "load s (Next_of n) = hnext s n"
| "load s Hnull = 0"

fun store :: "hloc \<Rightarrow> addr \<Rightarrow> 'z hlist_heap_scheme \<Rightarrow> 'z hlist_heap_scheme" where
  "store (First_of h) v s = s\<lparr>hfirst := (hfirst s)(h := v)\<rparr>"
| "store (Next_of n) v s = s\<lparr>hnext := (hnext s)(n := v)\<rparr>"
| "store Hnull v s = s"

definition set_pprev :: "addr \<Rightarrow> hloc \<Rightarrow> 'z hlist_heap_scheme \<Rightarrow> 'z hlist_heap_scheme" where
  "set_pprev n l s = s\<lparr>hpprev := (hpprev s)(n := l)\<rparr>"

definition INIT_HLIST_HEAD :: "addr \<Rightarrow> 'z hlist_heap_scheme \<Rightarrow> 'z hlist_heap_scheme" where
  "INIT_HLIST_HEAD h s = store (First_of h) 0 s"

definition INIT_HLIST_NODE :: "addr \<Rightarrow> 'z hlist_heap_scheme \<Rightarrow> 'z hlist_heap_scheme" where
  "INIT_HLIST_NODE h s = (let s = store (Next_of h) 0 s in set_pprev h Hnull s)"

definition hlist_unhashed :: "'z hlist_heap_scheme \<Rightarrow> addr \<Rightarrow> bool" where
  "hlist_unhashed s h \<longleftrightarrow> hpprev s h = Hnull"

definition hlist_empty :: "'z hlist_heap_scheme \<Rightarrow> addr \<Rightarrow> bool" where
  "hlist_empty s h \<longleftrightarrow> hfirst s h = 0"

definition hlist_del_raw :: "addr \<Rightarrow> 'z hlist_heap_scheme \<Rightarrow> 'z hlist_heap_scheme" where
  "hlist_del_raw n s =
    (let next = hnext s n; pprev = hpprev s n;
         s = store pprev next s
     in if next \<noteq> 0 then set_pprev next pprev s else s)"

definition hlist_del :: "addr \<Rightarrow> 'z hlist_heap_scheme \<Rightarrow> 'z hlist_heap_scheme" where
  "hlist_del n s = (let s = hlist_del_raw n s; s = store (Next_of n) LIST_POISON1 s in set_pprev n Hnull s)"

definition hlist_del_init :: "addr \<Rightarrow> 'z hlist_heap_scheme \<Rightarrow> 'z hlist_heap_scheme" where
  "hlist_del_init n s = (if \<not> hlist_unhashed s n then INIT_HLIST_NODE n (hlist_del_raw n s) else s)"

definition hlist_add_head :: "addr \<Rightarrow> addr \<Rightarrow> 'z hlist_heap_scheme \<Rightarrow> 'z hlist_heap_scheme" where
  "hlist_add_head n h s =
    (let first = hfirst s h;
         s = store (Next_of n) first s;
         s = (if first \<noteq> 0 then set_pprev first (Next_of n) s else s);
         s = store (First_of h) n s
     in set_pprev n (First_of h) s)"

definition hlist_add_before :: "addr \<Rightarrow> addr \<Rightarrow> 'z hlist_heap_scheme \<Rightarrow> 'z hlist_heap_scheme" where
  "hlist_add_before n next s =
    (let s = set_pprev n (hpprev s next) s;
         s = store (Next_of n) next s;
         s = set_pprev next (Next_of n) s
     in store (hpprev s n) n s)"

definition hlist_add_after :: "addr \<Rightarrow> addr \<Rightarrow> 'z hlist_heap_scheme \<Rightarrow> 'z hlist_heap_scheme" where
  "hlist_add_after n next s =
    (let s = store (Next_of next) (hnext s n) s;
         s = store (Next_of n) next s;
         s = set_pprev next (Next_of n) s
     in if hnext s next \<noteq> 0 then set_pprev (hnext s next) (Next_of next) s else s)"

partial_function (option) hwalk ::
  "(addr \<Rightarrow> 'z hlist_heap_scheme \<Rightarrow> 'z hlist_heap_scheme) \<Rightarrow> addr \<Rightarrow> 'z hlist_heap_scheme \<Rightarrow> 'z hlist_heap_scheme option" where
  "hwalk body pos s = (if pos = 0 then Some s else let s = body pos s in hwalk body (hnext s pos) s)"

partial_function (option) hwalk_safe ::
  "(addr \<Rightarrow> 'z hlist_heap_scheme \<Rightarrow> 'z hlist_heap_scheme) \<Rightarrow> addr \<Rightarrow> 'z hlist_heap_scheme \<Rightarrow> 'z hlist_heap_scheme option" where
  "hwalk_safe body pos s = (if pos = 0 then Some s else let n = hnext s pos; s = body pos s in hwalk_safe body n s)"

definition hlist_for_each where "hlist_for_each body head s = hwalk body (hfirst s head) s"
definition hlist_for_each_safe where "hlist_for_each_safe body head s = hwalk_safe body (hfirst s head) s"
definition hlist_for_each_entry where
  "hlist_for_each_entry body head off s = hwalk (\<lambda>pos. body (list_entry pos off)) (hfirst s head) s"
definition hlist_for_each_entry_continue where
  "hlist_for_each_entry_continue body off pos s = hwalk (\<lambda>pos. body (list_entry pos off)) (hnext s pos) s"
definition hlist_for_each_entry_from where
  "hlist_for_each_entry_from body off pos s = hwalk (\<lambda>pos. body (list_entry pos off)) pos s"
definition hlist_for_each_entry_safe where
  "hlist_for_each_entry_safe body head off s = hwalk_safe (\<lambda>pos. body (list_entry pos off)) (hfirst s head) s"

text \<open>The list behind a location.\<close>

fun hchain :: "'z hlist_heap_scheme \<Rightarrow> hloc \<Rightarrow> addr list \<Rightarrow> bool" where
  "hchain s l [] \<longleftrightarrow> load s l = 0"
| "hchain s l (x # xs) \<longleftrightarrow> load s l = x \<and> x \<noteq> 0 \<and> hpprev s x = l \<and> hchain s (Next_of x) xs"

definition hrep :: "'z hlist_heap_scheme \<Rightarrow> table \<Rightarrow> bool" where
  "hrep s T \<longleftrightarrow> distinct (map fst T) \<and> distinct (concat (map snd T)) \<and> (\<forall>(h, xs) \<in> set T. hchain s (First_of h) xs)"

lemma load_store [simp]: "l \<noteq> Hnull \<Longrightarrow> load (store l v s) k = (if k = l then v else load s k)"
  by (cases l; cases k) auto

lemma load_pprev [simp]: "load (set_pprev n l s) k = load s k"
  by (cases k) (auto simp: set_pprev_def)

lemma pprev_simps [simp]:
  "hpprev (store l v s) = hpprev s" "hpprev (set_pprev n l s) = (hpprev s)(n := l)" "hnext (set_pprev n l s) = hnext s"
  "hfirst (set_pprev n l s) = hfirst s"
  by (cases l; simp add: set_pprev_def)+

lemma hfields: "hnext s n = load s (Next_of n)" "hfirst s h = load s (First_of h)"
  by simp_all

declare load.simps(1,2) [simp del] store.simps [simp del]

text \<open>The location a chain starts at after us.\<close>

definition hend :: "hloc \<Rightarrow> addr list \<Rightarrow> hloc" where
  "hend l us = (if us = [] then l else Next_of (last us))"

fun hseg :: "'z hlist_heap_scheme \<Rightarrow> hloc \<Rightarrow> addr list \<Rightarrow> bool" where
  "hseg s l [] \<longleftrightarrow> True"
| "hseg s l (x # xs) \<longleftrightarrow> load s l = x \<and> x \<noteq> 0 \<and> hpprev s x = l \<and> hseg s (Next_of x) xs"

lemma hchain_split: "hchain s l (us @ vs) \<longleftrightarrow> hseg s l us \<and> hchain s (hend l us) vs"
  by (induction us arbitrary: l) (auto simp: hend_def)

lemma hseg_frame:
  "hseg s l us \<Longrightarrow> (\<And>k. k \<in> insert l (Next_of ` set (butlast us)) \<Longrightarrow> load s' k = load s k) \<Longrightarrow>
   (\<And>x. x \<in> set us \<Longrightarrow> hpprev s' x = hpprev s x) \<Longrightarrow> us \<noteq> [] \<Longrightarrow> hseg s' l us"
proof (induction us arbitrary: l)
  case (Cons x us)
  then show ?case by (cases us) auto
qed simp

lemma hchain_frame:
  "hchain s l vs \<Longrightarrow> (\<And>k. k \<in> insert l (Next_of ` set vs) \<Longrightarrow> load s' k = load s k) \<Longrightarrow>
   (\<And>x. x \<in> set vs \<Longrightarrow> hpprev s' x = hpprev s x) \<Longrightarrow> hchain s' l vs"
  by (induction vs arbitrary: l) auto

definition head0 :: "addr list \<Rightarrow> addr" where
  "head0 vs = (case vs of [] \<Rightarrow> 0 | x # _ \<Rightarrow> x)"

lemma head0_simps [simp]: "head0 [] = 0" "head0 (x # vs) = x"
  by (simp_all add: head0_def)

lemma hchain_head: "hchain s l vs \<Longrightarrow> load s l = head0 vs"
  by (cases vs) simp_all

lemma hchain_nonzero: "hchain s l vs \<Longrightarrow> 0 \<notin> set vs"
  by (induction vs arbitrary: l) auto

lemma hchain_locs: "hchain s l vs \<Longrightarrow> x \<in> set vs \<Longrightarrow> hpprev s x = l \<or> hpprev s x \<in> Next_of ` set vs"
  by (induction vs arbitrary: l) auto

lemma hend_in: "hend (First_of h) us \<in> insert (First_of h) (Next_of ` set us)"
  using last_in_set [of us] by (simp add: hend_def)

lemma hend_out:
  assumes "distinct (us @ vs)"
  shows "\<And>x. x \<in> set vs \<Longrightarrow> hend (First_of h) us \<noteq> Next_of x"
    "us \<noteq> [] \<Longrightarrow> hend (First_of h) us \<notin> insert (First_of h) (Next_of ` set (butlast us))"
proof -
  show "hend (First_of h) us \<noteq> Next_of x" if "x \<in> set vs" for x
    using that hend_in [of h us] assms by auto
  show "hend (First_of h) us \<notin> insert (First_of h) (Next_of ` set (butlast us))" if "us \<noteq> []"
    using that last_notin_butlast [of us] assms by (auto simp: hend_def)
qed

text \<open>What an insertion and a removal between us and vs must do to the fields.\<close>

lemma hchain_insert:
  assumes "hchain s (First_of h) (us @ vs)" "distinct (us @ vs)" "n \<notin> set (us @ vs)" "n \<noteq> 0"
    and ld: "\<And>k. load s' k = (if k = hend (First_of h) us then n else if k = Next_of n then head0 vs else load s k)"
    and pp: "\<And>x. hpprev s' x = (if x = n then hend (First_of h) us else if vs \<noteq> [] \<and> x = hd vs then Next_of n else hpprev s x)"
  shows "hchain s' (First_of h) (us @ n # vs)"
proof -
  define l where "l = hend (First_of h) us"
  have c: "hseg s (First_of h) us" "hchain s l vs" using assms(1) by (simp_all add: hchain_split l_def)
  note o = hend_out [OF assms(2), where h = h, folded l_def]
  have ln: "l \<noteq> Next_of n" using hend_in [of h us, folded l_def] assms(3) by auto
  have us: "hseg s' (First_of h) us"
  proof (cases "us = []")
    case False
    show ?thesis
    proof (rule hseg_frame [OF c(1) _ _ False])
      fix k assume "k \<in> insert (First_of h) (Next_of ` set (butlast us))"
      then have "k \<noteq> l" "k \<noteq> Next_of n" using o(2) [OF False] in_butlast [of n us] assms(3) by auto
      then show "load s' k = load s k" by (simp add: ld l_def)
    next
      fix x assume "x \<in> set us"
      then have "x \<noteq> n" "\<not> (vs \<noteq> [] \<and> x = hd vs)" using assms(2,3) hd_in_set [of vs] by auto
      then show "hpprev s' x = hpprev s x" by (auto simp: pp)
    qed
  qed simp
  have "hchain s' (Next_of n) vs"
  proof (cases vs)
    case Nil
    then show ?thesis using ln by (simp add: ld l_def [symmetric])
  next
    case (Cons y ys)
    have "hchain s' (Next_of y) ys"
    proof (rule hchain_frame)
      show "hchain s (Next_of y) ys" using c(2) by (simp add: Cons)
      show "load s' k = load s k" if "k \<in> insert (Next_of y) (Next_of ` set ys)" for k
        using that o(1) assms(3) by (auto simp: ld l_def [symmetric] Cons)
      show "hpprev s' x = hpprev s x" if "x \<in> set ys" for x
        using that assms(2,3) by (auto simp: pp Cons)
    qed
    moreover have "y \<noteq> n" using assms(3) by (auto simp: Cons)
    ultimately show ?thesis using ln c(2) by (simp add: Cons ld pp l_def [symmetric])
  qed
  then show ?thesis using us ln assms(4) unfolding hchain_split l_def [symmetric] by (simp add: ld pp l_def [symmetric])
qed

lemma hchain_remove:
  assumes "hchain s (First_of h) (us @ x # vs)" "distinct (us @ x # vs)"
    and ld: "\<And>k. k \<noteq> Next_of x \<Longrightarrow> load s' k = (if k = hend (First_of h) us then head0 vs else load s k)"
    and pp: "\<And>y. y \<noteq> x \<Longrightarrow> hpprev s' y = (if vs \<noteq> [] \<and> y = hd vs then hend (First_of h) us else hpprev s y)"
  shows "hchain s' (First_of h) (us @ vs)"
proof -
  define l where "l = hend (First_of h) us"
  have c: "hseg s (First_of h) us" "hchain s l (x # vs)" using assms(1) by (simp_all add: hchain_split l_def)
  note o = hend_out [OF assms(2), where h = h, folded l_def]
  have lx: "l \<noteq> Next_of x" using o(1) by simp
  have us: "hseg s' (First_of h) us"
  proof (cases "us = []")
    case False
    show ?thesis
    proof (rule hseg_frame [OF c(1) _ _ False])
      fix k assume "k \<in> insert (First_of h) (Next_of ` set (butlast us))"
      then have "k \<noteq> l" "k \<noteq> Next_of x" using o(2) [OF False] in_butlast [of x us] assms(2) by auto
      then show "load s' k = load s k" by (simp add: ld l_def)
    next
      fix y assume "y \<in> set us"
      then have "y \<noteq> x" "\<not> (vs \<noteq> [] \<and> y = hd vs)" using assms(2) hd_in_set [of vs] by auto
      then show "hpprev s' y = hpprev s y" by (auto simp: pp)
    qed
  qed simp
  have "hchain s' l vs"
  proof (cases vs)
    case Nil
    then show ?thesis using ld [OF lx] by (simp add: l_def [symmetric])
  next
    case (Cons y ys)
    have xn: "x \<noteq> y" "x \<notin> set ys" "y \<notin> set ys" using assms(2) by (auto simp: Cons)
    have "hchain s' (Next_of y) ys"
    proof (rule hchain_frame)
      show "hchain s (Next_of y) ys" using c(2) by (simp add: Cons)
      show "load s' k = load s k" if "k \<in> insert (Next_of y) (Next_of ` set ys)" for k
      proof -
        have "k \<noteq> Next_of x" "k \<noteq> l" using that o(1) xn by (auto simp: Cons)
        then show ?thesis by (simp add: ld l_def [symmetric])
      qed
      show "hpprev s' z = hpprev s z" if "z \<in> set ys" for z
      proof -
        have "z \<noteq> x" "z \<noteq> y" using that xn by auto
        then show ?thesis by (simp add: pp Cons)
      qed
    qed
    then show ?thesis using c(2) xn ld [OF lx] pp [of y] by (simp add: Cons l_def [symmetric])
  qed
  then show ?thesis using us unfolding hchain_split l_def [symmetric] by simp
qed

text \<open>The fields of the state after each operation.\<close>

lemma hlist_del_raw_fields:
  assumes "hchain s (First_of h) (us @ x # vs)"
  shows "load (hlist_del_raw x s) k = (if k = hend (First_of h) us then head0 vs else load s k)"
    "hpprev (hlist_del_raw x s) y = (if vs \<noteq> [] \<and> y = hd vs then hend (First_of h) us else hpprev s y)"
proof -
  have c: "hchain s (hend (First_of h) us) (x # vs)" using assms by (simp add: hchain_split)
  have e: "hend (First_of h) us \<noteq> Hnull" by (simp add: hend_def)
  have v: "hpprev s x = hend (First_of h) us" "load s (Next_of x) = head0 vs" "head0 vs = 0 \<longleftrightarrow> vs = []"
    using c hchain_head [of s "Next_of x" vs] hchain_nonzero [of s "Next_of x" vs] by (auto split: list.splits simp: head0_def)
  show "load (hlist_del_raw x s) k = (if k = hend (First_of h) us then head0 vs else load s k)"
    "hpprev (hlist_del_raw x s) y = (if vs \<noteq> [] \<and> y = hd vs then hend (First_of h) us else hpprev s y)"
    using e v by (cases vs; auto simp: hlist_del_raw_def Let_def hfields)+
qed

lemma hlist_add_head_fields:
  assumes "hchain s (First_of h) vs"
  shows "load (hlist_add_head n h s) k = (if k = First_of h then n else if k = Next_of n then head0 vs else load s k)"
    "hpprev (hlist_add_head n h s) y = (if y = n then First_of h else if vs \<noteq> [] \<and> y = hd vs then Next_of n else hpprev s y)"
  using hchain_head [OF assms] hchain_nonzero [OF assms]
  by (cases vs; auto simp: hlist_add_head_def Let_def hfields)+

lemma hlist_add_before_fields:
  assumes "hchain s (First_of h) (us @ x # vs)" "n \<noteq> x" "n \<notin> set us"
  shows "load (hlist_add_before n x s) k = (if k = hend (First_of h) us then n else if k = Next_of n then x else load s k)"
    "hpprev (hlist_add_before n x s) y = (if y = n then hend (First_of h) us else if y = x then Next_of n else hpprev s y)"
proof -
  have "hpprev s x = hend (First_of h) us" using assms(1) by (simp add: hchain_split)
  moreover have "hend (First_of h) us \<noteq> Hnull" by (simp add: hend_def)
  ultimately show "load (hlist_add_before n x s) k = (if k = hend (First_of h) us then n else if k = Next_of n then x else load s k)"
    "hpprev (hlist_add_before n x s) y = (if y = n then hend (First_of h) us else if y = x then Next_of n else hpprev s y)"
    using assms(2) by (simp_all add: hlist_add_before_def Let_def)
qed

lemma hlist_add_after_fields:
  assumes "hchain s (First_of h) (us @ x # vs)" "n \<noteq> x"
  shows "load (hlist_add_after x n s) k = (if k = Next_of x then n else if k = Next_of n then head0 vs else load s k)"
    "hpprev (hlist_add_after x n s) y = (if vs \<noteq> [] \<and> y = hd vs then Next_of n else if y = n then Next_of x else hpprev s y)"
proof -
  have c: "hchain s (Next_of x) vs" using assms by (simp add: hchain_split)
  show "load (hlist_add_after x n s) k = (if k = Next_of x then n else if k = Next_of n then head0 vs else load s k)"
    "hpprev (hlist_add_after x n s) y = (if vs \<noteq> [] \<and> y = hd vs then Next_of n else if y = n then Next_of x else hpprev s y)"
    using hchain_head [OF c] hchain_nonzero [OF c] assms(2)
    by (cases vs; auto simp: hlist_add_after_def Let_def hfields)+
qed

datatype hlist_op =
    HInit addr
  | HAddHead addr addr
  | HAddBefore addr addr addr
  | HAddAfter addr addr addr
  | HDel addr addr
  | HDelInit addr addr

fun run_hop :: "hlist_op \<Rightarrow> 'z hlist_heap_scheme \<Rightarrow> 'z hlist_heap_scheme" where
  "run_hop (HInit h) s = INIT_HLIST_HEAD h s"
| "run_hop (HAddHead n h) s = hlist_add_head n h s"
| "run_hop (HAddBefore h n next) s = hlist_add_before n next s"
| "run_hop (HAddAfter h n next) s = hlist_add_after n next s"
| "run_hop (HDel h n) s = hlist_del n s"
| "run_hop (HDelInit h n) s = hlist_del_init n s"

definition members :: "table \<Rightarrow> addr list" where
  "members T = concat (map snd T)"

text \<open>Put ys in front of the entry x, or after it.\<close>

definition insert_before :: "addr \<Rightarrow> addr \<Rightarrow> addr list \<Rightarrow> addr list" where
  "insert_before n x xs = takeWhile (\<lambda>y. y \<noteq> x) xs @ n # dropWhile (\<lambda>y. y \<noteq> x) xs"

definition insert_after :: "addr \<Rightarrow> addr \<Rightarrow> addr list \<Rightarrow> addr list" where
  "insert_after n x xs = takeWhile (\<lambda>y. y \<noteq> x) xs @ x # n # tl (dropWhile (\<lambda>y. y \<noteq> x) xs)"

definition spec_change :: "addr \<Rightarrow> (addr list \<Rightarrow> bool) \<Rightarrow> (addr list \<Rightarrow> addr list) \<Rightarrow> table \<Rightarrow> table option" where
  "spec_change h ok f T =
    (case map_of T h of None \<Rightarrow> None | Some xs \<Rightarrow> if ok xs then Some (AList.update h (f xs) T) else None)"

fun spec_hop :: "hlist_op \<Rightarrow> table \<Rightarrow> table option" where
  "spec_hop (HInit h) T = (if map_of T h = None then Some ((h, []) # T) else None)"
| "spec_hop (HAddHead n h) T = spec_change h (\<lambda>xs. n \<noteq> 0 \<and> n \<notin> set (members T)) ((#) n) T"
| "spec_hop (HAddBefore h n x) T = spec_change h (\<lambda>xs. n \<noteq> 0 \<and> n \<notin> set (members T) \<and> x \<in> set xs) (insert_before n x) T"
| "spec_hop (HAddAfter h x n) T = spec_change h (\<lambda>xs. n \<noteq> 0 \<and> n \<notin> set (members T) \<and> x \<in> set xs) (insert_after n x) T"
| "spec_hop (HDel h n) T = spec_change h (\<lambda>xs. n \<in> set xs) (remove1 n) T"
| "spec_hop (HDelInit h n) T = spec_change h (\<lambda>xs. n \<in> set xs) (remove1 n) T"

lemma members_simps [simp]: "members [] = []" "members ((h, xs) # T) = xs @ members T"
  by (simp_all add: members_def)

lemma hrep_Cons:
  "hrep s ((h, xs) # T) \<longleftrightarrow> h \<notin> fst ` set T \<and> distinct xs \<and> set xs \<inter> set (members T) = {} \<and>
    hchain s (First_of h) xs \<and> hrep s T"
  by (auto simp: hrep_def members_def)

lemma mset_members: "mset (members T) = \<Sum>\<^sub># (image_mset (\<lambda>(h, xs). mset xs) (mset T))"
  by (induction T) auto

lemma hrep_perm:
  assumes "mset T = mset T'"
  shows "hrep s T = hrep s T'"
proof -
  have "mset (map fst T) = mset (map fst T')" using assms by simp
  moreover have "mset (members T) = mset (members T')" unfolding mset_members assms ..
  ultimately show ?thesis
    unfolding hrep_def members_def [symmetric] mset_eq_setD [OF assms] by (metis mset_eq_imp_distinct_iff)
qed

text \<open>An operation on the list of h that stores at its head and at nodes of it or a new one.\<close>

lemma hrep_frame:
  assumes "hrep s T" "\<And>k. k \<notin> First_of ` (- fst ` set T) \<union> Next_of ` (- set (members T)) \<Longrightarrow> load s' k = load s k"
    "\<And>x. x \<in> set (members T) \<Longrightarrow> hpprev s' x = hpprev s x"
  shows "hrep s' T"
proof -
  have "hchain s' (First_of h) xs" if "(h, xs) \<in> set T" for h xs
  proof (rule hchain_frame [of s])
    show "hchain s (First_of h) xs" using assms(1) that by (auto simp: hrep_def)
    have "set xs \<subseteq> set (members T)" "h \<in> fst ` set T" using that by (force simp: members_def)+
    then show "load s' k = load s k" if "k \<in> insert (First_of h) (Next_of ` set xs)" for k
      using that by (intro assms(2)) auto
    show "hpprev s' x = hpprev s x" if "x \<in> set xs" for x
      using that \<open>set xs \<subseteq> set (members T)\<close> by (intro assms(3)) auto
  qed
  then show ?thesis using assms(1) by (auto simp: hrep_def)
qed

lemma hrep_change:
  assumes "hrep s T" "map_of T h = Some xs" "hchain s' (First_of h) ys" "distinct ys" "set ys \<subseteq> insert n (set xs)"
    "n \<in> set xs \<or> n \<notin> set (members T)"
    "\<And>k. k \<notin> insert (First_of h) (Next_of ` insert n (set xs)) \<Longrightarrow> load s' k = load s k"
    "\<And>x. x \<notin> insert n (set xs) \<Longrightarrow> hpprev s' x = hpprev s x"
  shows "hrep s' (AList.update h ys T)"
proof -
  have d: "distinct (map fst T)" using assms(1) by (simp add: hrep_def)
  obtain R where R: "mset T = mset ((h, xs) # R)" "\<And>ys. mset (AList.update h ys T) = mset ((h, ys) # R)"
    using table_split [OF d assms(2)] by blast
  have r: "hrep s ((h, xs) # R)" using assms(1) hrep_perm [OF R(1), of s] by blast
  have m: "set (members T) = set xs \<union> set (members R)" using mset_members [of T] mset_members [of "(h, xs) # R"] R(1)
    by (metis mset_eq_setD members_simps(2) set_append)
  have n: "n \<notin> set (members R)" using assms(6) m r by (auto simp: hrep_Cons)
  have "hrep s' R"
    by (rule hrep_frame [of s]) (use r n in \<open>auto simp: hrep_Cons intro!: assms(7,8)\<close>)
  then have "hrep s' ((h, ys) # R)" using r assms(3-5) n by (auto simp: hrep_Cons)
  then show ?thesis using hrep_perm [OF R(2), of s'] by blast
qed

lemma split_at:
  assumes "x \<in> set xs"
  obtains us vs where "xs = us @ x # vs" "takeWhile (\<lambda>y. y \<noteq> x) xs = us" "dropWhile (\<lambda>y. y \<noteq> x) xs = x # vs" "x \<notin> set us"
proof -
  obtain us vs where "xs = us @ x # vs" "x \<notin> set us" using split_list_first [OF assms] by blast
  then show ?thesis using that [of us vs] by (auto simp: takeWhile_append dropWhile_append)
qed

lemma spec_changeE:
  assumes "spec_change h ok f T = Some T'"
  obtains xs where "map_of T h = Some xs" "ok xs" "T' = AList.update h (f xs) T"
  using assms by (auto simp: spec_change_def split: option.splits if_splits)

lemma hrep_list:
  assumes "hrep s T" "map_of T h = Some xs"
  shows "hchain s (First_of h) xs" "distinct xs" "set xs \<subseteq> set (members T)"
proof -
  have "(h, xs) \<in> set T" using assms(2) by (rule map_of_SomeD)
  then show "hchain s (First_of h) xs" "distinct xs" "set xs \<subseteq> set (members T)"
    using assms(1) distinct_concat_iff [of "map snd T"] by (force simp: hrep_def members_def)+
qed

lemma hinsert_implements:
  assumes "hrep s T" "map_of T h = Some (us @ vs)" "n \<noteq> 0" "n \<notin> set (members T)"
    and ld: "\<And>k. load s' k = (if k = hend (First_of h) us then n else if k = Next_of n then head0 vs else load s k)"
    and pp: "\<And>x. hpprev s' x = (if x = n then hend (First_of h) us else if vs \<noteq> [] \<and> x = hd vs then Next_of n else hpprev s x)"
  shows "hrep s' (AList.update h (us @ n # vs) T)"
proof -
  note l = hrep_list [OF assms(1,2)]
  have n: "n \<notin> set (us @ vs)" using l(3) assms(4) by blast
  show ?thesis
  proof (rule hrep_change [OF assms(1,2) hchain_insert [OF l(1,2) n assms(3) ld pp]])
    show "distinct (us @ n # vs)" using l(2) n by simp
    show "load s' k = load s k" if "k \<notin> insert (First_of h) (Next_of ` insert n (set (us @ vs)))" for k
      using that hend_in [of h us] ld [of k] by auto
    show "hpprev s' x = hpprev s x" if "x \<notin> insert n (set (us @ vs))" for x
      using that hd_in_set [of vs] pp [of x] by auto
  qed (use assms(4) in auto)
qed

lemma hremove_implements:
  assumes "hrep s T" "map_of T h = Some (us @ n # vs)"
    and ld: "\<And>k. k \<noteq> Next_of n \<Longrightarrow> load s' k = (if k = hend (First_of h) us then head0 vs else load s k)"
    and pp: "\<And>y. y \<noteq> n \<Longrightarrow> hpprev s' y = (if vs \<noteq> [] \<and> y = hd vs then hend (First_of h) us else hpprev s y)"
  shows "hrep s' (AList.update h (us @ vs) T)"
proof -
  note l = hrep_list [OF assms(1,2)]
  show ?thesis
  proof (rule hrep_change [OF assms(1,2) hchain_remove [OF l(1,2) ld pp]])
    show "distinct (us @ vs)" using l(2) by simp
    show "load s' k = load s k" if "k \<notin> insert (First_of h) (Next_of ` insert n (set (us @ n # vs)))" for k
      using that hend_in [of h us] ld [of k] by auto
    show "hpprev s' x = hpprev s x" if "x \<notin> insert n (set (us @ n # vs))" for x
      using that hd_in_set [of vs] pp [of x] by auto
  qed auto
qed

lemma hdel_fields:
  assumes "hchain s (First_of h) (us @ n # vs)"
  shows "k \<noteq> Next_of n \<Longrightarrow> load (hlist_del n s) k = (if k = hend (First_of h) us then head0 vs else load s k)"
    "y \<noteq> n \<Longrightarrow> hpprev (hlist_del n s) y = (if vs \<noteq> [] \<and> y = hd vs then hend (First_of h) us else hpprev s y)"
    "k \<noteq> Next_of n \<Longrightarrow> load (INIT_HLIST_NODE n (hlist_del_raw n s)) k = (if k = hend (First_of h) us then head0 vs else load s k)"
    "y \<noteq> n \<Longrightarrow> hpprev (INIT_HLIST_NODE n (hlist_del_raw n s)) y = (if vs \<noteq> [] \<and> y = hd vs then hend (First_of h) us else hpprev s y)"
  using hlist_del_raw_fields [OF assms] by (simp_all add: hlist_del_def INIT_HLIST_NODE_def Let_def)

lemma hop_implements:
  assumes "hrep s T" "spec_hop o' T = Some T'"
  shows "hrep (run_hop o' s) T'"
proof (cases o')
  case (HInit h)
  then have h: "h \<notin> fst ` set T" "T' = (h, []) # T" using assms(2) by (auto simp: map_of_eq_None_iff split: if_splits)
  have "hrep (INIT_HLIST_HEAD h s) T"
    by (rule hrep_frame [OF assms(1)]) (use h(1) in \<open>auto simp: INIT_HLIST_HEAD_def\<close>)
  then show ?thesis using h by (simp add: HInit hrep_Cons) (simp add: INIT_HLIST_HEAD_def)
next
  case (HAddHead n h)
  then obtain xs where xs: "map_of T h = Some xs" "n \<noteq> 0" "n \<notin> set (members T)" "T' = AList.update h (n # xs) T"
    using assms(2) by (auto elim: spec_changeE)
  show ?thesis
    using hinsert_implements [OF assms(1), of h "[]" xs n "run_hop o' s"] hlist_add_head_fields [OF hrep_list(1) [OF assms(1) xs(1)]] xs
    by (simp add: HAddHead hend_def)
next
  case (HAddBefore h n x)
  then obtain xs where xs: "map_of T h = Some xs" "n \<noteq> 0" "n \<notin> set (members T)" "x \<in> set xs"
    "T' = AList.update h (insert_before n x xs) T"
    using assms(2) by (auto elim: spec_changeE)
  obtain us vs where uv: "xs = us @ x # vs" "takeWhile (\<lambda>y. y \<noteq> x) xs = us" "dropWhile (\<lambda>y. y \<noteq> x) xs = x # vs"
    using split_at [OF xs(4)] by metis
  note l = hrep_list [OF assms(1) xs(1)]
  have n: "n \<noteq> x" "n \<notin> set us" using l(3) xs(3) uv(1) by auto
  have ib: "insert_before n x xs = us @ n # x # vs" unfolding insert_before_def uv(2,3) ..
  show ?thesis
    unfolding HAddBefore run_hop.simps xs(5) ib
    by (rule hinsert_implements [OF assms(1) xs(1) [unfolded uv(1)] xs(2,3)])
      (simp_all add: hlist_add_before_fields [OF l(1) [unfolded uv(1)] n])
next
  case (HAddAfter h x n)
  then obtain xs where xs: "map_of T h = Some xs" "n \<noteq> 0" "n \<notin> set (members T)" "x \<in> set xs"
    "T' = AList.update h (insert_after n x xs) T"
    using assms(2) by (auto elim: spec_changeE)
  obtain us vs where uv: "xs = us @ x # vs" "takeWhile (\<lambda>y. y \<noteq> x) xs = us" "dropWhile (\<lambda>y. y \<noteq> x) xs = x # vs"
    using split_at [OF xs(4)] by metis
  note l = hrep_list [OF assms(1) xs(1)]
  have "n \<notin> set (us @ x # vs)" using l(3) xs(3) uv(1) by blast
  then have n: "n \<noteq> x" "vs \<noteq> [] \<Longrightarrow> hd vs \<noteq> n" using hd_in_set [of vs] by auto
  have ia: "insert_after n x xs = (us @ [x]) @ n # vs" unfolding insert_after_def uv(2,3) by simp
  show ?thesis
    unfolding HAddAfter run_hop.simps xs(5) ia
    by (rule hinsert_implements [OF assms(1) _ xs(2,3)])
      (use xs(1) uv(1) n(2) in \<open>auto simp: hlist_add_after_fields [OF l(1) [unfolded uv(1)] n(1)] hend_def\<close>)
next
  case (HDel h n)
  then obtain xs where xs: "map_of T h = Some xs" "n \<in> set xs" "T' = AList.update h (remove1 n xs) T"
    using assms(2) by (auto elim: spec_changeE)
  obtain us vs where uv: "xs = us @ n # vs" "n \<notin> set us" using split_at [OF xs(2)] by metis
  note f = hdel_fields(1,2) [OF hrep_list(1) [OF assms(1) xs(1) [unfolded uv(1)]]]
  show ?thesis
    using hremove_implements [OF assms(1) xs(1) [unfolded uv(1)] f] uv(2) xs(3)
    by (simp add: HDel uv(1) remove1_append)
next
  case (HDelInit h n)
  then obtain xs where xs: "map_of T h = Some xs" "n \<in> set xs" "T' = AList.update h (remove1 n xs) T"
    using assms(2) by (auto elim: spec_changeE)
  obtain us vs where uv: "xs = us @ n # vs" "n \<notin> set us" using split_at [OF xs(2)] by metis
  note c = hrep_list(1) [OF assms(1) xs(1) [unfolded uv(1)]]
  have "\<not> hlist_unhashed s n" using hchain_locs [OF c, of n] by (auto simp: hlist_unhashed_def)
  then show ?thesis
    using hremove_implements [OF assms(1) xs(1) [unfolded uv(1)] hdel_fields(3,4) [OF c]] uv(2) xs(3)
    by (simp add: HDelInit uv(1) remove1_append hlist_del_init_def)
qed

fun spec_hops :: "hlist_op list \<Rightarrow> table \<Rightarrow> table option" where
  "spec_hops [] T = Some T"
| "spec_hops (o' # ops) T = Option.bind (spec_hop o' T) (spec_hops ops)"

text \<open>Iteration over a hash list.\<close>

fun hroute :: "(addr \<Rightarrow> addr) \<Rightarrow> addr \<Rightarrow> addr list \<Rightarrow> bool" where
  "hroute nx p [] \<longleftrightarrow> p = 0"
| "hroute nx p (x # xs) \<longleftrightarrow> p = x \<and> x \<noteq> 0 \<and> hroute nx (nx x) xs"

lemma hchain_hroute: "hchain s l xs \<Longrightarrow> hroute (hnext s) (load s l) xs"
  by (induction xs arbitrary: l) (auto simp: hfields)

lemma hroute_cong: "hroute nx p xs \<Longrightarrow> (\<And>x. x \<in> set xs \<Longrightarrow> nx' x = nx x) \<Longrightarrow> hroute nx' p xs"
  by (induction xs arbitrary: p) auto

lemma hwalk_route:
  assumes "\<And>p s. hnext (body p s) = hnext s"
  shows "hroute (hnext s) p xs \<Longrightarrow> hwalk body p s = Some (fold body xs s)"
proof (induction xs arbitrary: s p)
  case Nil
  then show ?case by (subst hwalk.simps) simp
next
  case (Cons x xs)
  then have "hwalk body (hnext s x) (body x s) = Some (fold body xs (body x s))"
    using assms by (intro Cons.IH) simp
  then show ?case using Cons.prems assms by (subst hwalk.simps) (simp add: Let_def)
qed

lemma hwalk_safe_route:
  assumes "\<And>p s x. x \<noteq> p \<Longrightarrow> hnext (body p s) x = hnext s x"
  shows "hroute (hnext s) p xs \<Longrightarrow> distinct xs \<Longrightarrow> hwalk_safe body p s = Some (fold body xs s)"
proof (induction xs arbitrary: s p)
  case Nil
  then show ?case by (subst hwalk_safe.simps) simp
next
  case (Cons x xs)
  have "hroute (hnext (body x s)) (hnext s x) xs"
  proof (rule hroute_cong)
    show "hroute (hnext s) (hnext s x) xs" using Cons.prems(1) by simp
    show "hnext (body x s) y = hnext s y" if "y \<in> set xs" for y
      by (rule assms) (use that Cons.prems(2) in auto)
  qed
  then have "hwalk_safe body (hnext s x) (body x s) = Some (fold body xs (body x s))"
    using Cons.prems by (intro Cons.IH) simp_all
  then show ?case using Cons.prems by (subst hwalk_safe.simps) (simp add: Let_def)
qed

section \<open>The theorems\<close>

text \<open>C17: the ring operations refine the operations on tables of lists: from a heap that represents
  a table, any sequence of calls whose preconditions hold in the table leaves a heap that represents
  what the list operations make of it.\<close>

theorem list_ops_refine:
  assumes "rep s T" "spec_ops ops T = Some T'"
  shows "rep (fold run_op ops s) T'"
  using assms
proof (induction ops arbitrary: s T)
  case (Cons o' ops)
  then obtain U where "spec_op o' T = Some U" "spec_ops ops U = Some T'" by (auto split: bind_splits)
  then show ?case by (auto intro: Cons.IH op_implements [OF Cons.prems(1)])
qed simp

definition demo_ops :: "list_op list" where
  "demo_ops = [Init 16, Init 32, Add 48 16, AddTail 64 16, Add 80 32, Move 16 64 32, MoveTail 16 48 32,
     Replace 32 80 96, DelInit 32 64, Cut 16 32 96, SpliceTail 16 32, Init 16, ReplaceHeadInit 32 112, SpliceInit 112 32, Del 32 48]"

theorem list_ops_refine_witness:
  "rep (fold run_op demo_ops \<lparr>nxt = \<lambda>_. 7, prv = \<lambda>_. 7\<rparr>) [(32, [96]), (112, []), (16, []), (64, [])]"
  by (rule list_ops_refine [of _ "[]"]) (simp, code_simp)


record visits = list_heap + visited :: "addr list"

definition visit :: "addr \<Rightarrow> visits \<Rightarrow> visits" where
  "visit p s = s\<lparr>visited := visited s @ [p]\<rparr>"

definition demo_heap :: visits where
  "demo_heap = fold run_op [Init 16, AddTail 48 16, AddTail 32 16, Add 64 16] \<lparr>nxt = \<lambda>_. 7, prv = \<lambda>_. 7, visited = []\<rparr>"


text \<open>C18: the hash list operations refine the same operations on tables of lists, and after any
  permitted sequence of them a head is empty exactly when its list is, and iterating from it runs the
  body on the entries in list order.\<close>

theorem hlist_ops_refine:
  assumes "hrep s T" "spec_hops ops T = Some T'" "\<And>p s. hnext (body p s) = hnext s"
  shows "hrep (fold run_hop ops s) T' \<and> (\<forall>(h, xs) \<in> set T'. (hlist_empty (fold run_hop ops s) h \<longleftrightarrow> xs = []) \<and>
    hlist_for_each body h (fold run_hop ops s) = Some (fold body xs (fold run_hop ops s)) \<and>
    hlist_for_each_safe body h (fold run_hop ops s) = Some (fold body xs (fold run_hop ops s)))"
proof -
  let ?s = "fold run_hop ops s"
  have r: "hrep ?s T'"
    using assms(1,2)
  proof (induction ops arbitrary: s T)
    case (Cons o' ops)
    then obtain U where "spec_hop o' T = Some U" "spec_hops ops U = Some T'" by (auto split: bind_splits)
    then show ?case by (auto intro: Cons.IH hop_implements [OF Cons.prems(1)])
  qed simp
  have "(hlist_empty ?s h \<longleftrightarrow> xs = []) \<and> hlist_for_each body h ?s = Some (fold body xs ?s) \<and>
      hlist_for_each_safe body h ?s = Some (fold body xs ?s)"
    if "(h, xs) \<in> set T'" for h xs
  proof -
    have m: "map_of T' h = Some xs" using r that by (simp add: hrep_def)
    note l = hrep_list [OF r m]
    have "head0 xs = 0 \<longleftrightarrow> xs = []" using hchain_nonzero [OF l(1)] by (cases xs) auto
    then show ?thesis
      using hchain_head [OF l(1)] hwalk_route [OF assms(3) hchain_hroute [OF l(1)]]
        hwalk_safe_route [OF _ hchain_hroute [OF l(1)] l(2), of body] assms(3)
      by (simp add: hlist_empty_def hlist_for_each_def hlist_for_each_safe_def hfields)
  qed
  then show ?thesis using r by blast
qed

theorem hlist_ops_refine_witness:
  "hrep (fold run_hop [HInit 8, HAddHead 16 8, HAddAfter 8 16 32, HAddBefore 8 48 32, HDelInit 8 16, HDel 8 32]
      \<lparr>hfirst = \<lambda>_. 7, hnext = \<lambda>_. 7, hpprev = \<lambda>_. Hnull\<rparr>) [(8, [48])]"
  by (rule conjunct1 [OF hlist_ops_refine [of _ "[]" _ _ "\<lambda>p s. s"]]) (simp add: hrep_def, code_simp, simp)

end
