(* ===== verification/StrMore.thy ===== *)
theory StrMore
  imports CNum
begin

unbundle bit_operations_syntax

text \<open>
  The rest of the routines of lib/mylibc/string: concatenation, bounded copies and comparisons, searches,
  case-insensitive comparison, trimming, and the two bit searches.  As built (config.mk asks for no
  optimisation) the word-at-a-time variants are compiled, and ffs by binary search.  A source string is the
  view of it before the call.
\<close>

section \<open>Concatenation\<close>

text \<open>The end of s1: whole words from an aligned start, then bytes.\<close>

definition find_end :: "'b mem \<Rightarrow> 'b ptr \<Rightarrow> 'b ptr option" where
  "find_end m s1 =
    do {
      s1 \<leftarrow> (if \<not> UNALIGNED s1 then scan_words (\<lambda>w. DETECTNULL w \<noteq> 0) m s1 else Some s1);
      scan_bytes (\<lambda>c. c = 0) m s1
    }"

definition strcat :: "'b mem \<Rightarrow> 'b ptr \<Rightarrow> cview \<Rightarrow> 'b mem option" where
  "strcat m s1 s2 = do { s1 \<leftarrow> find_end m s1; strcpy m s1 s2 }"

fun strncat_loop :: "'b mem \<Rightarrow> 'b ptr \<Rightarrow> cview \<Rightarrow> nat \<Rightarrow> nat \<Rightarrow> 'b mem" where
  "strncat_loop m s1 s2 i 0 = m"
| "strncat_loop m s1 s2 i (Suc n) =
    (let m = st8 m s1 (s2 i) in
     if s2 i \<noteq> 0 then
       let m = (if n = 0 then st8 m (padd s1 1) 0 else m) in strncat_loop m (padd s1 1) s2 (Suc i) n
     else m)"

definition strncat :: "'b mem \<Rightarrow> 'b ptr \<Rightarrow> cview \<Rightarrow> nat \<Rightarrow> 'b mem option" where
  "strncat m s1 s2 n = do { s1 \<leftarrow> find_end m s1; Some (strncat_loop m s1 s2 0 n) }"

lemma find_end_cstr:
  assumes "cstr (view m s1) s"
  shows "find_end m s1 = Some (padd s1 (length s))"
proof -
  have f: "first_at (\<lambda>i. m (padd s1 i) = 0) (length s)" using cstr_first [OF assms] by simp
  show ?thesis
  proof (cases "UNALIGNED s1")
    case True
    then show ?thesis using scan_bytes_first [of "\<lambda>c. c = 0", OF f] by (simp add: find_end_def)
  next
    case False
    obtain k where k: "k \<le> length s" "scan_words (\<lambda>w. DETECTNULL w \<noteq> 0) m s1 = Some (padd s1 k)"
      using scan_words_first [OF stops_at_DETECTNULL f] by blast
    have "scan_bytes (\<lambda>c. c = 0) m (padd s1 k) = Some (padd (padd s1 k) (length s - k))"
      by (rule scan_bytes_first) (use first_at_shift [OF f k(1)] in simp)
    then show ?thesis using False k by (simp add: find_end_def)
  qed
qed

lemma strcat_cstr:
  "cstr (view m s1) s \<Longrightarrow> cstr s2 t \<Longrightarrow> strcat m s1 s2 = Some (st_list m (padd s1 (length s)) (t @ [0]))"
  by (simp add: strcat_def find_end_cstr strcpy_cstr)

lemma strncat_loop_takes:
  "cstr (\<lambda>j. s2 (i + j)) t \<Longrightarrow> 0 < n \<Longrightarrow> strncat_loop m p s2 i n = st_list m p (take n t @ [0])"
proof (induction n arbitrary: m p i t)
  case (Suc n)
  show ?case
  proof (cases t)
    case Nil
    then show ?thesis using Suc.prems by simp
  next
    case (Cons c t')
    have c: "s2 i = c" "c \<noteq> 0" "cstr (\<lambda>j. s2 (Suc i + j)) t'"
      using cstr_hd [of _ c t'] cstr_tl [of _ c t'] Suc.prems(1) Cons by fastforce+
    show ?thesis
    proof (cases "n = 0")
      case True
      then show ?thesis using c Cons by simp
    next
      case False
      then show ?thesis using c Cons Suc.IH [OF c(3), of "st8 m p c" "padd p 1"] by simp
    qed
  qed
qed simp

lemma strncat_cstr:
  "cstr (view m s1) s \<Longrightarrow> cstr s2 t \<Longrightarrow> 0 < n \<Longrightarrow>
   strncat m s1 s2 n = Some (st_list m (padd s1 (length s)) (take n t @ [0]))"
  by (simp add: strncat_def find_end_cstr strncat_loop_takes)

section \<open>Bounded copies\<close>

text \<open>strlcpy: the copying loop from index i with n places left, the result (index, n, memory).\<close>

fun strlcpy_loop :: "'b mem \<Rightarrow> 'b ptr \<Rightarrow> cview \<Rightarrow> nat \<Rightarrow> nat \<Rightarrow> nat \<times> nat \<times> 'b mem" where
  "strlcpy_loop m dst src i 0 = (i, 0, m)"
| "strlcpy_loop m dst src i (Suc n) =
    (let m = st8 m (padd dst i) (src i) in
     if src i = 0 then (Suc i, Suc n, m) else strlcpy_loop m dst src (Suc i) n)"

partial_function (option) skip_string :: "cview \<Rightarrow> nat \<Rightarrow> nat option" where
  "skip_string s i = (if s i \<noteq> 0 then skip_string s (Suc i) else Some (Suc i))"

definition strlcpy :: "'b mem \<Rightarrow> 'b ptr \<Rightarrow> cview \<Rightarrow> nat \<Rightarrow> (nat \<times> 'b mem) option" where
  "strlcpy m dst src siz =
    (let (i, n, m) = (if siz \<noteq> 0 \<and> siz - 1 \<noteq> 0 then strlcpy_loop m dst src 0 (siz - 1)
                      else (0, if siz \<noteq> 0 then siz - 1 else siz, m)) in
     do {
       (i, m) \<leftarrow>
         (if n = 0 then do {
            let m = (if siz \<noteq> 0 then st8 m (padd dst i) 0 else m);
            i \<leftarrow> skip_string src i;
            Some (i, m)
          }
          else Some (i, m));
       Some (i - 1, m)
     })"

lemma skip_string_cstr: "cstr (\<lambda>j. s (i + j)) t \<Longrightarrow> skip_string s i = Some (Suc (i + length t))"
proof (induction t arbitrary: i)
  case Nil
  then show ?case by (subst skip_string.simps) simp
next
  case (Cons c t)
  have "s i = c" "c \<noteq> 0" "cstr (\<lambda>j. s (Suc i + j)) t" using cstr_hd [OF Cons.prems] cstr_tl [OF Cons.prems] by simp_all
  then show ?case using Cons.IH [of "Suc i"] by (subst skip_string.simps) simp
qed

lemma strlcpy_loop_takes:
  "cstr (\<lambda>j. src (i + j)) t \<Longrightarrow> strlcpy_loop m dst src i n =
    (if n \<le> length t then (i + n, 0, st_list m (padd dst i) (take n t))
     else (Suc (i + length t), n - length t, st_list m (padd dst i) (t @ [0])))"
proof (induction n arbitrary: m i t)
  case (Suc n)
  show ?case
  proof (cases t)
    case Nil
    then show ?thesis using Suc.prems by simp
  next
    case (Cons c t')
    have c: "src i = c" "c \<noteq> 0" "cstr (\<lambda>j. src (Suc i + j)) t'"
      using cstr_hd [of _ c t'] cstr_tl [of _ c t'] Suc.prems Cons by fastforce+
    then show ?thesis using Cons Suc.IH [OF c(3), of "st8 m (padd dst i) c"] by simp
  qed
qed simp

lemma strlcpy_cstr:
  assumes "cstr src t"
  shows "strlcpy m dst src siz =
    Some (length t, if siz = 0 then m else st_list m dst (take (siz - 1) t @ [0]))"
proof -
  have c: "cstr (\<lambda>j. src (0 + j)) t" using assms by simp
  have s: "skip_string src i = Some (Suc (length t))" if "i \<le> length t" for i
    using skip_string_cstr [of src i "drop i t"] cstr_drop [OF assms that] that by simp
  show ?thesis
  proof (cases "siz \<le> 1")
    case True
    then have "siz = 0 \<or> siz = 1" by arith
    then show ?thesis using s [of 0] by (auto simp: strlcpy_def)
  next
    case False
    show ?thesis
    proof (cases "siz - 1 \<le> length t")
      case True
      have "st_list m dst (take (siz - 1) t @ [0]) = st8 (st_list m dst (take (siz - 1) t)) (padd dst (siz - 1)) 0"
        using True by (simp add: st_list_append min_absorb2)
      then show ?thesis
        using False True s [OF True] strlcpy_loop_takes [OF c, of m dst "siz - 1"] by (simp add: strlcpy_def)
    next
      case False': False
      then have "siz - 1 - length t \<noteq> 0" "take (siz - 1) t = t" by simp_all
      then show ?thesis
        using False False' strlcpy_loop_takes [OF c, of m dst "siz - 1"] by (simp add: strlcpy_def)
    qed
  qed
qed

text \<open>strlcat: the end of dst within siz, then the copy of what fits, n places left.\<close>

fun strlcat_end :: "'b mem \<Rightarrow> 'b ptr \<Rightarrow> nat \<Rightarrow> nat" where
  "strlcat_end m d 0 = 0"
| "strlcat_end m d (Suc n) = (if m d \<noteq> 0 then Suc (strlcat_end m (padd d 1) n) else 0)"

partial_function (option) strlcat_loop :: "'b mem \<Rightarrow> 'b ptr \<Rightarrow> cview \<Rightarrow> nat \<Rightarrow> nat \<Rightarrow> (nat \<times> 'b mem) option" where
  "strlcat_loop m d s i n =
    (if s i \<noteq> 0 then
       if n \<noteq> 1 then strlcat_loop (st8 m d (s i)) (padd d 1) s (Suc i) (n - 1)
       else strlcat_loop m d s (Suc i) n
     else Some (i, st8 m d 0))"

definition strlcat :: "'b mem \<Rightarrow> 'b ptr \<Rightarrow> cview \<Rightarrow> nat \<Rightarrow> (nat \<times> 'b mem) option" where
  "strlcat m dst src siz =
    (let dlen = strlcat_end m dst siz; n = siz - dlen in
     if n = 0 then do { i \<leftarrow> skip_string src 0; Some (dlen + (i - 1), m) }
     else do { (i, m) \<leftarrow> strlcat_loop m (padd dst dlen) src 0 n; Some (dlen + i, m) })"

lemma strlcat_end_cstr: "cstr (view m d) s \<Longrightarrow> strlcat_end m d n = min n (length s)"
proof (induction n arbitrary: d s)
  case (Suc n)
  show ?case
  proof (cases s)
    case Nil
    then show ?thesis using Suc.prems by simp
  next
    case (Cons c s')
    have c: "m d = c" "c \<noteq> 0" "cstr (view m (padd d 1)) s'"
      using cstr_hd [of _ c s'] cstr_tl [of _ c s'] Suc.prems Cons by (fastforce simp: cstr_def)+
    have "strlcat_end m (padd d 1) n = min n (length s')" by (rule Suc.IH [OF c(3)])
    then show ?thesis using c(1,2) Cons by simp
  qed
qed simp

lemma strlcat_loop_takes:
  "cstr (\<lambda>j. s (i + j)) t \<Longrightarrow> 0 < n \<Longrightarrow> strlcat_loop m d s i n = Some (i + length t, st_list m d (take (n - 1) t @ [0]))"
proof (induction t arbitrary: m d i n)
  case Nil
  then show ?case by (subst strlcat_loop.simps) simp
next
  case (Cons c t)
  have c: "s i = c" "c \<noteq> 0" "cstr (\<lambda>j. s (Suc i + j)) t" using cstr_hd [OF Cons.prems(1)] cstr_tl [OF Cons.prems(1)] by simp_all
  show ?case
  proof (cases "n = 1")
    case True
    then show ?thesis using c Cons.IH [OF c(3), of 1 m d] by (subst strlcat_loop.simps) simp
  next
    case False
    then obtain k where "n = Suc (Suc k)" using Cons.prems(2) by (metis One_nat_def Suc_pred less_not_refl2 not0_implies_Suc)
    then show ?thesis using c Cons.IH [OF c(3), of "Suc k" "st8 m d c" "padd d 1"] by (subst strlcat_loop.simps) simp
  qed
qed

lemma strlcat_cstr:
  assumes "cstr (view m dst) s" "cstr src t"
  shows "strlcat m dst src siz =
    Some (min siz (length s) + length t,
      if siz \<le> length s then m else st_list m (padd dst (length s)) (take (siz - length s - 1) t @ [0]))"
proof -
  have c: "cstr (\<lambda>j. src (0 + j)) t" using assms(2) by simp
  show ?thesis
    using skip_string_cstr [OF c] strlcat_loop_takes [OF c, of "siz - length s" m "padd dst (length s)"]
    by (auto simp: strlcat_def strlcat_end_cstr [OF assms(1)] min_def Let_def)
qed

section \<open>Bounded comparison\<close>

text \<open>The word loop: Inl is the early return of 0, Inr the place where it left off.\<close>

function strncmp_words :: "'b mem \<Rightarrow> 'b ptr \<Rightarrow> 'c mem \<Rightarrow> 'c ptr \<Rightarrow> nat \<Rightarrow> int + 'b ptr \<times> 'c ptr \<times> nat" where
  "strncmp_words m1 a1 m2 a2 n =
    (if 4 \<le> n \<and> ld32 m1 a1 = ld32 m2 a2 then
       if n - 4 = 0 \<or> DETECTNULL (ld32 m1 a1) \<noteq> 0 then Inl 0
       else strncmp_words m1 (padd a1 4) m2 (padd a2 4) (n - 4)
     else Inr (a1, a2, n))"
  by pat_completeness auto
termination by (relation "measure (\<lambda>(m1, a1, m2, a2, n). n)") auto

declare strncmp_words.simps [simp del]

fun strncmp_bytes :: "'b mem \<Rightarrow> 'b ptr \<Rightarrow> 'c mem \<Rightarrow> 'c ptr \<Rightarrow> nat \<Rightarrow> int" where
  "strncmp_bytes m1 s1 m2 s2 0 = uint (m1 s1) - uint (m2 s2)"
| "strncmp_bytes m1 s1 m2 s2 (Suc n) =
    (if m1 s1 = m2 s2 then
       if n = 0 \<or> m1 s1 = 0 then 0 else strncmp_bytes m1 (padd s1 1) m2 (padd s2 1) n
     else uint (m1 s1) - uint (m2 s2))"

definition strncmp :: "'b mem \<Rightarrow> 'b ptr \<Rightarrow> 'c mem \<Rightarrow> 'c ptr \<Rightarrow> nat \<Rightarrow> int" where
  "strncmp m1 s1 m2 s2 n =
    (if n = 0 then 0
     else
       case (if \<not> (UNALIGNED s1 \<or> UNALIGNED s2) then strncmp_words m1 s1 m2 s2 n else Inr (s1, s2, n)) of
         Inl r \<Rightarrow> r
       | Inr (s1, s2, n) \<Rightarrow> strncmp_bytes m1 s1 m2 s2 n)"

section \<open>Searches in memory\<close>

text \<open>memchr: up to the alignment, Inl is a return; then words; then bytes.  DETECTCHAR(X, MASK) is
  DETECTNULL(X ^ MASK).\<close>

function memchr_align :: "'b mem \<Rightarrow> 'b ptr \<Rightarrow> u8 \<Rightarrow> nat \<Rightarrow> 'b ptr option + 'b ptr \<times> nat" where
  "memchr_align m src d n =
    (if UNALIGNED src then
       if n = 0 then Inl None
       else if m src = d then Inl (Some src)
       else memchr_align m (padd src 1) d (n - 1)
     else Inr (src, n))"
  by pat_completeness auto
termination by (relation "measure (\<lambda>(m, src, d, n). n)") auto

declare memchr_align.simps [simp del]

function memchr_words :: "'b mem \<Rightarrow> 'b ptr \<Rightarrow> u32 \<Rightarrow> nat \<Rightarrow> 'b ptr \<times> nat" where
  "memchr_words m asrc msk n =
    (if 4 \<le> n then
       if DETECTNULL (ld32 m asrc XOR msk) \<noteq> 0 then (asrc, n) else memchr_words m (padd asrc 4) msk (n - 4)
     else (asrc, n))"
  by pat_completeness auto
termination by (relation "measure (\<lambda>(m, asrc, msk, n). n)") auto

declare memchr_words.simps [simp del]

fun memchr_bytes :: "'b mem \<Rightarrow> 'b ptr \<Rightarrow> u8 \<Rightarrow> nat \<Rightarrow> 'b ptr option" where
  "memchr_bytes m src d 0 = None"
| "memchr_bytes m src d (Suc n) = (if m src = d then Some src else memchr_bytes m (padd src 1) d n)"

definition memchr :: "'b mem \<Rightarrow> 'b ptr \<Rightarrow> u32 \<Rightarrow> nat \<Rightarrow> 'b ptr option" where
  "memchr m s c n =
    (let d = ucast c in
     case memchr_align m s d n of
       Inl r \<Rightarrow> r
     | Inr (src, n) \<Rightarrow>
         let (src, n) = (if \<not> n < 4 then memchr_words m src (strchr_mask d) n else (src, n))
         in memchr_bytes m src d n)"

text \<open>memscan compares the byte with the whole int c.\<close>

fun memscan :: "'b mem \<Rightarrow> 'b ptr \<Rightarrow> u32 \<Rightarrow> nat \<Rightarrow> 'b ptr" where
  "memscan m p c 0 = p"
| "memscan m p c (Suc sz) = (if ucast (m p) = c then p else memscan m (padd p 1) c sz)"

text \<open>The reference: the first byte of the range that equals c.\<close>

definition first_byte :: "u8 list \<Rightarrow> u8 \<Rightarrow> nat option" where
  "first_byte xs c = (if c \<in> set xs then Some (length (takeWhile (\<lambda>x. x \<noteq> c) xs)) else None)"

lemma first_byte_Nil [simp]: "first_byte [] c = None"
  by (simp add: first_byte_def)

lemma first_byte_Cons: "first_byte (x # xs) c = (if x = c then Some 0 else map_option Suc (first_byte xs c))"
  by (simp add: first_byte_def)

lemma first_byte_append: "c \<notin> set xs \<Longrightarrow> first_byte (xs @ ys) c = map_option (\<lambda>i. length xs + i) (first_byte ys c)"
  by (induction xs) (auto simp: first_byte_Cons split: option.splits, (cases "first_byte ys c"; simp)+)

lemma padd_fun: "padd (padd p k) = (\<lambda>i. padd p (k + i))"
  by (rule ext) simp

lemma memchr_bytes_first: "memchr_bytes m p d n = map_option (padd p) (first_byte (bytes m p n) d)"
  by (induction n arbitrary: p) (simp_all add: bytes_def [of m _ 0] bytes_Suc first_byte_Cons option.map_comp comp_def padd_fun)

lemma detect_char:
  assumes "d \<in> set (bytes m p 4)"
  shows "DETECTNULL (ld32 m p XOR strchr_mask d) \<noteq> 0"
proof -
  have "ucast (ld32 m p) = d \<or> ucast (drop_bit 8 (ld32 m p)) = d \<or> ucast (drop_bit 16 (ld32 m p)) = d \<or>
      ucast (drop_bit 24 (ld32 m p)) = d"
    using assms by (auto simp: bytes_4)
  then show ?thesis
    using DETECTNULL_zero_byte [of "ld32 m p XOR strchr_mask d"] xor_mask_byte [of 0 "ld32 m p" d]
      xor_mask_byte [of 8 "ld32 m p" d] xor_mask_byte [of 16 "ld32 m p" d] xor_mask_byte [of 24 "ld32 m p" d]
    by auto
qed

lemma memchr_words_first:
  "case memchr_words m p (strchr_mask d) n of (q, k) \<Rightarrow>
     map_option (padd q) (first_byte (bytes m q k) d) = map_option (padd p) (first_byte (bytes m p n) d)"
proof (induction m p "strchr_mask d" n rule: memchr_words.induct)
  case (1 m p n)
  show ?case
  proof (cases "4 \<le> n \<and> \<not> DETECTNULL (ld32 m p XOR strchr_mask d) \<noteq> 0")
    case True
    have "d \<notin> set (bytes m p 4)" using detect_char True by blast
    moreover have "bytes m p n = bytes m p 4 @ bytes m (padd p 4) (n - 4)" using bytes_add [of m p 4 "n - 4"] True by simp
    ultimately have "map_option (padd (padd p 4)) (first_byte (bytes m (padd p 4) (n - 4)) d) = map_option (padd p) (first_byte (bytes m p n) d)"
      by (simp add: first_byte_append option.map_comp comp_def padd_fun)
    then show ?thesis using 1 True by (subst memchr_words.simps) (simp split: prod.splits)
  next
    case False
    then show ?thesis by (subst memchr_words.simps) auto
  qed
qed

lemma memchr_align_first:
  "case memchr_align m p d n of
     Inl r \<Rightarrow> r = map_option (padd p) (first_byte (bytes m p n) d)
   | Inr (q, k) \<Rightarrow> map_option (padd q) (first_byte (bytes m q k) d) = map_option (padd p) (first_byte (bytes m p n) d)"
proof (induction m p d n rule: memchr_align.induct)
  case (1 m p d n)
  show ?case
  proof (cases "UNALIGNED p \<and> n \<noteq> 0 \<and> m p \<noteq> d")
    case True
    then obtain k where n: "n = Suc k" by (cases n) simp_all
    have "map_option (padd (padd p 1)) (first_byte (bytes m (padd p 1) k) d) = map_option (padd p) (first_byte (bytes m p n) d)"
      using True by (simp add: n bytes_Suc first_byte_Cons option.map_comp comp_def padd_fun)
    then show ?thesis using 1 True n by (subst memchr_align.simps) (auto split: sum.splits prod.splits)
  next
    case False
    then show ?thesis
      by (subst memchr_align.simps) (cases n, auto simp: bytes_Suc first_byte_Cons bytes_def [of m p 0])
  qed
qed

lemma memchr_first: "memchr m p c n = map_option (padd p) (first_byte (bytes m p n) (ucast c))"
proof -
  let ?d = "ucast c :: u8"
  have w: "(case if \<not> k < 4 then memchr_words m q (strchr_mask ?d) k else (q, k) of (q, k) \<Rightarrow> memchr_bytes m q ?d k) =
      map_option (padd q) (first_byte (bytes m q k) ?d)" for q k
    using memchr_words_first [where m = m and p = q and d = ?d and n = k] by (auto simp: memchr_bytes_first split: prod.splits)
  show ?thesis
    using memchr_align_first [where m = m and p = p and d = ?d and n = n] w by (auto simp: memchr_def Let_def split: sum.splits prod.splits)
qed

lemma memscan_first:
  "unat c < 256 \<Longrightarrow> memscan m p c n = padd p (case first_byte (bytes m p n) (ucast c) of None \<Rightarrow> n | Some i \<Rightarrow> i)"
proof (induction n arbitrary: p)
  case 0
  then show ?case by (simp add: bytes_def)
next
  case (Suc n)
  have "ucast (m p) = c \<longleftrightarrow> m p = ucast c" using Suc.prems by (auto simp: word_eq_iff_unat unat_ucast_fits)
  then show ?case using Suc by (auto simp: bytes_Suc first_byte_Cons split: option.splits)
qed

unbundle bit_operations_syntax

section \<open>The zero-byte test is exact\<close>

lemma DETECTNULL_exact:
  assumes "DETECTNULL x \<noteq> 0"
  shows "ucast x = (0 :: u8) \<or> ucast (drop_bit 8 x) = (0 :: u8) \<or> ucast (drop_bit 16 x) = (0 :: u8) \<or> ucast (drop_bit 24 x) = (0 :: u8)"
proof (rule ccontr)
  assume nz: "\<not> ?thesis"
  obtain b0 b1 b2 b3 where b: "uint x = b0 + 256 * b1 + 65536 * b2 + 16777216 * b3" "b0 = uint (ucast x :: u8)"
    "b1 = uint (ucast (drop_bit 8 x) :: u8)" "b2 = uint (ucast (drop_bit 16 x) :: u8)" "b3 = uint (ucast (drop_bit 24 x) :: u8)"
    using word32_bytes [of x] by blast
  have pos: "0 < uint w" "uint w < 256" if "w \<noteq> 0" for w :: u8
  proof -
    have "uint w \<noteq> 0" using that by (metis uint_0_iff)
    then show "0 < uint w" using uint_ge_0 [of w] by linarith
    show "uint w < 256" using uint_lt2p [of w] by simp
  qed
  have r: "0 < b0" "b0 < 256" "0 < b1" "b1 < 256" "0 < b2" "b2 < 256" "0 < b3" "b3 < 256" using pos nz b(2-5) by auto
  define y where "y = x - 0x01010101"
  have "uint y = (uint x - 16843009) mod 4294967296" by (simp add: y_def uint_word_ariths)
  then have y: "uint y = (b0 - 1) + 256 * (b1 - 1) + 65536 * (b2 - 1) + 16777216 * (b3 - 1)"
  proof -
    have "0 \<le> uint x - 16843009" "uint x - 16843009 < 4294967296" using r b(1) by linarith+
    then have "uint y = uint x - 16843009" using \<open>uint y = (uint x - 16843009) mod 4294967296\<close> by simp
    then show ?thesis unfolding b(1) by simp
  qed
  have bit: "bit y k \<longrightarrow> bit x k" if k: "k \<in> {7, 15, 23, 31}" for k
  proof -
    have m: "bit w k \<longleftrightarrow> 2 ^ k \<le> uint w mod 2 ^ Suc k" for w :: u32 using k by (intro bit_word_mod) auto
    consider "k = 7" | "k = 15" | "k = 23" | "k = 31" using k by blast
    then show ?thesis
    proof cases
      case 1
      have "uint y mod 256 = b0 - 1" "uint x mod 256 = b0"
        by (rule mod_by_shift [where q = "(b1 - 1) + 256 * (b2 - 1) + 65536 * (b3 - 1)"]; use r y in simp)
          (rule mod_by_shift [where q = "b1 + 256 * b2 + 65536 * b3"]; use r b(1) in simp)
      then show ?thesis using m 1 by simp
    next
      case 2
      have "uint y mod 65536 = (b0 - 1) + 256 * (b1 - 1)" "uint x mod 65536 = b0 + 256 * b1"
        by (rule mod_by_shift [where q = "(b2 - 1) + 256 * (b3 - 1)"]; use r y in simp)
          (rule mod_by_shift [where q = "b2 + 256 * b3"]; use r b(1) in simp)
      then show ?thesis using m 2 r by simp
    next
      case 3
      have "uint y mod 16777216 = (b0 - 1) + 256 * (b1 - 1) + 65536 * (b2 - 1)" "uint x mod 16777216 = b0 + 256 * b1 + 65536 * b2"
        by (rule mod_by_shift [where q = "b3 - 1"]; use r y in simp)
          (rule mod_by_shift [where q = b3]; use r b(1) in simp)
      then show ?thesis using m 3 r by simp
    next
      case 4
      have "uint y mod 4294967296 = uint y" "uint x mod 4294967296 = uint x" using uint_lt2p [of y] uint_lt2p [of x] by simp_all
      then show ?thesis using m 4 r y b(1) by simp
    qed
  qed
  have "\<not> bit (DETECTNULL x) k" if "k < 32" for k
  proof -
    have "bit (0x80808080 :: u32) k \<Longrightarrow> k \<in> {7, 15, 23, 31}"
    proof -
      have e: "(0x80808080 :: u32) = push_bit 7 1 OR push_bit 15 1 OR push_bit 23 1 OR push_bit 31 1" by simp
      show "bit (0x80808080 :: u32) k \<Longrightarrow> k \<in> {7, 15, 23, 31}"
        unfolding e bit_or_iff bit_push_bit_iff bit_1_iff by auto
    qed
    then show ?thesis using bit [of k] by (auto simp: DETECTNULL_def bit_and_iff bit_not_iff y_def)
  qed
  then have "DETECTNULL x = 0" by (intro bit_word_eqI) simp
  then show False using assms by blast
qed

lemma DETECTNULL_bytes: "DETECTNULL (ld32 m p) \<noteq> 0 \<longleftrightarrow> 0 \<in> set (bytes m p 4)"
  using DETECTNULL_exact [of "ld32 m p"] DETECTNULL_zero_byte [of "ld32 m p"] by (auto simp: bytes_4)

text \<open>The reference: the first n bytes compared up to a terminator.\<close>

fun ncmp_ref :: "u8 list \<Rightarrow> u8 list \<Rightarrow> int" where
  "ncmp_ref (x # xs) (y # ys) = (if x = y then if x = 0 then 0 else ncmp_ref xs ys else uint x - uint y)"
| "ncmp_ref _ _ = 0"

lemma strncmp_bytes_ref: "0 < n \<Longrightarrow> strncmp_bytes m1 s1 m2 s2 n = ncmp_ref (bytes m1 s1 n) (bytes m2 s2 n)"
proof (induction n arbitrary: s1 s2)
  case (Suc n)
  then show ?case by (cases "n = 0") (simp_all add: bytes_Suc bytes_def [of _ _ 0])
qed simp

lemma ncmp_ref_same: "0 \<notin> set zs \<Longrightarrow> ncmp_ref (zs @ xs) (zs @ ys) = ncmp_ref xs ys"
  by (induction zs) simp_all

lemma ncmp_ref_zero: "0 \<in> set zs \<Longrightarrow> ncmp_ref (zs @ xs) (zs @ ys) = 0"
  by (induction zs) auto

lemma strncmp_words_ref:
  "0 < n \<Longrightarrow> case strncmp_words m1 a1 m2 a2 n of
     Inl r \<Rightarrow> r = ncmp_ref (bytes m1 a1 n) (bytes m2 a2 n)
   | Inr (s1, s2, k) \<Rightarrow> 0 < k \<and> ncmp_ref (bytes m1 s1 k) (bytes m2 s2 k) = ncmp_ref (bytes m1 a1 n) (bytes m2 a2 n)"
proof (induction m1 a1 m2 a2 n rule: strncmp_words.induct)
  case (1 m1 a1 m2 a2 n)
  show ?case
  proof (cases "4 \<le> n \<and> ld32 m1 a1 = ld32 m2 a2")
    case True
    then have b: "bytes m1 a1 4 = bytes m2 a2 4" by (simp add: bytes_4)
    have s: "bytes m1 a1 n = bytes m1 a1 4 @ bytes m1 (padd a1 4) (n - 4)" "bytes m2 a2 n = bytes m1 a1 4 @ bytes m2 (padd a2 4) (n - 4)"
      using bytes_add [of m1 a1 4 "n - 4"] bytes_add [of m2 a2 4 "n - 4"] True b by simp_all
    show ?thesis
    proof (cases "DETECTNULL (ld32 m1 a1) \<noteq> 0")
      case d: True
      then have "ncmp_ref (bytes m1 a1 n) (bytes m2 a2 n) = 0" unfolding s DETECTNULL_bytes by (rule ncmp_ref_zero)
      then show ?thesis using True d by (subst strncmp_words.simps) simp
    next
      case d: False
      then have e: "ncmp_ref (bytes m1 a1 n) (bytes m2 a2 n) = ncmp_ref (bytes m1 (padd a1 4) (n - 4)) (bytes m2 (padd a2 4) (n - 4))"
        unfolding s DETECTNULL_bytes by (intro ncmp_ref_same) simp
      show ?thesis
      proof (cases "n - 4 = 0")
        case n4: True
        then have "ncmp_ref (bytes m1 a1 n) (bytes m2 a2 n) = 0" using e by (simp add: bytes_def [of _ _ 0])
        then show ?thesis using True n4 by (subst strncmp_words.simps) simp
      next
        case n4: False
        then have w: "strncmp_words m1 a1 m2 a2 n = strncmp_words m1 (padd a1 4) m2 (padd a2 4) (n - 4)"
          using True d by (subst strncmp_words.simps) simp
        show ?thesis unfolding w e using 1 True d n4 by simp
      qed
    qed
  next
    case False
    then show ?thesis using 1(2) by (subst strncmp_words.simps) auto
  qed
qed

lemma strncmp_ref: "strncmp m1 s1 m2 s2 n = ncmp_ref (bytes m1 s1 n) (bytes m2 s2 n)"
proof (cases "n = 0")
  case True
  then show ?thesis by (simp add: strncmp_def bytes_def)
next
  case False
  then show ?thesis
    using strncmp_words_ref [where n = n and ?m1.0 = m1 and ?m2.0 = m2 and ?a1.0 = s1 and ?a2.0 = s2]
      strncmp_bytes_ref [of n m1 s1 m2 s2] strncmp_bytes_ref [where ?m1.0 = m1 and ?m2.0 = m2]
    by (auto simp: strncmp_def split: sum.splits prod.splits)
qed

unbundle bit_operations_syntax

section \<open>Searches in strings\<close>

text \<open>strrchr: lst (last) is the last occurrence so far; s moves behind each one found.\<close>

partial_function (option) strrchr_loop :: "'b mem \<Rightarrow> 'b ptr option \<Rightarrow> 'b ptr \<Rightarrow> u32 \<Rightarrow> 'b ptr option option" where
  "strrchr_loop m lst s i =
    do {
      r \<leftarrow> strchr m s i;
      (case r of None \<Rightarrow> Some lst | Some s \<Rightarrow> strrchr_loop m (Some s) (padd s 1) i)
    }"

definition strrchr :: "'b mem \<Rightarrow> 'b ptr \<Rightarrow> u32 \<Rightarrow> 'b ptr option option" where
  "strrchr m s i = (if i \<noteq> 0 then strrchr_loop m None s i else strchr m s i)"

fun strnchr :: "cview \<Rightarrow> nat \<Rightarrow> nat \<Rightarrow> u8 \<Rightarrow> nat option" where
  "strnchr s k 0 c = None"
| "strnchr s k (Suc count) c = (if s k \<noteq> 0 then if s k = c then Some k else strnchr s (Suc k) count c else None)"

text \<open>strnstr: does s2 match at index k (from its index i on), and the search over the first len indices.\<close>

partial_function (option) match_at :: "cview \<Rightarrow> cview \<Rightarrow> nat \<Rightarrow> nat \<Rightarrow> bool option" where
  "match_at s1 s2 k i =
    (if s2 i = 0 then Some True else if s2 i \<noteq> s1 (k + i) then Some False else match_at s1 s2 k (i + 1))"

fun strnstr_loop :: "cview \<Rightarrow> cview \<Rightarrow> nat \<Rightarrow> nat \<Rightarrow> nat option option" where
  "strnstr_loop s1 s2 k 0 = Some None"
| "strnstr_loop s1 s2 k (Suc n) =
    do { b \<leftarrow> match_at s1 s2 k 0; if b then Some (Some k) else strnstr_loop s1 s2 (Suc k) n }"

definition strnstr :: "cview \<Rightarrow> cview \<Rightarrow> nat \<Rightarrow> nat option option" where
  "strnstr s1 s2 len =
    (if s1 0 = 0 then Some (if s2 0 = 0 then Some 0 else None) else strnstr_loop s1 s2 0 len)"

section \<open>Comparison without case\<close>

text \<open>
  tolower is a macro that mentions its argument three times.  Applied to *p++ it evaluates it for each
  test: the value, and the pointer moved on by two or three.
\<close>

definition tolower_incr :: "cview \<Rightarrow> nat \<Rightarrow> int \<times> nat" where
  "tolower_incr v i =
    (if of_char CHR ''A'' \<le> v i then
       if v (i + 1) \<le> of_char CHR ''Z''
       then (uint (v (i + 2)) - uint (word_of_int (65 - 97) :: u8), i + 3)
       else (uint (v (i + 2)), i + 3)
     else (uint (v (i + 1)), i + 2))"

partial_function (option) strcasecmp_loop :: "cview \<Rightarrow> cview \<Rightarrow> nat \<Rightarrow> nat \<Rightarrow> int option" where
  "strcasecmp_loop ucs1 ucs2 i j =
    (let (c1, i) = tolower_incr ucs1 i;
         (c2, j) = tolower_incr ucs2 j;
         d = c1 - c2
     in if d \<noteq> 0 \<or> c2 = 0 then Some d else strcasecmp_loop ucs1 ucs2 i j)"

definition strcasecmp :: "cview \<Rightarrow> cview \<Rightarrow> int option" where
  "strcasecmp s1 s2 = strcasecmp_loop s1 s2 0 0"

fun strncasecmp_loop :: "cview \<Rightarrow> cview \<Rightarrow> nat \<Rightarrow> nat \<Rightarrow> nat \<Rightarrow> int \<Rightarrow> int" where
  "strncasecmp_loop ucs1 ucs2 i j 0 d = d"
| "strncasecmp_loop ucs1 ucs2 i j (Suc n) d =
    (let (c1, i) = tolower_incr ucs1 i;
         (c2, j) = tolower_incr ucs2 j;
         d = c1 - c2
     in if d \<noteq> 0 \<or> c2 = 0 then d else strncasecmp_loop ucs1 ucs2 i j n d)"

definition strncasecmp :: "cview \<Rightarrow> cview \<Rightarrow> nat \<Rightarrow> int" where
  "strncasecmp s1 s2 n = strncasecmp_loop s1 s2 0 0 n 0"

text \<open>strnicmp gives tolower a variable and stores its value in an unsigned char.\<close>

definition lower_char :: "u8 \<Rightarrow> u8" where
  "lower_char c = word_of_int (tolower c)"

fun strnicmp_loop :: "cview \<Rightarrow> cview \<Rightarrow> nat \<Rightarrow> nat \<Rightarrow> int" where
  "strnicmp_loop s1 s2 i 0 = 0"
| "strnicmp_loop s1 s2 i (Suc len) =
    (if s1 i = 0 \<or> s2 i = 0 then uint (s1 i) - uint (s2 i)
     else if s1 i = s2 i \<or> lower_char (s1 i) = lower_char (s2 i) then
       if len = 0 then 0 else strnicmp_loop s1 s2 (Suc i) len
     else uint (lower_char (s1 i)) - uint (lower_char (s2 i)))"

definition strnicmp :: "cview \<Rightarrow> cview \<Rightarrow> nat \<Rightarrow> int" where
  "strnicmp s1 s2 len = (if len = 0 then 0 else strnicmp_loop s1 s2 0 len)"

section \<open>strim\<close>

partial_function (option) skip_spaces :: "cview \<Rightarrow> nat \<Rightarrow> nat option" where
  "skip_spaces str i = (if isspace (str i) then skip_spaces str (Suc i) else Some i)"

text \<open>The loop from the end: k characters of s are left.\<close>

fun trim_end :: "cview \<Rightarrow> nat \<Rightarrow> nat" where
  "trim_end v 0 = 0"
| "trim_end v (Suc k) = (if isspace (v k) then trim_end v k else Suc k)"

definition strim :: "'b mem \<Rightarrow> 'b ptr \<Rightarrow> ('b ptr \<times> 'b mem) option" where
  "strim m s =
    do {
      i \<leftarrow> skip_spaces (view m s) 0;
      let s = padd s i;
      sz \<leftarrow> strlen m s;
      Some (s, if sz = 0 then m else st8 m (padd s (trim_end (view m s) sz)) 0)
    }"

section \<open>Copies on the heap\<close>

text \<open>malloc is a parameter here: a fresh block and the memory after the call, or no block.\<close>

definition strdup :: "(nat \<Rightarrow> 'b mem \<Rightarrow> 'b ptr option \<times> 'b mem) \<Rightarrow> 'b mem \<Rightarrow> 'b ptr option \<Rightarrow> ('b ptr option \<times> 'b mem) option" where
  "strdup malloc m s =
    do {
      len \<leftarrow> (case s of None \<Rightarrow> Some 0 | Some s \<Rightarrow> map_option Suc (strlen m s));
      Some (if len \<noteq> 0 then
              case malloc len m of
                (None, m) \<Rightarrow> (None, m)
              | (Some d, m) \<Rightarrow> (Some d, memcpy m d (the s) len)
            else (None, m))
    }"

definition strndup :: "(nat \<Rightarrow> 'b mem \<Rightarrow> 'b ptr option \<times> 'b mem) \<Rightarrow> 'b mem \<Rightarrow> 'b ptr option \<Rightarrow> nat \<Rightarrow> ('b ptr option \<times> 'b mem) option" where
  "strndup malloc m s n =
    do {
      len \<leftarrow> (case s of None \<Rightarrow> Some 0 | Some s \<Rightarrow> map_option Suc (strlen m s));
      let len = (if n < len then n else len);
      Some (if len \<noteq> 0 then
              case malloc len m of
                (None, m) \<Rightarrow> (None, m)
              | (Some d, m) \<Rightarrow> (Some d, memcpy m d (the s) len)
            else (None, m))
    }"

section \<open>ffs and fls\<close>

text \<open>The two binary searches; n is a char and r an int, far from their limits.  The shift of ffs is
  arithmetic.\<close>

definition ffs_step :: "nat \<Rightarrow> u32 \<times> nat \<Rightarrow> u32 \<times> nat" where
  "ffs_step k = (\<lambda>(i, n). if i AND mask k = 0 then (signed_drop_bit k i, n + k) else (i, n))"

definition ffs :: "u32 \<Rightarrow> nat" where
  "ffs i =
    (let (i, n) = ffs_step 2 (ffs_step 4 (ffs_step 8 (ffs_step 16 (i, 1))))
     in if i \<noteq> 0 then n + unat ((i + 1) AND 1) else 0)"

definition fls_step :: "nat \<Rightarrow> u32 \<times> nat \<Rightarrow> u32 \<times> nat" where
  "fls_step k = (\<lambda>(x, r). if x AND NOT (mask (32 - k)) = 0 then (push_bit k x, r - k) else (x, r))"

definition fls :: "u32 \<Rightarrow> nat" where
  "fls x = (if x = 0 then 0 else snd (fls_step 1 (fls_step 2 (fls_step 4 (fls_step 8 (fls_step 16 (x, 32)))))))"

lemma ffs_step_first:
  assumes "first_at (bit i) f" "f < 32"
  shows "\<exists>i'. ffs_step k (i, n) = (i', if k \<le> f then n + k else n) \<and> first_at (bit i') (if k \<le> f then f - k else f)"
proof (cases "k \<le> f")
  case True
  have "i AND mask k = 0"
    using assms(1) True by (intro bit_word_eqI) (auto simp: bit_and_iff bit_mask_iff first_at_def)
  moreover have "bit (signed_drop_bit k i) j = bit i (j + k)" if "j + k < 32" for j
    using that by (auto simp: bit_signed_drop_bit_iff add.commute)
  then have "first_at (bit (signed_drop_bit k i)) (f - k)"
    using assms True by (auto simp: first_at_def)
  ultimately show ?thesis using True by (simp add: ffs_step_def)
next
  case False
  then have "bit (i AND mask k) f" using assms by (simp add: first_at_def bit_and_iff bit_mask_iff)
  then have "i AND mask k \<noteq> 0" by auto
  then show ?thesis using False assms(1) by (simp add: ffs_step_def)
qed

lemma ffs_first:
  assumes "first_at (bit i) f" "f < 32"
  shows "ffs i = f + 1"
proof -
  obtain i1 where 1: "ffs_step 16 (i, 1) = (i1, if 16 \<le> f then 17 else 1)" "first_at (bit i1) (if 16 \<le> f then f - 16 else f)"
    using ffs_step_first [OF assms, of 16 1] by auto
  define f1 where "f1 = (if 16 \<le> f then f - 16 else f)"
  define n1 :: nat where "n1 = (if 16 \<le> f then 17 else 1)"
  have f1: "f1 < 16" "n1 + f1 = f + 1" using assms(2) by (auto simp: f1_def n1_def)
  obtain i2 where 2: "ffs_step 8 (i1, n1) = (i2, if 8 \<le> f1 then n1 + 8 else n1)" "first_at (bit i2) (if 8 \<le> f1 then f1 - 8 else f1)"
    using ffs_step_first [of i1 f1 8 n1] 1(2) f1 by (auto simp: f1_def)
  define f2 where "f2 = (if 8 \<le> f1 then f1 - 8 else f1)"
  define n2 where "n2 = (if 8 \<le> f1 then n1 + 8 else n1)"
  have f2: "f2 < 8" "n2 + f2 = f + 1" using f1 by (auto simp: f2_def n2_def)
  obtain i3 where 3: "ffs_step 4 (i2, n2) = (i3, if 4 \<le> f2 then n2 + 4 else n2)" "first_at (bit i3) (if 4 \<le> f2 then f2 - 4 else f2)"
    using ffs_step_first [of i2 f2 4 n2] 2(2) f2 by (auto simp: f2_def)
  define f3 where "f3 = (if 4 \<le> f2 then f2 - 4 else f2)"
  define n3 where "n3 = (if 4 \<le> f2 then n2 + 4 else n2)"
  have f3: "f3 < 4" "n3 + f3 = f + 1" using f2 by (auto simp: f3_def n3_def)
  obtain i4 where 4: "ffs_step 2 (i3, n3) = (i4, if 2 \<le> f3 then n3 + 2 else n3)" "first_at (bit i4) (if 2 \<le> f3 then f3 - 2 else f3)"
    using ffs_step_first [of i3 f3 2 n3] 3(2) f3 by (auto simp: f3_def)
  define f4 where "f4 = (if 2 \<le> f3 then f3 - 2 else f3)"
  define n4 where "n4 = (if 2 \<le> f3 then n3 + 2 else n3)"
  have f4: "f4 < 2" "n4 + f4 = f + 1" using f3 by (auto simp: f4_def n4_def)
  have b: "first_at (bit i4) f4" using 4(2) by (simp add: f4_def)
  then have nz: "i4 \<noteq> 0" by (auto simp: first_at_def)
  have "(i4 + 1) AND 1 = (if bit i4 0 then 0 else 1)" by (auto simp: and_one_eq mod_2_eq_odd bit_0)
  then have e: "unat ((i4 + 1) AND 1) = f4"
    using b f4(1) by (cases "f4 = 0") (auto simp: first_at_def less_2_cases_iff)
  have "ffs i = n4 + unat ((i4 + 1) AND 1)"
    using 1(1) 2(1) 3(1) 4(1) nz by (simp add: ffs_def n1_def [symmetric] n2_def [symmetric] n3_def [symmetric] n4_def [symmetric])
  then show ?thesis using e f4(2) by simp
qed

definition last_at :: "(nat \<Rightarrow> bool) \<Rightarrow> nat \<Rightarrow> bool" where
  "last_at P n \<longleftrightarrow> P n \<and> (\<forall>i > n. \<not> P i)"

lemma fls_step_last:
  assumes "last_at (bit x) f" "f < 32" "k < 32"
  shows "\<exists>x'. fls_step k (x, r) = (x', if f < 32 - k then r - k else r) \<and> last_at (bit x') (if f < 32 - k then f + k else f)"
proof (cases "f < 32 - k")
  case True
  have "x AND NOT (mask (32 - k)) = 0"
    using assms(1) True by (intro bit_word_eqI) (auto simp: bit_and_iff bit_not_iff bit_mask_iff last_at_def, meson le_less_trans not_le)
  moreover have "last_at (bit (push_bit k x)) (f + k)"
    using assms True by (auto simp: last_at_def bit_push_bit_iff)
  ultimately show ?thesis using True by (simp add: fls_step_def)
next
  case False
  then have "bit (x AND NOT (mask (32 - k))) f" using assms by (simp add: last_at_def bit_and_iff bit_not_iff bit_mask_iff)
  then have "x AND NOT (mask (32 - k)) \<noteq> 0" by auto
  then show ?thesis using False assms(1) by (simp add: fls_step_def)
qed

lemma fls_last:
  assumes "last_at (bit x) f" "f < 32"
  shows "fls x = f + 1"
proof -
  have nz: "x \<noteq> 0" using assms(1) by (auto simp: last_at_def)
  obtain x1 where 1: "fls_step 16 (x, 32) = (x1, if f < 16 then 16 else 32)" "last_at (bit x1) (if f < 16 then f + 16 else f)"
    using fls_step_last [OF assms, of 16 32] by auto
  define f1 where "f1 = (if f < 16 then f + 16 else f)"
  define r1 :: nat where "r1 = (if f < 16 then 16 else 32)"
  have f1: "16 \<le> f1" "f1 < 32" "r1 + f1 = f + 32" "16 \<le> r1" using assms(2) by (auto simp: f1_def r1_def)
  obtain x2 where 2: "fls_step 8 (x1, r1) = (x2, if f1 < 24 then r1 - 8 else r1)" "last_at (bit x2) (if f1 < 24 then f1 + 8 else f1)"
    using fls_step_last [of x1 f1 8 r1] 1(2) f1 by (auto simp: f1_def)
  define f2 where "f2 = (if f1 < 24 then f1 + 8 else f1)"
  define r2 where "r2 = (if f1 < 24 then r1 - 8 else r1)"
  have f2: "24 \<le> f2" "f2 < 32" "r2 + f2 = f + 32" "8 \<le> r2" using f1 by (auto simp: f2_def r2_def)
  obtain x3 where 3: "fls_step 4 (x2, r2) = (x3, if f2 < 28 then r2 - 4 else r2)" "last_at (bit x3) (if f2 < 28 then f2 + 4 else f2)"
    using fls_step_last [of x2 f2 4 r2] 2(2) f2 by (auto simp: f2_def)
  define f3 where "f3 = (if f2 < 28 then f2 + 4 else f2)"
  define r3 where "r3 = (if f2 < 28 then r2 - 4 else r2)"
  have f3: "28 \<le> f3" "f3 < 32" "r3 + f3 = f + 32" "4 \<le> r3" using f2 by (auto simp: f3_def r3_def)
  obtain x4 where 4: "fls_step 2 (x3, r3) = (x4, if f3 < 30 then r3 - 2 else r3)" "last_at (bit x4) (if f3 < 30 then f3 + 2 else f3)"
    using fls_step_last [of x3 f3 2 r3] 3(2) f3 by (auto simp: f3_def)
  define f4 where "f4 = (if f3 < 30 then f3 + 2 else f3)"
  define r4 where "r4 = (if f3 < 30 then r3 - 2 else r3)"
  have f4: "30 \<le> f4" "f4 < 32" "r4 + f4 = f + 32" "2 \<le> r4" using f3 by (auto simp: f4_def r4_def)
  obtain x5 where 5: "fls_step 1 (x4, r4) = (x5, if f4 < 31 then r4 - 1 else r4)"
    using fls_step_last [of x4 f4 1 r4] 4(2) f4 by (auto simp: f4_def)
  have "fls x = (if f4 < 31 then r4 - 1 else r4)"
    using 1(1) 2(1) 3(1) 4(1) 5 nz by (simp add: fls_def r1_def [symmetric] r2_def [symmetric] r3_def [symmetric] r4_def [symmetric])
  then show ?thesis using f4 by auto
qed

unbundle bit_operations_syntax

section \<open>What the searches find\<close>

lemma cstr_view_drop: "cstr (view m p) s \<Longrightarrow> k \<le> length s \<Longrightarrow> cstr (view m (padd p k)) (drop k s)"
  by (auto simp: cstr_def)

text \<open>The last occurrence.\<close>

definition last_byte :: "u8 list \<Rightarrow> u8 \<Rightarrow> nat option" where
  "last_byte s c = (if c \<in> set s then Some (length s - 1 - length (takeWhile (\<lambda>x. x \<noteq> c) (rev s))) else None)"

lemma last_byte_snoc: "last_byte (s @ c # t) c = Some (length s + (case last_byte t c of None \<Rightarrow> 0 | Some k \<Rightarrow> Suc k))"
proof (cases "c \<in> set t")
  case True
  have "takeWhile (\<lambda>x. x \<noteq> c) (rev t @ c # rev s) = takeWhile (\<lambda>x. x \<noteq> c) (rev t)"
    using True by (intro takeWhile_append1) auto
  moreover have "length (takeWhile (\<lambda>x. x \<noteq> c) (rev t)) < length t"
    using True takeWhile_eq_all_conv [of "\<lambda>x. x \<noteq> c" "rev t"] length_takeWhile_le [of "\<lambda>x. x \<noteq> c" "rev t"]
    by (metis length_rev nat_less_le set_rev takeWhile_eq_take take_all order_refl)
  ultimately show ?thesis using True by (simp add: last_byte_def)
next
  case False
  then have "takeWhile (\<lambda>x. x \<noteq> c) (rev t @ c # rev s) = rev t"
    by (subst takeWhile_append2) auto
  then show ?thesis using False by (simp add: last_byte_def)
qed

lemma strrchr_loop_last:
  "cstr (view m p) s \<Longrightarrow> ucast i \<noteq> (0 :: u8) \<Longrightarrow>
   strrchr_loop m lst p i = Some (case last_byte s (ucast i) of None \<Rightarrow> lst | Some k \<Rightarrow> Some (padd p k))"
proof (induction "length s" arbitrary: s p lst rule: less_induct)
  case less
  let ?c = "ucast i :: u8"
  show ?case
  proof (cases "?c \<in> set s")
    case False
    then have "strchr m p i = Some None" using strchr_absent [OF less.prems(1) False less.prems(2)] by simp
    then show ?thesis using False by (subst strrchr_loop.simps) (simp add: last_byte_def)
  next
    case True
    then obtain a b where s: "s = a @ ?c # b" "?c \<notin> set a" by (meson split_list_first)
    have na: "a ! j \<noteq> ?c" if "j < length a" for j using nth_mem [OF that] s(2) by metis
    have "strchr m p i = Some (Some (padd p (length a)))"
      by (rule strchr_found [OF less.prems(1)]) (use s(1) na in \<open>simp add: first_at_def nth_append\<close>)
    then have e: "strrchr_loop m lst p i = strrchr_loop m (Some (padd p (length a))) (padd p (Suc (length a))) i"
      by (subst strrchr_loop.simps) simp
    have "cstr (view m (padd p (Suc (length a)))) b"
      using cstr_view_drop [OF less.prems(1), of "Suc (length a)"] s(1) by simp
    then have "strrchr_loop m (Some (padd p (length a))) (padd p (Suc (length a))) i =
        Some (case last_byte b ?c of None \<Rightarrow> Some (padd p (length a)) | Some k \<Rightarrow> Some (padd (padd p (Suc (length a))) k))"
      using less.hyps [of b] s(1) less.prems(2) by simp
    then show ?thesis unfolding e s(1) last_byte_snoc by (auto split: option.splits)
  qed
qed

section \<open>What strim leaves\<close>

lemma skip_spaces_run:
  assumes "\<forall>j < n. isspace (v (i + j))" "\<not> isspace (v (i + n))"
  shows "skip_spaces v i = Some (i + n)"
  using assms
proof (induction n arbitrary: i)
  case 0
  then show ?case by (subst skip_spaces.simps) simp
next
  case (Suc n)
  have "isspace (v i)" using Suc.prems(1) [rule_format, of 0] by simp
  moreover have "\<forall>j < n. isspace (v (Suc i + j))"
  proof (intro allI impI)
    fix j assume "j < n"
    then show "isspace (v (Suc i + j))" using Suc.prems(1) [rule_format, of "Suc j"] by simp
  qed
  ultimately show ?case using Suc.IH [of "Suc i"] Suc.prems(2) by (subst skip_spaces.simps) simp
qed

definition trimmed :: "u8 list \<Rightarrow> u8 list" where
  "trimmed s = rev (dropWhile isspace (rev (dropWhile isspace s)))"

lemma trim_end_length:
  "\<forall>j < length s. v j = s ! j \<Longrightarrow> trim_end v (length s) = length (dropWhile isspace (rev s))"
proof (induction s rule: rev_induct)
  case (snoc x s)
  then show ?case by (auto simp: nth_append)
qed simp

lemma dropWhile_rev_prefix: "\<exists>t. s = rev (dropWhile P (rev s)) @ t \<and> (\<forall>x \<in> set t. P x)"
proof (intro exI conjI)
  have "rev s = takeWhile P (rev s) @ dropWhile P (rev s)" by simp
  then show "s = rev (dropWhile P (rev s)) @ rev (takeWhile P (rev s))" by (metis rev_append rev_rev_ident)
  show "\<forall>x \<in> set (rev (takeWhile P (rev s))). P x" by (auto dest: set_takeWhileD)
qed

lemma strim_trims:
  assumes "cstr (view m p) s"
  shows "\<exists>m'. strim m p = Some (padd p (length (takeWhile isspace s)), m') \<and>
    cstr (view m' (padd p (length (takeWhile isspace s)))) (trimmed s) \<and>
    (\<forall>q. m' q \<noteq> m q \<longrightarrow> fst q = fst p \<and> snd p \<le> snd q \<and> snd q < snd p + length s)"
proof -
  let ?k = "length (takeWhile isspace s)" and ?b = "dropWhile isspace s"
  have s: "s = takeWhile isspace s @ ?b" by simp
  have kl: "?k \<le> length s" by (metis length_takeWhile_le)
  have sn: "view m p j = s ! j" if "j < length s" for j using assms that by (simp add: cstr_def)
  have ns0: "\<not> isspace 0" by (simp add: isspace_def)
  have "skip_spaces (view m p) 0 = Some (0 + ?k)"
  proof (rule skip_spaces_run)
    show "\<forall>j < ?k. isspace (view m p (0 + j))"
      using sn kl by (metis add_0 nth_mem order_less_le_trans set_takeWhileD takeWhile_nth)
    show "\<not> isspace (view m p (0 + ?k))"
    proof (cases "?k < length s")
      case True
      then show ?thesis using sn [OF True] nth_length_takeWhile [OF True] by simp
    next
      case False
      then have "?k = length s" using kl by simp
      then show ?thesis using assms ns0 by (simp add: cstr_def)
    qed
  qed
  then have sk: "skip_spaces (view m p) 0 = Some ?k" by simp
  have cb: "cstr (view m (padd p ?k)) ?b"
    using cstr_view_drop [OF assms kl] by (simp add: dropWhile_eq_drop)
  have lb: "?k + length ?b = length s" using s by (metis length_append)
  show ?thesis
  proof (cases "?b = []")
    case True
    then have "strim m p = Some (padd p ?k, m)" using sk strlen_cstr [OF cb] by (simp add: strim_def)
    moreover have "trimmed s = ?b" by (simp add: trimmed_def True)
    ultimately show ?thesis using cb by auto
  next
    case False
    let ?e = "length (dropWhile isspace (rev ?b))"
    let ?m = "st8 m (padd (padd p ?k) ?e) 0"
    have te: "trim_end (view m (padd p ?k)) (length ?b) = ?e"
      using cb by (intro trim_end_length) (simp add: cstr_def)
    have st: "strim m p = Some (padd p ?k, ?m)" using sk strlen_cstr [OF cb] False te by (simp add: strim_def Let_def del: dropWhile_eq_Nil_conv)
    obtain t where t: "?b = trimmed s @ t" using dropWhile_rev_prefix [of ?b isspace] by (auto simp: trimmed_def)
    have le: "length (trimmed s) = ?e" by (simp add: trimmed_def)
    have "cstr (view ?m (padd p ?k)) (trimmed s)"
      unfolding cstr_def
    proof (intro conjI allI impI)
      fix i assume i: "i < length (trimmed s)"
      then have "i < length ?b" "?b ! i = trimmed s ! i" by (subst t, simp)+ (simp add: nth_append)
      then have "m (padd (padd p ?k) i) = trimmed s ! i" "trimmed s ! i \<noteq> 0" using cb by (auto simp: cstr_def)
      then show "view ?m (padd p ?k) i = trimmed s ! i" "trimmed s ! i \<noteq> 0" using i le by (simp_all add: st8_apply)
    next
      show "view ?m (padd p ?k) (length (trimmed s)) = 0" by (simp add: le)
    qed
    moreover have "fst q = fst p \<and> snd p \<le> snd q \<and> snd q < snd p + length s \<or> (?e = length ?b \<and> m (padd (padd p ?k) ?e) = 0)" if "?m q \<noteq> m q" for q
    proof -
      have q: "q = padd (padd p ?k) ?e" using that by (auto simp: st8_apply split: if_splits)
      have "?e \<le> length ?b" by (metis length_dropWhile_le length_rev)
      then show ?thesis using q lb cb by (cases "?e = length ?b") (auto simp: cstr_def padd_def)
    qed
    then have "\<forall>q. ?m q \<noteq> m q \<longrightarrow> fst q = fst p \<and> snd p \<le> snd q \<and> snd q < snd p + length s"
      by (metis st8_apply)
    ultimately show ?thesis using st by blast
  qed
qed

lemma last_at_exists:
  assumes "(i :: u32) \<noteq> 0"
  obtains l where "last_at (bit i) l" "l < 32"
proof -
  obtain k where k: "bit i k" using assms bit_eq_iff [of i 0] by auto
  have lt: "j < 32" if "bit i j" for j using bit_imp_le_length [OF that] by simp
  define l where "l = Max {j. bit i j}"
  have fin: "finite {j. bit i j}" by (rule finite_subset [of _ "{..<32}"]) (use lt in auto)
  have "bit i l" using Max_in [OF fin] k by (auto simp: l_def)
  moreover have "\<not> bit i j" if "l < j" for j
    using Max_ge [OF fin, of j] that unfolding l_def by fastforce
  ultimately show thesis using that [of l] lt by (simp add: last_at_def)
qed

section \<open>Properties\<close>

lemma st_list_frame: "q \<notin> {padd p i |i. i < length xs} \<Longrightarrow> st_list m p xs q = m q"
proof (induction xs arbitrary: m p)
  case (Cons x xs)
  have "q \<noteq> p" "q \<notin> {padd (padd p 1) i |i. i < length xs}" using Cons.prems by (force simp: padd_def)+
  then show ?case using Cons.IH [of "padd p 1"] by (simp add: st8_apply)
qed simp

lemma strlcpy_bounded:
  assumes "cstr src t"
  shows "\<exists>m'. strlcpy m dst src siz = Some (length t, m') \<and> (0 < siz \<longrightarrow> cstr (view m' dst) (take (siz - 1) t)) \<and>
      (\<forall>q. q \<notin> {padd dst i |i. i < siz} \<longrightarrow> m' q = m q)"
proof -
  have t0: "0 \<notin> set t" using assms by (auto simp: cstr_def in_set_conv_nth)
  let ?c = "st_list m dst (take (siz - 1) t @ [0])"
  have "0 \<notin> set (take (siz - 1) t)" using t0 by (meson in_set_takeD)
  then have c: "cstr (view ?c dst) (take (siz - 1) t)" by (rule cstr_st_list)
  have "?c q = m q" if "0 < siz" "q \<notin> {padd dst i |i. i < siz}" for q
    by (rule st_list_frame) (use that in auto)
  then show ?thesis
    using c strlcpy_cstr [OF assms, of m dst siz] by (cases "siz = 0") auto
qed

lemma strlcat_bounded:
  assumes "cstr src t" "cstr (view m dst) s"
  shows "\<exists>m'. strlcat m dst src siz = Some (min siz (length s) + length t, m') \<and>
      (if length s < siz then cstr (view m' dst) (take (siz - 1) (s @ t)) else m' = m) \<and>
      (\<forall>q. q \<notin> {padd dst i |i. i < siz} \<longrightarrow> m' q = m q)"
proof (cases "length s < siz")
  case False
  then show ?thesis using strlcat_cstr [OF assms(2,1), of siz] by simp
next
  case True
  have t0: "0 \<notin> set t" and s0: "0 \<notin> set s" using assms by (auto simp: cstr_def in_set_conv_nth)
  let ?e = "st_list m (padd dst (length s)) (take (siz - length s - 1) t @ [0])"
  have f: "?e q = m q" if "q \<notin> {padd dst i |i. length s \<le> i \<and> i < siz}" for q
  proof (rule st_list_frame, rule notI)
    assume "q \<in> {padd (padd dst (length s)) i |i. i < length (take (siz - length s - 1) t @ [0])}"
    then obtain i where "q = padd dst (length s + i)" "i \<le> siz - length s - 1" by auto
    then have "q \<in> {padd dst i |i. length s \<le> i \<and> i < siz}" using True by (intro CollectI exI [of _ "length s + i"]) auto
    then show False using that by blast
  qed
  have "cstr (view ?e (padd dst (length s))) (take (siz - length s - 1) t)"
    by (rule cstr_st_list) (meson t0 in_set_takeD)
  then have e: "\<forall>i < length (take (siz - length s - 1) t). ?e (padd dst (length s + i)) = take (siz - length s - 1) t ! i"
    "?e (padd dst (length s + length (take (siz - length s - 1) t))) = 0" by (simp_all add: cstr_def)
  have old: "?e (padd dst i) = s ! i" if "i < length s" for i
    using f [of "padd dst i"] assms(2) that by (auto simp: cstr_def)
  have st: "take (siz - 1) (s @ t) = s @ take (siz - length s - 1) t" using True by simp
  have "cstr (view ?e dst) (take (siz - 1) (s @ t))"
    unfolding st cstr_def
  proof (intro conjI allI impI)
    fix i assume i: "i < length (s @ take (siz - length s - 1) t)"
    show "view ?e dst i = (s @ take (siz - length s - 1) t) ! i"
    proof (cases "i < length s")
      case True
      then show ?thesis using old by (simp add: nth_append)
    next
      case False
      then have "i - length s < length (take (siz - length s - 1) t)" using i unfolding length_append by linarith
      then show ?thesis using e(1) [rule_format, of "i - length s"] False by (simp add: nth_append)
    qed
    show "(s @ take (siz - length s - 1) t) ! i \<noteq> 0"
      using nth_mem [OF i] s0 t0 by (metis Un_iff in_set_takeD set_append)
  next
    show "view ?e dst (length (s @ take (siz - length s - 1) t)) = 0" using e(2) by simp
  qed
  moreover have "?e q = m q" if "q \<notin> {padd dst i |i. i < siz}" for q using f that by blast
  ultimately show ?thesis using True strlcat_cstr [OF assms(2,1), of siz] by auto
qed

text \<open>C34: strlcpy and strlcat return the length of the string they tried to make, never store outside the siz
  bytes at dst, and leave the string cut to siz - 1 characters, terminated, there (strlcat when dst held a
  string shorter than siz; otherwise it stores nothing).\<close>

theorem strlcpy_strlcat_bounded:
  assumes "cstr src t" "cstr (view m dst) s"
  shows "(\<exists>m'. strlcpy m dst src siz = Some (length t, m') \<and> (0 < siz \<longrightarrow> cstr (view m' dst) (take (siz - 1) t)) \<and>
      (\<forall>q. q \<notin> {padd dst i |i. i < siz} \<longrightarrow> m' q = m q)) \<and>
    (\<exists>m'. strlcat m dst src siz = Some (min siz (length s) + length t, m') \<and>
      (if length s < siz then cstr (view m' dst) (take (siz - 1) (s @ t)) else m' = m) \<and>
      (\<forall>q. q \<notin> {padd dst i |i. i < siz} \<longrightarrow> m' q = m q))"
  using strlcpy_bounded [OF assms(1)] strlcat_bounded [OF assms] by blast

theorem strlcpy_strlcat_bounded_witness:
  "\<exists>m'. strlcat (st_list (\<lambda>_. 7) ((), 1) [97, 98, 0]) ((), 1) (lit ''cdef'') 5 = Some (6, m') \<and>
     cstr (view m' ((), 1)) [97, 98, 99, 100] \<and> m' ((), 6) = 7"
proof -
  let ?m = "st_list (\<lambda>_. 7) ((), 1) [97, 98, 0] :: unit mem"
  have d: "cstr (view ?m ((), 1)) [97, 98]" using cstr_st_list [where r = "[]" and s = "[97, 98]" and m = "\<lambda>_. 7" and p = "((), 1)"] by simp
  have s: "cstr (lit ''cdef'') [99, 100, 101, 102]" by (auto simp: cstr_def lit_def nth_Cons less_Suc_eq split: nat.splits)
  obtain m' where m': "strlcat ?m ((), 1) (lit ''cdef'') 5 = Some (min 5 (length [97, 98 :: u8]) + length [99, 100, 101, 102 :: u8], m')"
    "if length [97, 98 :: u8] < 5 then cstr (view m' ((), 1)) (take (5 - 1) ([97, 98] @ [99, 100, 101, 102])) else m' = ?m"
    "\<forall>q. q \<notin> {padd ((), 1) i |i. i < 5} \<longrightarrow> m' q = ?m q"
    using strlcpy_strlcat_bounded [OF s d, of 5] by blast
  have "((), 6) \<notin> {padd ((), 1 :: nat) i |i. i < 5}" by (auto simp: padd_def)
  then have "m' ((), 6) = ?m ((), 6)" using m'(3) by blast
  then have "m' ((), 6) = 7" by (simp add: st8_apply)
  then show ?thesis using m'(1,2) by (intro exI [of _ m']) simp
qed

text \<open>C35: The word-at-a-time memchr and strncmp are their byte-wise references: the first byte of the range that
  equals c, and the difference of the first differing characters of the first n, none after a terminator.\<close>

theorem memchr_strncmp_ref:
  "memchr m p c n = map_option (padd p) (first_byte (bytes m p n) (ucast c)) \<and>
   strncmp m1 s1 m2 s2 k = ncmp_ref (bytes m1 s1 k) (bytes m2 s2 k)"
  by (simp add: memchr_first strncmp_ref)

text \<open>ffs and fls find the lowest and the highest set bit, counted from 1, and give 0 for 0.\<close>

theorem ffs_fls_bits:
  "(ffs i = 0 \<longleftrightarrow> i = 0) \<and> (fls i = 0 \<longleftrightarrow> i = 0) \<and> ffs i \<le> fls i \<and> fls i \<le> 32 \<and>
   (\<forall>k. bit i k \<longrightarrow> ffs i \<le> k + 1 \<and> k + 1 \<le> fls i) \<and>
   (i \<noteq> 0 \<longrightarrow> bit i (ffs i - 1) \<and> bit i (fls i - 1))"
proof (cases "i = 0")
  case True
  have "ffs 0 = 0" by (simp add: ffs_def ffs_step_def)
  then show ?thesis using True by (simp add: fls_def)
next
  case False
  then obtain k where k: "bit i k" using bit_eq_iff [of i 0] by auto
  have lt: "j < 32" if "bit i j" for j using bit_imp_le_length [OF that] by simp
  obtain f where f: "first_at (bit i) f" using first_at_exists [of "bit i", OF k] by blast
  obtain l where l: "last_at (bit i) l" using last_at_exists [OF False] by blast
  have v: "ffs i = f + 1" "fls i = l + 1"
    using ffs_first [OF f] fls_last [OF l] lt f l by (auto simp: first_at_def last_at_def)
  have "f \<le> j" "j \<le> l" if "bit i j" for j using f l that by (auto simp: first_at_def last_at_def not_le [symmetric])
  then show ?thesis using v f l False lt [of l] by (auto simp: first_at_def last_at_def)
qed

theorem ffs_fls_bits_witness: "bit (0x30 :: u32) (ffs 0x30 - 1) \<and> ffs 0x30 = 5 \<and> fls 0x30 = 6"
proof -
  have b: "bit (0x30 :: u32) k \<longleftrightarrow> k = 4 \<or> k = 5" for k
  proof -
    have "(0x30 :: u32) = push_bit 4 1 OR push_bit 5 1" by simp
    then show ?thesis by (simp only: bit_or_iff bit_push_bit_iff bit_1_iff) auto
  qed
  note f = ffs_fls_bits [of "0x30"]
  have "bit (0x30 :: u32) (ffs 0x30 - 1)" "bit (0x30 :: u32) (fls 0x30 - 1)" "ffs 0x30 \<noteq> 0" "fls 0x30 \<noteq> 0"
    "ffs 0x30 \<le> 4 + 1" "5 + 1 \<le> fls 0x30" using f b by auto
  then show ?thesis unfolding b by auto
qed

text \<open>The macro tolower makes strcasecmp skip characters: these two strings count as equal.\<close>

lemma strcasecmp_skips: "strcasecmp (lit ''ab'') (lit ''xy'') = Some 0"
  by (simp add: strcasecmp_def strcasecmp_loop.simps tolower_incr_def lit_def)

end
