(* ===== verification/TwoWay.thy ===== *)
theory TwoWay
  imports StrMore
begin

text \<open>
  lib/mylibc/string/str-two-way.h, strstr.c and memmem.c: substring search with the Two-Way algorithm, as
  configured for memory comparison without case folding (CANON_ELEMENT the identity, CMP_FUNC memcmp).  The
  needle and the haystack are views, AVAILABLE is an argument that gives the new haystack length.  The
  variables max_suffix and i that the code lets wrap below zero are kept plus one.
\<close>

section \<open>The factorization\<close>

text \<open>One of the two loops, lt the test of its first branch (a < b, then b < a).\<close>

partial_function (option) suffix_loop ::
  "(u8 \<Rightarrow> u8 \<Rightarrow> bool) \<Rightarrow> cview \<Rightarrow> nat \<Rightarrow> nat \<Rightarrow> nat \<Rightarrow> nat \<Rightarrow> nat \<Rightarrow> (nat \<times> nat) option" where
  "suffix_loop lt needle needle_len ms j k p =
    (if j + k < needle_len then
       let a = needle (j + k); b = needle (ms + k - 1) in
       if lt a b then suffix_loop lt needle needle_len ms (j + k) 1 (j + k + 1 - ms)
       else if a = b then
         if k \<noteq> p then suffix_loop lt needle needle_len ms j (k + 1) p
         else suffix_loop lt needle needle_len ms (j + p) 1 p
       else suffix_loop lt needle needle_len (j + 1) (j + 1) 1 1
     else Some (ms, p))"

definition critical_factorization :: "cview \<Rightarrow> nat \<Rightarrow> (nat \<times> nat) option" where
  "critical_factorization needle needle_len =
    do {
      (ms, p) \<leftarrow> suffix_loop (<) needle needle_len 0 0 1 1;
      (ms_rev, p_rev) \<leftarrow> suffix_loop (>) needle needle_len 0 0 1 1;
      Some (if ms_rev < ms then (ms, p) else (ms_rev, p_rev))
    }"

section \<open>Periods, suffixes and the critical position\<close>

definition period_from :: "cview \<Rightarrow> nat \<Rightarrow> nat \<Rightarrow> nat \<Rightarrow> bool" where
  "period_from x m l p \<longleftrightarrow> (\<forall>k. l \<le> k \<and> k + p < m \<longrightarrow> x k = x (k + p))"

definition local_rep :: "cview \<Rightarrow> nat \<Rightarrow> nat \<Rightarrow> nat \<Rightarrow> bool" where
  "local_rep x m l s \<longleftrightarrow> (\<forall>k < l. l \<le> k + s \<and> k + s < m \<longrightarrow> x k = x (k + s))"

text \<open>The suffix from q is smaller than the one from r.\<close>

definition suffix_less :: "(u8 \<Rightarrow> u8 \<Rightarrow> bool) \<Rightarrow> cview \<Rightarrow> nat \<Rightarrow> nat \<Rightarrow> nat \<Rightarrow> bool" where
  "suffix_less lt x m q r \<longleftrightarrow>
    (\<exists>t. (\<forall>t' < t. x (q + t') = x (r + t')) \<and> r + t < m \<and> q + t \<le> m \<and> (q + t = m \<or> lt (x (q + t)) (x (r + t))))"

definition max_suffix :: "(u8 \<Rightarrow> u8 \<Rightarrow> bool) \<Rightarrow> cview \<Rightarrow> nat \<Rightarrow> nat \<Rightarrow> bool" where
  "max_suffix lt x m i \<longleftrightarrow> i < m \<and> (\<forall>q < m. q \<noteq> i \<longrightarrow> suffix_less lt x m q i)"

definition order_on :: "(u8 \<Rightarrow> u8 \<Rightarrow> bool) \<Rightarrow> bool" where
  "order_on lt \<longleftrightarrow> (\<forall>a b. lt a b \<longrightarrow> \<not> lt b a) \<and> (\<forall>a b c. lt a b \<longrightarrow> lt b c \<longrightarrow> lt a c) \<and> (\<forall>a b. lt a b \<or> a = b \<or> lt b a)"

lemma order_onD: "order_on lt \<Longrightarrow> lt a b \<Longrightarrow> \<not> lt b a" "order_on lt \<Longrightarrow> \<not> lt a a"
  "order_on lt \<Longrightarrow> lt a b \<Longrightarrow> lt b c \<Longrightarrow> lt a c" "order_on lt \<Longrightarrow> \<not> lt a b \<Longrightarrow> a \<noteq> b \<Longrightarrow> lt b a"
  unfolding order_on_def by blast+

lemma order_on_less: "order_on (<)" "order_on (>)"
  by (auto simp: order_on_def)

lemma suffix_lessI:
  "(\<And>t'. t' < t \<Longrightarrow> x (q + t') = x (r + t')) \<Longrightarrow> r + t < m \<Longrightarrow> q + t < m \<Longrightarrow> lt (x (q + t)) (x (r + t)) \<Longrightarrow>
   suffix_less lt x m q r"
  unfolding suffix_less_def by (intro exI [of _ t]) auto

lemma suffix_less_prefix:
  "r < q \<Longrightarrow> q \<le> m \<Longrightarrow> (\<And>t. q + t < m \<Longrightarrow> x (q + t) = x (r + t)) \<Longrightarrow> suffix_less lt x m q r"
  unfolding suffix_less_def by (intro exI [of _ "m - q"]) auto

text \<open>At the first difference the order decides.\<close>

lemma suffix_less_at:
  assumes "order_on lt" "suffix_less lt x m q r" "\<And>t'. t' < u \<Longrightarrow> x (q + t') = x (r + t')"
    "x (q + u) \<noteq> x (r + u)" "q + u < m"
  shows "lt (x (q + u)) (x (r + u))"
proof -
  obtain t where t: "\<forall>t' < t. x (q + t') = x (r + t')" "r + t < m" "q + t \<le> m" "q + t = m \<or> lt (x (q + t)) (x (r + t))"
    using assms(2) unfolding suffix_less_def by blast
  have "\<not> u < t" using t(1) assms(4) by blast
  moreover have "\<not> t < u"
  proof
    assume "t < u"
    then have "x (q + t) = x (r + t)" "q + t < m" using assms(3,5) by simp_all
    then show False using t(4) order_onD(2) [OF assms(1)] by auto
  qed
  ultimately show ?thesis using t(4) assms(5) by auto
qed

lemma suffix_less_asym:
  assumes "order_on lt" "suffix_less lt x m q r" "suffix_less lt x m r q"
  shows False
proof -
  obtain t where t: "\<forall>t' < t. x (q + t') = x (r + t')" "r + t < m" "q + t \<le> m" "q + t = m \<or> lt (x (q + t)) (x (r + t))"
    using assms(2) unfolding suffix_less_def by blast
  obtain u where u: "\<forall>t' < u. x (r + t') = x (q + t')" "q + u < m" "r + u \<le> m" "r + u = m \<or> lt (x (r + u)) (x (q + u))"
    using assms(3) unfolding suffix_less_def by blast
  have "q + t \<noteq> m"
  proof
    assume q: "q + t = m"
    then have "u < t" using u(2) by simp
    then have "x (r + u) = x (q + u)" "r + u < m" using t(1,2) by simp_all
    then show False using u(4) order_onD(2) [OF assms(1)] by auto
  qed
  then have lt: "lt (x (q + t)) (x (r + t))" using t(4) by blast
  have "\<not> t < u" using u(1) lt order_onD(2) [OF assms(1)] by metis
  moreover have "\<not> u < t"
  proof
    assume "u < t"
    then have "x (q + u) = x (r + u)" "r + u < m" using t(1,2) by simp_all
    then show False using u(4) order_onD(2) [OF assms(1)] by auto
  qed
  ultimately have "u = t" by simp
  then show False using u(4) t(2) lt order_onD(1) [OF assms(1)] by auto
qed

lemma suffix_less_trans:
  assumes "order_on lt" "suffix_less lt x m q r" "suffix_less lt x m r s"
  shows "suffix_less lt x m q s"
proof -
  obtain t where t: "\<forall>t' < t. x (q + t') = x (r + t')" "r + t < m" "q + t \<le> m" "q + t = m \<or> lt (x (q + t)) (x (r + t))"
    using assms(2) unfolding suffix_less_def by blast
  obtain u where u: "\<forall>t' < u. x (r + t') = x (s + t')" "s + u < m" "r + u \<le> m" "r + u = m \<or> lt (x (r + u)) (x (s + u))"
    using assms(3) unfolding suffix_less_def by blast
  consider "t < u" | "u < t" | "t = u" by linarith
  then show ?thesis
  proof cases
    case 1
    then show ?thesis
      unfolding suffix_less_def using t u by (intro exI [of _ t]) auto
  next
    case 2
    then have "lt (x (r + u)) (x (s + u))" using u(4) t(2) by auto
    then show ?thesis
      unfolding suffix_less_def using t u 2 by (intro exI [of _ u]) auto
  next
    case 3
    then have "lt (x (r + u)) (x (s + u))" using u(4) t(2) by auto
    then show ?thesis
      unfolding suffix_less_def using t u 3 order_onD(3) [OF assms(1)] by (intro exI [of _ t]) auto
  qed
qed

text \<open>The critical factorization theorem: at the shorter of the two maximal suffixes every local repetition is
  a period of the whole word and longer than the left half.\<close>

lemma local_rep_long:
  assumes "order_on lt" "max_suffix lt x m l" "local_rep x m l s" "0 < s"
  shows "l < s"
proof (rule ccontr)
  assume "\<not> l < s"
  then have sl: "s \<le> l" by simp
  define q where "q = l - s"
  have q: "q < l" "q + s = l" using sl assms(4) by (simp_all add: q_def)
  have lm: "l < m" using assms(2) by (simp add: max_suffix_def)
  have "suffix_less lt x m q l" using assms(2) q(1) lm by (simp add: max_suffix_def)
  then obtain t where t: "\<forall>t' < t. x (q + t') = x (l + t')" "l + t < m" "lt (x (q + t)) (x (l + t))"
    using q(1) unfolding suffix_less_def by auto
  have "\<not> t < s"
  proof
    assume "t < s"
    then have "q + t < l" "l \<le> (q + t) + s" "(q + t) + s = l + t" using q by simp_all
    then have "x (q + t) = x (l + t)" using assms(3) t(2) unfolding local_rep_def by metis
    then show False using t(3) order_onD(2) [OF assms(1)] by metis
  qed
  then obtain u where u: "t = s + u" using le_Suc_ex by (metis not_less)
  have "suffix_less lt x m l (l + s)"
  proof (rule suffix_lessI [where t = u])
    fix t' assume "t' < u"
    then have "x (q + (s + t')) = x (l + (s + t'))" using t(1) u by simp
    then show "x (l + t') = x (l + s + t')" using q(2) by (simp add: add.assoc [symmetric])
  next
    show "lt (x (l + u)) (x (l + s + u))" using t(3) q(2) u by (simp add: add.assoc [symmetric])
  qed (use t(2) u in simp_all)
  moreover have "l + s < m" using t(2) u by simp
  then have "suffix_less lt x m (l + s) l" using assms(2,4) by (simp add: max_suffix_def)
  ultimately show False by (rule suffix_less_asym [OF assms(1)])
qed

lemma local_rep_period:
  assumes lt: "order_on lt" "\<And>a b. lt' a b \<longleftrightarrow> lt b a"
    and mx: "max_suffix lt x m l" "max_suffix lt' x m l'" "l' \<le> l"
    and s: "local_rep x m l s" "0 < s"
  shows "l < s" "period_from x m 0 s"
proof -
  have lt': "order_on lt'" using lt unfolding order_on_def by metis
  show ls: "l < s" by (rule local_rep_long [OF lt(1) mx(1) s])
  show "period_from x m 0 s"
  proof (rule ccontr)
    assume "\<not> ?thesis"
    then obtain k0 where k0: "k0 + s < m" "x k0 \<noteq> x (k0 + s)" by (auto simp: period_from_def)
    have "l \<le> k0" using k0 s(1) ls by (auto simp: local_rep_def not_less [symmetric])
    define P where "P u \<longleftrightarrow> l + u + s < m \<and> x (l + u) \<noteq> x (l + u + s)" for u
    have "P (k0 - l)" using k0 \<open>l \<le> k0\<close> by (simp add: P_def)
    then obtain u where "P u" "\<forall>u' < u. \<not> P u'" using exists_least_iff [of P] by blast
    then have u: "l + u + s < m" "x (l + u) \<noteq> x (l + u + s)"
      "\<And>u'. u' < u \<Longrightarrow> \<not> (l + u' + s < m \<and> x (l + u') \<noteq> x (l + u' + s))" by (simp_all add: P_def)
    have eq: "x (l + u') = x (l + s + u')" if "u' < u" for u' using u(1) u(3) [OF that] that by (simp add: ac_simps)
    have "suffix_less lt x m (l + s) l" using mx(1) u(1) s(2) by (simp add: max_suffix_def)
    then have a: "lt (x (l + s + u)) (x (l + u))"
      by (rule suffix_less_at [OF lt(1)]) (use eq u(1,2) in \<open>simp_all add: ac_simps\<close>)
    define d where "d = l - l'"
    define r where "r = l + s - d"
    have d: "l' + d = l" "r + d = l + s" "l' < r" using mx(3) ls by (simp_all add: d_def r_def)
    have "suffix_less lt' x m r l'" using mx(2) d u(1) by (simp add: max_suffix_def)
    then have "lt' (x (r + (d + u))) (x (l' + (d + u)))"
    proof (rule suffix_less_at [OF lt'])
      fix t' assume t': "t' < d + u"
      show "x (r + t') = x (l' + t')"
      proof (cases "t' < d")
        case True
        then have k: "l' + t' < l" "l \<le> (l' + t') + s \<and> (l' + t') + s < m" and e: "(l' + t') + s = r + t'"
          using d ls u(1) by simp_all
        have "x (l' + t') = x ((l' + t') + s)" using s(1) k unfolding local_rep_def by blast
        then show ?thesis unfolding e by simp
      next
        case False
        then have "t' - d < u" "d \<le> t'" using t' by simp_all
        then have "x (l + (t' - d)) = x (l + s + (t' - d))" "l + (t' - d) = l' + t'" "l + s + (t' - d) = r + t'"
          using eq [of "t' - d"] d by simp_all
        then show ?thesis by simp
      qed
    next
      have e: "r + (d + u) = l + u + s" "l' + (d + u) = l + u" using d by simp_all
      show "x (r + (d + u)) \<noteq> x (l' + (d + u))" unfolding e using u(2) by simp
    next
      show "r + (d + u) < m" using d u(1) by simp
    qed
    moreover have e: "r + (d + u) = l + s + u" "l' + (d + u) = l + u" using d by simp_all
    ultimately have "lt (x (l + u)) (x (l + s + u))" unfolding e lt(2) by simp
    then show False using a order_onD(1) [OF lt(1)] by blast
  qed
qed

section \<open>What the loops compute\<close>

text \<open>The invariant: e = j + k bytes have been read; from i = ms on they have period p, j + 1 is a multiple of p behind
  i; the first p of them are strictly greater than each of their rotations' beginnings; the suffixes from
  before i are smaller than the one from i.\<close>

definition word_max :: "(u8 \<Rightarrow> u8 \<Rightarrow> bool) \<Rightarrow> cview \<Rightarrow> nat \<Rightarrow> nat \<Rightarrow> bool" where
  "word_max lt x i p \<longleftrightarrow>
    (\<forall>q. 0 < q \<and> q < p \<longrightarrow> (\<exists>t. q + t < p \<and> (\<forall>t' < t. x (i + q + t') = x (i + t')) \<and> lt (x (i + q + t)) (x (i + t))))"

definition suffix_inv :: "(u8 \<Rightarrow> u8 \<Rightarrow> bool) \<Rightarrow> cview \<Rightarrow> nat \<Rightarrow> nat \<Rightarrow> nat \<Rightarrow> nat \<Rightarrow> nat \<Rightarrow> bool" where
  "suffix_inv lt x m i j k p \<longleftrightarrow>
    (\<exists>c > 0. j + 1 = i + p * c) \<and> 0 < k \<and> k \<le> p \<and> j + k \<le> m \<and>
    period_from x (j + k) i p \<and> word_max lt x i p \<and> (\<forall>q < i. suffix_less lt x m q i)"

lemma period_from_rep: "period_from x e i p \<Longrightarrow> i + t + p * d < e \<Longrightarrow> x (i + t + p * d) = x (i + t)"
proof (induction d)
  case (Suc d)
  have "x (i + t + p * d) = x (i + t + p * d + p)"
    using Suc.prems unfolding period_from_def by (elim allE [of _ "i + t + p * d"]) (simp add: algebra_simps)
  then show ?case using Suc by (simp add: algebra_simps)
qed simp

lemma word_max_less:
  assumes "order_on lt" "word_max lt x i p" "0 < p" "(q - i) mod p \<noteq> 0" "i < q" "q \<le> e" "e \<le> m" "period_from x e i p"
    and "e = m \<or> q + p \<le> e + (q - i) mod p"
  shows "suffix_less lt x m q i"
proof -
  define q0 where "q0 = (q - i) mod p"
  define d where "d = (q - i) div p"
  have q: "q = i + q0 + p * d" using assms(5) by (simp add: q0_def d_def add.assoc)
  have q0: "0 < q0" "q0 < p" using assms(3,4) by (simp_all add: q0_def)
  obtain t where t: "q0 + t < p" "\<forall>t' < t. x (i + q0 + t') = x (i + t')" "lt (x (i + q0 + t)) (x (i + t))"
    using assms(2) q0 unfolding word_max_def by blast
  have r: "x (q + t') = x (i + q0 + t')" if "q + t' < e" for t'
    using period_from_rep [OF assms(8), of "q0 + t'" d] that by (simp add: q ac_simps)
  show ?thesis
  proof (cases "q + t < e")
    case True
    show ?thesis
    proof (rule suffix_lessI [where t = t])
      show "x (q + t') = x (i + t')" if "t' < t" for t' using r [of t'] t(2) that True by simp
      show "lt (x (q + t)) (x (i + t))" using r [OF True] t(3) by simp
    qed (use True assms(5,7) in simp_all)
  next
    case False
    then have em: "e = m" using assms(9) t(1) by (auto simp: q0_def)
    show ?thesis
    proof (rule suffix_less_prefix)
      show "x (q + t') = x (i + t')" if "q + t' < m" for t'
        using r [of t'] t(2) that False em by simp
    qed (use assms(5,6) em in simp_all)
  qed
qed

lemma word_max_extend:
  assumes lt: "order_on lt" and w: "word_max lt x i p" "period_from x e i p"
    and e: "e = i + p * c + k'" "k' < p" "0 < c" and a: "lt (x e) (x (i + k'))"
  shows "word_max lt x i (e + 1 - i)"
  unfolding word_max_def
proof (intro allI impI)
  fix q assume q: "0 < q \<and> q < e + 1 - i"
  define n where "n = p * c + k'"
  have n: "e = i + n" "q \<le> n" using e q by (simp_all add: n_def)
  define q0 where "q0 = q mod p"
  define d where "d = q div p"
  have qd: "q = q0 + p * d" by (simp add: q0_def d_def)
  have q0p: "q0 < p" using e(2) by (simp add: q0_def)
  have r: "x (i + q + t') = x (i + q0 + t')" if "q + t' < n" for t'
    using period_from_rep [OF w(2), of "q0 + t'" d] that by (simp add: qd n(1) ac_simps)
  define u where "u = n - q"
  have u: "q + u = n" using n(2) by (simp add: u_def)
  show "\<exists>t. q + t < e + 1 - i \<and> (\<forall>t' < t. x (i + q + t') = x (i + t')) \<and> lt (x (i + q + t)) (x (i + t))"
  proof (cases "q0 = 0")
    case True
    have dc: "d \<le> c"
    proof (rule ccontr)
      assume "\<not> d \<le> c"
      then have "p * (c + 1) \<le> p * d" by (intro mult_le_mono2) simp
      then show False using qd True n(2) e(2) by (simp add: n_def)
    qed
    have "u = k' + p * (c - d)" using u qd True dc by (simp add: n_def diff_mult_distrib2)
    then have "x (i + u) = x (i + k')"
      using period_from_rep [OF w(2), of k' "c - d"] u q n(1) by (simp add: ac_simps)
    moreover have "i + q + u = e" using u n(1) by simp
    ultimately show ?thesis
      using r True a u n(1) by (intro exI [of _ u]) (auto simp: add.assoc)
  next
    case False
    obtain t where t: "q0 + t < p" "\<forall>t' < t. x (i + q0 + t') = x (i + t')" "lt (x (i + q0 + t)) (x (i + t))"
      using w(1) q0p False unfolding word_max_def by blast
    show ?thesis
    proof (cases "q + t < n")
      case True
      have "x (i + q + t') = x (i + t')" if "t' < t" for t' using r [of t'] t(2) that True by simp
      moreover have "lt (x (i + q + t)) (x (i + t))" using r [OF True] t(3) by simp
      ultimately show ?thesis using True n(1) by (intro exI [of _ t]) simp
    next
      case ge: False
      then have ut: "u \<le> t" by (simp add: u_def)
      have "q0 + u + p * d = k' + p * c" using u qd by (simp add: n_def)
      then have "(q0 + u + p * d) mod p = (k' + p * c) mod p" by simp
      then have "q0 + u = k'" using ut t(1) e(2) by simp
      then have b: "x (i + q0 + u) = x (i + k')" by (simp add: add.assoc)
      have "lt (x e) (x (i + u))"
      proof (cases "u = t")
        case True
        then show ?thesis using a b t(3) order_onD(3) [OF lt] by metis
      next
        case False
        then show ?thesis using a b t(2) ut by (metis le_neq_implies_less)
      qed
      moreover have "i + q + u = e" using u n(1) by simp
      moreover have "x (i + q + t') = x (i + t')" if "t' < u" for t' using r [of t'] t(2) that u ut by simp
      ultimately show ?thesis using u n(1) by (intro exI [of _ u]) (auto simp: add.assoc)
    qed
  qed
qed

lemma suffix_inv_end:
  assumes "order_on lt" "suffix_inv lt x m i j k p" "\<not> j + k < m"
  shows "max_suffix lt x m i \<and> period_from x m i p \<and> 0 < p \<and> i + p \<le> m \<and> (\<forall>r. 0 < r \<and> r < p \<longrightarrow> \<not> period_from x m i r)"
proof -
  obtain c where c: "0 < c" "j + 1 = i + p * c" using assms(2) unfolding suffix_inv_def by blast
  have iv: "0 < k" "k \<le> p" "j + k = m" "period_from x m i p" "word_max lt x i p" "\<forall>q < i. suffix_less lt x m q i"
    using assms(2,3) unfolding suffix_inv_def by auto
  have "p \<le> p * c" using c(1) by simp
  then have ip: "i + p \<le> m" using c(2) iv(1,3) by linarith
  have "suffix_less lt x m q i" if q: "q < m" "q \<noteq> i" for q
  proof (cases "q < i")
    case True
    then show ?thesis using iv(6) by blast
  next
    case False
    then have iq: "i < q" using q(2) by simp
    show ?thesis
    proof (cases "(q - i) mod p = 0")
      case True
      then obtain d where d: "q = i + p * d" using iq by (metis add_diff_inverse_nat dvd_def mod_0_imp_dvd not_less_iff_gr_or_eq)
      show ?thesis
        by (rule suffix_less_prefix [OF iq]) (use q period_from_rep [OF iv(4)] d in \<open>simp_all add: ac_simps\<close>)
    next
      case False
      then show ?thesis using word_max_less [OF assms(1) iv(5) _ False iq _ _ iv(4)] iv(1,2) q(1) by simp
    qed
  qed
  moreover have "\<not> period_from x m i r" if r: "0 < r" "r < p" for r
  proof
    assume pr: "period_from x m i r"
    obtain t where t: "r + t < p" "lt (x (i + r + t)) (x (i + t))" using iv(5) r unfolding word_max_def by blast
    have "x (i + t) = x (i + t + r)" using pr t(1) ip unfolding period_from_def by (elim allE [of _ "i + t"]) simp
    then show False using t(2) order_onD(2) [OF assms(1)] by (metis add.assoc add.commute)
  qed
  moreover have "i < m" using ip iv(1,2) by linarith
  ultimately show ?thesis using iv ip by (auto simp: max_suffix_def)
qed

lemma suffix_inv_less:
  assumes "order_on lt" "suffix_inv lt x m i j k p" "j + k < m" "lt (x (j + k)) (x (i + k - 1))"
  shows "suffix_inv lt x m i (j + k) 1 (j + k + 1 - i)"
proof -
  obtain c where c: "0 < c" "j + 1 = i + p * c" using assms(2) unfolding suffix_inv_def by blast
  have iv: "0 < k" "k \<le> p" "period_from x (j + k) i p" "word_max lt x i p" "\<forall>q < i. suffix_less lt x m q i"
    using assms(2) unfolding suffix_inv_def by auto
  have e: "j + k = i + p * c + (k - 1)" "k - 1 < p" "i + k - 1 = i + (k - 1)" using c iv(1,2) by simp_all
  have "word_max lt x i (j + k + 1 - i)"
    by (rule word_max_extend [OF assms(1) iv(4,3) e(1,2) c(1)]) (use assms(4) e(3) in simp)
  moreover have "j + k + 1 = i + (j + k + 1 - i) * 1" using e(1) by simp
  moreover have "period_from x (j + k + 1) i (j + k + 1 - i)" by (auto simp: period_from_def)
  ultimately show ?thesis
    using iv(5) assms(3) e(1) unfolding suffix_inv_def by (intro conjI exI [of _ 1]) auto
qed

lemma suffix_inv_eq:
  assumes "suffix_inv lt x m i j k p" "j + k < m" "x (j + k) = x (i + k - 1)"
  shows "if k \<noteq> p then suffix_inv lt x m i j (k + 1) p else suffix_inv lt x m i (j + p) 1 p"
proof -
  obtain c where c: "0 < c" "j + 1 = i + p * c" using assms(1) unfolding suffix_inv_def by blast
  have iv: "0 < k" "k \<le> p" "period_from x (j + k) i p" "word_max lt x i p" "\<forall>q < i. suffix_less lt x m q i"
    using assms(1) unfolding suffix_inv_def by auto
  obtain c' where c': "c = Suc c'" using c(1) by (cases c) auto
  have e: "j + k = i + (k - 1) + p * c' + p" "i + k - 1 = i + (k - 1)" using c iv(1) c' by simp_all
  have "x (i + (k - 1) + p * c') = x (i + (k - 1))"
    by (rule period_from_rep [OF iv(3)]) (use e(1) iv(1,2) in simp)
  then have last: "x (i + (k - 1) + p * c') = x (i + (k - 1) + p * c' + p)" using assms(3) e by simp
  have p1: "period_from x (j + k + 1) i p"
    unfolding period_from_def
  proof (intro allI impI)
    fix t assume t: "i \<le> t \<and> t + p < j + k + 1"
    show "x t = x (t + p)"
    proof (cases "t + p < j + k")
      case True
      then show ?thesis using iv(3) t unfolding period_from_def by blast
    next
      case False
      then have "t = i + (k - 1) + p * c'" using t e(1) by simp
      then show ?thesis using last by simp
    qed
  qed
  show ?thesis
  proof (cases "k = p")
    case True
    have "j + p + 1 = i + p * Suc c" using c(2) by simp
    then have "\<exists>c > 0. j + p + 1 = i + p * c" by blast
    then show ?thesis using True iv p1 assms(2) unfolding suffix_inv_def by simp
  next
    case False
    then show ?thesis using c iv p1 assms(2) unfolding suffix_inv_def by auto
  qed
qed

lemma suffix_inv_greater:
  assumes lt: "order_on lt" and "suffix_inv lt x m i j k p" "j + k < m" "lt (x (i + k - 1)) (x (j + k))"
  shows "suffix_inv lt x m (j + 1) (j + 1) 1 1" "i < j + 1"
proof -
  obtain c where c: "0 < c" "j + 1 = i + p * c" using assms(2) unfolding suffix_inv_def by blast
  have iv: "0 < k" "k \<le> p" "period_from x (j + k) i p" "word_max lt x i p" "\<forall>q < i. suffix_less lt x m q i"
    using assms(2) unfolding suffix_inv_def by auto
  have b: "lt (x (i + (k - 1))) (x (j + 1 + (k - 1)))" "j + 1 + (k - 1) = j + k" using assms(4) iv(1) by simp_all
  have rep: "x (i + t + p * d) = x (i + t)" if "i + t + p * d < j + k" for t d by (rule period_from_rep [OF iv(3) that])
  have mult: "suffix_less lt x m (i + p * d) (j + 1)" if d: "d < c" for d
  proof (rule suffix_lessI [where t = "k - 1"])
    have "p * Suc d \<le> p * c" using d by (intro mult_le_mono2) simp
    then have le: "i + p * d + p \<le> j + 1" using c(2) by simp
    then have lo: "i + p * d + t < j + k" if "t < k" for t using that iv(1,2) by linarith
    show "x (i + p * d + t) = x (j + 1 + t)" if "t < k - 1" for t
    proof -
      have "i + t + p * d < j + k" "i + t + p * c < j + k" using lo [of t] that c(2) iv(1) by (simp_all add: ac_simps)
      then have "x (i + t + p * d) = x (i + t)" "x (i + t + p * c) = x (i + t)" using rep by blast+
      moreover have "i + t + p * c = j + 1 + t" "i + p * d + t = i + t + p * d" using c(2) by simp_all
      ultimately show ?thesis by metis
    qed
    have "x (i + (k - 1) + p * d) = x (i + (k - 1))"
      by (rule rep) (use lo [of "k - 1"] iv(1) in simp)
    then show "lt (x (i + p * d + (k - 1))) (x (j + 1 + (k - 1)))" using b(1) by (simp add: ac_simps)
    show "i + p * d + (k - 1) < m" using lo [of "k - 1"] iv(1) assms(3) by simp
  qed (use assms(3) iv(1) in simp)
  have "suffix_less lt x m q (j + 1)" if q: "q < j + 1" for q
  proof (cases "q < i")
    case True
    then show ?thesis using iv(5) mult [of 0] c(1) suffix_less_trans [OF lt] by (metis add_0_right mult_0_right)
  next
    case False
    define d where "d = (q - i) div p"
    have q': "q = i + (q - i) mod p + p * d" using False by (simp add: d_def)
    have dc: "d < c"
    proof -
      have "q - i < p * c" using q c(2) False by simp
      then show ?thesis unfolding d_def by (simp add: less_mult_imp_div_less mult.commute)
    qed
    show ?thesis
    proof (cases "(q - i) mod p = 0")
      case True
      then show ?thesis using mult [OF dc] q' by simp
    next
      case m: False
      then have iq: "i < q" using False by (cases "q = i") auto
      have "p * Suc d \<le> p * c" using dc by (intro mult_le_mono2) simp
      then have "q + p \<le> j + k + (q - i) mod p" using q' c(2) iv(1) by simp
      then have "suffix_less lt x m q i"
        using word_max_less [OF lt iv(4) _ m iq _ _ iv(3)] q iv(1,2) assms(3) by simp
      then show ?thesis using mult [of 0] c(1) suffix_less_trans [OF lt] by (metis add_0_right mult_0_right)
    qed
  qed
  then show "suffix_inv lt x m (j + 1) (j + 1) 1 1"
    using assms(3) iv(1) unfolding suffix_inv_def by (auto simp: period_from_def word_max_def)
  show "i < j + 1" using c iv(1,2) by simp
qed

lemma suffix_loop_result:
  assumes lt: "order_on lt"
  shows "suffix_inv lt x m i j k p \<Longrightarrow> \<exists>i' j' k' p'. suffix_loop lt x m i j k p = Some (i', p') \<and> suffix_inv lt x m i' j' k' p' \<and> \<not> j' + k' < m"
proof (induction "2 * m - (i + (j + k))" arbitrary: i j k p rule: less_induct)
  case less
  show ?case
  proof (cases "j + k < m")
    case False
    then show ?thesis using less.prems by (subst suffix_loop.simps) auto
  next
    case True
    have bd: "i \<le> j" "0 < k" "k \<le> p" "p \<le> j + 1 - i"
    proof -
      obtain c where c: "0 < c" "j + 1 = i + p * c" "0 < k" "k \<le> p" using less.prems unfolding suffix_inv_def by blast
      have "p \<le> p * c" using c(1) by simp
      then show "i \<le> j" "0 < k" "k \<le> p" "p \<le> j + 1 - i" using c by linarith+
    qed
    consider "lt (x (j + k)) (x (i + k - 1))" | "x (j + k) = x (i + k - 1)" | "lt (x (i + k - 1)) (x (j + k))"
      using order_onD(4) [OF lt] by blast
    then show ?thesis
    proof cases
      case 1
      have "suffix_loop lt x m i j k p = suffix_loop lt x m i (j + k) 1 (j + k + 1 - i)"
        using True 1 by (subst suffix_loop.simps) (simp add: Let_def)
      then show ?thesis
        using less.hyps [OF _ suffix_inv_less [OF lt less.prems True 1]] True bd by simp
    next
      case 2
      have n: "\<not> lt (x (j + k)) (x (i + k - 1))" using 2 order_onD(2) [OF lt] by simp
      note iv = suffix_inv_eq [OF less.prems True 2]
      show ?thesis
      proof (cases "k = p")
        case False
        have "suffix_loop lt x m i j k p = suffix_loop lt x m i j (k + 1) p"
          using True 2 n False by (subst suffix_loop.simps) (simp add: Let_def)
        then show ?thesis using less.hyps [of i j "k + 1" p] iv False True bd by simp
      next
        case kp: True
        have "suffix_loop lt x m i j k p = suffix_loop lt x m i (j + p) 1 p"
          using True 2 n kp by (subst suffix_loop.simps) (simp add: Let_def)
        then show ?thesis using less.hyps [of i "j + p" 1 p] iv kp True bd by simp
      qed
    next
      case 3
      have n: "\<not> lt (x (j + k)) (x (i + k - 1))" "x (j + k) \<noteq> x (i + k - 1)"
        using 3 order_onD(1,2) [OF lt] by metis+
      have "suffix_loop lt x m i j k p = suffix_loop lt x m (j + 1) (j + 1) 1 1"
        using True n by (subst suffix_loop.simps) (simp add: Let_def)
      then show ?thesis
        using less.hyps [OF _ suffix_inv_greater(1) [OF lt less.prems True 3]] True bd by simp
    qed
  qed
qed

lemma suffix_loop_max:
  assumes "order_on lt" "0 < m"
  shows "\<exists>i p. suffix_loop lt x m 0 0 1 1 = Some (i, p) \<and> max_suffix lt x m i \<and> period_from x m i p \<and> 0 < p \<and> i + p \<le> m \<and>
    (\<forall>r. 0 < r \<and> r < p \<longrightarrow> \<not> period_from x m i r)"
proof -
  have "suffix_inv lt x m 0 0 1 1"
    using assms(2) unfolding suffix_inv_def by (auto simp: period_from_def word_max_def)
  then obtain i j k p where r: "suffix_loop lt x m 0 0 1 1 = Some (i, p)" "suffix_inv lt x m i j k p" "\<not> j + k < m"
    using suffix_loop_result [OF assms(1), of x m 0 0 1 1] by blast
  show ?thesis using suffix_inv_end [OF assms(1) r(2,3)] r(1) by blast
qed

text \<open>The two facts the search relies on.\<close>

definition critical :: "cview \<Rightarrow> nat \<Rightarrow> nat \<Rightarrow> nat \<Rightarrow> bool" where
  "critical x m l p \<longleftrightarrow> 0 < p \<and> l + p \<le> m \<and> period_from x m l p \<and> (\<forall>r. 0 < r \<and> r < p \<longrightarrow> \<not> period_from x m l r) \<and>
    (\<forall>s > 0. local_rep x m l s \<longrightarrow> l < s \<and> period_from x m 0 s)"

lemma critical_factorization_critical:
  assumes "0 < m"
  shows "\<exists>l p. critical_factorization x m = Some (l, p) \<and> critical x m l p"
proof -
  obtain i p where i: "suffix_loop (<) x m 0 0 1 1 = Some (i, p)" "max_suffix (<) x m i" "period_from x m i p" "0 < p" "i + p \<le> m"
    "\<forall>r. 0 < r \<and> r < p \<longrightarrow> \<not> period_from x m i r" using suffix_loop_max [OF order_on_less(1) assms] by blast
  obtain i' p' where i': "suffix_loop (>) x m 0 0 1 1 = Some (i', p')" "max_suffix (>) x m i'" "period_from x m i' p'" "0 < p'" "i' + p' \<le> m"
    "\<forall>r. 0 < r \<and> r < p' \<longrightarrow> \<not> period_from x m i' r" using suffix_loop_max [OF order_on_less(2) assms] by blast
  show ?thesis
  proof (cases "i' < i")
    case True
    have "l < s \<and> period_from x m 0 s" if "local_rep x m l s" "0 < s" "l = i" for l s
      using local_rep_period [OF order_on_less(1) _ i(2) i'(2), of s] that True by auto
    then show ?thesis using i i' True by (simp add: critical_factorization_def critical_def)
  next
    case False
    have "l < s \<and> period_from x m 0 s" if "local_rep x m l s" "0 < s" "l = i'" for l s
      using local_rep_period [OF order_on_less(2) _ i'(2) i(2), of s] that False by auto
    then show ?thesis using i i' False by (simp add: critical_factorization_def critical_def)
  qed
qed

section \<open>The search\<close>

text \<open>The two scans of a window: the right half from i up to a limit, the left half downwards (i plus one is the
  argument); the value is where the scan stops.\<close>

function scan_right :: "cview \<Rightarrow> cview \<Rightarrow> nat \<Rightarrow> nat \<Rightarrow> nat \<Rightarrow> nat" where
  "scan_right needle haystack j limit i =
    (if i < limit \<and> needle i = haystack (i + j) then scan_right needle haystack j limit (i + 1) else i)"
  by pat_completeness auto
termination by (relation "measure (\<lambda>(x, y, j, limit, i). limit - i)") auto

declare scan_right.simps [simp del]

fun scan_left :: "cview \<Rightarrow> cview \<Rightarrow> nat \<Rightarrow> nat \<Rightarrow> nat \<Rightarrow> nat" where
  "scan_left needle haystack j memory 0 = 0"
| "scan_left needle haystack j memory (Suc i) =
    (if memory < Suc i \<and> needle i = haystack (i + j) then scan_left needle haystack j memory i else Suc i)"

text \<open>One round of a search loop either finds the needle at j or gives the next j and memory.  The two loops
  without memory keep it at 0.\<close>

datatype outcome = Found | Next nat nat

definition short_periodic :: "cview \<Rightarrow> cview \<Rightarrow> nat \<Rightarrow> nat \<Rightarrow> nat \<Rightarrow> nat \<Rightarrow> nat \<Rightarrow> outcome" where
  "short_periodic needle haystack needle_len suffix period j memory =
    (let i = scan_right needle haystack j needle_len (max suffix memory) in
     if needle_len \<le> i then
       let i = scan_left needle haystack j memory suffix in
       if i < memory + 1 then Found else Next (j + period) (needle_len - period)
     else Next (j + (i - suffix) + 1) 0)"

definition short_distinct :: "cview \<Rightarrow> cview \<Rightarrow> nat \<Rightarrow> nat \<Rightarrow> nat \<Rightarrow> nat \<Rightarrow> nat \<Rightarrow> outcome" where
  "short_distinct needle haystack needle_len suffix period j memory =
    (let i = scan_right needle haystack j needle_len suffix in
     if needle_len \<le> i then
       if scan_left needle haystack j 0 suffix = 0 then Found else Next (j + period) memory
     else Next (j + (i - suffix) + 1) memory)"

text \<open>shift_table, and the loops of two_way_long_needle that consult it first.\<close>

definition shift_table :: "cview \<Rightarrow> nat \<Rightarrow> u8 \<Rightarrow> nat" where
  "shift_table needle needle_len =
    foldl (\<lambda>t i. t(needle i := needle_len - i - 1)) (\<lambda>_. needle_len) [0..<needle_len]"

definition long_periodic :: "cview \<Rightarrow> cview \<Rightarrow> nat \<Rightarrow> nat \<Rightarrow> nat \<Rightarrow> nat \<Rightarrow> nat \<Rightarrow> outcome" where
  "long_periodic needle haystack needle_len suffix period j memory =
    (let shift = shift_table needle needle_len (haystack (j + needle_len - 1)) in
     if 0 < shift then
       Next (j + (if memory \<noteq> 0 \<and> shift < period then needle_len - period else shift)) 0
     else
       let i = scan_right needle haystack j (needle_len - 1) (max suffix memory) in
       if needle_len - 1 \<le> i then
         let i = scan_left needle haystack j memory suffix in
         if i < memory + 1 then Found else Next (j + period) (needle_len - period)
       else Next (j + (i - suffix) + 1) 0)"

definition long_distinct :: "cview \<Rightarrow> cview \<Rightarrow> nat \<Rightarrow> nat \<Rightarrow> nat \<Rightarrow> nat \<Rightarrow> nat \<Rightarrow> outcome" where
  "long_distinct needle haystack needle_len suffix period j memory =
    (let shift = shift_table needle needle_len (haystack (j + needle_len - 1)) in
     if 0 < shift then Next (j + shift) memory
     else
       let i = scan_right needle haystack j (needle_len - 1) suffix in
       if needle_len - 1 \<le> i then
         if scan_left needle haystack j 0 suffix = 0 then Found else Next (j + period) memory
       else Next (j + (i - suffix) + 1) memory)"

text \<open>The loop itself, while AVAILABLE holds; it gives the new haystack length when it does.\<close>

partial_function (option) search_loop ::
  "(nat \<Rightarrow> nat \<Rightarrow> nat option) \<Rightarrow> (nat \<Rightarrow> nat \<Rightarrow> outcome) \<Rightarrow> nat \<Rightarrow> nat \<Rightarrow> nat \<Rightarrow> nat option option" where
  "search_loop available round haystack_len j memory =
    (case available haystack_len j of
       None \<Rightarrow> Some None
     | Some haystack_len \<Rightarrow>
         (case round j memory of
            Found \<Rightarrow> Some (Some j)
          | Next j memory \<Rightarrow> search_loop available round haystack_len j memory))"

definition two_way_short_needle ::
  "(nat \<Rightarrow> nat \<Rightarrow> nat option) \<Rightarrow> 'b mem \<Rightarrow> 'b ptr \<Rightarrow> nat \<Rightarrow> 'b ptr \<Rightarrow> nat \<Rightarrow> 'b ptr option option" where
  "two_way_short_needle available m haystack haystack_len needle needle_len =
    do {
      (suffix, period) \<leftarrow> critical_factorization (view m needle) needle_len;
      r \<leftarrow> search_loop available
        (if memcmp m needle m (padd needle period) suffix = 0
         then short_periodic (view m needle) (view m haystack) needle_len suffix period
         else short_distinct (view m needle) (view m haystack) needle_len suffix (max suffix (needle_len - suffix) + 1))
        haystack_len 0 0;
      Some (map_option (padd haystack) r)
    }"

definition two_way_long_needle ::
  "(nat \<Rightarrow> nat \<Rightarrow> nat option) \<Rightarrow> 'b mem \<Rightarrow> 'b ptr \<Rightarrow> nat \<Rightarrow> 'b ptr \<Rightarrow> nat \<Rightarrow> 'b ptr option option" where
  "two_way_long_needle available m haystack haystack_len needle needle_len =
    do {
      (suffix, period) \<leftarrow> critical_factorization (view m needle) needle_len;
      r \<leftarrow> search_loop available
        (if memcmp m needle m (padd needle period) suffix = 0
         then long_periodic (view m needle) (view m haystack) needle_len suffix period
         else long_distinct (view m needle) (view m haystack) needle_len suffix (max suffix (needle_len - suffix) + 1))
        haystack_len 0 0;
      Some (map_option (padd haystack) r)
    }"

section \<open>Rounds skip no occurrence\<close>

definition occurs :: "cview \<Rightarrow> nat \<Rightarrow> cview \<Rightarrow> nat \<Rightarrow> bool" where
  "occurs x m y j \<longleftrightarrow> (\<forall>k < m. x k = y (j + k))"

lemma scan_right_result:
  "i \<le> limit \<Longrightarrow> i \<le> scan_right x y j limit i \<and> scan_right x y j limit i \<le> limit \<and>
    (\<forall>k. i \<le> k \<and> k < scan_right x y j limit i \<longrightarrow> x k = y (j + k)) \<and>
    (scan_right x y j limit i < limit \<longrightarrow>
      x (scan_right x y j limit i) \<noteq> y (j + scan_right x y j limit i))"
proof (induction "limit - i" arbitrary: i)
  case 0
  then show ?case by (auto simp: scan_right.simps)
next
  case (Suc d)
  show ?case
  proof (cases "x i = y (i + j)")
    case True
    have e: "scan_right x y j limit i = scan_right x y j limit (i + 1)"
      using True Suc.hyps(2) by (subst scan_right.simps) auto
    have "d = limit - (i + 1)" "i + 1 \<le> limit" using Suc.hyps(2) by simp_all
    note ih = Suc.hyps(1) [OF this]
    have "x k = y (j + k)" if "i \<le> k" "k < scan_right x y j limit (i + 1)" for k
      using ih that True by (cases "k = i") (auto simp: add.commute)
    moreover have "i \<le> scan_right x y j limit (i + 1)" using ih by linarith
    ultimately show ?thesis using ih unfolding e by blast
  next
    case False
    then have "scan_right x y j limit i = i" by (simp add: scan_right.simps)
    then show ?thesis using False Suc.prems by (auto simp: add.commute)
  qed
qed

lemma scan_left_result:
  "scan_left x y j memory l \<le> l \<and>
   (\<forall>k. scan_left x y j memory l \<le> k \<and> k < l \<longrightarrow> x k = y (j + k)) \<and>
   (memory < scan_left x y j memory l \<longrightarrow> (\<exists>k < l. x k \<noteq> y (j + k)))"
proof (induction l)
  case (Suc l)
  show ?case
  proof (cases "memory < Suc l \<and> x l = y (l + j)")
    case True
    then have "scan_left x y j memory (Suc l) = scan_left x y j memory l" by simp
    then show ?thesis using Suc True by (auto simp: less_Suc_eq add.commute)
  next
    case False
    then have "scan_left x y j memory (Suc l) = Suc l" by (subst scan_left.simps) auto
    then show ?thesis using False by (auto simp: add.commute)
  qed
qed simp

text \<open>The right half of the needle, from its start l to i, is seen at j.\<close>

definition right_seen :: "cview \<Rightarrow> cview \<Rightarrow> nat \<Rightarrow> nat \<Rightarrow> nat \<Rightarrow> bool" where
  "right_seen x y j l i \<longleftrightarrow> (\<forall>k. l \<le> k \<and> k < i \<longrightarrow> x k = y (j + k))"

lemma occurs_local_rep:
  assumes "right_seen x y j l i" "occurs x m y (j + s)" "s \<le> i - l \<or> i = m"
  shows "local_rep x m l s"
  unfolding local_rep_def
proof (intro allI impI)
  fix k assume k: "k < l" "l \<le> k + s \<and> k + s < m"
  then have "k + s < i" using assms(3) by auto
  then have "x (k + s) = y (j + (k + s))" using assms(1) k unfolding right_seen_def by blast
  moreover have "x k = y (j + s + k)" using assms(2) k unfolding occurs_def by simp
  ultimately show "x k = x (k + s)" by (simp add: ac_simps)
qed

lemma shift_right:
  assumes c: "critical x m l p" and r: "right_seen x y j l i" "l \<le> i" "i < m" "x i \<noteq> y (j + i)"
    and j0: "j \<le> j0" "j0 < j + (i - l) + 1"
  shows "\<not> occurs x m y j0"
proof
  assume o: "occurs x m y j0"
  define s where "s = j0 - j"
  have s: "j0 = j + s" "s \<le> i - l" using j0 by (simp_all add: s_def)
  show False
  proof (cases "s = 0")
    case True
    then show False using o s(1) r(3,4) by (simp add: occurs_def)
  next
    case False
    have "local_rep x m l s" using occurs_local_rep [OF r(1)] o s by simp
    then have p: "period_from x m 0 s" using c False unfolding critical_def by blast
    have si: "i - s + s = i" using s(2) r(2) by simp
    have "x (i - s) = x (i - s + s)" using p si r(3) unfolding period_from_def by (metis zero_le)
    moreover have "x (i - s) = y (j + s + (i - s))" using o s(1) r(3) by (simp add: occurs_def)
    moreover have "j + s + (i - s) = j + i" using si by simp
    ultimately show False using r(4) si by metis
  qed
qed

lemma shift_periodic:
  assumes c: "critical x m l p" and r: "right_seen x y j l m" and j0: "j < j0" "j0 < j + p"
  shows "\<not> occurs x m y j0"
proof
  assume o: "occurs x m y j0"
  define s where "s = j0 - j"
  have s: "j0 = j + s" "0 < s" "s < p" using j0 by (simp_all add: s_def)
  have "local_rep x m l s" using occurs_local_rep [OF r] o s by simp
  then have "period_from x m l s" using c s unfolding critical_def period_from_def by blast
  then show False using c s unfolding critical_def by blast
qed

text \<open>Without the period in the left half every local repetition is longer than both halves.\<close>

lemma shift_distinct:
  assumes c: "critical x m l p" and d: "\<exists>k < l. x k \<noteq> x (k + p)" and r: "right_seen x y j l m"
    and j0: "j < j0" "j0 < j + (max l (m - l) + 1)"
  shows "\<not> occurs x m y j0"
proof
  assume o: "occurs x m y j0"
  define s where "s = j0 - j"
  have s: "j0 = j + s" "0 < s" "s \<le> max l (m - l)" using j0 by (simp_all add: s_def)
  have lr: "local_rep x m l s" using occurs_local_rep [OF r] o s by simp
  then have ls: "l < s" and ps: "period_from x m 0 s" using c s unfolding critical_def by blast+
  have sm: "s \<le> m - l" using s(3) ls by simp
  have cp: "0 < p" "period_from x m l p" using c by (simp_all add: critical_def)
  define q where "q = s div p"
  define t where "t = s mod p"
  have st: "s = t + p * q" by (simp add: q_def t_def)
  have right: "x (k + t) = x (k + s)" if "k < l" "l \<le> k + t" for k
  proof -
    have "x (l + (k + t - l) + p * q) = x (l + (k + t - l))"
      by (rule period_from_rep [OF cp(2)]) (use that st sm ls in simp)
    moreover have "l + (k + t - l) = k + t" using that by simp
    ultimately show ?thesis using st by (simp add: ac_simps)
  qed
  show False
  proof (cases "t = 0")
    case False
    have "local_rep x m l t"
      unfolding local_rep_def
    proof (intro allI impI)
      fix k assume k: "k < l" "l \<le> k + t \<and> k + t < m"
      have "x k = x (k + s)" using lr k(1) ls sm unfolding local_rep_def by simp
      then show "x k = x (k + t)" using right [of k] k by simp
    qed
    then have "period_from x m l t" using c False unfolding critical_def period_from_def by blast
    moreover have "t < p" using cp(1) by (simp add: t_def)
    ultimately show False using c False unfolding critical_def by blast
  next
    case True
    then obtain q' where q': "s = p + p * q'" using st s(2) by (cases q) auto
    obtain k where k: "k < l" "x k \<noteq> x (k + p)" using d by blast
    have a: "x k = x (k + s)" using ps k(1) sm ls unfolding period_from_def by simp
    show False
    proof (cases "l \<le> k + p")
      case True
      have "x (l + (k + p - l) + p * q') = x (l + (k + p - l))"
        by (rule period_from_rep [OF cp(2)]) (use True k(1) q' sm ls in simp)
      moreover have "l + (k + p - l) = k + p" using True by simp
      ultimately show False using a k(2) q' by (simp add: ac_simps)
    next
      case False
      have "x (k + p) = x (k + p + s)" using ps False sm ls unfolding period_from_def by simp
      moreover have "x (k + s) = x (k + s + p)" using cp(2) False ls sm unfolding period_from_def by simp
      ultimately show False using a k(2) by (simp add: ac_simps)
    qed
  qed
qed

text \<open>The table: the distance of a byte's last occurrence from the needle's end.\<close>

lemma shift_table_fold:
  "n \<le> m \<Longrightarrow> foldl (\<lambda>t i. t(x i := m - i - 1)) (\<lambda>_. m) [0..<n] c =
    (if \<exists>i < n. x i = c then m - 1 - Max {i. i < n \<and> x i = c} else m)"
proof (induction n)
  case (Suc n)
  show ?case
  proof (cases "x n = c")
    case True
    have "Max {i. i < Suc n \<and> x i = c} = n" by (rule Max_eqI) (use True in auto)
    then show ?thesis using True Suc.prems by auto
  next
    case False
    have "{i. i < Suc n \<and> x i = c} = {i. i < n \<and> x i = c}" using False by (auto simp: less_Suc_eq)
    then show ?thesis using False Suc by (auto simp: less_Suc_eq)
  qed
qed simp

lemma shift_table_le:
  assumes "x i = c" "i < m"
  shows "shift_table x m c \<le> m - 1 - i"
proof -
  have "i \<le> Max {i. i < m \<and> x i = c}" by (rule Max_ge) (use assms in auto)
  moreover have "shift_table x m c = m - 1 - Max {i. i < m \<and> x i = c}"
    using shift_table_fold [of m m x c] assms unfolding shift_table_def by auto
  ultimately show ?thesis by simp
qed

lemma shift_table_last:
  assumes "shift_table x m c = 0" "0 < m"
  shows "x (m - 1) = c"
proof -
  have ex: "\<exists>i < m. x i = c" using shift_table_fold [of m m x c] assms unfolding shift_table_def by (auto split: if_splits)
  then have e: "m - 1 - Max {i. i < m \<and> x i = c} = 0" using shift_table_fold [of m m x c] assms unfolding shift_table_def by simp
  have "Max {i. i < m \<and> x i = c} \<in> {i. i < m \<and> x i = c}" by (rule Max_in) (use ex in auto)
  then have "Max {i. i < m \<and> x i = c} < m \<and> x (Max {i. i < m \<and> x i = c}) = c" by blast
  moreover have "Max {i. i < m \<and> x i = c} = m - 1" using e calculation by linarith
  ultimately show ?thesis by simp
qed

lemma shift_table_bound: "shift_table x m c \<le> m"
  using shift_table_fold [of m m x c] unfolding shift_table_def by auto

lemma shift_bad_byte:
  assumes "j \<le> j0" "j0 < j + shift_table x m (y (j + m - 1))"
  shows "\<not> occurs x m y j0"
proof
  assume o: "occurs x m y j0"
  define s where "s = j0 - j"
  have s: "j0 = j + s" "s < shift_table x m (y (j + m - 1))" using assms by (simp_all add: s_def)
  have sm: "s < m" using s(2) shift_table_bound [of x m "y (j + m - 1)"] by simp
  have "x (m - 1 - s) = y (j0 + (m - 1 - s))" using o sm by (simp add: occurs_def)
  moreover have "j0 + (m - 1 - s) = j + m - 1" using s(1) sm by simp
  ultimately have "x (m - 1 - s) = y (j + m - 1)" by simp
  then have "shift_table x m (y (j + m - 1)) \<le> m - 1 - (m - 1 - s)" by (rule shift_table_le) (use sm in simp)
  then show False using s(2) sm by simp
qed

text \<open>With the memory of a period: no occurrence can start before the byte that is out of place.\<close>

lemma shift_memory:
  assumes p: "period_from x m 0 p" and mem: "\<forall>k < m - p. x k = y (j + k)"
    and sh: "0 < shift_table x m (y (j + m - 1))" and j0: "j \<le> j0" "j0 < j + (m - p)"
  shows "\<not> occurs x m y j0"
proof
  assume o: "occurs x m y j0"
  define s where "s = j0 - j"
  have s: "j0 = j + s" "s < m - p" using j0 by (simp_all add: s_def)
  define k where "k = m - 1 - s - p"
  have k: "k + p + s = m - 1" "k + s = m - 1 - p" using s(2) by (simp_all add: k_def)
  have "x (k + p) = y (j0 + (k + p))" using o k s(2) by (simp add: occurs_def)
  moreover have "j0 + (k + p) = j + m - 1" using k s by linarith
  ultimately have "x (k + p) = y (j + m - 1)" by simp
  moreover have "x k = x (k + p)" using p k s(2) unfolding period_from_def by simp
  moreover have "x k = y (j0 + k)" using o k s(2) by (simp add: occurs_def)
  moreover have "x (k + s) = y (j + (k + s))" using mem k s(2) by simp
  moreover have "x (k + s) = x (k + s + p)" using p k s(2) unfolding period_from_def by simp
  ultimately have "x (k + s + p) = y (j + m - 1)" using s(1) by (simp add: ac_simps)
  then have "x (m - 1) = y (j + m - 1)" using k(1) by (simp add: ac_simps)
  then have "shift_table x m (y (j + m - 1)) \<le> m - 1 - (m - 1)" by (rule shift_table_le) (use s in simp)
  then show False using sh by simp
qed

section \<open>The rounds are sound\<close>

text \<open>What a round at j may assume of its memory, and what it owes.\<close>

definition remembers :: "cview \<Rightarrow> nat \<Rightarrow> cview \<Rightarrow> nat \<Rightarrow> nat \<Rightarrow> nat \<Rightarrow> bool" where
  "remembers x m y p j memory \<longleftrightarrow> memory = 0 \<or> memory = m - p \<and> (\<forall>k < memory. x k = y (j + k))"

definition sound_round :: "cview \<Rightarrow> nat \<Rightarrow> cview \<Rightarrow> (nat \<Rightarrow> nat \<Rightarrow> bool) \<Rightarrow> (nat \<Rightarrow> nat \<Rightarrow> outcome) \<Rightarrow> bool" where
  "sound_round x m y R rnd \<longleftrightarrow> (\<forall>j memory. R j memory \<longrightarrow>
     (case rnd j memory of
        Found \<Rightarrow> occurs x m y j
      | Next j' memory' \<Rightarrow> j < j' \<and> R j' memory' \<and> (\<forall>j0. j \<le> j0 \<and> j0 < j' \<longrightarrow> \<not> occurs x m y j0)))"

lemma memcmp_left: "memcmp m n m (padd n p) l = 0 \<longleftrightarrow> (\<forall>k < l. view m n k = view m n (k + p))"
  by (auto simp: memcmp_0_iff list_eq_iff_nth_eq add.commute)

lemma whole_period:
  assumes "critical x m l p" "\<forall>k < l. x k = x (k + p)"
  shows "period_from x m 0 p" "l < p"
proof -
  show p: "period_from x m 0 p"
    using assms unfolding critical_def period_from_def by (metis not_le zero_le)
  then have "local_rep x m l p" unfolding period_from_def local_rep_def by auto
  then show "l < p" using assms(1) unfolding critical_def by blast
qed

text \<open>The round after the right half has matched or not, shared by the four loops.\<close>

lemma periodic_round:
  assumes c: "critical x m l p" and e: "\<forall>k < l. x k = x (k + p)" and R: "remembers x m y p j memory"
    and lim: "lim \<le> m" "m - 1 \<le> lim" "lim < m \<longrightarrow> x (m - 1) = y (j + (m - 1))"
  shows "case (let i = scan_right x y j lim (max l memory) in
     if lim \<le> i then let i = scan_left x y j memory l in if i < memory + 1 then Found else Next (j + p) (m - p)
     else Next (j + (i - l) + 1) 0) of
      Found \<Rightarrow> occurs x m y j
    | Next j' memory' \<Rightarrow> j < j' \<and> remembers x m y p j' memory' \<and> (\<forall>j0. j \<le> j0 \<and> j0 < j' \<longrightarrow> \<not> occurs x m y j0)"
proof -
  note w = whole_period [OF c e]
  have lp: "0 < p" "l + p \<le> m" using c by (simp_all add: critical_def)
  have mx: "max l memory \<le> lim" using R lp lim(2) unfolding remembers_def by auto
  define i where "i = scan_right x y j lim (max l memory)"
  have i: "max l memory \<le> i" "i \<le> lim" "\<And>k. max l memory \<le> k \<Longrightarrow> k < i \<Longrightarrow> x k = y (j + k)"
    "i < lim \<Longrightarrow> x i \<noteq> y (j + i)"
    using scan_right_result [OF mx, of x y j] by (auto simp: i_def)
  have mem: "x k = y (j + k)" if "k < memory" for k using R that unfolding remembers_def by auto
  have seen: "right_seen x y j l i"
    unfolding right_seen_def using i(3) mem by (meson max.bounded_iff not_le)
  show ?thesis
  proof (cases "lim \<le> i")
    case False
    then have "i < m" "x i \<noteq> y (j + i)" "l \<le> i" using i lim by auto
    then show ?thesis using shift_right [OF c seen] False by (auto simp: i_def [symmetric] Let_def remembers_def)
  next
    case True
    have all: "right_seen x y j l m"
      unfolding right_seen_def
    proof (intro allI impI)
      fix k assume k: "l \<le> k \<and> k < m"
      show "x k = y (j + k)"
      proof (cases "k < lim")
        case True
        then show ?thesis using seen k \<open>lim \<le> i\<close> unfolding right_seen_def by simp
      next
        case False
        then have "k = m - 1" "lim < m" using k lim by auto
        then show ?thesis using lim(3) by blast
      qed
    qed
    define i' where "i' = scan_left x y j memory l"
    have i': "\<And>k. i' \<le> k \<Longrightarrow> k < l \<Longrightarrow> x k = y (j + k)" "memory < i' \<Longrightarrow> \<exists>k < l. x k \<noteq> y (j + k)"
      using scan_left_result [of x y j memory l] by (auto simp: i'_def)
    show ?thesis
    proof (cases "i' < memory + 1")
      case f: True
      have "x k = y (j + k)" if k: "k < m" for k
      proof (cases "k < memory")
        case False
        then show ?thesis using i'(1) [of k] f all k unfolding right_seen_def by (cases "k < l") auto
      qed (rule mem)
      then show ?thesis using True f by (simp add: i_def [symmetric] i'_def [symmetric] Let_def occurs_def)
    next
      case f: False
      then have "\<not> occurs x m y j" using i'(2) lp unfolding occurs_def by fastforce
      moreover have "\<not> occurs x m y j0" if "j < j0" "j0 < j + p" for j0
        by (rule shift_periodic [OF c all that])
      ultimately have "\<forall>j0. j \<le> j0 \<and> j0 < j + p \<longrightarrow> \<not> occurs x m y j0" by (metis le_neq_implies_less)
      moreover have "x k = y (j + p + k)" if k: "k < m - p" for k
      proof -
        have "x k = x (k + p)" using w(1) k unfolding period_from_def by simp
        moreover have "x (k + p) = y (j + (k + p))" using all k w(2) unfolding right_seen_def by simp
        ultimately show ?thesis by (simp add: ac_simps)
      qed
      then have "remembers x m y p (j + p) (m - p)" by (simp add: remembers_def)
      ultimately show ?thesis using True f lp(1) by (simp add: i_def [symmetric] i'_def [symmetric] Let_def)
    qed
  qed
qed

lemma distinct_round:
  assumes c: "critical x m l p" and d: "\<exists>k < l. x k \<noteq> x (k + p)"
    and lim: "lim \<le> m" "m - 1 \<le> lim" "lim < m \<longrightarrow> x (m - 1) = y (j + (m - 1))"
  shows "case (let i = scan_right x y j lim l in
     if lim \<le> i then if scan_left x y j 0 l = 0 then Found else Next (j + (max l (m - l) + 1)) memory
     else Next (j + (i - l) + 1) memory) of
      Found \<Rightarrow> occurs x m y j
    | Next j' memory' \<Rightarrow> j < j' \<and> (\<forall>j0. j \<le> j0 \<and> j0 < j' \<longrightarrow> \<not> occurs x m y j0)"
proof -
  have lp: "0 < p" "l + p \<le> m" using c by (simp_all add: critical_def)
  have mx: "l \<le> lim" using lp lim(2) by auto
  define i where "i = scan_right x y j lim l"
  have i: "l \<le> i" "i \<le> lim" "\<And>k. l \<le> k \<Longrightarrow> k < i \<Longrightarrow> x k = y (j + k)" "i < lim \<Longrightarrow> x i \<noteq> y (j + i)"
    using scan_right_result [OF mx, of x y j] by (auto simp: i_def)
  have seen: "right_seen x y j l i" unfolding right_seen_def using i(3) by blast
  show ?thesis
  proof (cases "lim \<le> i")
    case False
    then have "i < m" "x i \<noteq> y (j + i)" "l \<le> i" using i lim by auto
    then show ?thesis using shift_right [OF c seen] False by (auto simp: i_def [symmetric] Let_def)
  next
    case True
    have all: "right_seen x y j l m"
      unfolding right_seen_def
    proof (intro allI impI)
      fix k assume k: "l \<le> k \<and> k < m"
      show "x k = y (j + k)"
      proof (cases "k < lim")
        case True
        then show ?thesis using seen k \<open>lim \<le> i\<close> unfolding right_seen_def by simp
      next
        case False
        then have "k = m - 1" "lim < m" using k lim by auto
        then show ?thesis using lim(3) by blast
      qed
    qed
    have i': "\<And>k. scan_left x y j 0 l \<le> k \<Longrightarrow> k < l \<Longrightarrow> x k = y (j + k)" "0 < scan_left x y j 0 l \<Longrightarrow> \<exists>k < l. x k \<noteq> y (j + k)"
      using scan_left_result [of x y j 0 l] by auto
    show ?thesis
    proof (cases "scan_left x y j 0 l = 0")
      case f: True
      have "x k = y (j + k)" if k: "k < m" for k
        using i'(1) [of k] f all k unfolding right_seen_def by (cases "k < l") auto
      then show ?thesis using True f by (simp add: i_def [symmetric] Let_def occurs_def)
    next
      case f: False
      then have "\<not> occurs x m y j" using i'(2) lp unfolding occurs_def by fastforce
      moreover have "\<not> occurs x m y j0" if "j < j0" "j0 < j + (max l (m - l) + 1)" for j0
        by (rule shift_distinct [OF c d all that])
      ultimately have "\<forall>j0. j \<le> j0 \<and> j0 < j + (max l (m - l) + 1) \<longrightarrow> \<not> occurs x m y j0" by (metis le_neq_implies_less)
      then show ?thesis using True f by (simp add: i_def [symmetric] Let_def)
    qed
  qed
qed

lemma sound_short_periodic:
  assumes "critical x m l p" "\<forall>k < l. x k = x (k + p)"
  shows "sound_round x m y (remembers x m y p) (short_periodic x y m l p)"
  unfolding sound_round_def short_periodic_def
  by (intro allI impI) (rule periodic_round [OF assms], simp_all)

lemma sound_short_distinct:
  assumes "critical x m l p" "\<exists>k < l. x k \<noteq> x (k + p)"
  shows "sound_round x m y (\<lambda>_ _. True) (short_distinct x y m l (max l (m - l) + 1))"
  unfolding sound_round_def short_distinct_def simp_thms
  by (intro allI impI) (rule distinct_round [OF assms], simp_all)

lemma sound_long_periodic:
  assumes c: "critical x m l p" "\<forall>k < l. x k = x (k + p)"
  shows "sound_round x m y (remembers x m y p) (long_periodic x y m l p)"
  unfolding sound_round_def
proof (intro allI impI)
  fix j memory assume R: "remembers x m y p j memory"
  define sh where "sh = shift_table x m (y (j + m - 1))"
  have m: "0 < m" using c by (simp add: critical_def)
  show "case long_periodic x y m l p j memory of
      Found \<Rightarrow> occurs x m y j
    | Next j' memory' \<Rightarrow> j < j' \<and> remembers x m y p j' memory' \<and> (\<forall>j0. j \<le> j0 \<and> j0 < j' \<longrightarrow> \<not> occurs x m y j0)"
  proof (cases "0 < sh")
    case True
    have mem: "\<forall>j0. j \<le> j0 \<and> j0 < j + (m - p) \<longrightarrow> \<not> occurs x m y j0" if "memory \<noteq> 0"
      using shift_memory [OF whole_period(1) [OF c], of y j] R that True by (auto simp: remembers_def sh_def)
    have bad: "\<forall>j0. j \<le> j0 \<and> j0 < j + sh \<longrightarrow> \<not> occurs x m y j0"
      using shift_bad_byte [where x = x and m = m and y = y and j = j] by (auto simp: sh_def)
    show ?thesis
    proof (cases "memory \<noteq> 0 \<and> sh < p")
      case mp: True
      then have "long_periodic x y m l p j memory = Next (j + (m - p)) 0"
        using True unfolding long_periodic_def sh_def [symmetric] Let_def by simp
      moreover have "0 < m - p" using mp R by (auto simp: remembers_def)
      ultimately show ?thesis using mem mp by (simp add: remembers_def)
    next
      case mp: False
      then have "long_periodic x y m l p j memory = Next (j + sh) 0"
        using True unfolding long_periodic_def sh_def [symmetric] Let_def by auto
      then show ?thesis using bad True by (simp add: remembers_def)
    qed
  next
    case False
    then have z: "x (m - 1) = y (j + (m - 1))" using shift_table_last [of x m "y (j + m - 1)"] m by (simp add: sh_def)
    have "long_periodic x y m l p j memory = (let i = scan_right x y j (m - 1) (max l memory) in
       if m - 1 \<le> i then let i = scan_left x y j memory l in if i < memory + 1 then Found else Next (j + p) (m - p)
       else Next (j + (i - l) + 1) 0)"
      using False unfolding long_periodic_def sh_def [symmetric] Let_def by simp
    then show ?thesis using periodic_round [OF c R, of "m - 1"] z by (simp only:) simp
  qed
qed

lemma sound_long_distinct:
  assumes c: "critical x m l p" "\<exists>k < l. x k \<noteq> x (k + p)"
  shows "sound_round x m y (\<lambda>_ _. True) (long_distinct x y m l (max l (m - l) + 1))"
  unfolding sound_round_def
proof (intro allI impI)
  fix j memory
  define sh where "sh = shift_table x m (y (j + m - 1))"
  have m: "0 < m" using c by (auto simp: critical_def)
  show "case long_distinct x y m l (max l (m - l) + 1) j memory of
      Found \<Rightarrow> occurs x m y j
    | Next j' memory' \<Rightarrow> j < j' \<and> True \<and> (\<forall>j0. j \<le> j0 \<and> j0 < j' \<longrightarrow> \<not> occurs x m y j0)"
  proof (cases "0 < sh")
    case True
    have "\<forall>j0. j \<le> j0 \<and> j0 < j + sh \<longrightarrow> \<not> occurs x m y j0"
      using shift_bad_byte [where x = x and m = m and y = y and j = j] by (auto simp: sh_def)
    moreover have "long_distinct x y m l (max l (m - l) + 1) j memory = Next (j + sh) memory"
      using True unfolding long_distinct_def sh_def [symmetric] Let_def by simp
    ultimately show ?thesis using True by simp
  next
    case False
    then have z: "x (m - 1) = y (j + (m - 1))" using shift_table_last [of x m "y (j + m - 1)"] m by (simp add: sh_def)
    have "long_distinct x y m l (max l (m - l) + 1) j memory = (let i = scan_right x y j (m - 1) l in
       if m - 1 \<le> i then if scan_left x y j 0 l = 0 then Found else Next (j + (max l (m - l) + 1)) memory
       else Next (j + (i - l) + 1) memory)"
      using False unfolding long_distinct_def sh_def [symmetric] Let_def by simp
    then show ?thesis using distinct_round [OF c, of "m - 1" y j memory] z by (simp only: simp_thms)
  qed
qed

section \<open>The search finds the first occurrence\<close>

text \<open>The answer of a search: the first window with P, among those that fit.\<close>

definition first_fit :: "(nat \<Rightarrow> bool) \<Rightarrow> (nat \<Rightarrow> bool) \<Rightarrow> nat option \<Rightarrow> bool" where
  "first_fit fits P r \<longleftrightarrow> (case r of None \<Rightarrow> \<forall>j. fits j \<longrightarrow> \<not> P j | Some j \<Rightarrow> fits j \<and> first_at P j)"

text \<open>What the search needs of AVAILABLE: with a haystack length known to it, it tells whether a window at j lies
  inside the haystack (fits), and the new length is known at every later j.\<close>

locale availability =
  fixes available :: "nat \<Rightarrow> nat \<Rightarrow> nat option" and known :: "nat \<Rightarrow> nat \<Rightarrow> bool" and fits :: "nat \<Rightarrow> bool"
  assumes available_fits: "known hl j \<Longrightarrow> fits j \<Longrightarrow> \<exists>hl'. available hl j = Some hl' \<and> (\<forall>j' \<ge> j. known hl' j')"
    and available_ends: "known hl j \<Longrightarrow> \<not> fits j \<Longrightarrow> available hl j = None"
    and fits_ends: "known hl j \<Longrightarrow> \<exists>n. \<forall>j' \<ge> n. \<not> fits j'"
    and fits_before: "fits j' \<Longrightarrow> j \<le> j' \<Longrightarrow> fits j"
begin

lemma search_loop_first:
  assumes s: "sound_round x m y R rnd"
  shows "known hl j \<Longrightarrow> R j memory \<Longrightarrow> \<forall>j0 < j. \<not> occurs x m y j0 \<Longrightarrow>
    \<exists>r. search_loop available rnd hl j memory = Some r \<and> first_fit fits (occurs x m y) r"
proof -
  assume k: "known hl j"
  then obtain n where n: "\<forall>j' \<ge> n. \<not> fits j'" using fits_ends by blast
  show "R j memory \<Longrightarrow> \<forall>j0 < j. \<not> occurs x m y j0 \<Longrightarrow> ?thesis"
    using k
  proof (induction "n - j" arbitrary: j hl memory rule: less_induct)
    case less
    show ?case
    proof (cases "fits j")
      case False
      then have "search_loop available rnd hl j memory = Some None"
        using available_ends [OF less.prems(3)] by (subst search_loop.simps) simp
      moreover have "\<not> occurs x m y j0" if "fits j0" for j0
        using fits_before [OF that, of j] False less.prems(2) by (cases "j0 < j") auto
      ultimately show ?thesis by (simp add: first_fit_def)
    next
      case True
      then obtain hl' where hl': "available hl j = Some hl'" "\<forall>j' \<ge> j. known hl' j'" using available_fits less.prems(3) by blast
      have jn: "j < n" using n True by (metis not_le)
      show ?thesis
      proof (cases "rnd j memory")
        case Found
        then have "search_loop available rnd hl j memory = Some (Some j)" using hl' by (subst search_loop.simps) simp
        moreover have "occurs x m y j" using s less.prems(1) Found unfolding sound_round_def by force
        ultimately show ?thesis using True less.prems(2) by (simp add: first_fit_def first_at_def)
      next
        case (Next j' memory')
        then have e: "search_loop available rnd hl j memory = search_loop available rnd hl' j' memory'"
          using hl' by (subst search_loop.simps) simp
        have "case rnd j memory of Found \<Rightarrow> occurs x m y j
            | Next j' memory' \<Rightarrow> j < j' \<and> R j' memory' \<and> (\<forall>j0. j \<le> j0 \<and> j0 < j' \<longrightarrow> \<not> occurs x m y j0)"
          using s less.prems(1) unfolding sound_round_def by blast
        then have r: "j < j'" "R j' memory'" "\<forall>j0. j \<le> j0 \<and> j0 < j' \<longrightarrow> \<not> occurs x m y j0" using Next by simp_all
        have "\<forall>j0 < j'. \<not> occurs x m y j0" using r(3) less.prems(2) by (metis not_le)
        moreover have "known hl' j'" using hl'(2) r(1) by simp
        moreover have "n - j' < n - j" using r(1) jn by simp
        ultimately show ?thesis unfolding e using less.hyps r(2) by blast
      qed
    qed
  qed
qed

text \<open>Both drivers, on any needle that is not empty.\<close>

lemma two_way_first:
  assumes "0 < nl" "known hl 0"
  shows "\<exists>r. two_way_short_needle available m h hl n nl = Some (map_option (padd h) r) \<and>
      first_fit fits (occurs (view m n) nl (view m h)) r"
    "\<exists>r. two_way_long_needle available m h hl n nl = Some (map_option (padd h) r) \<and>
      first_fit fits (occurs (view m n) nl (view m h)) r"
proof -
  let ?x = "view m n" and ?y = "view m h"
  obtain l p where c: "critical_factorization ?x nl = Some (l, p)" "critical ?x nl l p"
    using critical_factorization_critical [OF assms(1)] by blast
  have zero: "remembers ?x nl ?y p 0 0" by (simp add: remembers_def)
  have finds: "\<exists>r. search_loop available rnd hl 0 0 = Some r \<and> first_fit fits (occurs ?x nl ?y) r"
    if "sound_round ?x nl ?y R rnd" "R 0 0" for R rnd
    using search_loop_first [OF that(1) assms(2) that(2)] by simp
  define short where "short = (if memcmp m n m (padd n p) l = 0 then short_periodic ?x ?y nl l p
    else short_distinct ?x ?y nl l (max l (nl - l) + 1))"
  define long where "long = (if memcmp m n m (padd n p) l = 0 then long_periodic ?x ?y nl l p
    else long_distinct ?x ?y nl l (max l (nl - l) + 1))"
  have sound: "\<exists>R. sound_round ?x nl ?y R short \<and> R 0 0" "\<exists>R. sound_round ?x nl ?y R long \<and> R 0 0"
  proof (atomize (full), cases "memcmp m n m (padd n p) l = 0")
    case True
    then have e: "\<forall>k < l. ?x k = ?x (k + p)" unfolding memcmp_left .
    show "(\<exists>R. sound_round ?x nl ?y R short \<and> R 0 0) \<and> (\<exists>R. sound_round ?x nl ?y R long \<and> R 0 0)"
      using True zero sound_short_periodic [OF c(2) e, of ?y] sound_long_periodic [OF c(2) e, of ?y]
      unfolding short_def long_def if_P [OF True] by (intro conjI exI [of _ "remembers ?x nl ?y p"])
  next
    case False
    then have e: "\<exists>k < l. ?x k \<noteq> ?x (k + p)" unfolding memcmp_left by blast
    show "(\<exists>R. sound_round ?x nl ?y R short \<and> R 0 0) \<and> (\<exists>R. sound_round ?x nl ?y R long \<and> R 0 0)"
      using sound_short_distinct [OF c(2) e, of ?y] sound_long_distinct [OF c(2) e, of ?y]
      unfolding short_def long_def if_not_P [OF False] by (intro conjI exI [of _ "\<lambda>_ _. True"]) (assumption | rule TrueI)+
  qed
  have "\<exists>r. search_loop available short hl 0 0 = Some r \<and> first_fit fits (occurs ?x nl ?y) r" using sound(1) finds by blast
  then show "\<exists>r. two_way_short_needle available m h hl n nl = Some (map_option (padd h) r) \<and> first_fit fits (occurs ?x nl ?y) r"
    using c(1) unfolding two_way_short_needle_def short_def by auto
  have "\<exists>r. search_loop available long hl 0 0 = Some r \<and> first_fit fits (occurs ?x nl ?y) r" using sound(2) finds by blast
  then show "\<exists>r. two_way_long_needle available m h hl n nl = Some (map_option (padd h) r) \<and> first_fit fits (occurs ?x nl ?y) r"
    using c(1) unfolding two_way_long_needle_def long_def by auto
qed

end

section \<open>memmem and strstr\<close>

definition LONG_NEEDLE_THRESHOLD :: nat where
  "LONG_NEEDLE_THRESHOLD = 32"

text \<open>The AVAILABLE of memmem, and of strstr, which looks for the terminator in the part not known yet.\<close>

definition memmem_available :: "nat \<Rightarrow> nat \<Rightarrow> nat \<Rightarrow> nat option" where
  "memmem_available n_l h_l j = (if j \<le> h_l - n_l then Some h_l else None)"

definition strstr_available :: "'b mem \<Rightarrow> 'b ptr \<Rightarrow> nat \<Rightarrow> nat \<Rightarrow> nat \<Rightarrow> nat option" where
  "strstr_available m h n_l h_l j =
    (if memchr m (padd h h_l) 0 (j + n_l - h_l) = None \<and> j + n_l \<noteq> 0 then Some (j + n_l) else None)"

definition memmem :: "'b mem \<Rightarrow> 'b ptr \<Rightarrow> nat \<Rightarrow> 'b ptr \<Rightarrow> nat \<Rightarrow> 'b ptr option option" where
  "memmem m haystack haystack_len needle needle_len =
    (if needle_len = 0 then Some (Some haystack)
     else if haystack_len < needle_len then Some None
     else if needle_len < LONG_NEEDLE_THRESHOLD then
       (case memchr m haystack (ucast (m needle)) haystack_len of
          None \<Rightarrow> Some None
        | Some h \<Rightarrow>
            if needle_len = 1 then Some (Some h)
            else let haystack_len = haystack_len - (snd h - snd haystack) in
              if haystack_len < needle_len then Some None
              else two_way_short_needle (memmem_available needle_len) m h haystack_len needle needle_len)
     else two_way_long_needle (memmem_available needle_len) m haystack haystack_len needle needle_len)"

partial_function (option) strstr_prefix :: "cview \<Rightarrow> cview \<Rightarrow> nat \<Rightarrow> bool \<Rightarrow> (nat \<times> bool) option" where
  "strstr_prefix haystack needle i ok =
    (if haystack i \<noteq> 0 \<and> needle i \<noteq> 0 then strstr_prefix haystack needle (i + 1) (ok \<and> haystack i = needle i)
     else Some (i, ok))"

definition strstr :: "'b mem \<Rightarrow> 'b ptr \<Rightarrow> 'b ptr \<Rightarrow> 'b ptr option option" where
  "strstr m searchee lookfor =
    do {
      (needle_len, ok) \<leftarrow> strstr_prefix (view m searchee) (view m lookfor) 0 True;
      if m (padd lookfor needle_len) \<noteq> 0 then Some None
      else if ok then Some (Some searchee)
      else do {
        haystack \<leftarrow> strchr m (padd searchee 1) (ucast (m lookfor));
        case haystack of
          None \<Rightarrow> Some None
        | Some haystack \<Rightarrow>
            if needle_len = 1 then Some (Some haystack)
            else let haystack_len = (if snd searchee + needle_len < snd haystack then 1
                   else needle_len + snd searchee - snd haystack) in
              if needle_len < LONG_NEEDLE_THRESHOLD
              then two_way_short_needle (strstr_available m haystack needle_len) m haystack haystack_len lookfor needle_len
              else two_way_long_needle (strstr_available m haystack needle_len) m haystack haystack_len lookfor needle_len
      }
    }"

definition memmem_known :: "nat \<Rightarrow> nat \<Rightarrow> nat \<Rightarrow> nat \<Rightarrow> bool" where
  "memmem_known nl len hl j \<longleftrightarrow> hl = len \<and> nl \<le> len"

definition strstr_known :: "'b mem \<Rightarrow> 'b ptr \<Rightarrow> nat \<Rightarrow> nat \<Rightarrow> nat \<Rightarrow> bool" where
  "strstr_known m h nl hl j \<longleftrightarrow> 0 < nl \<and> hl \<le> j + nl \<and> (\<forall>i < hl. m (padd h i) \<noteq> 0) \<and> (\<exists>i. m (padd h i) = 0)"

definition strstr_fits :: "'b mem \<Rightarrow> 'b ptr \<Rightarrow> nat \<Rightarrow> nat \<Rightarrow> bool" where
  "strstr_fits m h nl j \<longleftrightarrow> (\<forall>i < j + nl. m (padd h i) \<noteq> 0)"

interpretation memmem_av: availability "memmem_available nl" "memmem_known nl len" "\<lambda>j. j + nl \<le> len" for nl len
  by unfold_locales (auto simp: memmem_available_def memmem_known_def intro!: exI [of _ "Suc len"])

lemma first_byte_None: "first_byte xs c = None \<longleftrightarrow> c \<notin> set xs"
  by (simp add: first_byte_def)

lemma strstr_available_fits:
  assumes "strstr_known m h nl hl j"
  shows "strstr_available m h nl hl j = (if strstr_fits m h nl j then Some (j + nl) else None)"
proof -
  have k: "0 < nl" "hl \<le> j + nl" "\<forall>i < hl. m (padd h i) \<noteq> 0" using assms by (auto simp: strstr_known_def)
  have "memchr m (padd h hl) 0 (j + nl - hl) = None \<longleftrightarrow> (\<forall>i < j + nl - hl. m (padd h (hl + i)) \<noteq> 0)"
    by (auto simp: memchr_first first_byte_None in_set_conv_nth)
  also have "\<dots> \<longleftrightarrow> strstr_fits m h nl j"
    unfolding strstr_fits_def
  proof safe
    fix i assume a: "\<forall>i < j + nl - hl. m (padd h (hl + i)) \<noteq> 0" "i < j + nl" "m (padd h i) = 0"
    then have "hl \<le> i" using k(3) by (metis not_le)
    then show False using a(1) [rule_format, of "i - hl"] a(2,3) diff_less_mono [OF a(2) \<open>hl \<le> i\<close>] by simp
  qed simp
  finally show ?thesis using k(1) by (simp add: strstr_available_def)
qed

interpretation strstr_av: availability "strstr_available m h nl" "strstr_known m h nl" "strstr_fits m h nl"
  for m :: "'b mem" and h nl
proof unfold_locales
  fix hl j
  assume k: "strstr_known m h nl hl j"
  show "\<exists>hl'. strstr_available m h nl hl j = Some hl' \<and> (\<forall>j' \<ge> j. strstr_known m h nl hl' j')" if "strstr_fits m h nl j"
    using k that by (simp add: strstr_available_fits [OF k]) (auto simp: strstr_known_def strstr_fits_def)
  show "strstr_available m h nl hl j = None" if "\<not> strstr_fits m h nl j"
    using that by (simp add: strstr_available_fits [OF k])
  show "\<exists>n. \<forall>j' \<ge> n. \<not> strstr_fits m h nl j'"
  proof -
    obtain i where i: "m (padd h i) = 0" using k by (auto simp: strstr_known_def)
    have "\<not> strstr_fits m h nl j'" if "Suc i \<le> j'" for j'
      using i that unfolding strstr_fits_def by (auto intro!: exI [of _ i])
    then show ?thesis by blast
  qed
next
  show "strstr_fits m h nl j" if "strstr_fits m h nl j'" "j \<le> j'" for j' j
    using that by (auto simp: strstr_fits_def)
qed

section \<open>The reference\<close>

text \<open>The first position where the needle is a part of the haystack.\<close>

fun find_sub :: "u8 list \<Rightarrow> u8 list \<Rightarrow> nat option" where
  "find_sub nd [] = (if nd = [] then Some 0 else None)"
| "find_sub nd (c # hs) = (if take (length nd) (c # hs) = nd then Some 0 else map_option Suc (find_sub nd hs))"

definition part_at :: "u8 list \<Rightarrow> u8 list \<Rightarrow> nat \<Rightarrow> bool" where
  "part_at nd hs j \<longleftrightarrow> j \<le> length hs \<and> take (length nd) (drop j hs) = nd"

lemma find_sub_Some: "find_sub nd hs = Some j \<longleftrightarrow> first_at (part_at nd hs) j"
proof (induction hs arbitrary: j)
  case Nil
  then show ?case by (auto simp: first_at_def part_at_def)
next
  case (Cons c hs)
  show ?case
  proof (cases j)
    case 0
    then show ?thesis by (auto simp: first_at_def part_at_def)
  next
    case (Suc k)
    have "part_at nd (c # hs) (Suc i) \<longleftrightarrow> part_at nd hs i" for i by (simp add: part_at_def)
    moreover have "part_at nd (c # hs) 0 \<longleftrightarrow> take (length nd) (c # hs) = nd" by (simp add: part_at_def)
    ultimately show ?thesis using Suc Cons by (auto simp: first_at_Suc)
  qed
qed

lemma find_sub_None: "find_sub nd hs = None \<longleftrightarrow> (\<forall>j. \<not> part_at nd hs j)"
  using find_sub_Some first_at_exists by (metis first_at_def not_None_eq option.distinct(1))

lemma part_at_occurs:
  assumes "\<And>i. i < length nd \<Longrightarrow> x i = nd ! i" "\<And>i. i < length hs \<Longrightarrow> y i = hs ! i"
  shows "part_at nd hs j \<longleftrightarrow> j + length nd \<le> length hs \<and> occurs x (length nd) y j"
proof
  assume p: "part_at nd hs j"
  then have "length (take (length nd) (drop j hs)) = length nd" "j \<le> length hs" by (simp_all add: part_at_def)
  then have le: "j + length nd \<le> length hs" by simp
  have "x k = y (j + k)" if "k < length nd" for k
  proof -
    have "take (length nd) (drop j hs) ! k = nd ! k" using p by (simp add: part_at_def)
    then show ?thesis using that le assms by simp
  qed
  then show "j + length nd \<le> length hs \<and> occurs x (length nd) y j" using le by (simp add: occurs_def)
next
  assume o: "j + length nd \<le> length hs \<and> occurs x (length nd) y j"
  have "take (length nd) (drop j hs) = nd"
    by (rule nth_equalityI) (use o assms in \<open>auto simp: occurs_def\<close>)
  then show "part_at nd hs j" using o by (simp add: part_at_def)
qed

text \<open>A search that may start at d, no part starting before it.\<close>

lemma find_sub_from:
  assumes xs: "\<And>i. i < length nd \<Longrightarrow> x i = nd ! i" "\<And>i. i < length hs \<Longrightarrow> y i = hs ! i"
    and d: "\<forall>j < d. \<not> part_at nd hs j"
    and r: "first_fit (\<lambda>j. d + j + length nd \<le> length hs) (occurs x (length nd) (\<lambda>i. y (d + i))) r"
  shows "find_sub nd hs = map_option ((+) d) r"
proof -
  have part: "part_at nd hs (d + j) \<longleftrightarrow> d + j + length nd \<le> length hs \<and> occurs x (length nd) (\<lambda>i. y (d + i)) j" for j
    using part_at_occurs [OF xs, of "d + j"] by (simp add: occurs_def add.assoc)
  show ?thesis
  proof (cases r)
    case None
    have "\<not> part_at nd hs j" for j
    proof (cases "j < d")
      case False
      then show ?thesis using part [of "j - d"] r None by (simp add: first_fit_def)
    qed (use d in blast)
    then show ?thesis using None by (simp add: find_sub_None)
  next
    case (Some j)
    then have "part_at nd hs (d + j)" using part [of j] r by (simp add: first_fit_def first_at_def)
    moreover have "\<not> part_at nd hs i" if "i < d + j" for i
    proof (cases "i < d")
      case False
      then show ?thesis using part [of "i - d"] r Some that by (simp add: first_fit_def first_at_def)
    qed (use d in blast)
    ultimately have "find_sub nd hs = Some (d + j)" by (simp add: find_sub_Some first_at_def)
    then show ?thesis using Some by simp
  qed
qed

lemma ucast_ucast_u8: "ucast (ucast c :: u32) = (c :: u8)"
  by (rule bit_word_eqI) (auto simp: bit_simps)

lemma memmem_ref: "memmem m h hl n nl = Some (map_option (padd h) (find_sub (bytes m n nl) (bytes m h hl)))"
proof (cases "nl = 0 \<or> hl < nl")
  case True
  show ?thesis
  proof (cases "nl = 0")
    case True
    then have "find_sub (bytes m n nl) (bytes m h hl) = Some 0"
      by (simp add: find_sub_Some first_at_def part_at_def bytes_def)
    then show ?thesis using True by (simp add: memmem_def)
  next
    case False
    have "\<not> part_at (bytes m n nl) (bytes m h hl) j" for j
      using part_at_occurs [where x = "view m n" and y = "view m h" and nd = "bytes m n nl" and hs = "bytes m h hl" and j = j]
        False True by auto
    then have "find_sub (bytes m n nl) (bytes m h hl) = None" by (simp add: find_sub_None)
    then show ?thesis using False True by (simp add: memmem_def)
  qed
next
  case ok: False
  let ?nd = "bytes m n nl" and ?hs = "bytes m h hl"
  have xs: "\<And>i. i < length ?nd \<Longrightarrow> view m n i = ?nd ! i" "\<And>i. i < length ?hs \<Longrightarrow> view m h i = ?hs ! i" by simp_all
  have first: "part_at ?nd ?hs j \<Longrightarrow> j < hl \<and> m (padd h j) = m n" for j
    using part_at_occurs [OF xs] ok by (auto simp: occurs_def)
  have from_d: "find_sub ?nd ?hs = map_option ((+) d) r"
    if "\<forall>j < d. \<not> part_at ?nd ?hs j" "d \<le> hl"
      "first_fit (\<lambda>j. j + nl \<le> hl - d) (occurs (view m n) nl (view m (padd h d))) r" for d r
  proof (rule find_sub_from [OF xs that(1)])
    have "view m (padd h d) = (\<lambda>i. view m h (d + i))" by (rule ext) simp
    moreover have "(\<lambda>j. j + nl \<le> hl - d) = (\<lambda>j. d + j + length ?nd \<le> length ?hs)" using ok that(2) by auto
    ultimately show "first_fit (\<lambda>j. d + j + length ?nd \<le> length ?hs) (occurs (view m n) (length ?nd) (\<lambda>i. view m h (d + i))) r"
      using that(3) by simp
  qed
  show ?thesis
  proof (cases "nl < LONG_NEEDLE_THRESHOLD")
    case False
    have k: "memmem_known nl hl hl 0" using ok by (simp add: memmem_known_def)
    obtain r where r: "two_way_long_needle (memmem_available nl) m h hl n nl = Some (map_option (padd h) r)"
      "first_fit (\<lambda>j. j + nl \<le> hl) (occurs (view m n) nl (view m h)) r"
      using memmem_av.two_way_first(2) [OF _ k, where m = m and h = h and n = n] ok by blast
    have "find_sub ?nd ?hs = map_option ((+) 0) r" by (rule from_d) (use r(2) in simp_all)
    then show ?thesis using ok False r(1) by (simp add: memmem_def option.map_comp comp_def padd_fun)
  next
    case short: True
    have mc: "memchr m h (ucast (m n)) hl = map_option (padd h) (first_byte ?hs (m n))"
      by (simp add: memchr_first ucast_ucast_u8)
    show ?thesis
    proof (cases "first_byte ?hs (m n)")
      case None
      then have "\<not> part_at ?nd ?hs j" for j
        using first [of j] by (auto simp: first_byte_None in_set_conv_nth)
      then have "find_sub ?nd ?hs = None" by (simp add: find_sub_None)
      then show ?thesis using ok short mc None by (simp add: memmem_def)
    next
      case (Some d)
      then have "first_at (\<lambda>i. i < length ?hs \<and> ?hs ! i = m n) d"
        using first_at_takeWhile [of "m n" ?hs] by (auto simp: first_byte_def split: if_splits)
      then have d: "d < hl" "m (padd h d) = m n" "\<And>i. i < d \<Longrightarrow> m (padd h i) \<noteq> m n" by (auto simp: first_at_def)
      have before: "\<forall>j < d. \<not> part_at ?nd ?hs j" using first d(3) by blast
      show ?thesis
      proof (cases "nl = 1")
        case True
        have "part_at ?nd ?hs d" using part_at_occurs [OF xs] d True by (simp add: occurs_def)
        then have "find_sub ?nd ?hs = Some d" using before by (simp add: find_sub_Some first_at_def)
        then show ?thesis using ok short mc Some True by (simp add: memmem_def)
      next
        case False
        show ?thesis
        proof (cases "hl - d < nl")
          case True
          have "find_sub ?nd ?hs = map_option ((+) d) None"
            by (rule from_d [OF before]) (use True d(1) in \<open>auto simp: first_fit_def\<close>)
          then show ?thesis using ok short mc Some False True by (simp add: memmem_def)
        next
          case fit: False
          have k: "memmem_known nl (hl - d) (hl - d) 0" using fit by (simp add: memmem_known_def)
          obtain r where r: "two_way_short_needle (memmem_available nl) m (padd h d) (hl - d) n nl = Some (map_option (padd (padd h d)) r)"
            "first_fit (\<lambda>j. j + nl \<le> hl - d) (occurs (view m n) nl (view m (padd h d))) r"
            using memmem_av.two_way_first(1) [OF _ k, where m = m and h = "padd h d" and n = n] ok by blast
          have "find_sub ?nd ?hs = map_option ((+) d) r" by (rule from_d [OF before]) (use r(2) d(1) in simp_all)
          then show ?thesis using ok short mc Some False fit r(1) by (simp add: memmem_def option.map_comp comp_def padd_fun)
        qed
      qed
    qed
  qed
qed

lemma strstr_prefix_result:
  "cstr (\<lambda>j. y (i + j)) hs \<Longrightarrow> cstr (\<lambda>j. x (i + j)) nd \<Longrightarrow>
   strstr_prefix y x i ok = Some (i + min (length hs) (length nd),
     ok \<and> take (min (length hs) (length nd)) hs = take (min (length hs) (length nd)) nd)"
proof (induction hs arbitrary: i nd ok)
  case Nil
  then show ?case by (subst strstr_prefix.simps) simp
next
  case (Cons c hs)
  show ?case
  proof (cases nd)
    case Nil
    then show ?thesis using Cons.prems by (subst strstr_prefix.simps) simp
  next
    case (Cons d nd')
    have c: "y i = c" "c \<noteq> 0" "x i = d" "d \<noteq> 0" using Cons.prems cstr_hd Cons by fastforce+
    have t: "cstr (\<lambda>j. y (i + 1 + j)) hs" "cstr (\<lambda>j. x (i + 1 + j)) nd'" using Cons.prems cstr_tl Cons by fastforce+
    show ?thesis using c Cons.IH [OF t] Cons by (subst strstr_prefix.simps) auto
  qed
qed

lemma strstr_prefix_start:
  "cstr y hs \<Longrightarrow> cstr x nd \<Longrightarrow> strstr_prefix y x 0 ok = Some (min (length hs) (length nd),
     ok \<and> take (min (length hs) (length nd)) hs = take (min (length hs) (length nd)) nd)"
  using strstr_prefix_result [of y 0 hs x nd ok] by simp

lemma strstr_ref:
  assumes "cstr (view m s) hs" "cstr (view m l) nd"
  shows "strstr m s l = Some (map_option (padd s) (find_sub nd hs))"
proof -
  have hs: "\<And>i. i < length hs \<Longrightarrow> view m s i = hs ! i" "\<And>i. i < length hs \<Longrightarrow> hs ! i \<noteq> 0" "m (padd s (length hs)) = 0"
    using assms(1) by (auto simp: cstr_def)
  have nd: "\<And>i. i < length nd \<Longrightarrow> view m l i = nd ! i" "\<And>i. i < length nd \<Longrightarrow> nd ! i \<noteq> 0" "m (padd l (length nd)) = 0"
    using assms(2) by (auto simp: cstr_def)
  have pre: "strstr_prefix (view m s) (view m l) 0 True = Some (min (length hs) (length nd),
     take (min (length hs) (length nd)) hs = take (min (length hs) (length nd)) nd)"
    using strstr_prefix_start [OF assms] by simp
  have part: "part_at nd hs j \<longleftrightarrow> j + length nd \<le> length hs \<and> occurs (view m l) (length nd) (view m s) j" for j
    by (rule part_at_occurs [OF nd(1) hs(1)])
  show ?thesis
  proof (cases "length hs < length nd")
    case True
    then have "m (padd l (length hs)) \<noteq> 0" using nd(1,2) [OF True] by simp
    moreover have "find_sub nd hs = None" using part True by (simp add: find_sub_None)
    ultimately show ?thesis using pre True by (simp add: strstr_def)
  next
    case False
    then have mn: "min (length hs) (length nd) = length nd" by simp
    show ?thesis
    proof (cases "take (length nd) hs = nd")
      case True
      then have "find_sub nd hs = Some 0" by (simp add: find_sub_Some first_at_def part_at_def)
      then show ?thesis using pre mn nd(3) True by (simp add: strstr_def)
    next
      case miss: False
      then have nl: "0 < length nd" by (cases nd) auto
      have p0: "\<not> part_at nd hs 0" using miss by (simp add: part_at_def)
      have first: "j < length hs \<and> hs ! j = m l \<and> 0 < j" if p: "part_at nd hs j" for j
      proof -
        have o: "j + length nd \<le> length hs" "view m l 0 = view m s (j + 0)" using p part nl unfolding occurs_def by blast+
        then have "j < length hs" using nl by linarith
        then show ?thesis using hs(1) [of j] o(2) p p0 by (cases j) auto
      qed
      have l0: "m l \<noteq> 0" "m l = nd ! 0" using nd(1,2) [OF nl] by simp_all
      have tl: "cstr (view m (padd s 1)) (drop 1 hs)"
        using cstr_view_drop [OF assms(1), of 1] False nl by simp
      show ?thesis
      proof (cases "m l \<in> set (drop 1 hs)")
        case no: False
        have "\<not> part_at nd hs j" for j
        proof
          assume "part_at nd hs j"
          then have "j < length hs" "hs ! j = m l" "0 < j" using first by blast+
          then have "drop 1 hs ! (j - 1) = m l" "j - 1 < length (drop 1 hs)" by simp_all
          then show False using no nth_mem by metis
        qed
        then have "find_sub nd hs = None" by (simp add: find_sub_None)
        moreover have "strchr m (padd s 1) (ucast (m l)) = Some None"
          by (rule strchr_absent [OF tl]) (use no l0(1) in \<open>simp_all add: ucast_ucast_u8\<close>)
        ultimately show ?thesis using pre mn nd(3) miss by (simp add: strstr_def)
      next
        case True
        then obtain e where e: "first_at (\<lambda>i. i < length (drop 1 hs) \<and> drop 1 hs ! i = m l) e"
          using first_at_exists [where P = "\<lambda>i. i < length (drop 1 hs) \<and> drop 1 hs ! i = m l"] by (metis in_set_conv_nth)
        define d where "d = 1 + e"
        have d: "d < length hs" "hs ! d = m l" "0 < d" "\<And>i. 0 < i \<Longrightarrow> i < d \<Longrightarrow> hs ! i \<noteq> m l"
        proof -
          show "d < length hs" "hs ! d = m l" "0 < d" using e by (auto simp: first_at_def d_def)
          show "hs ! i \<noteq> m l" if "0 < i" "i < d" for i
            using e that by (auto simp: first_at_def d_def dest!: spec [of _ "i - 1"])
        qed
        have sc: "strchr m (padd s 1) (ucast (m l)) = Some (Some (padd s d))"
          using strchr_found [OF tl, of "ucast (m l)" e] e by (simp add: d_def ucast_ucast_u8)
        have before: "\<forall>j < d. \<not> part_at nd hs j" using first d(4) by blast
        show ?thesis
        proof (cases "length nd = 1")
          case one: True
          have "part_at nd hs d" using part [of d] one d(1,2) hs(1) [OF d(1)] by (simp add: occurs_def)
          then have "find_sub nd hs = Some d" using before by (simp add: find_sub_Some first_at_def)
          then show ?thesis using pre mn nd(3) miss sc one by (simp add: strstr_def)
        next
          case many: False
          define hl where "hl = (if snd s + length nd < snd s + d then 1 else length nd + snd s - (snd s + d))"
          have "hl \<le> length nd" "d + hl \<le> length hs"
            using False d(1) many nl by (auto simp: hl_def Suc_le_eq)
          then have k: "strstr_known m (padd s d) (length nd) hl 0"
            using hs nl d(1) unfolding strstr_known_def
            by (auto simp: view_apply [symmetric] simp del: view_apply intro!: exI [of _ "length hs - d"])
          have fits: "strstr_fits m (padd s d) (length nd) = (\<lambda>j. d + j + length nd \<le> length hs)"
          proof (rule ext, unfold strstr_fits_def, rule iffI)
            fix j assume a: "\<forall>i < j + length nd. m (padd (padd s d) i) \<noteq> 0"
            show "d + j + length nd \<le> length hs"
              using a [rule_format, of "length hs - d"] hs(3) d(1) by (cases "length hs - d < j + length nd") auto
          next
            fix j assume "d + j + length nd \<le> length hs"
            then show "\<forall>i < j + length nd. m (padd (padd s d) i) \<noteq> 0"
              using hs(1,2) by (auto simp: view_apply [symmetric] simp del: view_apply)
          qed
          note fd = strstr_av.two_way_first [OF nl k, where m = m and h = "padd s d" and n = l, unfolded fits]
          obtain r where r: "two_way_short_needle (strstr_available m (padd s d) (length nd)) m (padd s d) hl l (length nd) =
              Some (map_option (padd (padd s d)) r)"
              "first_fit (\<lambda>j. d + j + length nd \<le> length hs) (occurs (view m l) (length nd) (view m (padd s d))) r"
            using fd(1) by (elim exE conjE)
          obtain r' where r': "two_way_long_needle (strstr_available m (padd s d) (length nd)) m (padd s d) hl l (length nd) =
              Some (map_option (padd (padd s d)) r')"
              "first_fit (\<lambda>j. d + j + length nd \<le> length hs) (occurs (view m l) (length nd) (view m (padd s d))) r'"
            using fd(2) by (elim exE conjE)
          have v: "view m (padd s d) = (\<lambda>i. view m s (d + i))" by (rule ext) simp
          have "find_sub nd hs = map_option ((+) d) r"
            by (rule find_sub_from [OF nd(1) hs(1) before r(2) [unfolded v]])
          moreover have "find_sub nd hs = map_option ((+) d) r'"
            by (rule find_sub_from [OF nd(1) hs(1) before r'(2) [unfolded v]])
          moreover have "strstr m s l = (if length nd < LONG_NEEDLE_THRESHOLD
              then two_way_short_needle (strstr_available m (padd s d) (length nd)) m (padd s d) hl l (length nd)
              else two_way_long_needle (strstr_available m (padd s d) (length nd)) m (padd s d) hl l (length nd))"
            using pre mn nd(3) miss sc many unfolding strstr_def hl_def by simp
          moreover have "r' = r" using calculation(1,2) by (cases r; cases r') auto
          ultimately show ?thesis using r(1) r'(1) by (simp add: option.map_comp comp_def padd_fun)
        qed
      qed
    qed
  qed
qed


section \<open>Properties\<close>

text \<open>C16: The critical factorization returns on every needle that is not empty, with a split l and the period p
  of the right half: p is the smallest period of the right half, and every repetition across the split
  is longer than the left half and a period of the whole needle.\<close>

theorem critical_factorization_sound:
  assumes "0 < m"
  shows "\<exists>l p. critical_factorization x m = Some (l, p) \<and> 0 < p \<and> l + p \<le> m \<and> period_from x m l p \<and>
    (\<forall>r. 0 < r \<and> r < p \<longrightarrow> \<not> period_from x m l r) \<and>
    (\<forall>s > 0. local_rep x m l s \<longrightarrow> l < s \<and> period_from x m 0 s)"
  using critical_factorization_critical [OF assms, of x] unfolding critical_def by blast

text \<open>The smallest period of the right half of "abaab" split at 1 is 3.\<close>

theorem critical_factorization_sound_witness:
  "\<exists>l p. critical_factorization (lit ''abaab'') 5 = Some (l, p) \<and> l + p \<le> 5"
proof -
  have "0 < (5 :: nat)" by simp
  from critical_factorization_sound [OF this, of "lit ''abaab''"] show ?thesis by blast
qed

text \<open>C15: memmem returns, and gives the first place where the needle's bytes are in the haystack's, NULL when there
  is none, on every haystack and needle, short or long, empty included.\<close>

theorem memmem_finds:
  "memmem m haystack haystack_len needle needle_len =
     Some (map_option (padd haystack) (find_sub (bytes m needle needle_len) (bytes m haystack haystack_len)))"
  by (rule memmem_ref)

text \<open>C14: strstr returns on every pair of strings, with the first place where lookfor is a part of searchee, or
  NULL when it is no part of it.\<close>

theorem strstr_finds:
  assumes "cstr (view m searchee) s" "cstr (view m lookfor) l"
  shows "strstr m searchee lookfor = Some (map_option (padd searchee) (find_sub l s)) \<and>
    (\<forall>j. find_sub l s = Some j \<longleftrightarrow> first_at (\<lambda>j. j \<le> length s \<and> take (length l) (drop j s) = l) j)"
  using strstr_ref [OF assms] find_sub_Some [of l s] unfolding part_at_def by blast

theorem strstr_finds_witness:
  "strstr (\<lambda>(b, i). lit (if b then ''xaabaab'' else ''aab'') i) (True, 0) (False, 0) = Some (Some (True, 1))"
proof -
  let ?m = "\<lambda>(b, i). lit (if b then ''xaabaab'' else ''aab'') i"
  have "view ?m (True, 0) = lit ''xaabaab''" "view ?m (False, 0) = lit ''aab''" by (auto simp: fun_eq_iff)
  moreover have "cstr (lit ''xaabaab'') (str_bytes ''xaabaab'')" "cstr (lit ''aab'') (str_bytes ''aab'')"
    by (rule cstr_lit, simp add: str_bytes_def)+
  ultimately have "cstr (view ?m (True, 0)) (str_bytes ''xaabaab'')" "cstr (view ?m (False, 0)) (str_bytes ''aab'')" by simp_all
  from strstr_finds [OF this] show ?thesis by (simp add: str_bytes_def)
qed

end
