(* ===== verification/ByteOrder.thy ===== *)
theory ByteOrder
  imports StrMore
begin

unbundle bit_operations_syntax

text \<open>
  include/linux/unaligned/le_byteshift.h and be_byteshift.h: loads and stores of any alignment in either
  byte order, the 64-bit swap of include/linux/byteorder/swab.h and the swaps in memory, and
  include/linux/bitops.h with include/asm/bitops.h: rotations, sign extension, orders of magnitude.
\<close>

section \<open>Unaligned loads and stores\<close>

definition get_unaligned_le16 :: "'b mem \<Rightarrow> 'b ptr \<Rightarrow> u16" where
  "get_unaligned_le16 m p = ucast (m p) OR push_bit 8 (ucast (m (padd p 1)))"

definition get_unaligned_le32 :: "'b mem \<Rightarrow> 'b ptr \<Rightarrow> u32" where
  "get_unaligned_le32 m p = ucast (m p) OR push_bit 8 (ucast (m (padd p 1))) OR
     push_bit 16 (ucast (m (padd p 2))) OR push_bit 24 (ucast (m (padd p 3)))"

definition get_unaligned_le64 :: "'b mem \<Rightarrow> 'b ptr \<Rightarrow> u64" where
  "get_unaligned_le64 m p =
     push_bit 32 (ucast (get_unaligned_le32 m (padd p 4))) OR ucast (get_unaligned_le32 m p)"

definition put_unaligned_le16 :: "'b mem \<Rightarrow> u16 \<Rightarrow> 'b ptr \<Rightarrow> 'b mem" where
  "put_unaligned_le16 m val p = st8 (st8 m p (ucast val)) (padd p 1) (ucast (drop_bit 8 val))"

definition put_unaligned_le32 :: "'b mem \<Rightarrow> u32 \<Rightarrow> 'b ptr \<Rightarrow> 'b mem" where
  "put_unaligned_le32 m val p =
     put_unaligned_le16 (put_unaligned_le16 m (ucast (drop_bit 16 val)) (padd p 2)) (ucast val) p"

definition put_unaligned_le64 :: "'b mem \<Rightarrow> u64 \<Rightarrow> 'b ptr \<Rightarrow> 'b mem" where
  "put_unaligned_le64 m val p =
     put_unaligned_le32 (put_unaligned_le32 m (ucast (drop_bit 32 val)) (padd p 4)) (ucast val) p"

definition get_unaligned_be16 :: "'b mem \<Rightarrow> 'b ptr \<Rightarrow> u16" where
  "get_unaligned_be16 m p = push_bit 8 (ucast (m p)) OR ucast (m (padd p 1))"

definition get_unaligned_be32 :: "'b mem \<Rightarrow> 'b ptr \<Rightarrow> u32" where
  "get_unaligned_be32 m p = push_bit 24 (ucast (m p)) OR push_bit 16 (ucast (m (padd p 1))) OR
     push_bit 8 (ucast (m (padd p 2))) OR ucast (m (padd p 3))"

definition get_unaligned_be64 :: "'b mem \<Rightarrow> 'b ptr \<Rightarrow> u64" where
  "get_unaligned_be64 m p =
     push_bit 32 (ucast (get_unaligned_be32 m p)) OR ucast (get_unaligned_be32 m (padd p 4))"

definition put_unaligned_be16 :: "'b mem \<Rightarrow> u16 \<Rightarrow> 'b ptr \<Rightarrow> 'b mem" where
  "put_unaligned_be16 m val p = st8 (st8 m p (ucast (drop_bit 8 val))) (padd p 1) (ucast val)"

definition put_unaligned_be32 :: "'b mem \<Rightarrow> u32 \<Rightarrow> 'b ptr \<Rightarrow> 'b mem" where
  "put_unaligned_be32 m val p =
     put_unaligned_be16 (put_unaligned_be16 m (ucast (drop_bit 16 val)) p) (ucast val) (padd p 2)"

definition put_unaligned_be64 :: "'b mem \<Rightarrow> u64 \<Rightarrow> 'b ptr \<Rightarrow> 'b mem" where
  "put_unaligned_be64 m val p =
     put_unaligned_be32 (put_unaligned_be32 m (ucast (drop_bit 32 val)) p) (ucast val) (padd p 4)"

text \<open>The macros of include/linux/unaligned/generic.h choose by the size of the object.\<close>

definition get_unaligned_le :: "nat \<Rightarrow> 'b mem \<Rightarrow> 'b ptr \<Rightarrow> u64 option" where
  "get_unaligned_le sz m p =
    (if sz = 1 then Some (ucast (m p)) else if sz = 2 then Some (ucast (get_unaligned_le16 m p))
     else if sz = 4 then Some (ucast (get_unaligned_le32 m p)) else if sz = 8 then Some (get_unaligned_le64 m p)
     else None)"

definition get_unaligned_be :: "nat \<Rightarrow> 'b mem \<Rightarrow> 'b ptr \<Rightarrow> u64 option" where
  "get_unaligned_be sz m p =
    (if sz = 1 then Some (ucast (m p)) else if sz = 2 then Some (ucast (get_unaligned_be16 m p))
     else if sz = 4 then Some (ucast (get_unaligned_be32 m p)) else if sz = 8 then Some (get_unaligned_be64 m p)
     else None)"

definition put_unaligned_le :: "nat \<Rightarrow> 'b mem \<Rightarrow> u64 \<Rightarrow> 'b ptr \<Rightarrow> 'b mem option" where
  "put_unaligned_le sz m val p =
    (if sz = 1 then Some (st8 m p (ucast val)) else if sz = 2 then Some (put_unaligned_le16 m (ucast val) p)
     else if sz = 4 then Some (put_unaligned_le32 m (ucast val) p) else if sz = 8 then Some (put_unaligned_le64 m val p)
     else None)"

definition put_unaligned_be :: "nat \<Rightarrow> 'b mem \<Rightarrow> u64 \<Rightarrow> 'b ptr \<Rightarrow> 'b mem option" where
  "put_unaligned_be sz m val p =
    (if sz = 1 then Some (st8 m p (ucast val)) else if sz = 2 then Some (put_unaligned_be16 m (ucast val) p)
     else if sz = 4 then Some (put_unaligned_be32 m (ucast val) p) else if sz = 8 then Some (put_unaligned_be64 m val p)
     else None)"

section \<open>Byte order of 64-bit values, and of values in memory\<close>

definition swab64 :: "u64 \<Rightarrow> u64" where
  "swab64 x = push_bit 56 (x AND 0x00000000000000ff) OR push_bit 40 (x AND 0x000000000000ff00)
     OR push_bit 24 (x AND 0x0000000000ff0000) OR push_bit 8 (x AND 0x00000000ff000000)
     OR drop_bit 8 (x AND 0x000000ff00000000) OR drop_bit 24 (x AND 0x0000ff0000000000)
     OR drop_bit 40 (x AND 0x00ff000000000000) OR drop_bit 56 (x AND 0xff00000000000000)"

definition swab16p :: "'b mem \<Rightarrow> 'b ptr \<Rightarrow> u16" where
  "swab16p m x = swab16 (ld16 m x)"

definition swab32p :: "'b mem \<Rightarrow> 'b ptr \<Rightarrow> u32" where
  "swab32p m x = swab32 (ld32 m x)"

definition swab16s :: "'b mem \<Rightarrow> 'b ptr \<Rightarrow> 'b mem" where
  "swab16s m addr = st16 m addr (swab16p m addr)"

definition swab32s :: "'b mem \<Rightarrow> 'b ptr \<Rightarrow> 'b mem" where
  "swab32s m addr = st32 m addr (swab32p m addr)"

section \<open>Bit operations\<close>

definition DIV_ROUND_UP :: "u32 \<Rightarrow> u32 \<Rightarrow> u32" where
  "DIV_ROUND_UP n d = (n + d - 1) div d"

definition BIT :: "nat \<Rightarrow> u32" where
  "BIT nr = push_bit nr 1"

definition BIT_MASK :: "nat \<Rightarrow> u32" where
  "BIT_MASK nr = push_bit (nr mod 32) 1"

definition BIT_WORD :: "nat \<Rightarrow> nat" where
  "BIT_WORD nr = nr div 32"

text \<open>The rotations, for shifts up to the width.\<close>

definition rol32 :: "u32 \<Rightarrow> nat \<Rightarrow> u32" where
  "rol32 word shift = push_bit shift word OR drop_bit (32 - shift) word"

definition ror32 :: "u32 \<Rightarrow> nat \<Rightarrow> u32" where
  "ror32 word shift = drop_bit shift word OR push_bit (32 - shift) word"

definition rol16 :: "u16 \<Rightarrow> nat \<Rightarrow> u16" where
  "rol16 word shift = push_bit shift word OR drop_bit (16 - shift) word"

definition ror16 :: "u16 \<Rightarrow> nat \<Rightarrow> u16" where
  "ror16 word shift = drop_bit shift word OR push_bit (16 - shift) word"

definition rol8 :: "u8 \<Rightarrow> nat \<Rightarrow> u8" where
  "rol8 word shift = push_bit shift word OR drop_bit (8 - shift) word"

definition ror8 :: "u8 \<Rightarrow> nat \<Rightarrow> u8" where
  "ror8 word shift = drop_bit shift word OR push_bit (8 - shift) word"

definition sign_extend32 :: "u32 \<Rightarrow> nat \<Rightarrow> u32" where
  "sign_extend32 value index = (let shift = 31 - index in signed_drop_bit shift (push_bit shift value))"

text \<open>The ffs and fls of include/asm/bitops.h; ffs ends with a test of the last bit.\<close>

definition asm_ffs :: "u32 \<Rightarrow> nat" where
  "asm_ffs x = (if x = 0 then 0 else snd (ffs_step 1 (ffs_step 2 (ffs_step 4 (ffs_step 8 (ffs_step 16 (x, 1)))))))"

definition asm_fls :: "u32 \<Rightarrow> nat" where
  "asm_fls x = (if x = 0 then 0 else snd (fls_step 1 (fls_step 2 (fls_step 4 (fls_step 8 (fls_step 16 (x, 32)))))))"

definition get_bitmask_order :: "u32 \<Rightarrow> nat" where
  "get_bitmask_order count = asm_fls count"

definition get_count_order :: "u32 \<Rightarrow> int" where
  "get_count_order count =
    (let order = int (asm_fls count) - 1 in if count AND (count - 1) \<noteq> 0 then order + 1 else order)"

section \<open>Bits of the loads\<close>

lemmas put_defs = put_unaligned_le16_def put_unaligned_le32_def put_unaligned_le64_def
  put_unaligned_be16_def put_unaligned_be32_def put_unaligned_be64_def

lemmas get_defs = get_unaligned_le16_def get_unaligned_le32_def get_unaligned_le64_def
  get_unaligned_be16_def get_unaligned_be32_def get_unaligned_be64_def

lemma byte_position:
  fixes n :: nat
  assumes "n < 8 * w"
  obtains k r where "n = 8 * k + r" "r < 8" "k < w" "n div 8 = k" "n mod 8 = r"
  using assms by (metis mult_div_mod_eq mod_less_divisor less_mult_imp_div_less mult.commute zero_less_numeral)

lemma bit_get16:
  "bit (get_unaligned_le16 m p) n \<longleftrightarrow> n < 16 \<and> bit (m (padd p (n div 8))) (n mod 8)"
  "bit (get_unaligned_be16 m p) n \<longleftrightarrow> n < 16 \<and> bit (m (padd p (1 - n div 8))) (n mod 8)"
proof (atomize (full), cases "n < 8 * 2")
  case True
  then obtain k r where k: "n = 8 * k + r" "r < 8" "k < 2" "n div 8 = k" "n mod 8 = r" by (rule byte_position)
  then show "(bit (get_unaligned_le16 m p) n \<longleftrightarrow> n < 16 \<and> bit (m (padd p (n div 8))) (n mod 8)) \<and>
    (bit (get_unaligned_be16 m p) n \<longleftrightarrow> n < 16 \<and> bit (m (padd p (1 - n div 8))) (n mod 8))"
    by (auto simp: get_defs less_2_cases_iff bit_simps dest: bit_imp_le_length)
qed (auto dest: bit_imp_le_length)

lemma bit_get32:
  "bit (get_unaligned_le32 m p) n \<longleftrightarrow> n < 32 \<and> bit (m (padd p (n div 8))) (n mod 8)"
  "bit (get_unaligned_be32 m p) n \<longleftrightarrow> n < 32 \<and> bit (m (padd p (3 - n div 8))) (n mod 8)"
proof (atomize (full), cases "n < 8 * 4")
  case True
  then obtain k r where k: "n = 8 * k + r" "r < 8" "k < 4" "n div 8 = k" "n mod 8 = r" by (rule byte_position)
  then have "k = 0 \<or> k = 1 \<or> k = 2 \<or> k = 3" by linarith
  with k show "(bit (get_unaligned_le32 m p) n \<longleftrightarrow> n < 32 \<and> bit (m (padd p (n div 8))) (n mod 8)) \<and>
    (bit (get_unaligned_be32 m p) n \<longleftrightarrow> n < 32 \<and> bit (m (padd p (3 - n div 8))) (n mod 8))"
    by (auto simp: get_defs bit_simps dest: bit_imp_le_length)
qed (auto dest: bit_imp_le_length)

lemma bit_get64:
  "bit (get_unaligned_le64 m p) n \<longleftrightarrow> n < 64 \<and> bit (m (padd p (n div 8))) (n mod 8)"
  "bit (get_unaligned_be64 m p) n \<longleftrightarrow> n < 64 \<and> bit (m (padd p (7 - n div 8))) (n mod 8)"
proof -
  have d: "bit (get_unaligned_le64 m p) n \<longleftrightarrow> n < 64 \<and> (if n < 32 then bit (get_unaligned_le32 m p) n else bit (get_unaligned_le32 m (padd p 4)) (n - 32))"
    "bit (get_unaligned_be64 m p) n \<longleftrightarrow> n < 64 \<and> (if n < 32 then bit (get_unaligned_be32 m (padd p 4)) n else bit (get_unaligned_be32 m p) (n - 32))"
    by (auto simp: get_unaligned_le64_def get_unaligned_be64_def bit_simps dest: bit_imp_le_length)
  have lo: "4 + (3 - n div 8) = 7 - n div 8" if "n < 32" using that by auto
  have hi: "n div 8 = 4 + (n - 32) div 8 \<and> n mod 8 = (n - 32) mod 8 \<and> (n - 32 < 32 \<longleftrightarrow> n < 64)" if ge: "\<not> n < 32"
  proof -
    obtain n' where "n = 32 + n'" using ge le_Suc_ex [of 32 n] not_less [of n 32] by blast
    then have n': "n = n' + 4 * 8" by simp
    have "(n' + 4 * 8) div 8 = 4 + n' div 8" "(n' + 4 * 8) mod 8 = n' mod 8" by (simp_all only: div_mult_self1 mod_mult_self1 add.commute)
    then show ?thesis unfolding n' by simp
  qed
  show "bit (get_unaligned_le64 m p) n \<longleftrightarrow> n < 64 \<and> bit (m (padd p (n div 8))) (n mod 8)"
  proof (cases "n < 32")
    case False
    then show ?thesis using hi [OF False] by (simp add: d bit_get32)
  qed (simp add: d bit_get32)
  show "bit (get_unaligned_be64 m p) n \<longleftrightarrow> n < 64 \<and> bit (m (padd p (7 - n div 8))) (n mod 8)"
  proof (cases "n < 32")
    case False
    then show ?thesis using hi [OF False] by (simp add: d bit_get32)
  qed (simp add: d bit_get32 lo)
qed

text \<open>A value as its bytes, lowest first; each store leaves exactly these.\<close>

definition le_bytes :: "nat \<Rightarrow> 'a::len word \<Rightarrow> u8 list" where
  "le_bytes n v = map (\<lambda>i. ucast (drop_bit (8 * i) v)) [0..<n]"

lemma length_le_bytes [simp]: "length (le_bytes n v) = n"
  by (simp add: le_bytes_def)

lemma nth_le_bytes [simp]: "i < n \<Longrightarrow> le_bytes n v ! i = ucast (drop_bit (8 * i) v)"
  by (simp add: le_bytes_def)

lemma put_bytes:
  "put_unaligned_le16 m v16 p = st_list m p (le_bytes 2 v16)"
  "put_unaligned_be16 m v16 p = st_list m p (rev (le_bytes 2 v16))"
  "put_unaligned_le32 m v32 p = st_list m p (le_bytes 4 v32)"
  "put_unaligned_be32 m v32 p = st_list m p (rev (le_bytes 4 v32))"
  by (auto simp: put_defs le_bytes_def upt_conv_Cons st8_apply fun_eq_iff intro!: bit_word_eqI simp: bit_simps)


lemma le_bytes_split:
  "le_bytes 8 (v :: u64) = le_bytes 4 (ucast v :: u32) @ le_bytes 4 (ucast (drop_bit 32 v) :: u32)"
proof (rule nth_equalityI)
  fix i assume i: "i < length (le_bytes 8 v)"
  show "le_bytes 8 v ! i = (le_bytes 4 (ucast v :: u32) @ le_bytes 4 (ucast (drop_bit 32 v) :: u32)) ! i"
  proof (cases "i < 4")
    case True
    then show ?thesis using i by (auto simp: nth_append intro!: bit_word_eqI simp: bit_simps)
  next
    case False
    then obtain j where "i = 4 + j" by (metis le_Suc_ex not_less)
    then show ?thesis using i by (auto simp: nth_append intro!: bit_word_eqI simp: bit_simps add.assoc)
  qed
qed simp

lemma st_list_commute:
  assumes "fst p = fst q" "snd p + length xs \<le> snd q"
  shows "st_list (st_list m q ys) p xs = st_list (st_list m p xs) q ys"
proof
  fix r
  show "st_list (st_list m q ys) p xs r = st_list (st_list m p xs) q ys r"
  proof (cases "fst r = fst p")
    case True
    then show ?thesis
      using st_list_apply [of "st_list m q ys" p xs "snd r"] st_list_apply [of m q ys "snd r"]
        st_list_apply [of "st_list m p xs" q ys "snd r"] st_list_apply [of m p xs "snd r"] assms
      by (auto simp: prod_eq_iff split: if_splits) (metis prod.collapse)+
  next
    case False
    then show ?thesis using assms(1) by (simp add: st_list_other)
  qed
qed

lemma put_bytes64:
  "put_unaligned_le64 m v p = st_list m p (le_bytes 8 v)"
  "put_unaligned_be64 m v p = st_list m p (rev (le_bytes 8 v))"
proof -
  show "put_unaligned_le64 m v p = st_list m p (le_bytes 8 v)"
    unfolding put_unaligned_le64_def put_bytes le_bytes_split st_list_append
    by (subst st_list_commute) simp_all
  show "put_unaligned_be64 m v p = st_list m p (rev (le_bytes 8 v))"
    unfolding put_unaligned_be64_def put_bytes le_bytes_split rev_append st_list_append by simp
qed

lemma word_of_le_bytes:
  fixes m :: "'b mem"
  assumes "\<And>i. i < n \<Longrightarrow> m (padd p i) = ucast (drop_bit (8 * i) v)" "\<And>k. bit x k \<longleftrightarrow> k < 8 * n \<and> bit (m (padd p (k div 8))) (k mod 8)"
    "LENGTH('a) = 8 * n"
  shows "x = (v :: 'a::len word)"
proof (rule bit_word_eqI)
  fix k assume "k < LENGTH('a)"
  then have k: "k < 8 * n" using assms(3) by simp
  then have "k div 8 < n" by linarith
  then show "bit x k \<longleftrightarrow> bit v k"
    using k assms(1) [of "k div 8"] unfolding assms(2) by (simp add: bit_simps)
qed


lemma get_le_bytes:
  fixes m :: "'b mem"
  shows "get_unaligned_le16 (st_list m p (le_bytes 2 v16)) p = v16"
    "get_unaligned_le32 (st_list m p (le_bytes 4 v32)) p = v32"
    "get_unaligned_le64 (st_list m p (le_bytes 8 v64)) p = v64"
proof -
  show "get_unaligned_le16 (st_list m p (le_bytes 2 v16)) p = v16"
    by (rule word_of_le_bytes [where m = "st_list m p (le_bytes 2 v16)" and p = p and n = 2]) (simp_all add: st_list_padd  bit_get16)
  show "get_unaligned_le32 (st_list m p (le_bytes 4 v32)) p = v32"
    by (rule word_of_le_bytes [where m = "st_list m p (le_bytes 4 v32)" and p = p and n = 4]) (simp_all add: st_list_padd  bit_get32)
  show "get_unaligned_le64 (st_list m p (le_bytes 8 v64)) p = v64"
    by (rule word_of_le_bytes [where m = "st_list m p (le_bytes 8 v64)" and p = p and n = 8]) (simp_all add: st_list_padd  bit_get64)
qed

lemma word_of_be_bytes:
  fixes m :: "'b mem"
  assumes "\<And>i. i < n \<Longrightarrow> m (padd p (n - 1 - i)) = ucast (drop_bit (8 * i) v)"
    "\<And>k. bit x k \<longleftrightarrow> k < 8 * n \<and> bit (m (padd p (n - 1 - k div 8))) (k mod 8)" "LENGTH('a) = 8 * n"
  shows "x = (v :: 'a::len word)"
proof (rule bit_word_eqI)
  fix k assume "k < LENGTH('a)"
  then have k: "k < 8 * n" using assms(3) by simp
  then have "k div 8 < n" by linarith
  then show "bit x k \<longleftrightarrow> bit v k"
    using k assms(1) [of "k div 8"] unfolding assms(2) by (simp add: bit_simps)
qed

lemma get_be_bytes:
  fixes m :: "'b mem"
  shows "get_unaligned_be16 (st_list m p (rev (le_bytes 2 v16))) p = v16"
    "get_unaligned_be32 (st_list m p (rev (le_bytes 4 v32))) p = v32"
    "get_unaligned_be64 (st_list m p (rev (le_bytes 8 v64))) p = v64"
proof -
  show "get_unaligned_be16 (st_list m p (rev (le_bytes 2 v16))) p = v16"
    by (rule word_of_be_bytes [where m = "st_list m p (rev (le_bytes 2 v16))" and p = p and n = 2]) (auto simp add: st_list_padd rev_nth bit_get16)
  show "get_unaligned_be32 (st_list m p (rev (le_bytes 4 v32))) p = v32"
    by (rule word_of_be_bytes [where m = "st_list m p (rev (le_bytes 4 v32))" and p = p and n = 4]) (auto simp add: st_list_padd rev_nth bit_get32)
  show "get_unaligned_be64 (st_list m p (rev (le_bytes 8 v64))) p = v64"
    by (rule word_of_be_bytes [where m = "st_list m p (rev (le_bytes 8 v64))" and p = p and n = 8]) (auto simp add: st_list_padd rev_nth bit_get64)
qed

lemma le_bytes_narrow:
  "le_bytes 2 (ucast v :: u16) = le_bytes 2 (v :: u64)" "le_bytes 4 (ucast v :: u32) = le_bytes 4 v"
  "le_bytes 1 v = [ucast v]"
  by (auto simp: le_bytes_def upt_conv_Cons intro!: bit_word_eqI simp: bit_simps)

lemma ucast_take:
  "ucast (ucast v :: u8) = take_bit 8 (v :: u64)" "ucast (ucast v :: u16) = take_bit 16 v" "ucast (ucast v :: u32) = take_bit 32 v"
  by (auto intro!: bit_word_eqI simp: bit_simps)

section \<open>Rotation, sign and order\<close>

lemma ror_rol:
  "s \<le> 32 \<Longrightarrow> ror32 (rol32 w s) s = w" "s \<le> 16 \<Longrightarrow> ror16 (rol16 v s) s = v" "s \<le> 8 \<Longrightarrow> ror8 (rol8 u s) s = u"
proof -
  have e: "k + (n + s - k) - s = n" if "\<not> s + n < k" for k n :: nat using that by simp
  show "ror32 (rol32 w s) s = w" if "s \<le> 32"
  proof (rule bit_word_eqI)
    fix n assume "n < LENGTH(32)"
    then show "bit (ror32 (rol32 w s) s) n \<longleftrightarrow> bit w n"
      using that by (cases "s + n < 32") (auto simp: rol32_def ror32_def bit_simps e)
  qed
  show "ror16 (rol16 v s) s = v" if "s \<le> 16"
  proof (rule bit_word_eqI)
    fix n assume "n < LENGTH(16)"
    then show "bit (ror16 (rol16 v s) s) n \<longleftrightarrow> bit v n"
      using that by (cases "s + n < 16") (auto simp: rol16_def ror16_def bit_simps e)
  qed
  show "ror8 (rol8 u s) s = u" if "s \<le> 8"
  proof (rule bit_word_eqI)
    fix n assume "n < LENGTH(8)"
    then show "bit (ror8 (rol8 u s) s) n \<longleftrightarrow> bit u n"
      using that by (cases "s + n < 8") (auto simp: rol8_def ror8_def bit_simps e)
  qed
qed

lemma bit_sign_extend32:
  assumes "i < 32" "n < 32"
  shows "bit (sign_extend32 v i) n \<longleftrightarrow> bit v (if n < i then n else i)"
proof -
  consider "n < i" | "n = i" | "i < n" by linarith
  then show ?thesis
    using assms by cases (auto simp: sign_extend32_def Let_def bit_signed_drop_bit_iff bit_push_bit_iff)
qed

lemma asm_fls_fls: "asm_fls x = fls x"
  by (simp add: asm_fls_def fls_def)

lemma unat_last_at:
  assumes "last_at (bit (x :: u32)) f"
  shows "2 ^ f \<le> unat x \<and> unat x < 2 ^ (f + 1)"
proof -
  have b: "odd (unat x div 2 ^ f)" using assms by (auto simp: last_at_def bit_iff_odd [symmetric] bit_unsigned_iff)
  have "take_bit (f + 1) (unat x) = unat x"
    using assms by (intro bit_eqI) (auto simp: bit_take_bit_iff last_at_def bit_unsigned_iff less_Suc_eq_le not_less [symmetric])
  then have "unat x < 2 ^ (f + 1)" by (metis take_bit_nat_less_exp)
  moreover have "unat x div 2 ^ f \<noteq> 0" using b by (intro notI) simp
  ultimately show ?thesis using div_less not_less by blast
qed

lemma asm_ffs_first:
  assumes "first_at (bit x) f" "f < 32"
  shows "asm_ffs x = f + 1"
proof -
  have step: "\<exists>x' f' n'. ffs_step k (y, n) = (x', n') \<and> first_at (bit x') f' \<and> f' < k \<and> n' + f' = n + g"
    if y: "first_at (bit y) g" "g < 2 * k" "2 * k \<le> 32" for y n g k
  proof (cases "k \<le> g")
    case True
    then obtain i where "ffs_step k (y, n) = (i, n + k)" "first_at (bit i) (g - k)"
      using ffs_step_first [OF y(1), of k n] y by auto
    then show ?thesis using True y(2) by (intro exI [of _ i] exI [of _ "g - k"] exI [of _ "n + k"]) simp
  next
    case False
    then show ?thesis using ffs_step_first [OF y(1), of k n] y by auto
  qed
  obtain x1 f1 n1 where 1: "ffs_step 16 (x, 1) = (x1, n1)" "first_at (bit x1) f1" "f1 < 16" "n1 + f1 = 1 + f"
    using step [of x f 16 1] assms by auto
  obtain x2 f2 n2 where 2: "ffs_step 8 (x1, n1) = (x2, n2)" "first_at (bit x2) f2" "f2 < 8" "n2 + f2 = n1 + f1"
    using step [of x1 f1 8 n1] 1 by auto
  obtain x3 f3 n3 where 3: "ffs_step 4 (x2, n2) = (x3, n3)" "first_at (bit x3) f3" "f3 < 4" "n3 + f3 = n2 + f2"
    using step [of x2 f2 4 n2] 2 by auto
  obtain x4 f4 n4 where 4: "ffs_step 2 (x3, n3) = (x4, n4)" "first_at (bit x4) f4" "f4 < 2" "n4 + f4 = n3 + f3"
    using step [of x3 f3 2 n3] 3 by auto
  obtain x5 f5 n5 where 5: "ffs_step 1 (x4, n4) = (x5, n5)" "f5 < 1" "n5 + f5 = n4 + f4"
    using step [of x4 f4 1 n4] 4 by auto
  have "x \<noteq> 0" using assms(1) by (auto simp: first_at_def)
  then show ?thesis using 1 2 3 4 5 by (simp add: asm_ffs_def)
qed

lemma asm_ffs_ffs: "asm_ffs x = ffs x"
proof (cases "x = 0")
  case True
  then show ?thesis by (simp add: asm_ffs_def ffs_def ffs_step_def)
next
  case False
  then obtain k where "bit x k" using bit_eq_iff [of x 0] by auto
  then obtain f where f: "first_at (bit x) f" using first_at_exists [of "bit x"] by blast
  then have "bit x f" by (simp add: first_at_def)
  then have "f < 32" using bit_imp_le_length [of x f] by simp
  then show ?thesis using asm_ffs_first [OF f] ffs_first [OF f] by simp
qed

text \<open>The order of a count is its logarithm rounded up.\<close>

lemma count_order:
  assumes "c \<noteq> 0"
  shows "\<exists>k. get_count_order c = int k \<and> unat c \<le> 2 ^ k \<and> (0 < k \<longrightarrow> 2 ^ (k - 1) < unat c)"
proof -
  obtain l where "last_at (bit c) l" "l < 32" using last_at_exists [OF assms] by blast
  then have l: "last_at (bit c) l" "l < 32" "fls c = l + 1" using fls_last by auto
  have u: "2 ^ l \<le> unat c" "unat c < 2 ^ (l + 1)" using unat_last_at [OF l(1)] by auto
  have m: "unat (c - 1) = unat c - 1" using assms by (simp add: unat_minus_one)
  show ?thesis
  proof (cases "unat c = 2 ^ l")
    case True
    have "c = 2 ^ l" using True by (metis of_nat_numeral of_nat_power of_nat_unat ucast_id)
    then have "c AND (c - 1) = 0"
      by (intro bit_word_eqI) (auto simp: bit_and_iff bit_exp_iff mask_eq_exp_minus_1 [symmetric] bit_mask_iff)
    then show ?thesis
      using True l(3) by (intro exI [of _ l]) (auto simp: get_count_order_def asm_fls_fls)
  next
    case False
    then have "2 ^ l \<le> unat (c - 1)" "unat (c - 1) < 2 ^ (l + 1)" using u m by auto
    then have "unat (c - 1) div 2 ^ l = 1" by (auto simp: div_nat_eqI)
    then have "bit (unat (c - 1)) l" by (simp add: bit_iff_odd)
    then have "bit (c - 1) l" by (simp add: bit_unsigned_iff)
    then have "bit (c AND (c - 1)) l" using l(1) by (simp add: bit_and_iff last_at_def)
    then have "c AND (c - 1) \<noteq> 0" by auto
    then have "get_count_order c = int (l + 1)" using l(3) by (simp add: get_count_order_def asm_fls_fls)
    then show ?thesis using u False by (intro exI [of _ "l + 1"]) auto
  qed
qed


lemma bit_swab64: "bit (swab64 x) n \<longleftrightarrow> n < 64 \<and> bit x (8 * (7 - n div 8) + n mod 8)"
proof (cases "n < 8 * 8")
  case True
  have a: "(0x00000000000000ff :: u64) = mask 8" "(0x000000000000ff00 :: u64) = push_bit 8 (mask 8)"
    "(0x0000000000ff0000 :: u64) = push_bit 16 (mask 8)" "(0x00000000ff000000 :: u64) = push_bit 24 (mask 8)"
    "(0x000000ff00000000 :: u64) = push_bit 32 (mask 8)" "(0x0000ff0000000000 :: u64) = push_bit 40 (mask 8)"
    "(0x00ff000000000000 :: u64) = push_bit 48 (mask 8)" "(0xff00000000000000 :: u64) = push_bit 56 (mask 8)"
    by (simp_all add: mask_eq_exp_minus_1 push_bit_eq_mult)
  obtain k r where k: "n = 8 * k + r" "r < 8" "k < 8" "n div 8 = k" "n mod 8 = r" by (rule byte_position [OF True])
  then have "k = 0 \<or> k = 1 \<or> k = 2 \<or> k = 3 \<or> k = 4 \<or> k = 5 \<or> k = 6 \<or> k = 7" by auto
  then show ?thesis
    using k(1,2) unfolding swab64_def a k(4,5)
    by (elim disjE) (simp_all add: bit_or_iff bit_push_bit_iff bit_drop_bit_eq bit_and_iff bit_mask_iff add.commute)
qed (auto dest: bit_imp_le_length)

lemma swab64_bytes: "le_bytes 8 (swab64 v) = rev (le_bytes 8 v)"
proof (rule nth_equalityI)
  fix i assume i: "i < length (le_bytes 8 (swab64 v))"
  then have "i < 8" by simp
  then show "le_bytes 8 (swab64 v) ! i = rev (le_bytes 8 v) ! i"
    by (auto simp: rev_nth bit_drop_bit_eq bit_swab64 bit_simps intro!: bit_word_eqI)
qed simp

lemma swabs_twice: "swab16s (swab16s m p) p = m" "swab32s (swab32s m p) p = m"
  by (auto simp: swab16s_def swab16p_def swab32s_def swab32p_def fun_eq_iff st16_apply st32_apply ld32_byte ld16_bytes ld16_bytes [unfolded One_nat_def])

section \<open>Properties\<close>

text \<open>C36: A value stored with put_unaligned and read back with get_unaligned of the same byte order is the value,
  at every address and for each of the sizes 1, 2, 4 and 8; the store writes the bytes of the value, lowest
  first for le and highest first for be, and nothing else.\<close>

theorem unaligned_roundtrip:
  assumes "s \<in> {1, 2, 4, 8}"
  shows "put_unaligned_le s m v p = Some (st_list m p (le_bytes s v)) \<and>
    get_unaligned_le s (st_list m p (le_bytes s v)) p = Some (take_bit (8 * s) v) \<and>
    put_unaligned_be s m v p = Some (st_list m p (rev (le_bytes s v))) \<and>
    get_unaligned_be s (st_list m p (rev (le_bytes s v))) p = Some (take_bit (8 * s) v)"
proof -
  have "s = 1 \<or> s = 2 \<or> s = 4 \<or> s = 8" using assms by simp
  moreover have "take_bit 64 v = v" by (rule bit_word_eqI) (simp add: bit_take_bit_iff)
  ultimately show ?thesis
    by (auto simp: put_unaligned_le_def put_unaligned_be_def get_unaligned_le_def get_unaligned_be_def put_bytes put_bytes64
        le_bytes_narrow le_bytes_narrow(3) [unfolded One_nat_def] ucast_take get_le_bytes(3) get_be_bytes(3)
        get_le_bytes(1) [where ?v16.0 = "ucast v", unfolded le_bytes_narrow] get_le_bytes(2) [where ?v32.0 = "ucast v", unfolded le_bytes_narrow]
        get_be_bytes(1) [where ?v16.0 = "ucast v", unfolded le_bytes_narrow] get_be_bytes(2) [where ?v32.0 = "ucast v", unfolded le_bytes_narrow])
qed

theorem unaligned_roundtrip_witness:
  "get_unaligned_be 2 (st_list (\<lambda>_. 0) ((), 3) (rev (le_bytes 2 (0x1234 :: u64)))) ((), 3) = Some 0x1234"
proof -
  have "(2 :: nat) \<in> {1, 2, 4, 8}" by simp
  from unaligned_roundtrip [OF this, of "\<lambda>_. 0" "0x1234" "((), 3)"] show ?thesis by simp
qed



end
