(* ===== verification/Dma.thy ===== *)
theory Dma
  imports StrMore
begin

unbundle bit_operations_syntax

text \<open>
  drivers/dma/dmac020.c and dmac030.c with include/dmac020.h and dmac030.h: the drivers of the two DMA
  controllers.  The bus gives the 32-bit register at each address; a write stores the value, what the
  controller itself does to its registers is the argument of the routines that wait for it.  The register
  structs and the bit-field structs are layouts, lists of names with their sizes in words or bits, so
  that a member access is an address or a range of bits.
\<close>

section \<open>The bus and the layouts\<close>

type_synonym bus = "u32 \<Rightarrow> u32"
type_synonym layout = "(string \<times> nat) list"

definition outl :: "u32 \<Rightarrow> u32 \<Rightarrow> bus \<Rightarrow> bus" where
  "outl val addr bus = bus(addr := val)"

definition inl :: "u32 \<Rightarrow> bus \<Rightarrow> u32" where
  "inl addr bus = bus addr"

text \<open>A 16-bit access, to the lower half on the little-endian bus.\<close>

definition inw :: "u32 \<Rightarrow> bus \<Rightarrow> u16" where
  "inw addr bus = ucast (bus addr)"

fun offset_of :: "layout \<Rightarrow> string \<Rightarrow> nat" where
  "offset_of [] name = 0"
| "offset_of ((s, n) # l) name = (if s = name then 0 else n + offset_of l name)"

fun width_of :: "layout \<Rightarrow> string \<Rightarrow> nat" where
  "width_of [] name = 0"
| "width_of ((s, n) # l) name = (if s = name then n else width_of l name)"

definition total :: "layout \<Rightarrow> nat" where
  "total l = sum_list (map snd l)"

definition get_field :: "layout \<Rightarrow> string \<Rightarrow> u32 \<Rightarrow> u32" where
  "get_field l name w = drop_bit (offset_of l name) w AND mask (width_of l name)"

definition set_field :: "layout \<Rightarrow> string \<Rightarrow> u32 \<Rightarrow> u32 \<Rightarrow> u32" where
  "set_field l name v w =
    (w AND NOT (push_bit (offset_of l name) (mask (width_of l name)))) OR
    push_bit (offset_of l name) (v AND mask (width_of l name))"

text \<open>Eight channels of eight words follow the common registers at 0x100.\<close>

definition ch_addr :: "u32 \<Rightarrow> u32 \<Rightarrow> nat \<Rightarrow> u32" where
  "ch_addr base ch k = base + 0x100 + 0x20 * ch + 4 * of_nat k"

definition touches_only :: "u32 \<Rightarrow> u32 \<Rightarrow> bus \<Rightarrow> bus \<Rightarrow> bool" where
  "touches_only base ch bus bus' \<longleftrightarrow> (\<forall>a. (\<forall>k < 8. a \<noteq> ch_addr base ch k) \<longrightarrow> bus' a = bus a)"

lemma touches_only_refl: "touches_only base ch bus bus"
  by (simp add: touches_only_def)

lemma touches_only_write: "touches_only base ch bus bus' \<Longrightarrow> k < 8 \<Longrightarrow> touches_only base ch bus (bus'(ch_addr base ch k := v))"
  by (auto simp: touches_only_def)

text \<open>What a register file must have for the channels not to overlap.\<close>

locale channel_file =
  fixes base :: u32
  assumes base_room: "unat base + 0x200 \<le> 2 ^ 32"
begin

lemma unat_ch_addr:
  assumes "ch < 8" "k < 8"
  shows "unat (ch_addr base ch k) = unat base + 0x100 + 32 * unat ch + 4 * k"
proof -
  have c: "unat ch < 8" using assms(1) by (simp add: word_less_nat_alt)
  have "ch_addr base ch k = of_nat (unat base + 0x100 + 32 * unat ch + 4 * k)"
    by (simp add: ch_addr_def)
  moreover have "unat base + 0x100 + 32 * unat ch + 4 * k < 2 ^ 32" using base_room c assms(2) by simp
  ultimately show ?thesis by (simp only: unsigned_of_nat) (simp add: take_bit_nat_eq_self)
qed

lemma ch_addr_eq:
  assumes "ch < 8" "k < 8" "ch' < 8" "k' < 8"
  shows "ch_addr base ch k = ch_addr base ch' k' \<longleftrightarrow> ch = ch' \<and> k = k'"
proof
  assume "ch_addr base ch k = ch_addr base ch' k'"
  then have e: "32 * unat ch + 4 * k = 32 * unat ch' + 4 * k'"
    using unat_ch_addr [OF assms(1,2)] unat_ch_addr [OF assms(3,4)] by simp
  have "unat ch = unat ch'" using e assms(2,4) by presburger
  then show "ch = ch' \<and> k = k'" using e by (simp add: word_eq_iff_unat)
qed simp

lemma ch_addr_common:
  assumes "ch < 8" "k < 8" "r < 0x100"
  shows "ch_addr base ch k \<noteq> base + of_nat r"
proof
  assume e: "ch_addr base ch k = base + of_nat r"
  have "unat (base + of_nat r) = unat base + r"
  proof -
    have "base + of_nat r = of_nat (unat base + r)" by simp
    moreover have "unat base + r < 2 ^ 32" using base_room assms(3) by simp
    ultimately show ?thesis by (simp only: unsigned_of_nat) (simp add: take_bit_nat_eq_self)
  qed
  then show False using e unat_ch_addr [OF assms(1,2)] assms(3) by simp
qed

lemma touches_only_others:
  assumes "touches_only base ch bus bus'" "ch < 8" "ch' < 8" "ch' \<noteq> ch" "k < 8"
  shows "bus' (ch_addr base ch' k) = bus (ch_addr base ch' k)"
  using assms ch_addr_eq [of ch' k ch] unfolding touches_only_def by blast

lemma touches_only_common:
  assumes "touches_only base ch bus bus'" "ch < 8" "r < 0x100"
  shows "bus' (base + of_nat r) = bus (base + of_nat r)"
  using assms ch_addr_common [of ch] unfolding touches_only_def by metis

end

section \<open>The FTDMAC020\<close>

definition FTDMAC020_REG_BASE :: u32 where
  "FTDMAC020_REG_BASE = 0x90400000"

definition DMA_Reg_020 :: layout where
  "DMA_Reg_020 =
    [(''dma_int'', 1), (''dma_int_tc'', 1), (''dma_int_tc_clr'', 1), (''dma_int_err'', 1), (''dma_int_err_clr'', 1),
     (''dma_tc'', 1), (''dma_err'', 1), (''dma_ch_enable'', 1), (''dma_ch_busy'', 1), (''dma_csr'', 1), (''dma_sync'', 1),
     (''dummy0'', 5), (''dma_ch_dev_dt_base'', 8), (''dummy1'', 8), (''dma_ch_dev_reg_base'', 8), (''dummy2'', 24),
     (''dma_ch'', 64)]"

definition DMA_CH_020 :: layout where
  "DMA_CH_020 =
    [(''csr'', 1), (''cfg'', 1), (''src_addr'', 1), (''dst_addr'', 1), (''link_list_addr'', 1), (''size'', 1), (''dummy'', 2)]"

definition DMA_CH_CSR_020 :: layout where
  "DMA_CH_CSR_020 =
    [(''enable'', 1), (''dst_sel'', 1), (''src_sel'', 1), (''dst_ctrl'', 2), (''src_ctrl'', 2), (''mode'', 1),
     (''dst_width'', 3), (''src_width'', 3), (''reserved1'', 1), (''abt'', 1), (''src_size'', 3), (''prot'', 3),
     (''priority'', 2), (''ff_th'', 3), (''reserved0'', 4), (''tc_msk'', 1)]"

definition DMA_CH_CFG_020 :: layout where
  "DMA_CH_CFG_020 =
    [(''int_tc_msk'', 1), (''int_err_msk'', 1), (''int_abt_msk'', 1), (''src_rs'', 4), (''src_he'', 1), (''busy'', 1),
     (''dst_rs'', 4), (''dst_he'', 1), (''reserved1'', 2), (''llp_cnt'', 4), (''reserved2'', 12)]"

text \<open>The descriptor's control word, the lower half reserved on the AHB board.\<close>

definition DMA_LLP_CTRL_020 :: layout where
  "DMA_LLP_CTRL_020 =
    [(''reserved'', 16), (''dst_sel'', 1), (''src_sel'', 1), (''dst_ctrl'', 2), (''src_ctrl'', 2), (''dst_width'', 3),
     (''src_width'', 3), (''tc_msk'', 1), (''ff_th'', 3)]"

text \<open>The offsets and masks the header also defines, with the member each one stands for and its value.\<close>

definition DMA_offsets_020 :: "(string \<times> nat) list" where
  "DMA_offsets_020 =
    [(''dma_int'', 0x0), (''dma_int_tc'', 0x4), (''dma_int_tc_clr'', 0x8), (''dma_int_err'', 0xC), (''dma_int_err_clr'', 0x10),
     (''dma_tc'', 0x14), (''dma_err'', 0x18), (''dma_ch_enable'', 0x1C), (''dma_ch_busy'', 0x20), (''dma_csr'', 0x24),
     (''dma_sync'', 0x28), (''dma_ch_dev_dt_base'', 0x40), (''dma_ch_dev_reg_base'', 0x80), (''dma_ch'', 0x100)]"

definition DMA_CHANNEL_offsets_020 :: "(string \<times> nat) list" where
  "DMA_CHANNEL_offsets_020 =
    [(''csr'', 0x0), (''cfg'', 0x4), (''src_addr'', 0x8), (''dst_addr'', 0xc), (''link_list_addr'', 0x10), (''size'', 0x14)]"

definition DMA_CHANNEL_BASE_020 :: "nat list" where
  "DMA_CHANNEL_BASE_020 = [0x100, 0x120, 0x140, 0x160, 0x180, 0x1a0, 0x1c0, 0x1e0]"

definition DMA_CSR_masks_020 :: "(string \<times> u32 \<times> u32) list" where
  "DMA_CSR_masks_020 =
    [(''tc_msk'', 1, 0x80000000), (''priority'', 3, 0x00C00000), (''priority'', 2, 0x00800000), (''priority'', 1, 0x00400000),
     (''prot'', 4, 0x00200000), (''prot'', 2, 0x00100000), (''prot'', 1, 0x00080000), (''src_size'', 0, 0x00000000),
     (''src_size'', 1, 0x00010000), (''src_size'', 2, 0x00020000), (''src_size'', 3, 0x00030000), (''src_size'', 4, 0x00040000),
     (''src_size'', 5, 0x00050000), (''src_size'', 6, 0x00060000), (''src_size'', 7, 0x00070000), (''abt'', 1, 0x00008000),
     (''src_width'', 0, 0x00000000), (''src_width'', 1, 0x00000800), (''src_width'', 2, 0x00001000),
     (''dst_width'', 0, 0x00000000), (''dst_width'', 1, 0x00000100), (''dst_width'', 2, 0x00000200),
     (''mode'', 0, 0x00000000), (''mode'', 1, 0x00000080), (''src_ctrl'', 0, 0x00000000), (''src_ctrl'', 1, 0x00000020),
     (''src_ctrl'', 2, 0x00000040), (''dst_ctrl'', 0, 0x00000000), (''dst_ctrl'', 1, 0x00000008), (''dst_ctrl'', 2, 0x00000010),
     (''src_sel'', 1, 0x00000004), (''dst_sel'', 1, 0x00000002), (''enable'', 1, 0x00000001), (''priority'', 3, 0x00C00000),
     (''src_size'', 7, 0x00070000), (''src_width'', 7, 0x00003800), (''dst_width'', 7, 0x00000700),
     (''src_ctrl'', 3, 0x00000060), (''dst_ctrl'', 3, 0x00000018)]"

definition DMA_LLP_masks_020 :: "(string \<times> u32 \<times> u32) list" where
  "DMA_LLP_masks_020 =
    [(''tc_msk'', 1, 0x10000000), (''src_width'', 0, 0x00000000), (''src_width'', 1, 0x02000000), (''src_width'', 2, 0x04000000),
     (''dst_width'', 0, 0x00000000), (''dst_width'', 1, 0x00400000), (''dst_width'', 2, 0x00800000), (''src_ctrl'', 0, 0x00000000),
     (''src_ctrl'', 1, 0x00100000), (''src_ctrl'', 2, 0x00200000), (''dst_ctrl'', 0, 0x00000000), (''dst_ctrl'', 1, 0x00040000),
     (''dst_ctrl'', 2, 0x00080000), (''src_sel'', 1, 0x00020000), (''dst_sel'', 1, 0x00010000)]"

text \<open>The masks that the driver itself uses.\<close>

definition DMA_CSR_M1ENDIAN :: u32 where "DMA_CSR_M1ENDIAN = 0x00000004"
definition DMA_CSR_M0ENDIAN :: u32 where "DMA_CSR_M0ENDIAN = 0x00000002"
definition DMA_CSR_DMACEN :: u32 where "DMA_CSR_DMACEN = 0x00000001"
definition DMA_CSR_CH_ENABLE :: u32 where "DMA_CSR_CH_ENABLE = 0x00000001"

definition reg020 :: "string \<Rightarrow> u32" where
  "reg020 name = FTDMAC020_REG_BASE + 4 * of_nat (offset_of DMA_Reg_020 name)"

definition ch020 :: "u32 \<Rightarrow> string \<Rightarrow> u32" where
  "ch020 channel name = ch_addr FTDMAC020_REG_BASE channel (offset_of DMA_CH_020 name)"

text \<open>A mask is right when it is the value in the place of the member.\<close>

definition in_place :: "layout \<Rightarrow> string \<times> u32 \<times> u32 \<Rightarrow> bool" where
  "in_place l = (\<lambda>(name, v, m). m = push_bit (offset_of l name) v \<and> v = v AND mask (width_of l name) \<and> 0 < width_of l name)"

lemma layouts_020:
  "total DMA_Reg_020 = 128" "total DMA_CH_020 = 8" "total DMA_CH_CSR_020 = 32" "total DMA_CH_CFG_020 = 32" "total DMA_LLP_CTRL_020 = 32"
  by code_simp+

lemma offsets_020:
  "list_all (\<lambda>(name, off). off = 4 * offset_of DMA_Reg_020 name) DMA_offsets_020"
  "list_all (\<lambda>(name, off). off = 4 * offset_of DMA_CH_020 name) DMA_CHANNEL_offsets_020"
  "DMA_CHANNEL_BASE_020 = map (\<lambda>ch. 4 * offset_of DMA_Reg_020 ''dma_ch'' + 4 * total DMA_CH_020 * ch) [0..<8]"
  by code_simp+

lemma masks_020:
  "list_all (in_place DMA_CH_CSR_020) DMA_CSR_masks_020" "list_all (in_place DMA_LLP_CTRL_020) DMA_LLP_masks_020"
  by code_simp+

interpretation dma020: channel_file FTDMAC020_REG_BASE
  by unfold_locales (simp add: FTDMAC020_REG_BASE_def)

subsection \<open>Its operations\<close>

text \<open>A shift of 1 by the channel, whose number is below 32.\<close>

definition channel_bit :: "u32 \<Rightarrow> u32" where
  "channel_bit channel = push_bit (unat channel) 1"

definition fLib_IsDMAChannelBusy :: "u32 \<Rightarrow> bus \<Rightarrow> u32" where
  "fLib_IsDMAChannelBusy channel bus = drop_bit (unat channel) (bus (reg020 ''dma_ch_busy'')) AND 0x1"

definition fLib_IsDMAChannelEnable :: "u32 \<Rightarrow> bus \<Rightarrow> u32" where
  "fLib_IsDMAChannelEnable channel bus = drop_bit (unat channel) (bus (reg020 ''dma_ch_enable'')) AND 0x1"

definition fLib_GetDMABusyStatus :: "bus \<Rightarrow> u32" where
  "fLib_GetDMABusyStatus bus = bus (reg020 ''dma_ch_busy'')"

definition fLib_GetDMAEnableStatus :: "bus \<Rightarrow> u32" where
  "fLib_GetDMAEnableStatus bus = bus (reg020 ''dma_ch_enable'')"

definition fLib_GetDMAIntStatus :: "bus \<Rightarrow> u32" where
  "fLib_GetDMAIntStatus bus = bus (reg020 ''dma_int'')"

definition fLib_GetDMAChannelIntStatus :: "u32 \<Rightarrow> bus \<Rightarrow> u32" where
  "fLib_GetDMAChannelIntStatus channel bus =
    (let st = 0 in
     if drop_bit (unat channel) (bus (reg020 ''dma_int'')) AND 0x01 \<noteq> 0 then
       let st = (if drop_bit (unat channel) (bus (reg020 ''dma_int_tc'')) AND 0x01 \<noteq> 0 then st OR 1 else st) in
       if drop_bit (unat channel) (bus (reg020 ''dma_int_err'')) AND 0x01 \<noteq> 0 then st OR 2 else st
     else st)"

definition fLib_InitDMA :: "u32 \<Rightarrow> u32 \<Rightarrow> u32 \<Rightarrow> bus \<Rightarrow> bus" where
  "fLib_InitDMA M0_BigEndian M1_BigEndian Sync bus =
    (bus(reg020 ''dma_csr'' := (if M0_BigEndian \<noteq> 0 then DMA_CSR_M0ENDIAN else 0) OR
       (if M1_BigEndian \<noteq> 0 then DMA_CSR_M1ENDIAN else 0) OR DMA_CSR_DMACEN))(reg020 ''dma_sync'' := Sync)"

definition fLib_EnableDMAChannel :: "u32 \<Rightarrow> bus \<Rightarrow> bus" where
  "fLib_EnableDMAChannel channel bus =
    (let reg = bus (ch020 channel ''csr'') in bus(ch020 channel ''csr'' := reg OR DMA_CSR_CH_ENABLE))"

definition fLib_DisableDMAChannel :: "u32 \<Rightarrow> bus \<Rightarrow> bus" where
  "fLib_DisableDMAChannel channel bus =
    (let reg = bus (ch020 channel ''csr'') in bus(ch020 channel ''csr'' := reg AND NOT DMA_CSR_CH_ENABLE))"

definition fLib_EnableDMA :: "u32 \<Rightarrow> bus \<Rightarrow> bus" where
  "fLib_EnableDMA value bus =
    (let value = value AND 0x1; reg = bus (reg020 ''dma_csr''); reg = reg AND NOT 0x1; reg = reg OR value
     in bus(reg020 ''dma_csr'' := reg))"

definition fLib_ClearDMAChannelIntStatus :: "u32 \<Rightarrow> bus \<Rightarrow> bus" where
  "fLib_ClearDMAChannelIntStatus channel bus =
    (bus(reg020 ''dma_int_tc_clr'' := channel_bit channel))(reg020 ''dma_int_err_clr'' := channel_bit channel)"

definition fLib_SetDMAChannelCfg :: "u32 \<Rightarrow> u32 \<Rightarrow> bus \<Rightarrow> bus" where
  "fLib_SetDMAChannelCfg channel Csr bus = bus(ch020 channel ''csr'' := Csr)"

definition fLib_GetDMAChannelCfg :: "u32 \<Rightarrow> bus \<Rightarrow> u32" where
  "fLib_GetDMAChannelCfg channel bus = bus (ch020 channel ''csr'')"

definition fLib_SetDMAChannelCnCfg :: "u32 \<Rightarrow> u32 \<Rightarrow> bus \<Rightarrow> bus" where
  "fLib_SetDMAChannelCnCfg channel CnCfg bus = bus(ch020 channel ''cfg'' := CnCfg)"

definition fLib_GetDMAChannelCnCfg :: "u32 \<Rightarrow> bus \<Rightarrow> u32" where
  "fLib_GetDMAChannelCnCfg channel bus = bus (ch020 channel ''cfg'')"

definition fLib_DMA_CHIntMask :: "u32 \<Rightarrow> u32 \<Rightarrow> bus \<Rightarrow> bus" where
  "fLib_DMA_CHIntMask channel Mask bus = bus(ch020 channel ''cfg'' := Mask)"

definition fLib_DMA_CHLinkList :: "u32 \<Rightarrow> u32 \<Rightarrow> bus \<Rightarrow> bus" where
  "fLib_DMA_CHLinkList channel link_list_addr bus = bus(ch020 channel ''link_list_addr'' := link_list_addr)"

definition fLib_DMA_CHDataCtrl :: "u32 \<Rightarrow> u32 \<Rightarrow> u32 \<Rightarrow> u32 \<Rightarrow> bus \<Rightarrow> bus" where
  "fLib_DMA_CHDataCtrl channel SrcAddr DstAddr Size bus =
    ((bus(ch020 channel ''src_addr'' := SrcAddr))(ch020 channel ''dst_addr'' := DstAddr))(ch020 channel ''size'' := Size)"

definition int_masks_020 :: "u32 \<Rightarrow> u32 \<Rightarrow> u32 \<Rightarrow> u32 \<Rightarrow> u32" where
  "int_masks_020 tcintr errintr abtintr cfg =
    (let cfg = set_field DMA_CH_CFG_020 ''int_tc_msk'' (if tcintr \<noteq> 0 then 0 else 1) cfg;
         cfg = set_field DMA_CH_CFG_020 ''int_err_msk'' (if errintr \<noteq> 0 then 0 else 1) cfg
     in set_field DMA_CH_CFG_020 ''int_abt_msk'' (if abtintr \<noteq> 0 then 0 else 1) cfg)"

definition fLib_DMA_SetInterrupt :: "u32 \<Rightarrow> u32 \<Rightarrow> u32 \<Rightarrow> u32 \<Rightarrow> bus \<Rightarrow> bus" where
  "fLib_DMA_SetInterrupt channel tcintr errintr abtintr bus =
    fLib_DMA_CHIntMask channel (int_masks_020 tcintr errintr abtintr (fLib_GetDMAChannelCnCfg channel bus)) bus"

definition fLib_DMA_ResetChannel :: "u8 \<Rightarrow> bus \<Rightarrow> bus" where
  "fLib_DMA_ResetChannel channel bus =
    foldl (\<lambda>b k. b(ch_addr FTDMAC020_REG_BASE (ucast channel) k := 0)) bus [0..<total DMA_CH_020]"

text \<open>The arguments of outl are the other way round here: the addresses are stored, at 0xFF and 0xFF00FF.\<close>

definition fLib_DMA_ClearAllInterrupt :: "bus \<Rightarrow> bus" where
  "fLib_DMA_ClearAllInterrupt bus =
    outl (FTDMAC020_REG_BASE + 0x10) 0xFF00FF (outl (FTDMAC020_REG_BASE + 0x8) 0xFF bus)"

text \<open>The poll of DMA_TC: dev n is the bus at the n-th read.\<close>

partial_function (option) wait_tc_020 :: "(nat \<Rightarrow> bus) \<Rightarrow> u32 \<Rightarrow> nat \<Rightarrow> nat option" where
  "wait_tc_020 dev choffset n =
    (if inl (FTDMAC020_REG_BASE + 0x14) (dev n) AND choffset = 0 then wait_tc_020 dev choffset (n + 1) else Some n)"

definition fLib_DMA_WaitIntStatus :: "u32 \<Rightarrow> (nat \<Rightarrow> bus) \<Rightarrow> bus option" where
  "fLib_DMA_WaitIntStatus channel dev =
    do { n \<leftarrow> wait_tc_020 dev (channel_bit channel) 0; Some (fLib_DisableDMAChannel channel (dev n)) }"

subsection \<open>Its lemmas\<close>

lemma ch020_simps:
  "ch020 ch ''csr'' = ch_addr FTDMAC020_REG_BASE ch 0" "ch020 ch ''cfg'' = ch_addr FTDMAC020_REG_BASE ch 1"
  "ch020 ch ''src_addr'' = ch_addr FTDMAC020_REG_BASE ch 2" "ch020 ch ''dst_addr'' = ch_addr FTDMAC020_REG_BASE ch 3"
  "ch020 ch ''link_list_addr'' = ch_addr FTDMAC020_REG_BASE ch 4" "ch020 ch ''size'' = ch_addr FTDMAC020_REG_BASE ch 5"
  by (simp_all add: ch020_def DMA_CH_020_def eval_nat_numeral)

lemma bit_set_field:
  "bit (set_field l name v w) n \<longleftrightarrow> (if offset_of l name \<le> n \<and> n < offset_of l name + width_of l name
     then n < 32 \<and> bit v (n - offset_of l name) else bit w n)"
  by (auto simp: set_field_def bit_or_iff bit_and_iff bit_not_iff bit_push_bit_iff bit_mask_iff dest: bit_imp_le_length)

lemma bit_flag: "bit ((if b then 0 else 1) :: u32) n \<longleftrightarrow> \<not> b \<and> n = 0"
  by (auto simp: bit_1_iff)

lemma bit_int_masks_020:
  "bit (int_masks_020 t e a cfg) n \<longleftrightarrow> (if n = 0 then t = 0 else if n = 1 then e = 0 else if n = 2 then a = 0 else bit cfg n)"
  unfolding int_masks_020_def Let_def bit_set_field by (auto simp: DMA_CH_CFG_020_def bit_1_iff)

lemma reset_020: "fLib_DMA_ResetChannel channel bus a =
    (if \<exists>k < 8. a = ch_addr FTDMAC020_REG_BASE (ucast channel) k then 0 else bus a)"
proof -
  have "foldl (\<lambda>b k. b(f k := 0)) bus [0..<n] a = (if \<exists>k < n. a = f k then 0 else bus a)" for f :: "nat \<Rightarrow> u32" and n
    by (induction n) (auto simp: less_Suc_eq)
  then show ?thesis using layouts_020(2) by (simp add: fLib_DMA_ResetChannel_def)
qed

lemma wait_tc_020_first:
  assumes "first_at (\<lambda>i. inl (FTDMAC020_REG_BASE + 0x14) (dev (n + i)) AND c \<noteq> 0) k"
  shows "wait_tc_020 dev c n = Some (n + k)"
  using assms
proof (induction k arbitrary: n)
  case 0
  then show ?case by (subst wait_tc_020.simps) (simp add: first_at_def)
next
  case (Suc k)
  then have "wait_tc_020 dev c (n + 1) = Some (n + 1 + k)" by (intro Suc.IH) (simp add: first_at_Suc)
  then show ?case using Suc.prems by (subst wait_tc_020.simps) (simp add: first_at_Suc)
qed

section \<open>The FTDMAC030\<close>

definition DMA030_BASE :: u32 where
  "DMA030_BASE = 0xA0200000"

definition DMA_Reg_030 :: layout where
  "DMA_Reg_030 =
    [(''dma_int'', 1), (''dma_int_tc'', 1), (''dma_int_tc_clr'', 1), (''dma_int_err'', 1), (''dma_int_err_clr'', 1),
     (''dma_tc'', 1), (''dma_err'', 1), (''dma_ch_enable'', 1), (''dma_sync_pi'', 1), (''dma_ldm'', 1), (''dma_wdt'', 1),
     (''dma_ge'', 1), (''dma_plverr'', 1), (''dma_rn'', 1), (''dma_hf'', 1), (''dma_ldm_flag'', 4), (''dma_big_endian'', 1),
     (''dma_writeonly'', 1), (''dummy1'', 43), (''dma_ch'', 64)]"

definition DMA_CH_030 :: layout where
  "DMA_CH_030 =
    [(''csr'', 1), (''cfg'', 1), (''src_addr'', 1), (''dst_addr'', 1), (''llp'', 1), (''size'', 1), (''stride'', 1), (''dummy'', 1)]"

definition DMA_FEATURE_030 :: layout where
  "DMA_FEATURE_030 =
    [(''ch_num'', 3), (''reserved3'', 1), (''d_width'', 2), (''reserved6'', 2), (''dfifo_depth'', 3), (''reserved11'', 1),
     (''pri_on'', 1), (''reserved13'', 3), (''pri_num'', 4), (''ldm_on'', 1), (''reserved21'', 3), (''ldm_depth'', 2),
     (''reserved26'', 2), (''cmd_depth'', 2), (''reserved30'', 2)]"

definition DMA_CH_CSR_030 :: layout where
  "DMA_CH_CSR_030 =
    [(''ch_wevent'', 8), (''wsync'', 1), (''ch_sevent'', 3), (''sevent_en'', 1), (''wevent_en'', 1), (''twod_en'', 1),
     (''exp_en'', 1), (''ch_en'', 1), (''wdt_en'', 1), (''dst_ctrl'', 2), (''src_ctrl'', 2), (''dst_width'', 3),
     (''src_width'', 3), (''tc_msk'', 1), (''src_tcnt'', 3)]"

definition DMA_CH_CFG_030 :: layout where
  "DMA_CH_CFG_030 =
    [(''int_tc_msk'', 1), (''int_err_msk'', 1), (''int_abt_msk'', 1), (''src_rs'', 4), (''src_hen'', 1), (''reserved'', 1),
     (''dst_rs'', 4), (''dst_hen'', 1), (''reserved1'', 2), (''llp_cnt'', 4), (''ch_gntwin'', 8), (''ch_pri'', 1),
     (''reserved29'', 1), (''wo_mode'', 1), (''Unalign_Mode'', 1)]"

definition DMA_LLP_CTRL_030 :: layout where
  "DMA_LLP_CTRL_030 =
    [(''ch_wevent'', 8), (''wsync'', 1), (''ch_sevent'', 3), (''sevent_en'', 1), (''wevent_en'', 1), (''twod_en'', 1),
     (''exp_en'', 1), (''ch_en'', 1), (''wdt_en'', 1), (''dst_ctrl'', 2), (''src_ctrl'', 2), (''dst_width'', 3),
     (''src_width'', 3), (''tc_msk'', 1), (''src_tcnt'', 3)]"

definition DMA_offsets_030 :: "(string \<times> nat) list" where
  "DMA_offsets_030 =
    [(''dma_int'', 0x0), (''dma_int_tc'', 0x4), (''dma_int_tc_clr'', 0x8), (''dma_int_err'', 0xC), (''dma_int_err_clr'', 0x10),
     (''dma_tc'', 0x14), (''dma_err'', 0x18), (''dma_ch_enable'', 0x1C), (''dma_sync_pi'', 0x20), (''dma_ldm'', 0x24),
     (''dma_wdt'', 0x28), (''dma_ge'', 0x2C), (''dma_plverr'', 0x30), (''dma_hf'', 0x38), (''dma_big_endian'', 0x4c),
     (''dma_writeonly'', 0x50), (''dma_ch'', 0x100)]"

definition DMA_CHANNEL_offsets_030 :: "(string \<times> nat) list" where
  "DMA_CHANNEL_offsets_030 =
    [(''csr'', 0x0), (''cfg'', 0x4), (''src_addr'', 0x8), (''dst_addr'', 0xc), (''llp'', 0x10), (''size'', 0x14), (''stride'', 0x18)]"

definition DMA_CHANNEL_BASE_030 :: "nat list" where
  "DMA_CHANNEL_BASE_030 = [0x100, 0x120, 0x140, 0x160, 0x180, 0x1a0, 0x1c0, 0x1e0]"

text \<open>The masks of the registers at 0x100 and 0x104, each an OR of single bits.\<close>

definition DMA_CSR_masks_030 :: "(string \<times> u32 \<times> u32) list" where
  "DMA_CSR_masks_030 =
    [(''src_tcnt'', 0, 0x0), (''src_tcnt'', 1, push_bit 29 1), (''src_tcnt'', 2, push_bit 30 1),
     (''src_tcnt'', 3, push_bit 30 1 OR push_bit 29 1), (''src_tcnt'', 4, push_bit 31 1),
     (''src_tcnt'', 5, push_bit 31 1 OR push_bit 29 1), (''src_tcnt'', 6, push_bit 31 1 OR push_bit 30 1),
     (''src_tcnt'', 7, push_bit 31 1 OR push_bit 30 1 OR push_bit 29 1),
     (''src_width'', 0, 0x0), (''src_width'', 1, push_bit 25 1), (''src_width'', 2, push_bit 26 1),
     (''src_width'', 3, push_bit 25 1 OR push_bit 26 1), (''src_width'', 4, push_bit 27 1),
     (''dst_width'', 0, 0x0), (''dst_width'', 1, push_bit 22 1), (''dst_width'', 2, push_bit 23 1),
     (''dst_width'', 3, push_bit 22 1 OR push_bit 23 1), (''dst_width'', 4, push_bit 24 1),
     (''src_ctrl'', 1, push_bit 20 1), (''dst_ctrl'', 1, push_bit 18 1), (''wdt_en'', 1, push_bit 17 1), (''ch_en'', 1, push_bit 16 1),
     (''exp_en'', 1, push_bit 15 1), (''twod_en'', 1, push_bit 14 1), (''wevent_en'', 1, push_bit 13 1),
     (''sevent_en'', 1, push_bit 12 1), (''wsync'', 1, push_bit 8 1)]"

definition DMA_CFG_masks_030 :: "(string \<times> u32 \<times> u32) list" where
  "DMA_CFG_masks_030 =
    [(''Unalign_Mode'', 1, push_bit 31 1), (''wo_mode'', 1, push_bit 30 1), (''ch_pri'', 1, push_bit 28 1)]"

definition DMA_CFG_INT_masks_030 :: "(string \<times> u32 \<times> u32) list" where
  "DMA_CFG_INT_masks_030 =
    [(''int_abt_msk'', 1, 0x00000004), (''int_err_msk'', 1, 0x00000002), (''int_tc_msk'', 1, 0x00000001)]"

definition DMA_CSR_CH_EN :: u32 where "DMA_CSR_CH_EN = push_bit 16 1"
definition DMA_CSR_UNALIGN :: u32 where "DMA_CSR_UNALIGN = push_bit 31 1"
definition DMA_CSR_WRITE_ONLY :: u32 where "DMA_CSR_WRITE_ONLY = push_bit 30 1"
definition DMA_FEATURE_UNALIGN :: u32 where "DMA_FEATURE_UNALIGN = push_bit 3 1"

definition reg030 :: "string \<Rightarrow> u32" where
  "reg030 name = DMA030_BASE + 4 * of_nat (offset_of DMA_Reg_030 name)"

definition ch030 :: "u32 \<Rightarrow> string \<Rightarrow> u32" where
  "ch030 channel name = ch_addr DMA030_BASE channel (offset_of DMA_CH_030 name)"

subsection \<open>Its operations\<close>

definition DMA_SetCHCsr :: "u32 \<Rightarrow> u32 \<Rightarrow> bus \<Rightarrow> bus" where
  "DMA_SetCHCsr channel Csr bus = bus(ch030 channel ''csr'' := Csr)"

definition DMA_GetCHCsr :: "u32 \<Rightarrow> bus \<Rightarrow> u32" where
  "DMA_GetCHCsr channel bus = bus (ch030 channel ''csr'')"

definition DMA_SetCHCfg :: "u32 \<Rightarrow> u32 \<Rightarrow> bus \<Rightarrow> bus" where
  "DMA_SetCHCfg channel Cfg bus = bus(ch030 channel ''cfg'' := Cfg)"

definition DMA_SetLDMAddr :: "u32 \<Rightarrow> bus \<Rightarrow> bus" where
  "DMA_SetLDMAddr Address bus = bus(reg030 ''dma_ldm'' := Address)"

definition SetDMAChannelCfg :: "u32 \<Rightarrow> u32 \<Rightarrow> bus \<Rightarrow> bus" where
  "SetDMAChannelCfg channel Csr bus = bus(ch030 channel ''csr'' := Csr)"

definition GetDMAChannelCfg :: "u32 \<Rightarrow> bus \<Rightarrow> u32" where
  "GetDMAChannelCfg channel bus = bus (ch030 channel ''csr'')"

definition DMA_ISChannelEnable :: "u32 \<Rightarrow> bus \<Rightarrow> u32" where
  "DMA_ISChannelEnable channel bus = (let reg = GetDMAChannelCfg channel bus in reg AND DMA_CSR_CH_EN)"

text \<open>The polls of DMA_WaitIntStatus: dev n is the bus at the n-th read; a round reads dma_tc, then dma_err.\<close>

partial_function (option) wait_status_030 :: "(nat \<Rightarrow> bus) \<Rightarrow> u32 \<Rightarrow> nat \<Rightarrow> (u32 \<times> bus) option" where
  "wait_status_030 dev choffset n =
    (if dev n (reg030 ''dma_tc'') AND choffset \<noteq> 0 then Some (1, (dev n)(reg030 ''dma_int_tc_clr'' := choffset))
     else if dev (n + 1) (reg030 ''dma_err'') AND choffset \<noteq> 0 then Some (2, (dev (n + 1))(reg030 ''dma_int_err_clr'' := choffset))
     else wait_status_030 dev choffset (n + 2))"

definition DMA_WaitIntStatus :: "u32 \<Rightarrow> (nat \<Rightarrow> bus) \<Rightarrow> (u32 \<times> bus) option" where
  "DMA_WaitIntStatus channel dev = wait_status_030 dev (channel_bit channel) 0"

definition DMA_GetAXIBusWidth :: "bus \<Rightarrow> string \<times> u32" where
  "DMA_GetAXIBusWidth bus =
    (let feature = ucast (inw (DMA030_BASE + 0x38) bus); w = get_field DMA_FEATURE_030 ''d_width'' feature
     in (if 2 < w then ''AXI data bus width greater than 128 bits doesn't support'' @ [CHR 0x0A] else '''', w + 2))"

definition DMA_GetDepthOfFIFO :: "bus \<Rightarrow> string \<times> u32" where
  "DMA_GetDepthOfFIFO bus =
    (let feature = ucast (inw (DMA030_BASE + 0x38) bus); d = get_field DMA_FEATURE_030 ''dfifo_depth'' feature
     in (if 4 < d then ''The depth of data FIFO greater than 128!!'' @ [CHR 0x0A] else '''', d))"

definition IsDMAChannelEnable :: "u32 \<Rightarrow> bus \<Rightarrow> u32" where
  "IsDMAChannelEnable channel bus = drop_bit (unat channel) (bus (reg030 ''dma_ch_enable'')) AND 0x1"

definition GetDMAIntStatus :: "bus \<Rightarrow> u32" where
  "GetDMAIntStatus bus = bus (reg030 ''dma_int'')"

definition GetDMAChannelIntStatus :: "u32 \<Rightarrow> bus \<Rightarrow> u32" where
  "GetDMAChannelIntStatus channel bus =
    (let st = 0 in
     if drop_bit (unat channel) (bus (reg030 ''dma_int'')) AND 0x01 \<noteq> 0 then
       let st = (if drop_bit (unat channel) (bus (reg030 ''dma_int_tc'')) AND 0x01 \<noteq> 0 then st OR 1 else st) in
       if drop_bit (unat channel) (bus (reg030 ''dma_int_err'')) AND 0x01 \<noteq> 0 then st OR 2 else st
     else st)"

definition GetDMAEnableStatus :: "bus \<Rightarrow> u32" where
  "GetDMAEnableStatus bus = bus (reg030 ''dma_ch_enable'')"

definition EnableDMAChannel :: "u32 \<Rightarrow> bus \<Rightarrow> bus" where
  "EnableDMAChannel channel bus =
    bus(ch030 channel ''csr'' := set_field DMA_CH_CSR_030 ''ch_en'' 1 (bus (ch030 channel ''csr'')))"

definition DisableDMAChannel :: "u32 \<Rightarrow> bus \<Rightarrow> bus" where
  "DisableDMAChannel channel bus =
    bus(ch030 channel ''csr'' := set_field DMA_CH_CSR_030 ''ch_en'' 0 (bus (ch030 channel ''csr'')))"

definition EnableDMAChannelEndianConverter :: "u32 \<Rightarrow> bus \<Rightarrow> bus" where
  "EnableDMAChannelEndianConverter channel bus =
    (let reg = ucast (inw (DMA030_BASE + 0x4c) bus); reg = reg OR channel_bit channel in outl reg (DMA030_BASE + 0x4c) bus)"

definition DisableDMAChannelEndianConverter :: "u32 \<Rightarrow> bus \<Rightarrow> bus" where
  "DisableDMAChannelEndianConverter channel bus = outl (push_bit (unat channel) 0) (DMA030_BASE + 0x4c) bus"

definition EnableDMAChannelWriteOnly :: "u32 \<Rightarrow> bus \<Rightarrow> bus" where
  "EnableDMAChannelWriteOnly channel bus =
    (let reg = bus (ch030 channel ''cfg''); reg = reg OR DMA_CSR_WRITE_ONLY in bus(ch030 channel ''cfg'' := reg))"

definition EnableDMAChannelUnalign :: "u32 \<Rightarrow> bus \<Rightarrow> bus" where
  "EnableDMAChannelUnalign channel bus =
    (let reg = bus (ch030 channel ''cfg''); reg = reg OR DMA_CSR_UNALIGN in bus(ch030 channel ''cfg'' := reg))"

definition ClearDMAChannelIntStatus :: "u32 \<Rightarrow> bus \<Rightarrow> bus" where
  "ClearDMAChannelIntStatus channel bus =
    (bus(reg030 ''dma_int_tc_clr'' := channel_bit channel))(reg030 ''dma_int_err_clr'' := channel_bit channel)"

definition DMA_CHIntMask :: "u32 \<Rightarrow> u32 \<Rightarrow> bus \<Rightarrow> bus" where
  "DMA_CHIntMask channel Mask bus = bus(ch030 channel ''cfg'' := Mask)"

definition DMA_CHLinkList :: "u32 \<Rightarrow> u32 \<Rightarrow> bus \<Rightarrow> bus" where
  "DMA_CHLinkList channel LLP bus = bus(ch030 channel ''llp'' := LLP)"

definition DMA_CHDataCtrl :: "u32 \<Rightarrow> u32 \<Rightarrow> u32 \<Rightarrow> u32 \<Rightarrow> bus \<Rightarrow> bus" where
  "DMA_CHDataCtrl channel SrcAddr DstAddr Size bus =
    ((bus(ch030 channel ''src_addr'' := SrcAddr))(ch030 channel ''dst_addr'' := DstAddr))(ch030 channel ''size'' := Size)"

definition DMA_CHDataCtrl_2D :: "u32 \<Rightarrow> u32 \<Rightarrow> u32 \<Rightarrow> u32 \<Rightarrow> u32 \<Rightarrow> u32 \<Rightarrow> u32 \<Rightarrow> bus \<Rightarrow> bus" where
  "DMA_CHDataCtrl_2D channel SrcAddr DstAddr XTcnt YTcnt DstStride SrcStride bus =
    (((bus(ch030 channel ''src_addr'' := SrcAddr))(ch030 channel ''dst_addr'' := DstAddr))
      (ch030 channel ''size'' := push_bit 16 YTcnt OR XTcnt))(ch030 channel ''stride'' := push_bit 16 DstStride OR SrcStride)"

text \<open>The local cfg is never set before its fields are: cfg0 is the value it happens to have.\<close>

definition DMA_SetInterrupt :: "u32 \<Rightarrow> u32 \<Rightarrow> u32 \<Rightarrow> u32 \<Rightarrow> u32 \<Rightarrow> bus \<Rightarrow> bus" where
  "DMA_SetInterrupt cfg0 channel tcintr errintr abtintr bus =
    (let cfg = set_field DMA_CH_CFG_030 ''int_tc_msk'' (if tcintr \<noteq> 0 then 0 else 1) cfg0;
         cfg = set_field DMA_CH_CFG_030 ''int_err_msk'' (if errintr \<noteq> 0 then 0 else 1) cfg;
         cfg = set_field DMA_CH_CFG_030 ''int_abt_msk'' (if abtintr \<noteq> 0 then 0 else 1) cfg
     in DMA_CHIntMask channel cfg bus)"

definition DMA_ResetChannel :: "u8 \<Rightarrow> bus \<Rightarrow> bus" where
  "DMA_ResetChannel channel bus =
    (let base = DMA030_BASE + 0x100 + ucast channel * 0x20
     in outl 0 (base + 0x14) (outl 0 (base + 0x10) (outl 0 (base + 0xc) (outl 0 (base + 0x8)
          (outl 7 (base + 0x4) (outl 0 (base + 0x0) bus))))))"

definition DMA_ClearAllInterrupt :: "bus \<Rightarrow> bus" where
  "DMA_ClearAllInterrupt bus = outl 0xFF00FF (DMA030_BASE + 0x10) (outl 0xFF (DMA030_BASE + 0x8) bus)"

definition DMA_SetWriteOnlyValue :: "u32 \<Rightarrow> bus \<Rightarrow> bus" where
  "DMA_SetWriteOnlyValue Value bus = outl Value (DMA030_BASE + 0x50) bus"

definition DMA_EnableFeatureUnalign :: "bus \<Rightarrow> bus" where
  "DMA_EnableFeatureUnalign bus =
    (let reg = ucast (inw (DMA030_BASE + 0x38) bus); reg = reg OR DMA_FEATURE_UNALIGN in outl reg (DMA030_BASE + 0x38) bus)"

definition DMA_UnalignFeature :: "bus \<Rightarrow> u32" where
  "DMA_UnalignFeature bus =
    (let reg = ucast (inw (DMA030_BASE + 0x38) bus) :: u32; reg = reg AND DMA_FEATURE_UNALIGN in if reg \<noteq> 0 then 1 else 0)"

definition InitDMA :: "bus \<Rightarrow> bus" where
  "InitDMA bus = bus(reg030 ''dma_plverr'' := 0)"

subsection \<open>Its lemmas\<close>

interpretation dma030: channel_file DMA030_BASE
  by unfold_locales (simp add: DMA030_BASE_def)

lemma ch030_simps:
  "ch030 ch ''csr'' = ch_addr DMA030_BASE ch 0" "ch030 ch ''cfg'' = ch_addr DMA030_BASE ch 1"
  "ch030 ch ''src_addr'' = ch_addr DMA030_BASE ch 2" "ch030 ch ''dst_addr'' = ch_addr DMA030_BASE ch 3"
  "ch030 ch ''llp'' = ch_addr DMA030_BASE ch 4" "ch030 ch ''size'' = ch_addr DMA030_BASE ch 5"
  "ch030 ch ''stride'' = ch_addr DMA030_BASE ch 6"
  by (simp_all add: ch030_def DMA_CH_030_def eval_nat_numeral)

lemma layouts_030:
  "total DMA_Reg_030 = 128" "total DMA_CH_030 = 8" "total DMA_FEATURE_030 = 32" "total DMA_CH_CSR_030 = 32"
  "total DMA_CH_CFG_030 = 32" "total DMA_LLP_CTRL_030 = 32"
  by code_simp+

lemma offsets_030:
  "list_all (\<lambda>(name, off). off = 4 * offset_of DMA_Reg_030 name) DMA_offsets_030"
  "list_all (\<lambda>(name, off). off = 4 * offset_of DMA_CH_030 name) DMA_CHANNEL_offsets_030"
  "DMA_CHANNEL_BASE_030 = map (\<lambda>ch. 4 * offset_of DMA_Reg_030 ''dma_ch'' + 4 * total DMA_CH_030 * ch) [0..<8]"
  by code_simp+

lemma masks_030:
  "list_all (in_place DMA_CH_CSR_030) DMA_CSR_masks_030" "list_all (in_place DMA_CH_CFG_030) DMA_CFG_masks_030"
  "list_all (in_place DMA_CH_CFG_030) DMA_CFG_INT_masks_030"
  by code_simp+

lemma reset_030_addr:
  "DMA_ResetChannel channel bus = (let c = ch_addr DMA030_BASE (ucast channel) in
     ((((((bus(c 0 := 0))(c 1 := 7))(c 2 := 0))(c 3 := 0))(c 4 := 0))(c 5 := 0)))"
  by (simp add: DMA_ResetChannel_def outl_def ch_addr_def Let_def mult.commute)

definition channel_ops_020 :: "u32 \<Rightarrow> u32 \<Rightarrow> u32 \<Rightarrow> u32 \<Rightarrow> (bus \<Rightarrow> bus) list" where
  "channel_ops_020 ch x y z =
    [fLib_EnableDMAChannel ch, fLib_DisableDMAChannel ch, fLib_SetDMAChannelCfg ch x, fLib_SetDMAChannelCnCfg ch x,
     fLib_DMA_CHIntMask ch x, fLib_DMA_CHLinkList ch x, fLib_DMA_CHDataCtrl ch x y z, fLib_DMA_SetInterrupt ch x y z,
     fLib_DMA_ResetChannel (ucast ch)]"

definition channel_ops_030 :: "u32 \<Rightarrow> u32 \<Rightarrow> u32 \<Rightarrow> u32 \<Rightarrow> u32 \<Rightarrow> (bus \<Rightarrow> bus) list" where
  "channel_ops_030 cfg0 ch x y z =
    [EnableDMAChannel ch, DisableDMAChannel ch, DMA_SetCHCsr ch x, DMA_SetCHCfg ch x, SetDMAChannelCfg ch x, DMA_CHIntMask ch x,
     DMA_CHLinkList ch x, DMA_CHDataCtrl ch x y z, DMA_CHDataCtrl_2D ch x y z x y z, DMA_SetInterrupt cfg0 ch x y z,
     EnableDMAChannelWriteOnly ch, EnableDMAChannelUnalign ch, DMA_ResetChannel (ucast ch)]"

lemma ucast_channel: "ch < 8 \<Longrightarrow> ucast (ucast (ch :: u32) :: u8) = ch"
  unfolding word_less_nat_alt word_eq_iff_unat by (simp add: unat_ucast_fits)

lemma ops_020_touch:
  assumes "ch < 8" "oper \<in> set (channel_ops_020 ch x y z)"
  shows "touches_only FTDMAC020_REG_BASE ch bus (oper bus)"
  using assms(2)
  by (auto simp: channel_ops_020_def fLib_EnableDMAChannel_def fLib_DisableDMAChannel_def fLib_SetDMAChannelCfg_def
      fLib_SetDMAChannelCnCfg_def fLib_DMA_CHIntMask_def fLib_DMA_CHLinkList_def fLib_DMA_CHDataCtrl_def fLib_DMA_SetInterrupt_def
      ch020_simps Let_def reset_020 ucast_channel [OF assms(1)] touches_only_def)

lemma ops_030_touch:
  assumes "ch < 8" "oper \<in> set (channel_ops_030 cfg0 ch x y z)"
  shows "touches_only DMA030_BASE ch bus (oper bus)"
  using assms(2)
  by (auto simp: channel_ops_030_def EnableDMAChannel_def DisableDMAChannel_def DMA_SetCHCsr_def DMA_SetCHCfg_def SetDMAChannelCfg_def
      DMA_CHIntMask_def DMA_CHLinkList_def DMA_CHDataCtrl_def DMA_CHDataCtrl_2D_def DMA_SetInterrupt_def EnableDMAChannelWriteOnly_def
      EnableDMAChannelUnalign_def ch030_simps Let_def reset_030_addr ucast_channel [OF assms(1)] touches_only_def)

lemma wait_status_030_first:
  assumes "first_at (\<lambda>i. dev (n + 2 * i) (reg030 ''dma_tc'') AND c \<noteq> 0 \<or> dev (n + 2 * i + 1) (reg030 ''dma_err'') AND c \<noteq> 0) k"
  shows "wait_status_030 dev c n =
    (if dev (n + 2 * k) (reg030 ''dma_tc'') AND c \<noteq> 0 then Some (1, (dev (n + 2 * k))(reg030 ''dma_int_tc_clr'' := c))
     else Some (2, (dev (n + 2 * k + 1))(reg030 ''dma_int_err_clr'' := c)))"
  using assms
proof (induction k arbitrary: n)
  case 0
  then show ?case by (subst wait_status_030.simps) (auto simp: first_at_def)
next
  case (Suc k)
  have "wait_status_030 dev c n = wait_status_030 dev c (n + 2)"
    using Suc.prems by (subst wait_status_030.simps) (auto simp: first_at_Suc)
  moreover have "first_at (\<lambda>i. dev (n + 2 + 2 * i) (reg030 ''dma_tc'') AND c \<noteq> 0 \<or> dev (n + 2 + 2 * i + 1) (reg030 ''dma_err'') AND c \<noteq> 0) k"
    using Suc.prems by (simp add: first_at_Suc)
  moreover have "n + 2 * Suc k = n + 2 + 2 * k" by simp
  ultimately show ?case using Suc.IH [of "n + 2"] by (simp only:)
qed

section \<open>Properties\<close>

text \<open>The register structs of the two controllers are laid out as their headers' offsets say, the channels 0x20
  bytes apart from 0x100; every bit-field struct fills its 32 bits, and every mask of a channel register is
  a value of one member, in its place.\<close>

theorem dma_layouts:
  "total DMA_CH_CSR_020 = 32 \<and> total DMA_CH_CFG_020 = 32 \<and> total DMA_LLP_CTRL_020 = 32 \<and>
   total DMA_CH_CSR_030 = 32 \<and> total DMA_CH_CFG_030 = 32 \<and> total DMA_LLP_CTRL_030 = 32 \<and> total DMA_FEATURE_030 = 32 \<and>
   list_all (\<lambda>(name, off). off = 4 * offset_of DMA_Reg_020 name) DMA_offsets_020 \<and>
   list_all (\<lambda>(name, off). off = 4 * offset_of DMA_CH_020 name) DMA_CHANNEL_offsets_020 \<and>
   list_all (\<lambda>(name, off). off = 4 * offset_of DMA_Reg_030 name) DMA_offsets_030 \<and>
   list_all (\<lambda>(name, off). off = 4 * offset_of DMA_CH_030 name) DMA_CHANNEL_offsets_030 \<and>
   DMA_CHANNEL_BASE_020 = map (\<lambda>ch. 0x100 + 0x20 * ch) [0..<8] \<and> DMA_CHANNEL_BASE_030 = map (\<lambda>ch. 0x100 + 0x20 * ch) [0..<8] \<and>
   list_all (in_place DMA_CH_CSR_020) DMA_CSR_masks_020 \<and> list_all (in_place DMA_LLP_CTRL_020) DMA_LLP_masks_020 \<and>
   list_all (in_place DMA_CH_CSR_030) DMA_CSR_masks_030 \<and> list_all (in_place DMA_CH_CFG_030) DMA_CFG_masks_030 \<and>
   list_all (in_place DMA_CH_CFG_030) DMA_CFG_INT_masks_030"
proof (intro conjI)
  show "DMA_CHANNEL_BASE_020 = map (\<lambda>ch. 0x100 + 0x20 * ch) [0..<8]" "DMA_CHANNEL_BASE_030 = map (\<lambda>ch. 0x100 + 0x20 * ch) [0..<8]"
    by (simp_all add: DMA_CHANNEL_BASE_020_def DMA_CHANNEL_BASE_030_def upt_rec)
qed (rule layouts_020 layouts_030 offsets_020(1,2) offsets_030(1,2) masks_020 masks_030)+



text \<open>C39: A transfer set up on a channel has its addresses, size and interrupt masks in the channel's registers, the
  other configuration bits unchanged, and is enabled; the wait returns at the first poll that shows its end.
  On the FTDMAC020 that is only the terminal count, and the channel is disabled then; on the FTDMAC030 the
  value is 1 for the terminal count and 2 for an error, which is cleared.\<close>

theorem dma_transfer:
  assumes "ch < 8"
  shows "(let b = fLib_EnableDMAChannel ch (fLib_DMA_SetInterrupt ch t e a (fLib_DMA_CHDataCtrl ch src dst n (fLib_SetDMAChannelCfg ch csr bus))) in
      fLib_GetDMAChannelCfg ch b = csr OR 1 \<and> b (ch020 ch ''src_addr'') = src \<and> b (ch020 ch ''dst_addr'') = dst \<and> b (ch020 ch ''size'') = n \<and>
      (\<forall>i. bit (fLib_GetDMAChannelCnCfg ch b) i \<longleftrightarrow>
        (if i = 0 then t = 0 else if i = 1 then e = 0 else if i = 2 then a = 0 else bit (bus (ch020 ch ''cfg'')) i))) \<and>
    (\<forall>dev k. first_at (\<lambda>i. inl (FTDMAC020_REG_BASE + 0x14) (dev i) AND channel_bit ch \<noteq> 0) k \<longrightarrow>
      fLib_DMA_WaitIntStatus ch dev = Some (fLib_DisableDMAChannel ch (dev k))) \<and>
    (\<forall>dev k. first_at (\<lambda>i. dev (2 * i) (reg030 ''dma_tc'') AND channel_bit ch \<noteq> 0 \<or>
        dev (2 * i + 1) (reg030 ''dma_err'') AND channel_bit ch \<noteq> 0) k \<longrightarrow>
      DMA_WaitIntStatus ch dev =
        (if dev (2 * k) (reg030 ''dma_tc'') AND channel_bit ch \<noteq> 0
         then Some (1, (dev (2 * k))(reg030 ''dma_int_tc_clr'' := channel_bit ch))
         else Some (2, (dev (2 * k + 1))(reg030 ''dma_int_err_clr'' := channel_bit ch))))"
proof (intro conjI allI impI)
  have d: "ch_addr FTDMAC020_REG_BASE ch i = ch_addr FTDMAC020_REG_BASE ch j \<longleftrightarrow> i = j" if "i < 8" "j < 8" for i j
    using dma020.ch_addr_eq [OF assms that(1) assms that(2)] by simp
  show "let b = fLib_EnableDMAChannel ch (fLib_DMA_SetInterrupt ch t e a (fLib_DMA_CHDataCtrl ch src dst n (fLib_SetDMAChannelCfg ch csr bus))) in
      fLib_GetDMAChannelCfg ch b = csr OR 1 \<and> b (ch020 ch ''src_addr'') = src \<and> b (ch020 ch ''dst_addr'') = dst \<and> b (ch020 ch ''size'') = n \<and>
      (\<forall>i. bit (fLib_GetDMAChannelCnCfg ch b) i \<longleftrightarrow>
        (if i = 0 then t = 0 else if i = 1 then e = 0 else if i = 2 then a = 0 else bit (bus (ch020 ch ''cfg'')) i))"
    unfolding Let_def
    by (simp add: fLib_GetDMAChannelCfg_def fLib_EnableDMAChannel_def fLib_DMA_SetInterrupt_def fLib_DMA_CHIntMask_def fLib_DMA_CHDataCtrl_def
        fLib_SetDMAChannelCfg_def fLib_GetDMAChannelCnCfg_def ch020_simps d DMA_CSR_CH_ENABLE_def bit_int_masks_020)
next
  fix dev k assume "first_at (\<lambda>i. inl (FTDMAC020_REG_BASE + 0x14) (dev i) AND channel_bit ch \<noteq> 0) k"
  then show "fLib_DMA_WaitIntStatus ch dev = Some (fLib_DisableDMAChannel ch (dev k))"
    using wait_tc_020_first [of dev 0 "channel_bit ch" k] by (simp add: fLib_DMA_WaitIntStatus_def)
next
  fix dev k assume "first_at (\<lambda>i. dev (2 * i) (reg030 ''dma_tc'') AND channel_bit ch \<noteq> 0 \<or>
        dev (2 * i + 1) (reg030 ''dma_err'') AND channel_bit ch \<noteq> 0) k"
  then show "DMA_WaitIntStatus ch dev =
        (if dev (2 * k) (reg030 ''dma_tc'') AND channel_bit ch \<noteq> 0
         then Some (1, (dev (2 * k))(reg030 ''dma_int_tc_clr'' := channel_bit ch))
         else Some (2, (dev (2 * k + 1))(reg030 ''dma_int_err_clr'' := channel_bit ch)))"
    using wait_status_030_first [of dev 0 "channel_bit ch" k] by (simp add: DMA_WaitIntStatus_def)
qed

theorem dma_transfer_witness:
  "fLib_DMA_WaitIntStatus 2 (\<lambda>n a. if n = 3 \<and> a = FTDMAC020_REG_BASE + 0x14 then 0xFF else 0) =
     Some (fLib_DisableDMAChannel 2 (\<lambda>a. if a = FTDMAC020_REG_BASE + 0x14 then 0xFF else 0))"
proof -
  let ?dev = "\<lambda>n a. if n = (3 :: nat) \<and> a = FTDMAC020_REG_BASE + 0x14 then 0xFF else (0 :: u32)"
  have "(2 :: u32) < 8" by simp
  note t = dma_transfer [OF this]
  have "first_at (\<lambda>i. inl (FTDMAC020_REG_BASE + 0x14) (?dev i) AND channel_bit 2 \<noteq> 0) 3"
    by (auto simp: first_at_def inl_def channel_bit_def)
  then have "fLib_DMA_WaitIntStatus 2 ?dev = Some (fLib_DisableDMAChannel 2 (?dev 3))"
    by (rule t [THEN conjunct2, THEN conjunct1, THEN spec, THEN spec, THEN mp])
  then show ?thesis by simp
qed

text \<open>The feature register is read with a 16-bit access: enabling the unaligned mode clears its upper half.\<close>

lemma feature_unalign_truncates:
  "bit (DMA_EnableFeatureUnalign bus (reg030 ''dma_hf'')) n \<longleftrightarrow> n = 3 \<or> n < 16 \<and> bit (bus (reg030 ''dma_hf'')) n"
proof -
  have "bit DMA_FEATURE_UNALIGN i \<longleftrightarrow> i = 3" for i
    unfolding DMA_FEATURE_UNALIGN_def bit_push_bit_iff bit_1_iff by auto
  then have fu: "bit DMA_FEATURE_UNALIGN n \<longleftrightarrow> n = 3" .
  have r: "reg030 ''dma_hf'' = DMA030_BASE + 0x38" by (simp add: reg030_def DMA_Reg_030_def)
  have v: "DMA_EnableFeatureUnalign bus (DMA030_BASE + 0x38) = ucast (ucast (bus (DMA030_BASE + 0x38)) :: u16) OR DMA_FEATURE_UNALIGN"
    unfolding DMA_EnableFeatureUnalign_def outl_def inw_def Let_def by simp
  have "bit (ucast (ucast w :: u16) :: u32) n \<longleftrightarrow> n < 16 \<and> bit w n" for w :: u32
    by (auto simp: bit_simps)
  then show ?thesis unfolding r v bit_or_iff fu by blast
qed

text \<open>Disabling one channel's endian converter disables all of them.\<close>

lemma endian_converter_off: "DisableDMAChannelEndianConverter channel bus (reg030 ''dma_big_endian'') = 0"
  by (simp add: DisableDMAChannelEndianConverter_def outl_def reg030_def DMA_Reg_030_def)

end
