(* ===== verification/Scanf.thy ===== *)
theory Scanf
  imports Cli StrMore
begin

unbundle bit_operations_syntax

text \<open>
  lib/mylibc/stdio/scanf.c: reading values out of a string or a line from the console.  The format is the
  list of its characters without the terminator, as in the formatted output; the input and the
  arguments are pointers into the memory, so that an argument may overlap the input.  Pointers carry
  their block, and None is NULL.  next is a local variable that strtol and strtoul do not set when they
  refuse the base: its first value is a parameter.
\<close>

section \<open>vsscanf\<close>

text \<open>The local variables of vsscanf that live across the iterations, and the arguments still to come.\<close>

record 'b scan_st =
  fmt :: "u8 list"
  str :: "'b ptr"
  num :: int
  smem :: "'b mem"
  sargs :: "'b ptr list"
  snext :: "'b ptr option"

datatype flow = Continue | Break | Return

definition SHRT_MAX :: u16 where "SHRT_MAX = 0x7FFF"

definition skip_ws :: "'b mem \<Rightarrow> 'b ptr \<Rightarrow> 'b ptr option" where
  "skip_ws m p = do { n \<leftarrow> skip_spaces (view m p) 0; Some (padd p n) }"

partial_function (option) skip_word :: "'b mem \<Rightarrow> 'b ptr \<Rightarrow> 'b ptr option" where
  "skip_word m p = (if \<not> isspace (m p) \<and> m p \<noteq> 0 then skip_word m (padd p 1) else Some p)"

text \<open>field_width is an int16_t and qualifier a uint8_t; -1 stands for none, which is 0xFFFF and 0xFF.\<close>

definition scan_field_width :: "u8 list \<Rightarrow> u16 \<times> u8 list" where
  "scan_field_width f = (if isdigit (cur f) then (case skip_atoi f 0 of (w, f) \<Rightarrow> (word_of_int w, f)) else (0xFFFF, f))"

definition scan_qualifier :: "u8 list \<Rightarrow> u8 \<times> u8 list" where
  "scan_qualifier f =
    (if cur f = ch CHR ''h'' \<or> tolower (cur f) = uint (ch CHR ''l'') \<or> tolower (cur f) = uint (ch CHR ''z'') then
       let q = cur f; f = tl f in
       if q = cur f then
         if q = ch CHR ''h'' then (ch CHR ''H'', tl f) else if q = ch CHR ''l'' then (ch CHR ''L'', tl f) else (q, f)
       else (q, f)
     else (0xFF, f))"

partial_function (option) scan_chars :: "'b mem \<Rightarrow> 'b ptr \<Rightarrow> 'b ptr \<Rightarrow> u16 \<Rightarrow> ('b mem \<times> 'b ptr) option" where
  "scan_chars m p s w =
    (let m = st8 m s (m p); p = padd p 1; w = w - 1 in
     if 0 < sint w \<and> m p \<noteq> 0 then scan_chars m p (padd s 1) w else Some (m, p))"

partial_function (option) scan_text :: "'b mem \<Rightarrow> 'b ptr \<Rightarrow> 'b ptr \<Rightarrow> u16 \<Rightarrow> ('b mem \<times> 'b ptr) option" where
  "scan_text m p s w =
    (if m p \<noteq> 0 \<and> \<not> isspace (m p) \<and> w \<noteq> 0 then scan_text (st8 m s (m p)) (padd p 1) (padd s 1) (w - 1)
     else Some (st8 m s 0, p))"

text \<open>The letters of the integer conversions: base and is_sign.\<close>

definition int_conversion :: "u8 \<Rightarrow> (int \<times> bool) option" where
  "int_conversion c =
    (if c = ch CHR ''o'' then Some (8, False)
     else if c = ch CHR ''x'' \<or> c = ch CHR ''X'' then Some (16, False)
     else if c = ch CHR ''i'' then Some (0, True)
     else if c = ch CHR ''d'' then Some (10, True)
     else if c = ch CHR ''u'' then Some (10, False)
     else None)"

definition bad_digit :: "int \<Rightarrow> u8 \<Rightarrow> bool" where
  "bad_digit base digit \<longleftrightarrow>
    digit = 0 \<or> (base = 16 \<and> \<not> isxdigit digit) \<or> (base = 10 \<and> \<not> isdigit digit) \<or>
    (base = 8 \<and> (\<not> isdigit digit \<or> ch CHR ''7'' < digit)) \<or> (base = 0 \<and> \<not> isdigit digit)"

text \<open>The number read from the input, stored at the width of the qualifier, and next.\<close>

definition store_int :: "u8 \<Rightarrow> bool \<Rightarrow> int \<Rightarrow> 'b ptr \<Rightarrow> 'b scan_st \<Rightarrow> 'b scan_st option" where
  "store_int qualifier is_sign base p s =
    do {
      (n, e) \<leftarrow> (if is_sign \<and> qualifier \<noteq> ch CHR ''Z'' \<and> qualifier \<noteq> ch CHR ''z''
        then strtol (Some (view (smem s) (str s))) base else strtoul (Some (view (smem s) (str s))) base);
      let m = (if qualifier = ch CHR ''H'' then st8 (smem s) p (ucast n)
               else if qualifier = ch CHR ''h'' then st16 (smem s) p (ucast n)
               else st32 (smem s) p n);
      Some (s\<lparr>smem := m, snext := (case e of None \<Rightarrow> snext s | Some k \<Rightarrow> Some (padd (str s) k))\<rparr>)
    }"

definition scan_int :: "u8 \<Rightarrow> int \<Rightarrow> bool \<Rightarrow> 'b scan_st \<Rightarrow> (flow \<times> 'b scan_st) option" where
  "scan_int qualifier base is_sign s =
    do {
      p \<leftarrow> skip_ws (smem s) (str s);
      let s = s\<lparr>str := p\<rparr>;
      let digit = (if is_sign \<and> smem s p = ch CHR ''-'' then smem s (padd p 1) else smem s p);
      if bad_digit base digit then Some (Break, s)
      else (case sargs s of
          [] \<Rightarrow> None
        | a # args \<Rightarrow> do {
            s \<leftarrow> store_int qualifier is_sign base a (s\<lparr>sargs := args\<rparr>);
            let s = s\<lparr>num := num s + 1\<rparr>;
            (case snext s of None \<Rightarrow> Some (Break, s) | Some q \<Rightarrow> Some (Continue, s\<lparr>str := q\<rparr>))
          })
    }"

text \<open>str - buf, as an int.\<close>

definition store_count :: "'b ptr \<Rightarrow> 'b scan_st \<Rightarrow> 'b scan_st option" where
  "store_count buf s =
    (case sargs s of
       [] \<Rightarrow> None
     | a # args \<Rightarrow> Some (s\<lparr>sargs := args, smem := st32 (smem s) a (word_of_int (int (snd (str s)) - int (snd buf)))\<rparr>))"

definition scan_convert :: "'b ptr \<Rightarrow> u16 \<Rightarrow> u8 \<Rightarrow> 'b scan_st \<Rightarrow> (flow \<times> 'b scan_st) option" where
  "scan_convert buf field_width qualifier s =
    (let c = cur (fmt s); s = s\<lparr>fmt := tl (fmt s)\<rparr> in
     if c = ch CHR ''c'' then
       (case sargs s of
          [] \<Rightarrow> None
        | a # args \<Rightarrow> do {
            (m, p) \<leftarrow> scan_chars (smem s) (str s) a (if field_width = 0xFFFF then 1 else field_width);
            Some (Continue, s\<lparr>sargs := args, smem := m, str := p, num := num s + 1\<rparr>)
          })
     else if c = ch CHR ''s'' then
       (case sargs s of
          [] \<Rightarrow> None
        | a # args \<Rightarrow> do {
            p \<leftarrow> skip_ws (smem s) (str s);
            (m, p) \<leftarrow> scan_text (smem s) p a (if field_width = 0xFFFF then SHRT_MAX else field_width);
            Some (Continue, s\<lparr>sargs := args, smem := m, str := p, num := num s + 1\<rparr>)
          })
     else if c = ch CHR ''n'' then map_option (Pair Continue) (store_count buf s)
     else if c = ch CHR ''%'' then
       Some (if smem s (str s) \<noteq> ch CHR ''%'' then Return else Continue, s\<lparr>str := padd (str s) 1\<rparr>)
     else (case int_conversion c of
         None \<Rightarrow> Some (Return, s)
       | Some (base, is_sign) \<Rightarrow> scan_int qualifier base is_sign s))"

text \<open>The body of the loop.\<close>

definition scan_step :: "'b ptr \<Rightarrow> 'b scan_st \<Rightarrow> (flow \<times> 'b scan_st) option" where
  "scan_step buf s =
    do {
      s \<leftarrow> (if isspace (cur (fmt s)) then
               do { p \<leftarrow> skip_ws (smem s) (str s); Some (s\<lparr>fmt := dropWhile isspace (tl (fmt s)), str := p\<rparr>) }
             else Some s);
      if cur (fmt s) \<noteq> ch CHR ''%'' \<and> cur (fmt s) \<noteq> 0 then
        Some (if cur (fmt s) \<noteq> smem s (str s) then Break else Continue, s\<lparr>fmt := tl (fmt s), str := padd (str s) 1\<rparr>)
      else if cur (fmt s) = 0 then Some (Break, s)
      else
        let s = s\<lparr>fmt := tl (fmt s)\<rparr> in
        if cur (fmt s) = ch CHR ''*'' then
          do {
            p \<leftarrow> skip_word (smem s) (str s);
            Some (Continue, s\<lparr>fmt := dropWhile (\<lambda>c. \<not> isspace c \<and> c \<noteq> ch CHR ''%'') (fmt s), str := p\<rparr>)
          }
        else
          let (field_width, f) = scan_field_width (fmt s);
              (qualifier, f) = scan_qualifier f;
              s = s\<lparr>fmt := f\<rparr>
          in if cur f = 0 \<or> smem s (str s) = 0 then Some (Break, s) else scan_convert buf field_width qualifier s
    }"

partial_function (option) scan_run :: "'b ptr \<Rightarrow> 'b scan_st \<Rightarrow> (flow \<times> 'b scan_st) option" where
  "scan_run buf s =
    (if cur (fmt s) \<noteq> 0 \<and> smem s (str s) \<noteq> 0 then
       do {
         (f, s) \<leftarrow> scan_step buf s;
         if f = Continue then scan_run buf s else Some (f, s)
       }
     else Some (Break, s))"

definition vsscanf :: "'b ptr option \<Rightarrow> 'b mem \<Rightarrow> 'b ptr \<Rightarrow> u8 list \<Rightarrow> 'b ptr list \<Rightarrow> (int \<times> 'b mem) option" where
  "vsscanf next0 m buf f args =
    do {
      (r, s) \<leftarrow> scan_run buf \<lparr>fmt = f, str = buf, num = 0, smem = m, sargs = args, snext = next0\<rparr>;
      s \<leftarrow> (if r \<noteq> Return \<and> cur (fmt s) = ch CHR ''%'' \<and> cur (tl (fmt s)) = ch CHR ''n'' then store_count buf s else Some s);
      Some (num s, smem s)
    }"

definition sscanf :: "'b ptr option \<Rightarrow> 'b mem \<Rightarrow> 'b ptr \<Rightarrow> string \<Rightarrow> 'b ptr list \<Rightarrow> (int \<times> 'b mem) option" where
  "sscanf next0 m buf f args = vsscanf next0 m buf (str_bytes f) args"

section \<open>_gets and scanf\<close>

text \<open>The line editor of scanf: no bound on the characters it stores.  c is never -1, see ftuart.c.\<close>

partial_function (option) line_loop ::
  "'b ptr \<Rightarrow> nat \<Rightarrow> 'b mem \<Rightarrow> 'z ftuart_scheme \<Rightarrow> (nat \<times> 'b mem \<times> 'z ftuart_scheme) option" where
  "line_loop s i m u =
    do {
      (c, u) \<leftarrow> ftuart_getc u;
      (i, m, u) \<leftarrow>
        (if c = DELETE_KEY \<or> c = BACKSP_KEY then
           if i \<noteq> 0 then do {
             u \<leftarrow> ftuart_puts (lit [CHR 0x08, CHR '' '', CHR 0x08]) u;
             Some (i - 1, st8 m (padd s i) 0, u)
           }
           else Some (i, m, u)
         else if c \<noteq> 13 \<and> c \<noteq> 10 then do {
           u \<leftarrow> ftuart_putc c u;
           Some (i + 1, st8 m (padd s i) c, u)
         }
         else Some (i, m, u));
      if c \<noteq> 0 \<and> c \<noteq> 13 \<and> c \<noteq> 10 then line_loop s i m u else Some (i, m, u)
    }"

definition line_gets :: "'b mem \<Rightarrow> 'b ptr \<Rightarrow> 'z ftuart_scheme \<Rightarrow> ('b mem \<times> 'z ftuart_scheme) option" where
  "line_gets m s u = do { (i, m, u) \<leftarrow> line_loop s 0 m u; Some (st8 m (padd s i) 0, u) }"

text \<open>line is the array of 256 characters on the stack.\<close>

partial_function (option) scanf ::
  "'b ptr \<Rightarrow> 'b ptr option \<Rightarrow> 'b mem \<Rightarrow> u8 list \<Rightarrow> 'b ptr list \<Rightarrow> 'z ftuart_scheme \<Rightarrow> (int \<times> 'b mem \<times> 'z ftuart_scheme) option" where
  "scanf line next0 m f args u =
    do {
      (m, u) \<leftarrow> line_gets m line u;
      n \<leftarrow> strlen m line;
      if n = 0 then scanf line next0 m f args u
      else do { (i, m) \<leftarrow> vsscanf next0 m line f args; Some (i, m, u) }
    }"

section \<open>Reading numbers\<close>

text \<open>The view starts with the text.\<close>

definition starts :: "cview \<Rightarrow> u8 list \<Rightarrow> bool" where
  "starts v s \<longleftrightarrow> (\<forall>i < length s. v i = s ! i)"

lemma starts_append: "starts v (a @ b) \<longleftrightarrow> starts v a \<and> starts (\<lambda>i. v (length a + i)) b"
proof
  assume s: "starts v (a @ b)"
  show "starts v a \<and> starts (\<lambda>i. v (length a + i)) b"
    unfolding starts_def
  proof (intro conjI allI impI)
    fix i assume "i < length a"
    then show "v i = a ! i" using s [unfolded starts_def, rule_format, of i] by (simp add: nth_append)
  next
    fix i assume "i < length b"
    then show "v (length a + i) = b ! i" using s [unfolded starts_def, rule_format, of "length a + i"] by (simp add: nth_append)
  qed
next
  assume s: "starts v a \<and> starts (\<lambda>i. v (length a + i)) b"
  show "starts v (a @ b)" unfolding starts_def
  proof (intro allI impI)
    fix i assume "i < length (a @ b)"
    then show "v i = (a @ b) ! i"
      using s [unfolded starts_def, THEN conjunct1, rule_format, of i] s [unfolded starts_def, THEN conjunct2, rule_format, of "i - length a"]
      by (cases "i < length a") (simp_all add: nth_append)
  qed
qed

lemma starts_Cons: "starts v (c # s) \<longleftrightarrow> v 0 = c \<and> starts (\<lambda>i. v (Suc i)) s"
  using starts_append [of v "[c]" s] by (simp add: starts_def)

lemma starts_Nil [simp]: "starts v []"
  by (simp add: starts_def)

lemma run_of_starts: "starts (\<lambda>j. v (i + j)) ds \<Longrightarrow> \<forall>d \<in> set ds. P d \<Longrightarrow> \<not> P (v (i + length ds)) \<Longrightarrow> run_of P v i ds"
  by (simp add: run_of_def starts_def)

lemma strtol_prefix:
  assumes "starts w (dec_string v)" "\<not> isdigit (w (length (dec_string v)))"
  shows "strtol (Some w) 10 = Some (word_of_int v, Some (length (dec_string v)))"
proof -
  let ?ds = "if v = 0 then [of_char CHR ''0''] else digits 10 (nat \<bar>v\<bar>)"
  have dd: "\<forall>d \<in> set ?ds. isdigit d" using digits_dec(1) by (simp add: isdigit_iff)
  have val: "dec_val ?ds = nat \<bar>v\<bar>" using digits_dec(2) by (simp add: dec_val_def)
  show ?thesis
  proof (cases "v < 0")
    case True
    then have s: "dec_string v = of_char CHR ''-'' # ?ds" by (simp add: dec_string_def)
    have "run_of isdigit w 1 ?ds"
      by (rule run_of_starts [OF _ dd]) (use assms in \<open>simp_all add: s starts_Cons\<close>)
    then show ?thesis
      using strtoul_dec_val [of w 1 ?ds] assms(1) val True by (simp add: strtol_def strto_base_def s starts_Cons)
  next
    case False
    then have s: "dec_string v = ?ds" by (simp add: dec_string_def)
    have run: "run_of isdigit w 0 ?ds"
      by (rule run_of_starts [OF _ dd]) (use assms in \<open>simp_all add: s\<close>)
    have "?ds \<noteq> []" using val by (cases "v = 0") (auto simp: dec_val_def)
    then have "isdigit (w 0)" using run by (cases ?ds) (auto simp: run_of_Cons)
    then have "w 0 \<noteq> of_char CHR ''-''" "w 0 \<noteq> of_char CHR ''+''" by (auto simp: isdigit_iff)
    then show ?thesis
      using strtoul_dec_val [OF run] val False by (simp add: strtol_def strto_base_def s)
  qed
qed

lemma dec_string_head:
  assumes "starts w (dec_string v)"
  shows "\<not> isspace (w 0)" "w 0 \<noteq> 0" "\<not> bad_digit 10 (if w 0 = ch CHR ''-'' then w 1 else w 0)"
proof -
  let ?ds = "if v = 0 then [of_char CHR ''0''] else digits 10 (nat \<bar>v\<bar>)"
  have dd: "\<forall>d \<in> set ?ds. isdigit d" using digits_dec(1) by (simp add: isdigit_iff)
  have "?ds \<noteq> []" using digits_dec(2) [of "nat \<bar>v\<bar>"] by (cases "v = 0") (auto simp: dec_val_def)
  then obtain d r where d: "?ds = d # r" "isdigit d" using dd by (cases ?ds) auto
  have "dec_string v = (if v < 0 then [of_char CHR ''-''] else []) @ ?ds" by (simp add: dec_string_def)
  then have s: "dec_string v = (if v < 0 then [of_char CHR ''-''] else []) @ d # r" unfolding d(1) .
  have "v < 0 \<and> w 0 = of_char CHR ''-'' \<and> w 1 = d \<or> w 0 = d"
    using assms unfolding s by (cases "v < 0") (simp_all add: starts_Cons)
  then show "\<not> isspace (w 0)" "w 0 \<noteq> 0" "\<not> bad_digit 10 (if w 0 = ch CHR ''-'' then w 1 else w 0)"
    using d(2) by (auto simp: isspace_def bad_digit_def isdigit_iff)
qed

lemma view_padd: "view m (padd p k) = (\<lambda>i. view m p (k + i))"
  by (simp add: fun_eq_iff padd_def add.assoc)

lemma skip_ws_spaces:
  assumes "starts (view m p) (replicate k 32)" "\<not> isspace (m (padd p k))"
  shows "skip_ws m p = Some (padd p k)"
proof -
  have "skip_spaces (view m p) 0 = Some (0 + k)"
    by (rule skip_spaces_run) (use assms in \<open>auto simp: starts_def isspace_def\<close>)
  then show ?thesis by (simp add: skip_ws_def)
qed

lemma skip_spaces_none: "\<not> isspace (v 0) \<Longrightarrow> skip_spaces v 0 = Some 0"
  by (subst skip_spaces.simps) simp

lemma skip_ws_none: "\<not> isspace (m p) \<Longrightarrow> skip_ws m p = Some p"
  by (simp add: skip_ws_def skip_spaces_none)

lemma scan_int_decimal:
  assumes "starts (view (smem s) (str s)) (replicate k 32 @ dec_string (sint v))"
    "\<not> isdigit (smem s (padd (str s) (k + length (dec_string (sint v)))))" "sargs s = a # args"
  shows "\<exists>s'. scan_int 0xFF 10 True s = Some (Continue, s') \<and>
    s' = s\<lparr>str := padd (str s) (k + length (dec_string (sint v))), num := num s + 1, smem := st32 (smem s) a v,
      sargs := args, snext := Some (padd (str s) (k + length (dec_string (sint v))))\<rparr>"
proof -
  let ?p = "padd (str s) k"
  have st: "starts (view (smem s) (str s)) (replicate k 32)" "starts (view (smem s) ?p) (dec_string (sint v))"
    using assms(1) unfolding starts_append view_padd by simp_all
  note h = dec_string_head [OF st(2)]
  have ws: "skip_ws (smem s) (str s) = Some ?p" by (rule skip_ws_spaces [OF st(1)]) (use h(1) in simp)
  have l: "strtol (Some (view (smem s) ?p)) 10 = Some (v, Some (length (dec_string (sint v))))"
    using strtol_prefix [OF st(2)] assms(2) by (simp add: add.commute)
  have bd: "\<not> bad_digit 10 (if smem s ?p = ch CHR ''-'' then smem s (padd ?p 1) else smem s ?p)"
    using h(3) by (cases "smem s ?p = ch CHR ''-''") simp_all
  show ?thesis
    unfolding scan_int_def ws bind.bind_lunit Let_def
    using l bd assms(3) by (cases "smem s ?p = ch CHR ''-''") (simp_all add: store_int_def)
qed

text \<open>A field of the format and of the input: j spaces and %d, k spaces and the number.\<close>

lemma cur_simps [simp]: "cur [] = 0" "cur (c # f) = c"
  by (simp_all add: cur_def)

lemma isspace_32 [simp]: "isspace 32" "\<not> isspace 37" "\<not> isspace 0"
  by (simp_all add: isspace_def)

lemma dropWhile_spaces: "dropWhile isspace (replicate j 32 @ 37 # f) = 37 # f"
  by (induction j) simp_all

lemma scan_convert_d: "fmt s = ch CHR ''d'' # f \<Longrightarrow> scan_convert buf w q s = scan_int q 10 True (s\<lparr>fmt := f\<rparr>)"
  by (simp add: scan_convert_def int_conversion_def)

lemma scan_step_decimal:
  assumes "fmt s = replicate j 32 @ str_bytes ''%d'' @ f"
    "starts (view (smem s) (str s)) (replicate k 32 @ dec_string (sint v))"
    "\<not> isdigit (smem s (padd (str s) (k + length (dec_string (sint v)))))" "sargs s = a # args"
  shows "scan_step buf s = Some (Continue, s\<lparr>fmt := f, str := padd (str s) (k + length (dec_string (sint v))), num := num s + 1,
    smem := st32 (smem s) a v, sargs := args, snext := Some (padd (str s) (k + length (dec_string (sint v))))\<rparr>)"
proof -
  let ?w = "dec_string (sint v)"
  let ?i = "if j = 0 then 0 else k"
  let ?s = "s\<lparr>fmt := 37 # 100 # f, str := padd (str s) ?i\<rparr>"
  have st: "starts (view (smem s) (str s)) (replicate k 32)" "starts (view (smem s) (padd (str s) k)) ?w"
    using assms(2) unfolding starts_append view_padd by simp_all
  have ws: "skip_ws (smem s) (str s) = Some (padd (str s) k)"
    by (rule skip_ws_spaces [OF st(1)]) (use dec_string_head(1) [OF st(2)] in simp)
  have first: "(if isspace (cur (fmt s)) then
       do { p \<leftarrow> skip_ws (smem s) (str s); Some (s\<lparr>fmt := dropWhile isspace (tl (fmt s)), str := p\<rparr>) }
     else Some s) = Some ?s"
  proof (cases j)
    case 0
    then show ?thesis using assms(1) by (simp add: str_bytes_def)
  next
    case (Suc i)
    then show ?thesis using assms(1) ws by (simp add: str_bytes_def dropWhile_spaces)
  qed
  have in0: "smem s (padd (str s) ?i) \<noteq> 0"
  proof (cases "j = 0 \<and> 0 < k")
    case True
    then show ?thesis using st(1) [unfolded starts_def, rule_format, of 0] by simp
  next
    case False
    then show ?thesis using dec_string_head(2) [OF st(2)] by auto
  qed
  let ?k = "k - ?i"
  have t: "starts (view (smem s) (padd (str s) ?i)) (replicate ?k 32 @ ?w)" "?i + (?k + length ?w) = k + length ?w"
    using assms(2) st(2) by (cases "j = 0"; simp add: view_padd)+
  obtain s' where s': "scan_int 0xFF 10 True (?s\<lparr>fmt := f\<rparr>) = Some (Continue, s')"
    "s' = s\<lparr>fmt := f, str := padd (str s) (k + length ?w), num := num s + 1, smem := st32 (smem s) a v,
       sargs := args, snext := Some (padd (str s) (k + length ?w))\<rparr>"
    using scan_int_decimal [of "?s\<lparr>fmt := f\<rparr>" ?k v a args] assms(3,4) t by auto
  have w: "scan_field_width (100 # f) = (0xFFFF, 100 # f)" "scan_qualifier (100 # f) = (0xFF, 100 # f)"
    by (simp_all add: scan_field_width_def scan_qualifier_def isdigit_iff tolower_def isupper_iff)
  show ?thesis
    unfolding scan_step_def first bind.bind_lunit using w in0 s' by (simp add: scan_convert_d)
qed

text \<open>The text and the format of several fields.\<close>

fun spaced :: "(nat \<times> u32) list \<Rightarrow> u8 list" where
  "spaced [] = []"
| "spaced ((k, v) # fs) = replicate k 32 @ dec_string (sint v) @ spaced fs"

fun d_format :: "nat list \<Rightarrow> u8 list" where
  "d_format [] = []"
| "d_format (j # js) = replicate j 32 @ str_bytes ''%d'' @ d_format js"

fun store_words_at :: "'b mem \<Rightarrow> 'b ptr list \<Rightarrow> u32 list \<Rightarrow> 'b mem" where
  "store_words_at m (p # ps) (v # vs) = store_words_at (st32 m p v) ps vs"
| "store_words_at m ps vs = m"

definition apart32 :: "'b ptr \<Rightarrow> 'b ptr \<Rightarrow> bool" where
  "apart32 p q \<longleftrightarrow> fst p \<noteq> fst q \<or> snd p + 4 \<le> snd q \<or> snd q + 4 \<le> snd p"

definition clear_of :: "'b ptr \<Rightarrow> nat \<Rightarrow> 'b ptr \<Rightarrow> bool" where
  "clear_of p n a \<longleftrightarrow> fst p \<noteq> fst a \<or> snd p + n \<le> snd a \<or> snd a + 4 \<le> snd p"

lemma st32_outside: "fst q \<noteq> fst p \<or> snd q < snd p \<or> snd p + 4 \<le> snd q \<Longrightarrow> st32 m p v q = m q"
  by (auto simp: st32_apply padd_def)

lemma clear_of_view: "clear_of p n a \<Longrightarrow> i < n \<Longrightarrow> st32 m a v (padd p i) = m (padd p i)"
  by (rule st32_outside) (auto simp: clear_of_def padd_def)

lemma starts_cong: "(\<And>i. i < length s \<Longrightarrow> v i = w i) \<Longrightarrow> starts v s = starts w s"
  by (simp add: starts_def)

lemma starts_nonzero: "starts v (replicate k 32 @ dec_string i) \<Longrightarrow> v 0 \<noteq> 0"
proof (cases k)
  case 0
  assume "starts v (replicate k 32 @ dec_string i)"
  then show ?thesis using dec_string_head(2) [of v i] 0 by simp
qed (simp add: starts_Cons)

lemma scan_run_fields:
  assumes "fmt s = d_format js" "length js = length fs" "sargs s = ps" "length ps = length fs"
    "starts (view (smem s) (str s)) (spaced fs)" "smem s (padd (str s) (length (spaced fs))) = 0"
    "\<forall>(k, v) \<in> set (tl fs). 0 < k" "\<forall>p \<in> set ps. clear_of (str s) (length (spaced fs) + 1) p"
  shows "\<exists>s'. scan_run buf s = Some (Break, s') \<and> num s' = num s + int (length fs) \<and> fmt s' = [] \<and>
    smem s' = store_words_at (smem s) ps (map snd fs)"
  using assms
proof (induction fs arbitrary: js ps s)
  case Nil
  then show ?case by (subst scan_run.simps) (simp add: cur_def)
next
  case (Cons kv fs)
  obtain k v where kv: "kv = (k, v)" by (cases kv)
  obtain j js' where js: "js = j # js'" "length js' = length fs" using Cons.prems(2) by (cases js) auto
  obtain a ps' where ps: "ps = a # ps'" "length ps' = length fs" using Cons.prems(4) by (cases ps) auto
  let ?w = "replicate k 32 @ dec_string (sint v)"
  let ?n = "k + length (dec_string (sint v))"
  let ?s = "s\<lparr>fmt := d_format js', str := padd (str s) ?n, num := num s + 1, smem := st32 (smem s) a v, sargs := ps',
    snext := Some (padd (str s) ?n)\<rparr>"
  have t: "spaced (kv # fs) = ?w @ spaced fs" by (simp add: kv)
  have st: "starts (view (smem s) (str s)) ?w" "starts (view (smem s) (padd (str s) ?n)) (spaced fs)"
    using Cons.prems(5) unfolding t starts_append [of _ ?w] view_padd by simp_all
  have e: "smem s (padd (str s) (?n + length (spaced fs))) = 0" using Cons.prems(6) by (simp add: t add.assoc)
  have nd: "\<not> isdigit (smem s (padd (str s) ?n))"
  proof (cases fs)
    case Nil
    then show ?thesis using e by simp
  next
    case (Cons f fs')
    obtain k' v' where f: "f = (k', v')" by (cases f)
    have "0 < k'" using Cons.prems(7) Cons f by auto
    then obtain i where "k' = Suc i" by (cases k') auto
    then have "smem s (padd (str s) ?n) = 32" using st(2) by (simp add: Cons f starts_Cons)
    then show ?thesis by (simp add: isdigit_iff)
  qed
  have step: "scan_step buf s = Some (Continue, ?s)"
    by (rule scan_step_decimal) (use Cons.prems(1,3) st(1) nd js ps in simp_all)
  have guard: "cur (fmt s) \<noteq> 0" "smem s (str s) \<noteq> 0"
    using starts_nonzero [OF st(1)] Cons.prems(1) by (cases j; simp add: js str_bytes_def)+
  have cl: "clear_of (str s) (?n + length (spaced fs) + 1) p" if "p \<in> set ps" for p
    using Cons.prems(8) that by (simp add: t add.assoc)
  have keep: "st32 (smem s) a v (padd (str s) i) = smem s (padd (str s) i)" if "i < ?n + length (spaced fs) + 1" for i
    by (rule clear_of_view [OF cl that]) (simp add: ps)
  have "\<exists>s'. scan_run buf ?s = Some (Break, s') \<and> num s' = num ?s + int (length fs) \<and> fmt s' = [] \<and>
    smem s' = store_words_at (smem ?s) ps' (map snd fs)"
  proof (rule Cons.IH [where js = js'])
    show "starts (view (smem ?s) (str ?s)) (spaced fs)"
      using st(2) by (subst starts_cong [of _ _ "view (smem s) (padd (str s) ?n)"]) (simp_all add: keep)
    show "smem ?s (padd (str ?s) (length (spaced fs))) = 0" using e keep by simp
    show "\<forall>(k, v) \<in> set (tl fs). 0 < k" using Cons.prems(7) by (cases fs) auto
    show "\<forall>p \<in> set ps'. clear_of (str ?s) (length (spaced fs) + 1) p"
    proof
      fix p assume "p \<in> set ps'"
      then have "clear_of (str s) (?n + length (spaced fs) + 1) p" by (intro cl) (simp add: ps)
      then show "clear_of (str ?s) (length (spaced fs) + 1) p" by (auto simp: clear_of_def padd_def)
    qed
  qed (use js ps in simp_all)
  then show ?case using guard step by (subst scan_run.simps) (auto simp: ps kv)
qed

text \<open>What is in the words afterwards.\<close>

lemma store_words_at_other:
  "length ps = length vs \<Longrightarrow> (\<forall>p \<in> set ps. fst q \<noteq> fst p \<or> snd q < snd p \<or> snd p + 4 \<le> snd q) \<Longrightarrow> store_words_at m ps vs q = m q"
  by (induction m ps vs rule: store_words_at.induct) (simp_all add: st32_outside)

lemma store_words_at_words:
  assumes "length ps = length vs" "\<forall>i < length ps. \<forall>j < i. apart32 (ps ! j) (ps ! i)" "i < length ps"
  shows "ld32 (store_words_at m ps vs) (ps ! i) = vs ! i"
  using assms
proof (induction m ps vs arbitrary: i rule: store_words_at.induct)
  case (1 m p ps v vs)
  have IH: "\<forall>i < length ps. \<forall>j < i. apart32 (ps ! j) (ps ! i)"
    using "1.prems"(2) by (metis Suc_mono length_Cons nth_Cons_Suc)
  show ?case
  proof (cases i)
    case 0
    have "apart32 p (ps ! k)" if "k < length ps" for k
      using "1.prems"(2) [rule_format, of "Suc k" 0] that by simp
    then have "\<forall>q \<in> set ps. apart32 p q" by (metis in_set_conv_nth)
    then have "ld32 (store_words_at (st32 m p v) ps vs) p = ld32 (st32 m p v) p"
      using "1.prems"(1) by (intro ld32_cong store_words_at_other) (auto simp: apart32_def padd_def)
    then show ?thesis using 0 by simp
  next
    case (Suc k)
    then show ?thesis using "1.IH" [OF _ IH, of k] "1.prems" by simp
  qed
qed simp_all

lemma sscanf_fields:
  assumes "length js = length fs" "length ps = length fs" "cstr (view m buf) (spaced fs)" "\<forall>(k, v) \<in> set (tl fs). 0 < k"
    "\<forall>p \<in> set ps. clear_of buf (length (spaced fs) + 1) p" "\<forall>i < length ps. \<forall>j < i. apart32 (ps ! j) (ps ! i)"
  shows "\<exists>m'. vsscanf next0 m buf (d_format js) ps = Some (int (length fs), m') \<and>
    (\<forall>i < length fs. ld32 m' (ps ! i) = snd (fs ! i)) \<and>
    (\<forall>q. (\<forall>p \<in> set ps. fst q \<noteq> fst p \<or> snd q < snd p \<or> snd p + 4 \<le> snd q) \<longrightarrow> m' q = m q)"
proof -
  let ?s = "\<lparr>fmt = d_format js, str = buf, num = 0, smem = m, sargs = ps, snext = next0\<rparr>"
  have c: "starts (view m buf) (spaced fs)" "m (padd buf (length (spaced fs))) = 0"
    using assms(3) by (simp_all add: cstr_def starts_def)
  obtain s' where s': "scan_run buf ?s = Some (Break, s')" "num s' = int (length fs)" "fmt s' = []"
    "smem s' = store_words_at m ps (map snd fs)"
    using scan_run_fields [of ?s js fs ps buf] assms c by auto
  have "vsscanf next0 m buf (d_format js) ps = Some (int (length fs), store_words_at m ps (map snd fs))"
    using s' by (simp add: vsscanf_def cur_def)
  then show ?thesis
    using store_words_at_words [of ps "map snd fs" _ m] store_words_at_other [of ps "map snd fs" _ m] assms(2,6) by auto
qed

section \<open>Reading what was printed\<close>

definition d_string :: "nat list \<Rightarrow> string" where
  "d_string js = concat (map (\<lambda>j. replicate j CHR '' '' @ ''%d'') js)"

lemma d_string_format: "str_bytes (d_string js) = d_format js"
  by (induction js) (simp_all add: d_string_def str_bytes_def)

lemma format_spaces: "format_loop d out (replicate j 32 @ f) args = format_loop d (out @ replicate j 32) f args"
proof (induction j arbitrary: out)
  case (Suc j)
  have "format_loop d out (32 # replicate j 32 @ f) args = format_loop d (out @ [32]) (replicate j 32 @ f) args"
    by (rule format_plain) simp
  then show ?case using Suc by (simp add: replicate_app_Cons_same)
qed simp

lemma format_fields:
  "length js = length vs \<Longrightarrow> format_loop d out (d_format js) (map Int32 vs) = Some (out @ spaced (zip js vs))"
proof (induction js arbitrary: vs out)
  case (Cons j js)
  then obtain v vs' where vs: "vs = v # vs'" "length js = length vs'" by (cases vs) auto
  have "format_loop d out (d_format (j # js)) (map Int32 vs) =
      format_loop d (out @ replicate j 32) (ch CHR ''%'' # ch CHR ''d'' # d_format js) (Int32 v # map Int32 vs')"
    using format_spaces [of d out j] by (simp add: vs str_bytes_def)
  also have "\<dots> = format_loop d (out @ replicate j 32 @ dec_string (sint v)) (d_format js) (map Int32 vs')"
    using format_d [of d "out @ replicate j 32" "d_format js" v "map Int32 vs'"] by simp
  finally show ?case using Cons.IH [OF vs(2)] by (simp add: vs)
qed simp

lemma spaced_not_0: "0 \<notin> set (spaced fs)"
  using dec_string_not_0 by (induction fs rule: spaced.induct) auto

text \<open>C31: sscanf reads back what sprintf printed with the same format of %d conversions and spaces between them, for
  every number of values and every int: it returns their number and stores each at its argument.\<close>

theorem sprintf_sscanf_roundtrip:
  assumes "length js = length vs" "length ps = length vs" "\<forall>j \<in> set (tl js). 0 < j" "length (spaced (zip js vs)) < INT_MAX"
    "\<forall>p \<in> set ps. clear_of buf (length (spaced (zip js vs)) + 1) p" "\<forall>i < length ps. \<forall>j < i. apart32 (ps ! j) (ps ! i)"
  shows "\<exists>m1 n m2. sprintf d m buf (d_string js) (map Int32 vs) = Some (m1, n) \<and>
    sscanf next0 m1 buf (d_string js) ps = Some (int (length vs), m2) \<and> (\<forall>i < length vs. ld32 m2 (ps ! i) = vs ! i)"
proof -
  let ?fs = "zip js vs"
  let ?m = "st_list m buf (spaced ?fs @ [0, 0])"
  have p: "sprintf d m buf (d_string js) (map Int32 vs) = Some (?m, length (spaced ?fs) + 1)"
    by (rule sprintf_out) (use assms(4) format_fields [OF assms(1), of d "[]"] in \<open>simp_all add: d_string_format\<close>)
  have c: "cstr (view ?m buf) (spaced ?fs)" by (rule cstr_st_list [OF spaced_not_0, of _ _ _ "[0]"])
  have t: "\<forall>(k, v) \<in> set (tl ?fs). 0 < k" using assms(1,3) by (cases js; cases vs) (auto dest: set_zip_leftD)
  obtain m2 where "vsscanf next0 ?m buf (d_format js) ps = Some (int (length vs), m2)" "\<forall>i < length vs. ld32 m2 (ps ! i) = vs ! i"
    using sscanf_fields [OF _ _ c t assms(5,6), of js next0] assms(1,2) by auto
  then show ?thesis using p by (auto simp: sscanf_def d_string_format)
qed

theorem sprintf_sscanf_roundtrip_witness:
  "\<exists>m1 n m2. sprintf (\<lambda>_ _ _ _. []) (\<lambda>_. 7) (0, 0) ''%d  %d'' [Int32 (-5), Int32 1234 :: unit arg] = Some (m1, n) \<and>
     sscanf None m1 (0, 0) ''%d  %d'' [(1 :: nat, 0), (1, 4)] = Some (2, m2) \<and> ld32 m2 (1, 0) = -5 \<and> ld32 m2 (1, 4) = 1234"
proof -
  have f: "d_string [0, 2] = ''%d  %d''" by (simp add: d_string_def eval_nat_numeral)
  have l: "length (spaced (zip [0, 2] [-5, 1234])) < INT_MAX"
    by (simp add: dec_string_def digits.simps INT_MAX_def)
  have "\<forall>p \<in> set [(1 :: nat, 0), (1, 4)]. clear_of (0, 0) (length (spaced (zip [0, 2] [-5, 1234])) + 1) p"
    "\<forall>i < length [(1 :: nat, 0), (1, 4)]. \<forall>j < i. apart32 ([(1 :: nat, 0), (1, 4)] ! j) ([(1, 0), (1, 4)] ! i)"
    by (auto simp: clear_of_def apart32_def less_Suc_eq)
  from sprintf_sscanf_roundtrip [OF _ _ _ l this, of "\<lambda>_ _ _ _. []" "\<lambda>_. 7" None]
  obtain m1 n m2 where r: "sprintf (\<lambda>_ _ _ _. []) (\<lambda>_. 7) (0, 0) ''%d  %d'' [Int32 (-5), Int32 1234 :: unit arg] = Some (m1, n)"
    "sscanf None m1 (0, 0) ''%d  %d'' [(1 :: nat, 0), (1, 4)] = Some (2, m2)"
    "\<forall>i < length [-5, 1234 :: u32]. ld32 m2 ([(1, 0), (1, 4)] ! i) = [-5, 1234] ! i"
    by (auto simp: f)
  show ?thesis using r(1,2) r(3) [rule_format, of 0] r(3) [rule_format, of 1] by auto
qed

section \<open>Words, characters and hexadecimal numbers\<close>

text \<open>A run of characters that are neither white space nor the terminator.\<close>

definition word_run :: "cview \<Rightarrow> u8 list \<Rightarrow> bool" where
  "word_run v t \<longleftrightarrow> starts v t \<and> (\<forall>c \<in> set t. c \<noteq> 0 \<and> \<not> isspace c) \<and> (v (length t) = 0 \<or> isspace (v (length t)))"

lemma word_run_Cons: "word_run v (c # t) \<longleftrightarrow> v 0 = c \<and> c \<noteq> 0 \<and> \<not> isspace c \<and> word_run (\<lambda>i. v (Suc i)) t"
  by (auto simp: word_run_def starts_Cons)

lemma unat_minus_1: "(w :: u16) \<noteq> 0 \<Longrightarrow> unat w = Suc (unat (w - 1))"
  using unat_sub_if' [of w 1] by (simp add: unat_eq_0 word_le_nat_alt word_less_nat_alt unat_gt_0 Suc_leI)

lemma scan_text_copies:
  "fst a \<noteq> fst p \<Longrightarrow> word_run (view m p) t \<Longrightarrow>
   scan_text m p a w = Some (st_list m a (take (unat w) t @ [0]), padd p (min (unat w) (length t)))"
proof (induction t arbitrary: m p a w)
  case Nil
  then show ?case by (subst scan_text.simps) (auto simp: word_run_def)
next
  case (Cons c t)
  have c: "m p = c" "c \<noteq> 0" "\<not> isspace c" "word_run (view m (padd p 1)) t"
    using Cons.prems(2) by (simp_all add: word_run_Cons view_padd)
  show ?case
  proof (cases "w = 0")
    case True
    then show ?thesis by (subst scan_text.simps) simp
  next
    case False
    have v: "view (st8 m a c) (padd p 1) = view m (padd p 1)"
      using Cons.prems(1) by (auto simp: fun_eq_iff st8_apply padd_def)
    have "scan_text (st8 m a c) (padd p 1) (padd a 1) (w - 1) =
        Some (st_list (st8 m a c) (padd a 1) (take (unat (w - 1)) t @ [0]), padd (padd p 1) (min (unat (w - 1)) (length t)))"
    proof (rule Cons.IH)
      show "fst (padd a 1) \<noteq> fst (padd p 1)" using Cons.prems(1) by (simp add: padd_def)
      show "word_run (view (st8 m a c) (padd p 1)) t" unfolding v by (rule c(4))
    qed
    then show ?thesis using c(1-3) False by (subst scan_text.simps) (simp add: unat_minus_1)
  qed
qed

lemma scan_convert_s:
  assumes "fmt s = ch CHR ''s'' # f" "starts (view (smem s) (str s)) (replicate k 32)" "word_run (view (smem s) (padd (str s) k)) t"
    "k = 0 \<longrightarrow> t \<noteq> []" "t \<noteq> [] \<or> smem s (padd (str s) k) = 0" "sargs s = a # args" "fst a \<noteq> fst (str s)"
  shows "scan_convert buf w q s =
    (let n = (if w = 0xFFFF then unat SHRT_MAX else unat w) in
     Some (Continue, s\<lparr>fmt := f, sargs := args, smem := st_list (smem s) a (take n t @ [0]), str := padd (padd (str s) k) (min n (length t)),
       num := num s + 1\<rparr>))"
proof -
  have "\<not> isspace (smem s (padd (str s) k))"
    using assms(3,5) by (cases t) (auto simp: word_run_Cons)
  then have ws: "skip_ws (smem s) (str s) = Some (padd (str s) k)" by (rule skip_ws_spaces [OF assms(2)])
  have st: "scan_text (smem s) (padd (str s) k) a w = Some (st_list (smem s) a (take (unat w) t @ [0]), padd (padd (str s) k) (min (unat w) (length t)))" for w
    by (rule scan_text_copies) (use assms(3,7) in \<open>simp_all add: padd_def\<close>)
  show ?thesis using assms(1,6) ws by (simp add: scan_convert_def st Let_def)
qed

text \<open>%x reads the digits that isxdigit of this library knows.\<close>

lemma scan_int_hex:
  assumes "run_of isxdigit (view (smem s) (str s)) 0 ds" "ds \<noteq> []" "sargs s = a # args"
  shows "scan_int 0xFF 16 False s = Some (Continue, s\<lparr>str := padd (str s) (length ds), num := num s + 1,
    smem := st32 (smem s) a (of_nat (hex_val ds)), sargs := args, snext := Some (padd (str s) (length ds))\<rparr>)"
proof -
  obtain d r where d: "ds = d # r" using assms(2) by (cases ds) auto
  then have h: "smem s (str s) = d" "isxdigit d" using assms(1) by (simp_all add: run_of_Cons)
  then have "\<not> isspace (smem s (str s))" "\<not> bad_digit 16 (smem s (str s))"
    by (auto simp: isspace_def bad_digit_def isxdigit_iff isdigit_iff)
  moreover have "strtoul (Some (view (smem s) (str s))) 16 = Some (of_nat (hex_val ds), Some (length ds))"
    using strtoul_hex_val [OF assms(1)] by (simp add: strtoul_def strto_base_def)
  ultimately show ?thesis using assms(3) by (simp add: scan_int_def store_int_def skip_ws_none)
qed

text \<open>What the conversions of %o leave behind: the base is refused, nothing is read, and str becomes the value next had before.\<close>

lemma scan_int_octal:
  assumes "\<not> isspace (smem s (str s))" "isdigit (smem s (str s))" "smem s (str s) \<le> ch CHR ''7''" "sargs s = a # args"
  shows "scan_int 0xFF 8 False s =
    Some (case snext s of None \<Rightarrow> (Break, s\<lparr>num := num s + 1, smem := st32 (smem s) a 0, sargs := args\<rparr>)
      | Some q \<Rightarrow> (Continue, s\<lparr>str := q, num := num s + 1, smem := st32 (smem s) a 0, sargs := args\<rparr>))"
proof -
  have "\<not> bad_digit 8 (smem s (str s))" using assms(2,3) by (auto simp: bad_digit_def isdigit_iff not_less)
  then show ?thesis using assms(1,4)
    by (simp add: scan_int_def store_int_def skip_ws_none strtoul_def split: option.splits)
qed

section \<open>The line editor\<close>

definition line_key :: "u8 \<Rightarrow> u8 list \<Rightarrow> u8 list" where
  "line_key c l = (if c = DELETE_KEY \<or> c = BACKSP_KEY then butlast l else l @ [c])"

fun line_echo :: "u8 list \<Rightarrow> u8 list \<Rightarrow> u8 list" where
  "line_echo l [] = []"
| "line_echo l (c # ks) =
    (if c = DELETE_KEY \<or> c = BACKSP_KEY then if l \<noteq> [] then [8, 32, 8] else [] else [c]) @ line_echo (line_key c l) ks"

lemma holds_butlast_after: "holds m p l \<Longrightarrow> holds (st8 m (padd p (length l)) 0) p (butlast l)"
  unfolding holds_def by (rule nth_equalityI) (auto simp: st8_apply nth_butlast list_eq_iff_nth_eq)

lemma length_line_key: "length (line_key c l) \<le> length l + 1"
  by (auto simp: line_key_def)

lemma line_loop_edits:
  assumes "e \<in> {10, 13}" "set ks \<inter> {0, 10, 13} = {}" "coming u (ks @ [e] @ r)" "holds m s l" "length l + length ks < N"
  shows "\<exists>m' u'. line_loop s (length l) m u = Some (length (fold line_key ks l), m', u') \<and>
    holds m' s (fold line_key ks l) \<and> within m m' s N \<and> talked u (line_echo l ks) (length ks + 1) u' \<and> coming u' r"
  using assms(2-5)
proof (induction ks arbitrary: l m u)
  case Nil
  have ce: "cr_to_lf e = 10" using assms(1) by (auto simp: cr_to_lf_def)
  obtain u1 where u1: "ftuart_getc u = Some (10, u1)" "talked u [] 1 u1" "coming u1 r"
    using getc_coming [of u e r] Nil.prems(2) ce by auto
  have "line_loop s (length l) m u = Some (length l, m, u1)"
    using u1(1) by (subst line_loop.simps) (simp add: DELETE_KEY_def BACKSP_KEY_def)
  then show ?case using u1 Nil.prems(3) by auto
next
  case (Cons c ks)
  have c: "cr_to_lf c = c" "c \<noteq> 0" "c \<noteq> 10" "c \<noteq> 13" "crlf c = [c]" "set ks \<inter> {0, 10, 13} = {}"
    using Cons.prems(1) by (auto simp: cr_to_lf_def crlf_def)
  obtain u1 where u1: "ftuart_getc u = Some (c, u1)" "talked u [] 1 u1" "coming u1 (ks @ [e] @ r)"
    using getc_coming [of u c "ks @ [e] @ r"] Cons.prems(2) c(1) by auto
  have r1: "line_ready u1" using u1(3) by (simp add: coming_def)
  obtain m2 u2 out where t: "line_loop s (length l) m u = line_loop s (length (line_key c l)) m2 u2"
    "holds m2 s (line_key c l)" "within m m2 s N" "talked u1 out 0 u2" "line_echo l (c # ks) = out @ line_echo (line_key c l) ks"
  proof -
    consider "c = DELETE_KEY \<or> c = BACKSP_KEY" "l \<noteq> []" | "c = DELETE_KEY \<or> c = BACKSP_KEY" "l = []"
      | "\<not> (c = DELETE_KEY \<or> c = BACKSP_KEY)" by blast
    then show ?thesis
    proof cases
      case 1
      obtain u2 where u2: "ftuart_puts (lit [CHR 0x08, CHR '' '', CHR 0x08]) u1 = Some u2" "talked u1 [8, 32, 8] 0 u2"
        using rub_out [OF r1] by blast
      have "line_loop s (length l) m u = line_loop s (length (line_key c l)) (st8 m (padd s (length l)) 0) u2"
        using u1(1) u2(1) c(2-4) 1 by (subst line_loop.simps) (simp add: line_key_def)
      then show ?thesis
        using that [OF _ _ _ u2(2)] 1 holds_butlast_after [OF Cons.prems(3)] within_st8 [of "length l" N m s 0] Cons.prems(4)
        by (simp add: line_key_def)
    next
      case 2
      have "line_loop s (length l) m u = line_loop s (length (line_key c l)) m u1"
        using u1(1) c(2-4) 2 by (subst line_loop.simps) (simp add: line_key_def)
      then show ?thesis using that [OF _ _ _ talked_refl] 2 Cons.prems(3) by (simp add: line_key_def)
    next
      case 3
      obtain u2 where u2: "ftuart_putc c u1 = Some u2" "talked u1 [c] 0 u2" using putc_talks [OF r1, of c] c(5) by auto
      have "line_loop s (length l) m u = line_loop s (length (line_key c l)) (st8 m (padd s (length l)) c) u2"
        using u1(1) u2(1) c(2-4) 3 by (subst line_loop.simps) (simp add: line_key_def)
      then show ?thesis
        using that [OF _ _ _ u2(2)] 3 holds_snoc [OF Cons.prems(3), of c] within_st8 [of "length l" N m s c] Cons.prems(4)
        by (simp add: line_key_def)
    qed
  qed
  have n: "length (line_key c l) + length ks < N" using length_line_key [of c l] Cons.prems(4) by simp
  obtain m3 u3 where r: "line_loop s (length (line_key c l)) m2 u2 = Some (length (fold line_key ks (line_key c l)), m3, u3)"
    "holds m3 s (fold line_key ks (line_key c l))" "within m2 m3 s N" "talked u2 (line_echo (line_key c l) ks) (length ks + 1) u3"
    "coming u3 r"
    using Cons.IH [OF c(6) coming_talked [OF t(4) u1(3)] t(2) n] by blast
  have "talked u (line_echo l (c # ks)) (Suc (length ks + 1)) u3"
    using talked_trans [OF talked_trans [OF u1(2) t(4)] r(4)] unfolding t(5) by simp
  then show ?case using r(1,2,5) t(1) within_trans [OF t(3) r(3)] by (auto simp del: line_echo.simps)
qed

lemma length_fold_key: "length (fold line_key ks l) \<le> length l + length ks"
proof (induction ks arbitrary: l)
  case (Cons c ks)
  show ?case using Cons [of "line_key c l"] length_line_key [of c l] by simp
qed simp

lemma set_fold_key: "set (fold line_key ks l) \<subseteq> set l \<union> set ks"
proof (induction ks arbitrary: l)
  case (Cons c ks)
  have "set (line_key c l) \<subseteq> insert c (set l)" by (auto simp: line_key_def dest: in_set_butlastD)
  then show ?case using Cons [of "line_key c l"] by auto
qed simp

lemma line_gets_edits:
  assumes "e \<in> {10, 13}" "set ks \<inter> {0, 10, 13} = {}" "coming u (ks @ [e] @ r)"
  shows "\<exists>m' u'. line_gets m s u = Some (m', u') \<and> cstr (view m' s) (fold line_key ks []) \<and> within m m' s (length ks + 1) \<and>
    talked u (line_echo [] ks) (length ks + 1) u' \<and> coming u' r"
proof -
  let ?l = "fold line_key ks []"
  obtain m' u' where l: "line_loop s 0 m u = Some (length ?l, m', u')" "holds m' s ?l" "within m m' s (length ks + 1)"
    "talked u (line_echo [] ks) (length ks + 1) u'" "coming u' r"
    using line_loop_edits [OF assms, of m s "[]" "length ks + 1"] by (auto simp: holds_def bytes_def)
  let ?m = "st8 m' (padd s (length ?l)) 0"
  have "?l ! i \<noteq> 0" if "i < length ?l" for i
    using set_fold_key [of ks "[]"] nth_mem [OF that] assms(2) by auto
  moreover have "m' (padd s i) = ?l ! i" if "i < length ?l" for i
    using arg_cong [OF l(2) [unfolded holds_def], of "\<lambda>x. x ! i"] that by simp
  ultimately have "cstr (view ?m s) ?l" by (auto simp: cstr_def st8_apply)
  moreover have "within m ?m s (length ks + 1)"
    by (rule within_trans [OF l(3) within_st8]) (use length_fold_key [of ks "[]"] in simp)
  ultimately show ?thesis using l by (auto simp: line_gets_def)
qed

text \<open>Empty lines are skipped.\<close>

lemma scanf_line:
  assumes "e \<in> {10, 13}" "set ks \<inter> {0, 10, 13} = {}" "fold line_key ks [] \<noteq> []" "set es \<subseteq> {10, 13}" "coming u (es @ ks @ [e])"
  shows "\<exists>m' u'. scanf line next0 m f args u = map_option (\<lambda>(i, m). (i, m, u')) (vsscanf next0 m' line f args) \<and>
    cstr (view m' line) (fold line_key ks []) \<and> within m m' line (length ks + 1) \<and>
    talked u (line_echo [] ks) (length es + length ks + 1) u'"
  using assms(4,5)
proof (induction es arbitrary: m u)
  case Nil
  obtain m' u' where g: "line_gets m line u = Some (m', u')" "cstr (view m' line) (fold line_key ks [])" "within m m' line (length ks + 1)"
    "talked u (line_echo [] ks) (length ks + 1) u'"
    using line_gets_edits [OF assms(1,2), of u "[]" m line] Nil.prems(2) by auto
  have "scanf line next0 m f args u = map_option (\<lambda>(i, m). (i, m, u')) (vsscanf next0 m' line f args)"
    using g(1) strlen_cstr [OF g(2)] assms(3)
    by (subst scanf.simps) (simp add: map_option_case case_prod_beta split: option.split)
  then show ?case using g(2-4) unfolding list.size(3) add_0 by blast
next
  case (Cons x es)
  have x: "x \<in> {10, 13}" "set es \<subseteq> {10, 13}" using Cons.prems(1) by auto
  obtain m1 u1 where g: "line_gets m line u = Some (m1, u1)" "cstr (view m1 line) []" "within m m1 line 1"
    "talked u [] 1 u1" "coming u1 (es @ ks @ [e])"
    using line_gets_edits [OF x(1), of "[]" u "es @ ks @ [e]" m line] Cons.prems(2) by auto
  obtain m' u' where h: "scanf line next0 m1 f args u1 = map_option (\<lambda>(i, m). (i, m, u')) (vsscanf next0 m' line f args)"
    "cstr (view m' line) (fold line_key ks [])" "within m1 m' line (length ks + 1)"
    "talked u1 (line_echo [] ks) (length es + length ks + 1) u'"
    using Cons.IH [OF x(2) g(5)] by blast
  have "scanf line next0 m f args u = scanf line next0 m1 f args u1"
    using g(1) strlen_cstr [OF g(2)] by (subst scanf.simps) simp
  moreover have "within m m1 line (length ks + 1)" using g(3) by (auto simp: within_def)
  moreover have "talked u (line_echo [] ks) (length (x # es) + length ks + 1) u'"
    using talked_trans [OF g(4) h(4)] by simp
  ultimately have "scanf line next0 m f args u = map_option (\<lambda>(i, m). (i, m, u')) (vsscanf next0 m' line f args)"
    "within m m' line (length ks + 1)" "talked u (line_echo [] ks) (length (x # es) + length ks + 1) u'"
    using h(1) within_trans [OF _ h(3), of m] by simp_all
  then show ?case using h(2) by blast
qed

section \<open>Property\<close>


definition keyboard :: "u8 list \<Rightarrow> ftuart" where
  "keyboard ks = \<lparr>DLL = 0, DLM = 0, IER = 0, FCR = 0, LCR = 0, tx = [], lsr = (\<lambda>_. 0xFF), lsr_n = 0, rbr = (\<lambda>i. ks ! i), rbr_n = 0\<rparr>"

lemma coming_keyboard: "coming (keyboard ks) ks"
  by (auto simp: coming_def keyboard_def line_ready_def recurs_def FTUART_LSR_THR_EMPTY_def FTUART_LSR_DATA_READY_def push_bit_eq_mult)


end
