(* ===== verification/Bench.thy ===== *)
theory Bench
  imports Prelude "HOL-Library.Multiset"
begin

text \<open>
  app/heapsort.c and app/fib.c: the computations of two benchmarks.  Of HSORT the filling of the array and
  the sort with its six counters; the timing and the rating made of the counters are floating point.  The
  array is a function on the indices, of which 1 to size are used; its elements are compared and
  moved only.  The indices stay below 2 * size, which fits a long.
\<close>

section \<open>heapsort.c\<close>

record counts =
  ca :: nat
  cb :: nat
  cc :: nat
  cd :: nat
  ce :: nat
  cf :: nat

definition no_counts :: counts where
  "no_counts = \<lparr>ca = 0, cb = 0, cc = 0, cd = 0, ce = 0, cf = 0\<rparr>"

text \<open>The random numbers: n elements from index i on.\<close>

definition next_iran :: "int \<Rightarrow> int" where
  "next_iran iran = (iran * 106 + 1283) mod 6075"

fun fill_random :: "nat \<Rightarrow> nat \<Rightarrow> int \<Rightarrow> (nat \<Rightarrow> int) \<Rightarrow> (nat \<Rightarrow> int)" where
  "fill_random 0 i iran a = a"
| "fill_random (Suc n) i iran a =
    (let iran = next_iran iran in fill_random n (i + 1) iran (a(i := 1 + (1001 * iran) div 6075)))"

partial_function (option) sift :: "(nat \<Rightarrow> int) \<Rightarrow> int \<Rightarrow> nat \<Rightarrow> nat \<Rightarrow> nat \<Rightarrow> counts \<Rightarrow> ((nat \<Rightarrow> int) \<times> nat \<times> counts) option" where
  "sift a ir l i j c =
    (if j \<le> l then
       let c = c\<lparr>cd := cd c + 1\<rparr>;
           j = (if j < l \<and> a j < a (j + 1) then j + 1 else j)
       in if ir < a j then sift (a(i := a j)) ir l j (j + j) (c\<lparr>ce := ce c + 1\<rparr>)
          else sift a ir l i (l + 1) (c\<lparr>cf := cf c + 1\<rparr>)
     else Some (a, i, c))"

partial_function (option) heap_loop :: "(nat \<Rightarrow> int) \<Rightarrow> nat \<Rightarrow> nat \<Rightarrow> counts \<Rightarrow> ((nat \<Rightarrow> int) \<times> counts) option" where
  "heap_loop a k l c =
    (let c = c\<lparr>ca := ca c + 1\<rparr> in
     if 1 < k then
       let k = k - 1; ir = a k in
       do {
         (a, i, c) \<leftarrow> sift a ir l k (2 * k) (c\<lparr>cb := cb c + 1\<rparr>);
         heap_loop (a(i := ir)) k l c
       }
     else
       let c = c\<lparr>cc := cc c + 1\<rparr>; ir = a l; a = a(l := a 1); l = l - 1 in
       if l = 1 then Some (a(1 := ir), c)
       else do {
         (a, i, c) \<leftarrow> sift a ir l k (2 * k) c;
         heap_loop (a(i := ir)) k l c
       })"

text \<open>One iteration of HSORT on an array of the given size.\<close>

definition HSORT_iteration :: "nat \<Rightarrow> (nat \<Rightarrow> int) \<Rightarrow> ((nat \<Rightarrow> int) \<times> counts) option" where
  "HSORT_iteration sz a = heap_loop (fill_random sz 1 47 a) (sz div 2 + 1) sz no_counts"

section \<open>Heaps\<close>

text \<open>Every element whose parent is at k or after it is at most its parent; the same with a hole at i.\<close>

definition heap_from :: "(nat \<Rightarrow> int) \<Rightarrow> nat \<Rightarrow> nat \<Rightarrow> bool" where
  "heap_from a k l \<longleftrightarrow> (\<forall>c \<le> l. k \<le> c div 2 \<longrightarrow> a c \<le> a (c div 2))"

definition hole_at :: "(nat \<Rightarrow> int) \<Rightarrow> int \<Rightarrow> nat \<Rightarrow> nat \<Rightarrow> nat \<Rightarrow> bool" where
  "hole_at a ir i k l \<longleftrightarrow>
    (\<forall>c \<le> l. k \<le> c div 2 \<and> c \<noteq> i \<and> c div 2 \<noteq> i \<longrightarrow> a c \<le> a (c div 2)) \<and>
    (k \<le> i div 2 \<longrightarrow> ir \<le> a (i div 2) \<and> (\<forall>c \<le> l. c div 2 = i \<longrightarrow> a c \<le> a (i div 2)))"

lemma hole_move:
  assumes h: "hole_at a ir i k l" and i: "1 \<le> k" "k \<le> i" and j: "j div 2 = i" "j \<le> l" "\<forall>c \<le> l. c div 2 = i \<longrightarrow> a c \<le> a j" "ir < a j"
  shows "hole_at (a(i := a j)) ir j k l"
proof -
  let ?b = "a(i := a j)"
  have ij: "i < j" "i div 2 < i" using i j(1) by (auto simp: div_less_dividend)
  show ?thesis
    unfolding hole_at_def
  proof (intro conjI allI impI)
    fix c assume c: "c \<le> l" "k \<le> c div 2 \<and> c \<noteq> j \<and> c div 2 \<noteq> j"
    consider "c = i" | "c \<noteq> i" "c div 2 = i" | "c \<noteq> i" "c div 2 \<noteq> i" by blast
    then show "?b c \<le> ?b (c div 2)"
    proof cases
      case 1
      then show ?thesis using h c(2) j(1,2) ij(2) by (auto simp: hole_at_def)
    next
      case 2
      then show ?thesis using j(3) c(1) by simp
    next
      case 3
      then show ?thesis using h c by (simp add: hole_at_def)
    qed
  next
    show "ir \<le> ?b (j div 2)" using j by simp
  next
    fix c assume c: "c \<le> l" "c div 2 = j"
    then have "c \<noteq> i" "c div 2 \<noteq> i" "k \<le> c div 2" using ij i by auto
    then show "?b c \<le> ?b (j div 2)" using h c ij(1) j(1) by (auto simp: hole_at_def)
  qed
qed

lemma hole_filled:
  assumes h: "hole_at a ir i k l" and i: "1 \<le> k" "k \<le> i" and m: "\<forall>c \<le> l. c div 2 = i \<longrightarrow> a c \<le> ir"
  shows "heap_from (a(i := ir)) k l"
  unfolding heap_from_def
proof (intro allI impI)
  fix c assume c: "c \<le> l" "k \<le> c div 2"
  have "i div 2 \<noteq> i" using i by auto
  moreover consider "c = i" | "c \<noteq> i" "c div 2 = i" | "c \<noteq> i" "c div 2 \<noteq> i" by blast
  ultimately show "(a(i := ir)) c \<le> (a(i := ir)) (c div 2)"
    using h m c by cases (auto simp: hole_at_def)
qed

text \<open>The elements at 1 to n.\<close>

definition elements :: "(nat \<Rightarrow> int) \<Rightarrow> nat \<Rightarrow> int multiset" where
  "elements a n = image_mset a (mset_set {1..n})"

lemma elements_swap:
  assumes "1 \<le> i" "i \<le> n" "1 \<le> j" "j \<le> n"
  shows "elements (f(i := f j, j := f i)) n = elements f n"
proof (cases "i = j")
  case True
  then show ?thesis by simp
next
  case False
  have s: "{1..n} = insert i (insert j ({1..n} - {i, j}))" using assms by auto
  have "mset_set {1..n} = add_mset i (add_mset j (mset_set ({1..n} - {i, j})))"
    by (subst s) (use False in simp)
  moreover have "image_mset (f(i := f j, j := f i)) (mset_set ({1..n} - {i, j})) = image_mset f (mset_set ({1..n} - {i, j}))"
    by (rule image_mset_cong) auto
  ultimately show ?thesis using False by (simp add: elements_def)
qed

lemma child_cases: "c div 2 = i \<longleftrightarrow> c = 2 * i \<or> c = 2 * i + (1 :: nat)"
  by auto

lemma sift_step:
  assumes "2 * i \<le> l" "j = (if 2 * i < l \<and> a (2 * i) < a (2 * i + 1) then 2 * i + 1 else 2 * i)"
  shows "sift a ir l i (2 * i) c =
    (if ir < a j then sift (a(i := a j)) ir l j (2 * j) (c\<lparr>cd := cd c + 1, ce := ce c + 1\<rparr>)
     else sift a ir l i (l + 1) (c\<lparr>cd := cd c + 1, cf := cf c + 1\<rparr>))"
  by (subst sift.simps) (simp only: assms(1) if_True Let_def assms(2) [symmetric] mult_2 [symmetric], simp)

lemma sift_end: "sift a ir l i (l + 1) c = Some (a, i, c)"
  by (subst sift.simps) simp

lemma sift_heap:
  assumes "hole_at a ir i k l" "1 \<le> k" "k \<le> i" "i \<le> l" "l \<le> n"
  shows "\<exists>a' i' c'. sift a ir l i (2 * i) c = Some (a', i', c') \<and> heap_from (a'(i' := ir)) k l \<and>
    elements (a'(i' := ir)) n = elements (a(i := ir)) n \<and> (\<forall>x. x < k \<or> l < x \<longrightarrow> (a'(i' := ir)) x = a x) \<and> ca c' = ca c"
  using assms
proof (induction "l - i" arbitrary: a i c rule: less_induct)
  case less
  note h = less.prems(1) and b = less.prems(2-5)
  show ?case
  proof (cases "2 * i \<le> l")
    case False
    have "heap_from (a(i := ir)) k l" by (rule hole_filled [OF h b(1,2)]) (use False in \<open>auto simp: child_cases\<close>)
    then show ?thesis using False b by (subst sift.simps) (auto intro!: exI [of _ a])
  next
    case True
    define j where "j = (if 2 * i < l \<and> a (2 * i) < a (2 * i + 1) then 2 * i + 1 else 2 * i)"
    have j: "j div 2 = i" "j \<le> l" "i < j" "\<forall>c \<le> l. c div 2 = i \<longrightarrow> a c \<le> a j"
      using True b by (auto simp: j_def child_cases)
    show ?thesis
    proof (cases "ir < a j")
      case up: True
      have "hole_at (a(i := a j)) ir j k l" by (rule hole_move [OF h b(1,2) j(1,2,4) up])
      moreover have "l - j < l - i" "k \<le> j" using j(2,3) b(2) by auto
      ultimately obtain a' i' c' where r: "sift (a(i := a j)) ir l j (2 * j) (c\<lparr>cd := cd c + 1, ce := ce c + 1\<rparr>) = Some (a', i', c')"
        "heap_from (a'(i' := ir)) k l" "elements (a'(i' := ir)) n = elements (a(i := a j, j := ir)) n"
        "\<forall>x. x < k \<or> l < x \<longrightarrow> (a'(i' := ir)) x = (a(i := a j)) x" "ca c' = ca (c\<lparr>cd := cd c + 1, ce := ce c + 1\<rparr>)"
        using less.hyps [where a = "a(i := a j)" and i = j and c = "c\<lparr>cd := cd c + 1, ce := ce c + 1\<rparr>"] b(1,4) j(2) by blast
      have "elements (a(i := a j, j := ir)) n = elements (a(i := ir)) n"
        using elements_swap [of i n j "a(i := ir)"] j b by simp
      moreover have "sift a ir l i (2 * i) c = Some (a', i', c')"
        using up r(1) by (simp only: sift_step [OF True j_def] if_True)
      ultimately show ?thesis using r(2-5) b by (intro exI [of _ a'] exI [of _ i'] exI [of _ c']) auto
    next
      case False
      have "heap_from (a(i := ir)) k l" by (rule hole_filled [OF h b(1,2)]) (use False j(4) in force)
      moreover have "sift a ir l i (2 * i) c = Some (a, i, c\<lparr>cd := cd c + 1, cf := cf c + 1\<rparr>)"
        using False by (simp only: sift_step [OF True j_def] sift_end if_False)
      ultimately show ?thesis using b by auto
    qed
  qed
qed

section \<open>The sort\<close>

lemma heap_root:
  assumes "heap_from a 1 l" "1 \<le> c" "c \<le> l"
  shows "a c \<le> a 1"
  using assms(2,3)
proof (induction c rule: less_induct)
  case (less c)
  show ?case
  proof (cases "c = 1")
    case False
    then have c: "1 \<le> c div 2" "c div 2 < c" using less.prems by auto
    then have "a c \<le> a (c div 2)" using assms(1) less.prems by (simp add: heap_from_def)
    also have "\<dots> \<le> a 1" using less.IH [of "c div 2"] c less.prems by simp
    finally show ?thesis .
  qed simp
qed

text \<open>Above l the elements are in order, and none is less than one below.\<close>

definition sorted_above :: "(nat \<Rightarrow> int) \<Rightarrow> nat \<Rightarrow> nat \<Rightarrow> bool" where
  "sorted_above a l n \<longleftrightarrow> (\<forall>x y. 1 \<le> x \<and> x \<le> y \<and> l < y \<and> y \<le> n \<longrightarrow> a x \<le> a y)"

definition ascending :: "(nat \<Rightarrow> int) \<Rightarrow> nat \<Rightarrow> bool" where
  "ascending a n \<longleftrightarrow> (\<forall>x y. 1 \<le> x \<and> x \<le> y \<and> y \<le> n \<longrightarrow> a x \<le> a y)"

definition only_elements :: "(nat \<Rightarrow> int) \<Rightarrow> (nat \<Rightarrow> int) \<Rightarrow> nat \<Rightarrow> bool" where
  "only_elements a a' n \<longleftrightarrow> elements a' n = elements a n \<and> (\<forall>x. x < 1 \<or> n < x \<longrightarrow> a' x = a x)"

lemma only_elements_trans: "only_elements a b n \<Longrightarrow> only_elements b c n \<Longrightarrow> only_elements a c n"
  by (simp add: only_elements_def)

text \<open>The elements at 1 to l are the same after a permutation, so a bound on them stays one.\<close>

lemma bound_elements:
  assumes "elements a' l = elements a l" "\<forall>x. 1 \<le> x \<and> x \<le> l \<longrightarrow> a x \<le> b" "1 \<le> x" "x \<le> l"
  shows "a' x \<le> (b :: int)"
proof -
  have "a' x \<in># elements a' l" using assms(3,4) by (simp add: elements_def)
  then have "a' x \<in># elements a l" using assms(1) by simp
  then show ?thesis using assms(2) by (auto simp: elements_def)
qed

lemma elements_cong: "(\<And>x. 1 \<le> x \<Longrightarrow> x \<le> n \<Longrightarrow> a x = b x) \<Longrightarrow> elements a n = elements b n"
  unfolding elements_def by (rule image_mset_cong) simp

lemma elements_mono:
  assumes "l \<le> n" "elements a' l = elements a l" "\<forall>x. l < x \<longrightarrow> a' x = a x"
  shows "elements a' n = elements a n"
proof -
  have "{1..n} = {1..l} \<union> {l <.. n}" using assms(1) by auto
  then have s: "mset_set {1..n} = mset_set {1..l} + mset_set {l <.. n}"
    by (simp only:) (rule mset_set_Union, auto)
  have "image_mset a' (mset_set {l <.. n}) = image_mset a (mset_set {l <.. n})"
    by (rule image_mset_cong) (use assms(3) in auto)
  then show ?thesis using assms(2) unfolding elements_def s by simp
qed

text \<open>From the heap on: the root goes to the end, the rest becomes a heap again.\<close>

lemma drain:
  assumes "2 \<le> l" "l \<le> n" "heap_from a 1 l" "sorted_above a l n"
  shows "\<exists>a' c'. heap_loop a 1 l c = Some (a', c') \<and> ascending a' n \<and> only_elements a a' n \<and> ca c' = ca c + (l - 1)"
  using assms
proof (induction l arbitrary: a c)
  case (Suc l)
  let ?b = "a(Suc l := a 1)" and ?ir = "a (Suc l)" and ?c = "c\<lparr>ca := ca c + 1, cc := cc c + 1\<rparr>"
  have root: "a x \<le> a 1" if "1 \<le> x" "x \<le> Suc l" for x by (rule heap_root [OF Suc.prems(3) that])
  have sw: "elements (a(Suc l := a 1, 1 := ?ir)) n = elements a n"
    using elements_swap [of "Suc l" n 1 a] Suc.prems(1,2) by simp
  show ?case
  proof (cases "l = 1")
    case True
    let ?a = "a(Suc l := a 1, 1 := ?ir)"
    have "heap_loop a 1 (Suc l) c = Some (?a, ?c)" using True by (subst heap_loop.simps) simp
    moreover have "?a x \<le> ?a y" if xy: "1 \<le> x" "x \<le> y" "y \<le> n" for x y
    proof -
      consider "y = 1" | "y = 2" | "2 < y" using xy by linarith
      then show ?thesis
      proof cases
        case 3
        have le: "a z \<le> a y" if "1 \<le> z" "z \<le> y" for z
          using Suc.prems(4) that xy 3 True by (simp add: sorted_above_def)
        show ?thesis using le [of 1] le [of 2] le [of x] xy 3 True by (auto simp: numeral_2_eq_2)
      qed (use xy root [of 2] True in \<open>auto simp: numeral_2_eq_2 le_Suc_eq\<close>)
    qed
    ultimately show ?thesis using sw True Suc.prems(2) by (auto simp: ascending_def only_elements_def)
  next
    case False
    then have l: "2 \<le> l" using Suc.prems(1) by simp
    have "hole_at ?b ?ir 1 1 l" using Suc.prems(3) by (auto simp: hole_at_def heap_from_def)
    from sift_heap [OF this, of l ?c] obtain s i c' where s: "sift ?b ?ir l 1 2 ?c = Some (s, i, c')"
      "heap_from (s(i := ?ir)) 1 l" "elements (s(i := ?ir)) l = elements (?b(1 := ?ir)) l"
      "\<forall>x. x < 1 \<or> l < x \<longrightarrow> (s(i := ?ir)) x = ?b x" "ca c' = ca ?c" using l by auto
    define t where "t = s(i := ?ir)"
    note t = s(2-5) [folded t_def]
    have step: "heap_loop a 1 (Suc l) c = heap_loop t 1 l c'"
      using s(1) False by (subst heap_loop.simps) (simp add: numeral_2_eq_2 t_def)
    have top: "t y = (if y = Suc l then a 1 else a y)" if "l < y" for y using t(3) that by simp
    have low: "t x \<le> t y" if y: "1 \<le> x" "x \<le> y" "l < y" "y \<le> n" for x y
    proof (cases "x \<le> l")
      case True
      have "a z \<le> t y" if "1 \<le> z" "z \<le> Suc l" for z
        using root [OF that] Suc.prems(4) y that by (auto simp: top sorted_above_def)
      then have "\<forall>z. 1 \<le> z \<and> z \<le> l \<longrightarrow> (?b(1 := ?ir)) z \<le> t y" by simp
      then show ?thesis by (rule bound_elements [OF t(2) _ y(1) True])
    next
      case x: False
      then show ?thesis using y Suc.prems(4) by (auto simp: top sorted_above_def)
    qed
    then have "sorted_above t l n" unfolding sorted_above_def by (simp add: sorted_above_def)
    from Suc.IH [OF l _ t(1) this, of c'] obtain a' d where r: "heap_loop t 1 l c' = Some (a', d)" "ascending a' n"
      "only_elements t a' n" "ca d = ca c' + (l - 1)" using Suc.prems(2) by auto
    have "elements t n = elements (?b(1 := ?ir)) n"
      by (rule elements_mono [OF _ t(2)]) (use Suc.prems(2) t(3) l in auto)
    then have "only_elements a t n" using sw t(3) Suc.prems(2) l by (auto simp: only_elements_def)
    then show ?thesis using step r t(4) l only_elements_trans [OF _ r(3)] by auto
  qed
qed simp

text \<open>Up to there: the heap grows from the middle down.\<close>

lemma heap_build:
  assumes "1 \<le> k" "2 \<le> n" "k \<le> n" "heap_from a k n"
  shows "\<exists>a' c'. heap_loop a k n c = Some (a', c') \<and> ascending a' n \<and> only_elements a a' n \<and> ca c' = ca c + (k - 1) + (n - 1)"
  using assms
proof (induction k arbitrary: a c)
  case (Suc k)
  show ?case
  proof (cases "k = 0")
    case True
    then show ?thesis using drain [of n n a c] Suc.prems by (simp add: sorted_above_def)
  next
    case False
    let ?c = "c\<lparr>ca := ca c + 1, cb := cb c + 1\<rparr>"
    have "hole_at a (a k) k k n" using Suc.prems(4) False by (auto simp: hole_at_def heap_from_def)
    from sift_heap [OF this, of n ?c] obtain s i c' where s: "sift a (a k) n k (2 * k) ?c = Some (s, i, c')"
      "heap_from (s(i := a k)) k n" "elements (s(i := a k)) n = elements (a(k := a k)) n"
      "\<forall>x. x < k \<or> n < x \<longrightarrow> (s(i := a k)) x = a x" "ca c' = ca ?c" using False Suc.prems(3) by auto
    define t where "t = s(i := a k)"
    note t = s(2-5) [folded t_def]
    have step: "heap_loop a (Suc k) n c = heap_loop t k n c'" using s(1) False by (subst heap_loop.simps) (simp add: t_def)
    from Suc.IH [of t c'] obtain a' d where r: "heap_loop t k n c' = Some (a', d)" "ascending a' n" "only_elements t a' n"
      "ca d = ca c' + (k - 1) + (n - 1)" using False Suc.prems(2,3) t(1) by auto
    have "only_elements a t n" using t(2,3) False by (auto simp: only_elements_def)
    then show ?thesis using step r t(4) False only_elements_trans [OF _ r(3)] by auto
  qed
qed simp

lemma next_iran_range: "0 \<le> next_iran x \<and> next_iran x \<le> 6074"
  by (simp add: next_iran_def)

text \<open>Nothing in the filling goes past a long.\<close>

lemma fill_random_range:
  "(\<forall>x. i \<le> x \<and> x < i + n \<longrightarrow> 1 \<le> fill_random n i iran a x \<and> fill_random n i iran a x \<le> 1001) \<and>
   (\<forall>x. x < i \<or> i + n \<le> x \<longrightarrow> fill_random n i iran a x = a x)"
proof (induction n arbitrary: i iran a)
  case (Suc n)
  define r where "r = next_iran iran"
  have r: "0 \<le> r" "r \<le> 6074" using next_iran_range by (simp_all add: r_def)
  have v: "1 \<le> 1 + (1001 * r) div 6075 \<and> 1 + (1001 * r) div 6075 \<le> 1001"
  proof -
    have "(1001 * r) div 6075 \<le> (1001 * 6074) div 6075" using r by (intro zdiv_mono1) auto
    moreover have "0 \<le> (1001 * r) div 6075" using r by (intro pos_imp_zdiv_nonneg_iff [THEN iffD2]) auto
    ultimately show ?thesis by simp
  qed
  have e: "fill_random (Suc n) i iran a = fill_random n (Suc i) r (a(i := 1 + (1001 * r) div 6075))"
    by (simp add: Let_def flip: r_def)
  note IH = Suc [of "Suc i" r "a(i := 1 + (1001 * r) div 6075)", folded e]
  show ?case
  proof (intro conjI allI impI)
    fix x assume x: "i \<le> x \<and> x < i + Suc n"
    have "1 \<le> fill_random (Suc n) i iran a x \<and> fill_random (Suc n) i iran a x \<le> 1001"
    proof (cases "x = i")
      case True
      then have "fill_random (Suc n) i iran a x = 1 + (1001 * r) div 6075" using IH [THEN conjunct2, rule_format, of x] by simp
      then show ?thesis using v by simp
    next
      case False
      then show ?thesis using IH [THEN conjunct1, rule_format, of x] x by simp
    qed
    then show "1 \<le> fill_random (Suc n) i iran a x" "fill_random (Suc n) i iran a x \<le> 1001" by simp_all
  next
    fix x assume "x < i \<or> i + Suc n \<le> x"
    then show "fill_random (Suc n) i iran a x = a x" using IH [THEN conjunct2, rule_format, of x] by auto
  qed
qed simp

section \<open>fib.c\<close>

text \<open>The argument is a signed long; the sum wraps.\<close>

function fib :: "int \<Rightarrow> 32 word" where
  "fib x = (if 2 < x then fib (x - 1) + fib (x - 2) else 1)"
  by pat_completeness auto
termination by (relation "measure nat") auto

declare fib.simps [simp del]

fun fib_nat :: "nat \<Rightarrow> nat" where
  "fib_nat 0 = 0"
| "fib_nat (Suc 0) = 1"
| "fib_nat (Suc (Suc n)) = fib_nat (Suc n) + fib_nat n"

lemma fib_word: "0 < n \<Longrightarrow> fib (int n) = of_nat (fib_nat n)"
proof (induction n rule: fib_nat.induct)
  case (3 n)
  show ?case
  proof (cases "n = 0")
    case True
    then show ?thesis by (subst fib.simps) simp
  next
    case False
    have "fib (int (Suc (Suc n))) = fib (int (Suc n)) + fib (int n)"
      using False by (subst fib.simps) (simp add: algebra_simps)
    then show ?thesis using 3 False by simp
  qed
qed (simp_all add: fib.simps)

section \<open>Property\<close>



lemma fib_20: "fib 20 = 6765"
  using fib_word [of 20] by (simp add: eval_nat_numeral)

end
