(* ===== verification/Traps.thy ===== *)
theory Traps
  imports Cli Irq
begin

unbundle bit_operations_syntax

text \<open>
  The exception handlers of lib/traps.c with the macros of include/cpu.h: the registers saved at an
  exception, their dump on the console, and the stacks of the exception modes.  An exception handler
  never returns; its value is the state in which bad_mode goes round its empty loop.  Thumb mode is
  not configured.
\<close>

section \<open>cpu.h\<close>

record pt_regs =
  uregs :: "u32 list"

definition FIQ_MODE :: u32 where "FIQ_MODE = 0x11"
definition IRQ_MODE :: u32 where "IRQ_MODE = 0x12"
definition SVC_MODE :: u32 where "SVC_MODE = 0x13"
definition ABT_MODE :: u32 where "ABT_MODE = 0x17"
definition UND_MODE :: u32 where "UND_MODE = 0x1b"
definition MODE_MASK :: u32 where "MODE_MASK = 0x1f"
definition PSR_F_BIT :: u32 where "PSR_F_BIT = 0x40"
definition CC_V_BIT :: u32 where "CC_V_BIT = push_bit 28 1"
definition CC_C_BIT :: u32 where "CC_C_BIT = push_bit 29 1"
definition CC_Z_BIT :: u32 where "CC_Z_BIT = push_bit 30 1"
definition CC_N_BIT :: u32 where "CC_N_BIT = push_bit 31 1"
definition PCMASK :: u32 where "PCMASK = 0"

definition ureg :: "pt_regs \<Rightarrow> nat \<Rightarrow> u32" where
  "ureg r n = uregs r ! n"

definition ARM_cpsr :: "pt_regs \<Rightarrow> u32" where "ARM_cpsr r = ureg r 16"
definition ARM_pc :: "pt_regs \<Rightarrow> u32" where "ARM_pc r = ureg r 15"

definition user_mode :: "pt_regs \<Rightarrow> bool" where "user_mode r \<longleftrightarrow> ARM_cpsr r AND 0xf = 0"
definition thumb_mode :: "pt_regs \<Rightarrow> bool" where "thumb_mode r \<longleftrightarrow> False"
definition processor_mode :: "pt_regs \<Rightarrow> u32" where "processor_mode r = ARM_cpsr r AND MODE_MASK"
definition interrupts_enabled :: "pt_regs \<Rightarrow> bool" where "interrupts_enabled r \<longleftrightarrow> \<not> ARM_cpsr r AND PSR_I_BIT \<noteq> 0"
definition fast_interrupts_enabled :: "pt_regs \<Rightarrow> bool" where "fast_interrupts_enabled r \<longleftrightarrow> \<not> ARM_cpsr r AND PSR_F_BIT \<noteq> 0"

definition condition_codes :: "pt_regs \<Rightarrow> u32" where
  "condition_codes r = ARM_cpsr r AND (CC_V_BIT OR CC_C_BIT OR CC_Z_BIT OR CC_N_BIT)"

definition pc_pointer :: "u32 \<Rightarrow> u32" where "pc_pointer v = v AND NOT PCMASK"

definition instruction_pointer :: "pt_regs \<Rightarrow> u32" where "instruction_pointer r = pc_pointer (ARM_pc r)"

definition valid_user_regs :: "pt_regs \<Rightarrow> int \<times> pt_regs" where
  "valid_user_regs r =
    (if ARM_cpsr r AND 0xf = 0 \<and> ARM_cpsr r AND (PSR_F_BIT OR PSR_I_BIT) = 0 then (1, r)
     else (0, r\<lparr>uregs := (uregs r)[16 := ARM_cpsr r AND (CC_V_BIT OR CC_C_BIT OR CC_Z_BIT OR CC_N_BIT OR 0x10)]\<rparr>))"

section \<open>The stacks of the modes\<close>

text \<open>sp and lr are banked: each mode has its own.  msr cpsr_c writes the low byte of cpsr.\<close>

record core =
  psr :: u32
  sp_of :: "u32 \<Rightarrow> u32"
  lr_of :: "u32 \<Rightarrow> u32"

definition core_mode :: "core \<Rightarrow> u32" where
  "core_mode c = psr c AND MODE_MASK"

definition msr_cpsr_c :: "u32 \<Rightarrow> core \<Rightarrow> core" where
  "msr_cpsr_c v c = c\<lparr>psr := (psr c AND NOT 0xFF) OR (v AND 0xFF)\<rparr>"

definition add_r14 :: "u32 \<Rightarrow> u32 \<Rightarrow> core \<Rightarrow> core" where
  "add_r14 a b c = c\<lparr>lr_of := (lr_of c)(core_mode c := a + b)\<rparr>"

definition mov_sp_r14 :: "core \<Rightarrow> core" where
  "mov_sp_r14 c = c\<lparr>sp_of := (sp_of c)(core_mode c := lr_of c (core_mode c))\<rparr>"

text \<open>stk is the address of the struct of four arrays of three words.\<close>

definition setup_stacks :: "u32 \<Rightarrow> core \<Rightarrow> core" where
  "setup_stacks stk c =
    (let c = msr_cpsr_c (PSR_F_BIT OR PSR_I_BIT OR FIQ_MODE) c; c = add_r14 stk 0 c; c = mov_sp_r14 c;
         c = msr_cpsr_c (PSR_F_BIT OR PSR_I_BIT OR IRQ_MODE) c; c = add_r14 stk 12 c; c = mov_sp_r14 c;
         c = msr_cpsr_c (PSR_F_BIT OR PSR_I_BIT OR ABT_MODE) c; c = add_r14 stk 24 c; c = mov_sp_r14 c;
         c = msr_cpsr_c (PSR_F_BIT OR PSR_I_BIT OR UND_MODE) c; c = add_r14 stk 36 c; c = mov_sp_r14 c
     in msr_cpsr_c (PSR_F_BIT OR PSR_I_BIT OR SVC_MODE) c)"

section \<open>The dump of the registers\<close>

definition processor_modes :: "string list" where
  "processor_modes =
    [''USER_26'', ''FIQ_26'', ''IRQ_26'', ''SVC_26'', ''UK4_26'', ''UK5_26'', ''UK6_26'', ''UK7_26'',
     ''UK8_26'', ''UK9_26'', ''UK10_26'', ''UK11_26'', ''UK12_26'', ''UK13_26'', ''UK14_26'', ''UK15_26'',
     ''USER_32'', ''FIQ_32'', ''IRQ_32'', ''SVC_32'', ''UK4_32'', ''UK5_32'', ''UK6_32'', ''ABT_32'',
     ''UK8_32'', ''UK9_32'', ''UK10_32'', ''UND_32'', ''UK12_32'', ''UK13_32'', ''UK14_32'', ''SYS_32'']"

abbreviation nl :: string where "nl \<equiv> [CHR 0x0A]"
abbreviation tab :: string where "tab \<equiv> [CHR 0x09]"

definition cc_arg :: "u32 \<Rightarrow> u32 \<Rightarrow> char \<Rightarrow> char \<Rightarrow> unit arg" where
  "cc_arg flags b x y = Int32 (of_char (if flags AND b \<noteq> 0 then x else y))"

definition str_arg :: "string \<Rightarrow> unit arg" where
  "str_arg s = Str (Some (str_bytes s))"

definition show_regs :: "pt_regs \<Rightarrow> 'z console_scheme \<Rightarrow> 'z console_scheme option" where
  "show_regs r s =
    (let flags = condition_codes r in
     do {
       s \<leftarrow> prints (''pc : [<%08lx>]'' @ tab @ ''   lr : [<%08lx>]'' @ nl @ ''sp : %08lx  ip : %08lx'' @ tab @ '' fp : %08lx'' @ nl)
         [Int32 (instruction_pointer r), Int32 (ureg r 14), Int32 (ureg r 13), Int32 (ureg r 12), Int32 (ureg r 11)] s;
       s \<leftarrow> prints (''r10: %08lx  r9 : %08lx'' @ tab @ '' r8 : %08lx'' @ nl) [Int32 (ureg r 10), Int32 (ureg r 9), Int32 (ureg r 8)] s;
       s \<leftarrow> prints (''r7 : %08lx  r6 : %08lx'' @ tab @ '' r5 : %08lx  r4 : %08lx'' @ nl)
         [Int32 (ureg r 7), Int32 (ureg r 6), Int32 (ureg r 5), Int32 (ureg r 4)] s;
       s \<leftarrow> prints (''r3 : %08lx  r2 : %08lx'' @ tab @ '' r1 : %08lx  r0 : %08lx'' @ nl)
         [Int32 (ureg r 3), Int32 (ureg r 2), Int32 (ureg r 1), Int32 (ureg r 0)] s;
       s \<leftarrow> prints ''Flags: %c%c%c%c''
         [cc_arg flags CC_N_BIT CHR ''N'' CHR ''n'', cc_arg flags CC_Z_BIT CHR ''Z'' CHR ''z'',
          cc_arg flags CC_C_BIT CHR ''C'' CHR ''c'', cc_arg flags CC_V_BIT CHR ''V'' CHR ''v''] s;
       prints (''  IRQs %s  FIQs %s  Mode %s%s'' @ nl)
         [str_arg (if interrupts_enabled r then ''on'' else ''off''), str_arg (if fast_interrupts_enabled r then ''on'' else ''off''),
          str_arg (processor_modes ! unat (processor_mode r)), str_arg (if thumb_mode r then '' (T)'' else '''')] s
     })"

text \<open>Where an exception ends.\<close>

datatype 'st hung = Hung 'st

definition bad_mode :: "'z console_scheme \<Rightarrow> 'z console_scheme hung option" where
  "bad_mode s = do { s \<leftarrow> prints (''Resetting CPU ...'' @ nl) [] s; Some (Hung s) }"

definition exception :: "string \<Rightarrow> pt_regs \<Rightarrow> 'z console_scheme \<Rightarrow> 'z console_scheme hung option" where
  "exception msg r s = do { s \<leftarrow> prints msg [] s; s \<leftarrow> show_regs r s; bad_mode s }"

definition do_undefined_instruction :: "pt_regs \<Rightarrow> 'z console_scheme \<Rightarrow> 'z console_scheme hung option" where
  "do_undefined_instruction r s = exception (''undefined instruction'' @ nl) r s"

definition do_software_interrupt :: "pt_regs \<Rightarrow> 'z console_scheme \<Rightarrow> 'z console_scheme hung option" where
  "do_software_interrupt r s = exception (''software interrupt'' @ nl) r s"

definition do_prefetch_abort :: "pt_regs \<Rightarrow> 'z console_scheme \<Rightarrow> 'z console_scheme hung option" where
  "do_prefetch_abort r s = exception (''prefetch abort'' @ nl) r s"

definition do_data_abort :: "pt_regs \<Rightarrow> 'z console_scheme \<Rightarrow> 'z console_scheme hung option" where
  "do_data_abort r s = exception (''data abort'' @ nl) r s"

definition do_not_used :: "pt_regs \<Rightarrow> 'z console_scheme \<Rightarrow> 'z console_scheme hung option" where
  "do_not_used r s = exception (''not used'' @ nl) r s"

definition do_fiq :: "pt_regs \<Rightarrow> 'z console_scheme \<Rightarrow> 'z console_scheme hung option" where
  "do_fiq r s = exception (''fast interrupt request'' @ nl) r s"

section \<open>What the dump says\<close>

lemma format_text: "37 \<notin> set t \<Longrightarrow> format_loop d out (t @ f) args = format_loop d (out @ t) f args"
proof (induction t arbitrary: out)
  case (Cons c t)
  then have "format_loop d out (c # t @ f) args = format_loop d (out @ [c]) (t @ f) args" by (intro format_plain) auto
  then show ?case using Cons by simp
qed simp

lemma format_08lx:
  "format_loop d out (str_bytes ''%08lx'' @ f) (Int32 a # args) = format_loop d (out @ hex_word 32 a) f args"
proof -
  have "number out (ucast a) 16 8 (-1) (ZEROPAD OR SMALL) = out @ hex_word 32 a"
    using number_hex_word [of 32 out a] by (simp add: flag_defs)
  then have "conversion d out (str_bytes ''08lx'' @ f) (Int32 a # args) = Some (out @ hex_word 32 a, f, args)"
    by (simp add: format_simps)
  then show ?thesis by (simp add: str_bytes_def)
qed

lemma width_loop_none: "width_loop l (-1) out = (out, -2)" if "0 \<le> l"
  using that by (subst width_loop.simps) simp

lemma format_s:
  assumes "length s < 2 ^ 32"
  shows "format_loop d out (str_bytes ''%s'' @ f) (Str (Some s) # args) = format_loop d (out @ s) f args"
proof -
  have "width_loop (int (length s)) (-2) out' = (out', -3)" for out' :: "u8 list" by (subst width_loop.simps) simp
  then have "c_string out (Some s) (-1) (-1) 0 = out @ s"
    using assms by (simp add: c_string_def as_unsigned_def flag_defs width_loop_none min_def unsigned_minus_1_eq_mask mask_eq_exp_minus_1)
  then have "conversion d out (str_bytes ''s'' @ f) (Str (Some s) # args) = Some (out @ s, f, args)"
    by (simp add: format_simps)
  then show ?thesis by (simp add: str_bytes_def)
qed

lemma prints_format:
  "format_loop (\<lambda>_ _ _ _. []) [] (str_bytes f) args = Some out \<Longrightarrow> prints f args s = Some (s\<lparr>con := con s @ emit_console out\<rparr>)"
  by (simp add: prints_def simple_printf_def)

text \<open>A line made of text and of fields, and its format.\<close>

datatype field = Text string | Hex u32 | Chr u8 | Strg string

fun field_format :: "field \<Rightarrow> string" where
  "field_format (Text t) = t"
| "field_format (Hex w) = ''%08lx''"
| "field_format (Chr c) = ''%c''"
| "field_format (Strg s) = ''%s''"

fun field_args :: "field \<Rightarrow> unit arg list" where
  "field_args (Text t) = []"
| "field_args (Hex w) = [Int32 w]"
| "field_args (Chr c) = [Int32 (ucast c)]"
| "field_args (Strg s) = [str_arg s]"

fun field_text :: "field \<Rightarrow> u8 list" where
  "field_text (Text t) = str_bytes t"
| "field_text (Hex w) = hex_word 32 w"
| "field_text (Chr c) = [c]"
| "field_text (Strg s) = str_bytes s"

fun field_plain :: "field \<Rightarrow> bool" where
  "field_plain (Text t) = (37 \<notin> set (str_bytes t))"
| "field_plain (Strg s) = (length s < 2 ^ 32)"
| "field_plain _ = True"

lemma str_bytes_append: "str_bytes (a @ b) = str_bytes a @ str_bytes b"
  by (simp add: str_bytes_def)

lemma format_one:
  "field_plain x \<Longrightarrow> format_loop d out (str_bytes (field_format x) @ f) (field_args x @ args) = format_loop d (out @ field_text x) f args"
proof (cases x)
  case (Text t)
  assume "field_plain x"
  then show ?thesis using format_text [of "str_bytes t" d out f args] Text by simp
next
  case (Hex w)
  then show ?thesis by (simp add: format_08lx)
next
  case (Chr c)
  have "(ucast (ucast c :: u32) :: u8) = c" by (rule bit_word_eqI) (auto simp: bit_simps)
  then show ?thesis using Chr format_c [of d out f "ucast c" args] by (simp add: str_bytes_def)
next
  case (Strg s)
  assume "field_plain x"
  then show ?thesis using Strg format_s [of "str_bytes s" d out f args] by (simp add: str_arg_def str_bytes_def)
qed

lemma format_field_list:
  "list_all field_plain xs \<Longrightarrow>
   format_loop d out (str_bytes (concat (map field_format xs))) (concat (map field_args xs)) = Some (out @ concat (map field_text xs))"
proof (induction xs arbitrary: out)
  case (Cons x xs)
  then show ?case by (simp add: str_bytes_append format_one)
qed (simp add: str_bytes_def)

lemma prints_fields:
  "list_all field_plain xs \<Longrightarrow> prints (concat (map field_format xs)) (concat (map field_args xs)) s =
    Some (s\<lparr>con := con s @ emit_console (concat (map field_text xs))\<rparr>)"
  by (rule prints_format) (simp add: format_field_list)

unbundle bit_operations_syntax

definition dump_fields :: "pt_regs \<Rightarrow> field list list" where
  "dump_fields r =
    (let f = condition_codes r; flag = (\<lambda>b x y. Chr (of_char (if f AND b \<noteq> 0 then x else y))) in
     [[Text ''pc : [<'', Hex (ARM_pc r), Text (''>]'' @ tab @ ''   lr : [<''), Hex (ureg r 14), Text (''>]'' @ nl @ ''sp : ''),
       Hex (ureg r 13), Text ''  ip : '', Hex (ureg r 12), Text (tab @ '' fp : ''), Hex (ureg r 11), Text nl],
      [Text ''r10: '', Hex (ureg r 10), Text ''  r9 : '', Hex (ureg r 9), Text (tab @ '' r8 : ''), Hex (ureg r 8), Text nl],
      [Text ''r7 : '', Hex (ureg r 7), Text ''  r6 : '', Hex (ureg r 6), Text (tab @ '' r5 : ''), Hex (ureg r 5), Text ''  r4 : '',
       Hex (ureg r 4), Text nl],
      [Text ''r3 : '', Hex (ureg r 3), Text ''  r2 : '', Hex (ureg r 2), Text (tab @ '' r1 : ''), Hex (ureg r 1), Text ''  r0 : '',
       Hex (ureg r 0), Text nl],
      [Text ''Flags: '', flag CC_N_BIT CHR ''N'' CHR ''n'', flag CC_Z_BIT CHR ''Z'' CHR ''z'', flag CC_C_BIT CHR ''C'' CHR ''c'',
       flag CC_V_BIT CHR ''V'' CHR ''v''],
      [Text ''  IRQs '', Strg (if interrupts_enabled r then ''on'' else ''off''), Text ''  FIQs '',
       Strg (if fast_interrupts_enabled r then ''on'' else ''off''), Text ''  Mode '',
       Strg (processor_modes ! unat (processor_mode r)), Strg (if thumb_mode r then '' (T)'' else ''''), Text nl]])"

definition fields_out :: "field list \<Rightarrow> u8 list" where
  "fields_out xs = emit_console (concat (map field_text xs))"

lemma prints_fields_out:
  "list_all field_plain xs \<Longrightarrow> f = concat (map field_format xs) \<Longrightarrow> a = concat (map field_args xs) \<Longrightarrow>
   prints f a s = Some (s\<lparr>con := con s @ fields_out xs\<rparr>)"
  by (simp add: prints_fields fields_out_def)

lemma processor_mode_less: "unat (processor_mode r) < 32"
proof -
  have "processor_mode r = take_bit 5 (ARM_cpsr r)" by (simp add: processor_mode_def MODE_MASK_def take_bit_eq_mask mask_numeral)
  then have "unat (processor_mode r) = take_bit 5 (unat (ARM_cpsr r))" by (simp add: unsigned_take_bit_eq)
  then show ?thesis by (simp add: take_bit_eq_mod)
qed

lemma mode_name_length: "length (processor_modes ! unat (processor_mode r)) < 2 ^ 32"
proof -
  have "\<forall>m \<in> set processor_modes. length m \<le> 7" by (simp add: processor_modes_def)
  moreover have "length processor_modes = 32" by (simp add: processor_modes_def)
  ultimately have "length (processor_modes ! unat (processor_mode r)) \<le> 7" using processor_mode_less [of r] nth_mem by metis
  then show ?thesis by simp
qed

lemma show_regs_dump: "show_regs r s = Some (s\<lparr>con := con s @ concat (map fields_out (dump_fields r))\<rparr>)"
proof -
  have ip: "instruction_pointer r = ARM_pc r" by (simp add: instruction_pointer_def pc_pointer_def PCMASK_def)
  obtain a b c d e f where df: "dump_fields r = [a, b, c, d, e, f]" by (simp add: dump_fields_def Let_def)
  note x = df [unfolded dump_fields_def Let_def, symmetric]
  have l: "list_all (list_all field_plain) (dump_fields r)"
    using mode_name_length [of r] by (simp add: dump_fields_def Let_def str_bytes_def)
  have pr: "prints g ar s = Some (s\<lparr>con := con s @ fields_out xs\<rparr>)"
    if "xs \<in> set (dump_fields r)" "g = concat (map field_format xs)" "ar = concat (map field_args xs)" for g ar xs and s :: "'a console_scheme"
    by (rule prints_fields_out [OF _ that(2,3)]) (use l that(1) in \<open>auto simp: list_all_iff\<close>)
  note pr' = pr [unfolded df]
  show ?thesis
    unfolding show_regs_def Let_def df
    apply (subst pr' [of a], simp, use x in simp, use x ip in simp, subst bind.bind_lunit)
    apply (subst pr' [of b], simp, use x in simp, use x in simp, subst bind.bind_lunit)
    apply (subst pr' [of c], simp, use x in simp, use x in simp, subst bind.bind_lunit)
    apply (subst pr' [of d], simp, use x in simp, use x in simp, subst bind.bind_lunit)
    apply (subst pr' [of e], simp, use x in simp, use x in \<open>simp add: cc_arg_def\<close>, subst bind.bind_lunit)
    apply (subst pr' [of f], simp, use x in simp, use x in simp)
    apply simp
    done
qed

unbundle bit_operations_syntax

lemma prints_text: "37 \<notin> set (str_bytes t) \<Longrightarrow> prints t [] s = Some (s\<lparr>con := con s @ fields_out [Text t]\<rparr>)"
  using prints_fields_out [of "[Text t]" t "[]" s] by simp

lemma exception_dump:
  assumes "37 \<notin> set (str_bytes msg)"
  shows "exception msg r s = Some (Hung (s\<lparr>con := con s @ fields_out [Text msg] @ concat (map fields_out (dump_fields r)) @
    fields_out [Text (''Resetting CPU ...'' @ nl)]\<rparr>))"
proof -
  have "37 \<notin> set (str_bytes (''Resetting CPU ...'' @ nl))" by (simp add: str_bytes_def)
  note b = prints_text [OF this]
  show ?thesis
    unfolding exception_def bad_mode_def prints_text [OF assms] show_regs_dump bind.bind_lunit b by simp
qed

lemma core_mode_msr: "core_mode (msr_cpsr_c v c) = v AND MODE_MASK"
proof -
  have "bit (0xFF :: u32) n" if "bit (0x1f :: u32) n" for n
    using that bit_imp_le_length [OF that] by (auto simp: bit_numeral_rec elim!: less_SucE split: nat.splits) 
  then show ?thesis
    by (intro bit_word_eqI) (auto simp: core_mode_def msr_cpsr_c_def MODE_MASK_def bit_simps)
qed

lemma msr_cpsr_c_banks [simp]: "sp_of (msr_cpsr_c v c) = sp_of c" "lr_of (msr_cpsr_c v c) = lr_of c"
  by (simp_all add: msr_cpsr_c_def)

unbundle bit_operations_syntax

definition set_stack :: "u32 \<Rightarrow> u32 \<Rightarrow> core \<Rightarrow> core" where
  "set_stack mode a c = c\<lparr>sp_of := (sp_of c)(mode := a), lr_of := (lr_of c)(mode := a)\<rparr>"

lemma stack_of_mode:
  assumes "m = v AND MODE_MASK"
  shows "mov_sp_r14 (add_r14 a b (msr_cpsr_c v c)) = set_stack m (a + b) (msr_cpsr_c v c)"
proof -
  have "core_mode (add_r14 a b d) = core_mode d" for d by (simp add: add_r14_def core_mode_def)
  then show ?thesis using core_mode_msr [of v c] assms by (simp add: mov_sp_r14_def) (simp add: add_r14_def set_stack_def)
qed

lemma setup_stacks_banks:
  "sp_of (setup_stacks stk c) = (sp_of c)(0x11 := stk, 0x12 := stk + 12, 0x17 := stk + 24, 0x1b := stk + 36)"
  "core_mode (setup_stacks stk c) = SVC_MODE"
proof -
  have m: "0x11 = (PSR_F_BIT OR PSR_I_BIT OR FIQ_MODE) AND MODE_MASK" "0x12 = (PSR_F_BIT OR PSR_I_BIT OR IRQ_MODE) AND MODE_MASK"
    "0x17 = (PSR_F_BIT OR PSR_I_BIT OR ABT_MODE) AND MODE_MASK" "0x1b = (PSR_F_BIT OR PSR_I_BIT OR UND_MODE) AND MODE_MASK"
    "SVC_MODE = (PSR_F_BIT OR PSR_I_BIT OR SVC_MODE) AND MODE_MASK"
    by (simp_all add: PSR_F_BIT_def PSR_I_BIT_def FIQ_MODE_def IRQ_MODE_def ABT_MODE_def UND_MODE_def SVC_MODE_def MODE_MASK_def)
  show "sp_of (setup_stacks stk c) = (sp_of c)(0x11 := stk, 0x12 := stk + 12, 0x17 := stk + 24, 0x1b := stk + 36)"
    unfolding setup_stacks_def Let_def stack_of_mode [OF m(1)] stack_of_mode [OF m(2)] stack_of_mode [OF m(3)] stack_of_mode [OF m(4)]
    by (simp add: set_stack_def)
  show "core_mode (setup_stacks stk c) = SVC_MODE"
    unfolding setup_stacks_def Let_def core_mode_msr by (rule m(5) [symmetric])
qed

section \<open>Property\<close>

text \<open>C23: Each of the six exception handlers prints its name, all the registers saved at the exception in hexadecimal with
  the flags and the mode, and that it resets the CPU, and then never returns; the stack pointers setup_stacks
  gave the exception modes point at areas of their own.\<close>

theorem exceptions_report:
  "list_all (\<lambda>(handler, msg). handler r s = Some (Hung (s\<lparr>con := con s @ fields_out [Text (msg @ nl)] @
      concat (map fields_out (dump_fields r)) @ fields_out [Text (''Resetting CPU ...'' @ nl)]\<rparr>)))
    [(do_undefined_instruction, ''undefined instruction''), (do_software_interrupt, ''software interrupt''),
     (do_prefetch_abort, ''prefetch abort''), (do_data_abort, ''data abort''), (do_not_used, ''not used''),
     (do_fiq, ''fast interrupt request'')] \<and>
   core_mode (setup_stacks stk c) = SVC_MODE \<and>
   map (sp_of (setup_stacks stk c)) [FIQ_MODE, IRQ_MODE, ABT_MODE, UND_MODE] = [stk, stk + 12, stk + 24, stk + 36] \<and>
   sp_of (setup_stacks stk c) SVC_MODE = sp_of c SVC_MODE"
  by (simp add: setup_stacks_banks exception_dump do_undefined_instruction_def do_software_interrupt_def do_prefetch_abort_def
      do_data_abort_def do_not_used_def do_fiq_def str_bytes_def FIQ_MODE_def IRQ_MODE_def ABT_MODE_def UND_MODE_def SVC_MODE_def)

end
