(* ===== verification/Smc.thy ===== *)
theory Smc
  imports Dma
begin

unbundle bit_operations_syntax

text \<open>
  drivers/ftsmc020: the set-up of the static memory controller, on the bus of the DMA drivers.  The
  messages it prints are not recorded.
\<close>

section \<open>ftsmc020.h\<close>

definition FTSMC020_BANK_ENABLE :: u32 where "FTSMC020_BANK_ENABLE = push_bit 28 1"
definition FTSMC020_BANK_BASE :: "u32 \<Rightarrow> u32" where "FTSMC020_BANK_BASE x = x AND 0x0fff1000"
definition FTSMC020_BANK_WPROT :: u32 where "FTSMC020_BANK_WPROT = push_bit 11 1"
definition FTSMC020_BANK_TYPE :: "nat \<Rightarrow> u32" where "FTSMC020_BANK_TYPE n = push_bit (11 - n) 1"

text \<open>The sizes by their code, in kilobytes, and the widths in bits.\<close>

definition FTSMC020_BANK_SIZE :: "(nat \<times> u32) list" where
  "FTSMC020_BANK_SIZE = map (\<lambda>(kb, code). (kb, push_bit 4 code))
    [(32, 0xb), (64, 0xc), (128, 0xd), (256, 0xe), (512, 0xf), (1024, 0x0), (2048, 0x1), (4096, 0x2),
     (8192, 0x3), (16384, 0x4), (32768, 0x5), (65536, 0x6)]"

definition FTSMC020_BANK_MBW :: "(nat \<times> u32) list" where
  "FTSMC020_BANK_MBW = [(8, push_bit 0 0), (16, push_bit 0 1), (32, push_bit 0 2)]"

definition FTSMC020_TPR_ETRNA :: "u32 \<Rightarrow> u32" where "FTSMC020_TPR_ETRNA x = push_bit 28 (x AND 0xf)"
definition FTSMC020_TPR_EATI :: "u32 \<Rightarrow> u32" where "FTSMC020_TPR_EATI x = push_bit 24 (x AND 0xf)"
definition FTSMC020_TPR_RBE :: u32 where "FTSMC020_TPR_RBE = push_bit 20 1"
definition FTSMC020_TPR_AST :: "u32 \<Rightarrow> u32" where "FTSMC020_TPR_AST x = push_bit 18 (x AND 0x3)"
definition FTSMC020_TPR_CTW :: "u32 \<Rightarrow> u32" where "FTSMC020_TPR_CTW x = push_bit 16 (x AND 0x3)"
definition FTSMC020_TPR_ATI :: "u32 \<Rightarrow> u32" where "FTSMC020_TPR_ATI x = push_bit 12 (x AND 0xf)"
definition FTSMC020_TPR_AT2 :: "u32 \<Rightarrow> u32" where "FTSMC020_TPR_AT2 x = push_bit 8 (x AND 0x3)"
definition FTSMC020_TPR_WTC :: "u32 \<Rightarrow> u32" where "FTSMC020_TPR_WTC x = push_bit 6 (x AND 0x3)"
definition FTSMC020_TPR_AHT :: "u32 \<Rightarrow> u32" where "FTSMC020_TPR_AHT x = push_bit 4 (x AND 0x3)"
definition FTSMC020_TPR_TRNA :: "u32 \<Rightarrow> u32" where "FTSMC020_TPR_TRNA x = push_bit 0 (x AND 0xf)"

text \<open>struct ftsmc020: four banks of two registers.\<close>

definition smc_cr :: "u32 \<Rightarrow> u32 \<Rightarrow> u32" where "smc_cr smc bank = smc + 8 * bank"
definition smc_tpr :: "u32 \<Rightarrow> u32 \<Rightarrow> u32" where "smc_tpr smc bank = smc + 8 * bank + 4"

section \<open>ftsmc020.c\<close>

definition PHYS_FLASH_1 :: u32 where "PHYS_FLASH_1 = 0x80000000"

definition FTSMC020_BANK0_CONFIG :: u32 where
  "FTSMC020_BANK0_CONFIG = FTSMC020_BANK_ENABLE OR FTSMC020_BANK_BASE PHYS_FLASH_1 OR
    the (map_of FTSMC020_BANK_SIZE 1024) OR the (map_of FTSMC020_BANK_MBW 8)"

definition FTSMC020_BANK0_TIMING :: u32 where
  "FTSMC020_BANK0_TIMING = FTSMC020_TPR_RBE OR FTSMC020_TPR_AST 3 OR FTSMC020_TPR_CTW 3 OR FTSMC020_TPR_ATI 0xf OR
    FTSMC020_TPR_AT2 3 OR FTSMC020_TPR_WTC 3 OR FTSMC020_TPR_AHT 3 OR FTSMC020_TPR_TRNA 0xf"

record ftsmc020_config =
  config :: u32
  timing :: u32

definition CONFIG_SYS_FTSMC020_CONFIGS :: "ftsmc020_config list" where
  "CONFIG_SYS_FTSMC020_CONFIGS = [\<lparr>config = FTSMC020_BANK0_CONFIG, timing = FTSMC020_BANK0_TIMING\<rparr>]"

definition ftsmc020_setup_bank :: "u32 \<Rightarrow> u32 \<Rightarrow> ftsmc020_config \<Rightarrow> bus \<Rightarrow> bus" where
  "ftsmc020_setup_bank smc bank cfg bus =
    (if 3 < bank then bus
     else
       let bus = outl (config cfg) (smc_cr smc bank) bus
       in outl (timing cfg) (smc_tpr smc bank) bus)"

definition ftsmc020_init :: "u32 \<Rightarrow> bus \<Rightarrow> bus" where
  "ftsmc020_init smc bus =
    fold (\<lambda>i. ftsmc020_setup_bank smc (of_nat i) (CONFIG_SYS_FTSMC020_CONFIGS ! i)) [0..<length CONFIG_SYS_FTSMC020_CONFIGS] bus"

section \<open>What the set-up leaves\<close>

text \<open>The members of the two registers do not overlap: every one has the value it was given.\<close>

lemma bank0_words: "FTSMC020_BANK0_CONFIG = 0x10000000" "FTSMC020_BANK0_TIMING = 0x1FF3FF"
  by (simp_all add: FTSMC020_BANK0_CONFIG_def FTSMC020_BANK_ENABLE_def FTSMC020_BANK_BASE_def PHYS_FLASH_1_def FTSMC020_BANK_SIZE_def
      FTSMC020_BANK_MBW_def FTSMC020_BANK0_TIMING_def FTSMC020_TPR_RBE_def FTSMC020_TPR_AST_def FTSMC020_TPR_CTW_def FTSMC020_TPR_ATI_def
      FTSMC020_TPR_AT2_def FTSMC020_TPR_WTC_def FTSMC020_TPR_AHT_def FTSMC020_TPR_TRNA_def push_bit_eq_mult)

lemma setup_bank_only:
  assumes "a \<noteq> smc_cr smc bank" "a \<noteq> smc_tpr smc bank"
  shows "ftsmc020_setup_bank smc bank cfg bus a = bus a"
  using assms by (simp add: ftsmc020_setup_bank_def outl_def)

lemma setup_bank_words:
  "bank \<le> 3 \<Longrightarrow> ftsmc020_setup_bank smc bank cfg bus (smc_cr smc bank) = config cfg \<and>
   ftsmc020_setup_bank smc bank cfg bus (smc_tpr smc bank) = timing cfg"
  by (drule leD) (simp add: ftsmc020_setup_bank_def outl_def smc_cr_def smc_tpr_def)

text \<open>Bank 0 alone is set up, enabled at the base address 0 with an 8-bit bus: the base given lies outside the mask.\<close>

lemma ftsmc020_init_bank0: "ftsmc020_init smc bus = bus(smc := 0x10000000, smc + 4 := 0x1FF3FF)"
  by (simp add: ftsmc020_init_def CONFIG_SYS_FTSMC020_CONFIGS_def ftsmc020_setup_bank_def outl_def smc_cr_def smc_tpr_def bank0_words)

end
