(* ===== verification/Boot.thy ===== *)
theory Boot
  imports Fttmr010 Cpu Smc
begin

unbundle bit_operations_syntax

text \<open>
  The set-up of the boards: board_init of board/AXI and board/AHB, which are the same, board_init of
  board/A320 with its oscillator, and enable_icache of include/cp15.h.
\<close>

section \<open>cp15.h\<close>

definition enable_icache :: "('b, 'z) cp15_scheme \<Rightarrow> ('b, 'z) cp15_scheme" where
  "enable_icache s =
    (let s = maintain invalid_icache_all s; r0 = cntr s; r0 = r0 OR 0x00000002; r0 = r0 OR 0x00001000
     in s\<lparr>cntr := r0\<rparr>)"

lemma enable_icache_bits: "bit (cntr (enable_icache s)) n \<longleftrightarrow> n = 1 \<or> n = 12 \<or> bit (cntr s) n"
proof -
  have e: "cntr (enable_icache s) = cntr s OR push_bit 1 1 OR push_bit 12 1"
    by (simp add: enable_icache_def maintain_def Let_def push_bit_eq_mult or.assoc)
  show ?thesis unfolding e bit_or_iff bit_push_bit_iff bit_1_iff by auto
qed

section \<open>The boards\<close>

definition TIMER_LOAD_VAL :: u32 where "TIMER_LOAD_VAL = 0xffffffff"

definition board_init :: "('c, 'x) timers_scheme \<Rightarrow> ('c, 'x) timers_scheme" where
  "board_init s = init_global_timer TIMER_LOAD_VAL False (interrupt_init s)"

definition PMU_OSCC :: u32 where "PMU_OSCC = 0x98100008"

text \<open>The wait for the oscillator: dev n is the bus at the n-th poll.\<close>

partial_function (option) wait_oscillator :: "(nat \<Rightarrow> bus) \<Rightarrow> nat \<Rightarrow> nat option" where
  "wait_oscillator dev n = (if inl PMU_OSCC (dev n) AND 0x2 = 0 then wait_oscillator dev (n + 1) else Some n)"

text \<open>dev says what the bus shows at each poll after the first write.\<close>

definition ftpmu010_32768osc_enable :: "(bus \<Rightarrow> nat \<Rightarrow> bus) \<Rightarrow> bus \<Rightarrow> bus option" where
  "ftpmu010_32768osc_enable dev bus =
    (let oscc = inl PMU_OSCC bus; oscc = oscc AND NOT 0x9; bus = outl oscc PMU_OSCC bus in
     do {
       n \<leftarrow> wait_oscillator (dev bus) 0;
       let bus = dev bus n;
       let oscc = inl PMU_OSCC bus;
       let oscc = oscc OR 0x4;
       Some (outl oscc PMU_OSCC bus)
     })"

definition board_init_A320 :: "(bus \<Rightarrow> nat \<Rightarrow> bus) \<Rightarrow> ('c, 'x) timers_scheme \<Rightarrow> bus \<Rightarrow> (('c, 'x) timers_scheme \<times> bus) option" where
  "board_init_A320 dev s bus =
    (let s = interrupt_init s in
     do {
       bus \<leftarrow> ftpmu010_32768osc_enable dev bus;
       Some (init_global_timer TIMER_LOAD_VAL True s, bus)
     })"

section \<open>What the set-up leaves\<close>

text \<open>Lines 2 and 3 of the timer are enabled with the routines of the driver, every other line is masked and has the
  default handler.\<close>

definition timer_table :: "platform \<Rightarrow> (isr_tag handler \<times> u32) list" where
  "timer_table p =
    (map (\<lambda>i. (default_isr, of_nat i)) [0..<32])[TIMERC_IRQ2 p := (Isr fttmr010_t2_isr, 0), TIMERC_IRQ3 p := (Isr fttmr010_t3_isr, 0)]"

lemma global_timer_irqs:
  assumes "TIMERC_IRQ2 (plat (clk s)) < 32" "TIMERC_IRQ3 (plat (clk s)) < 32"
  shows "IRQ_HANDLER (init_global_timer v x s) = (IRQ_HANDLER s)[TIMERC_IRQ2 (plat (clk s)) := (Isr fttmr010_t2_isr, 0),
      TIMERC_IRQ3 (plat (clk s)) := (Isr fttmr010_t3_isr, 0)]"
    "int_enable (init_global_timer v x s) = int_enable s OR irq_bit (TIMERC_IRQ2 (plat (clk s))) OR irq_bit (TIMERC_IRQ3 (plat (clk s)))"
    "timer_load_val (clk (init_global_timer v x s)) = (timer_load_val (clk s))[0 := v]"
  using assms
  by (simp_all add: init_global_timer_def init_timer_def irq_set_type_def irq_types irq_install_handler_def irq_set_enable_def NR_IRQS_def
      Let_def or.assoc)

lemma init_clk: "clk (interrupt_init s) = clk s"
proof -
  have "clk (fold (\<lambda>i. irq_install_handler i (Some default_isr) (of_nat i)) xs s) = clk s" for xs
    by (induction xs arbitrary: s) (simp_all add: irq_install_handler_def)
  then show ?thesis by (simp add: interrupt_init_def interrupt_hw_init_def)
qed

lemma interrupt_init_facts:
  assumes "irqs_wf s"
  shows "IRQ_HANDLER (interrupt_init s) = map (\<lambda>i. (default_isr, of_nat i)) [0..<32]" "int_enable (interrupt_init s) = 0"
proof -
  have n: "NR_IRQS = length (IRQ_HANDLER s)" using assms by (simp add: irqs_wf_def)
  have "IRQ_HANDLER (fold (\<lambda>i. irq_install_handler i (Some default_isr) (of_nat i)) [0..<NR_IRQS] s) =
    map (\<lambda>i. (default_isr, of_nat i)) [0..<NR_IRQS]"
    using install_all [of NR_IRQS s default_isr] n by simp
  then show "IRQ_HANDLER (interrupt_init s) = map (\<lambda>i. (default_isr, of_nat i)) [0..<32]" "int_enable (interrupt_init s) = 0"
    by (simp_all add: interrupt_init_def interrupt_hw_init_def) (simp add: NR_IRQS_def)
qed

lemma board_init_table:
  assumes "irqs_wf s" "TIMERC_IRQ2 (plat (clk s)) < 32" "TIMERC_IRQ3 (plat (clk s)) < 32"
  shows "IRQ_HANDLER (board_init s) = timer_table (plat (clk s)) \<and>
    int_enable (board_init s) = irq_bit (TIMERC_IRQ2 (plat (clk s))) OR irq_bit (TIMERC_IRQ3 (plat (clk s)))"
  using assms global_timer_irqs(1,2) [of "interrupt_init s"] by (simp add: board_init_def init_clk interrupt_init_facts timer_table_def)

lemma wait_oscillator_first:
  "first_at (\<lambda>i. inl PMU_OSCC (dev (n + i)) AND 0x2 \<noteq> 0) k \<Longrightarrow> wait_oscillator dev n = Some (n + k)"
proof (induction k arbitrary: n)
  case 0
  then show ?case by (subst wait_oscillator.simps) (simp add: first_at_def)
next
  case (Suc k)
  then have "wait_oscillator dev (n + 1) = Some (n + 1 + k)" by (intro Suc.IH) (simp add: first_at_Suc)
  then show ?case using Suc.prems by (subst wait_oscillator.simps) (simp add: first_at_Suc)
qed

lemma oscillator_selected:
  assumes "first_at (\<lambda>i. inl PMU_OSCC (dev (outl (inl PMU_OSCC bus AND NOT 0x9) PMU_OSCC bus) i) AND 0x2 \<noteq> 0) k"
  shows "\<exists>bus'. ftpmu010_32768osc_enable dev bus = Some bus' \<and> bus' PMU_OSCC AND 0x4 = 0x4"
  using wait_oscillator_first [of "dev (outl (inl PMU_OSCC bus AND NOT 0x9) PMU_OSCC bus)" 0 k] assms
  by (auto simp: ftpmu010_32768osc_enable_def Let_def outl_def inl_def bit.conj_disj_distrib2 and.assoc intro!: bit_word_eqI simp: bit_simps)

text \<open>On the A320 the same, once the oscillator is ready, with the external clock.\<close>

lemma board_init_A320_table:
  assumes "irqs_wf s" "TIMERC_IRQ2 (plat (clk s)) < 32" "TIMERC_IRQ3 (plat (clk s)) < 32"
    "first_at (\<lambda>i. inl PMU_OSCC (dev (outl (inl PMU_OSCC bus AND NOT 0x9) PMU_OSCC bus) i) AND 0x2 \<noteq> 0) k"
  shows "\<exists>s' bus'. board_init_A320 dev s bus = Some (s', bus') \<and> IRQ_HANDLER s' = timer_table (plat (clk s)) \<and>
    bus' PMU_OSCC AND 0x4 = 0x4"
  using oscillator_selected [where dev = dev and bus = bus and k = k, OF assms(4)] assms(1-3) global_timer_irqs(1) [of "interrupt_init s"]
  by (auto simp: board_init_A320_def Let_def init_clk interrupt_init_facts timer_table_def)

end
